(* ===== verification/Prelude.thy ===== *)
theory Prelude
  imports Main "HOL-Library.Word"
begin

text \<open>
  Shared vocabulary of the development: the C integer types of \<^verbatim>\<open>util/types.h\<close>, the
  error values that stand for every way the kernel can stop (\<^verbatim>\<open>panic\<close>, a failed
  \<^verbatim>\<open>assert\<close>, a hardware fault, undefined behaviour of C, a loop that does not end), the
  sequencing combinator \<open>bnd\<close> of computations that may stop, checked array accesses, and physical memory as a
  function from addresses to bytes with little-endian 64-bit loads and stores.
\<close>

unbundle bit_operations_syntax

section \<open>C integer types (util/types.h)\<close>

type_synonym uint8 = "8 word"
type_synonym uint16 = "16 word"
type_synonym uint32 = "32 word"
type_synonym uint64 = "64 word"
type_synonym addr = uint64

section \<open>Outcomes of kernel code\<close>

text \<open>
  \<open>Panic\<close> is the \<^verbatim>\<open>panic\<close> macro (it prints its argument and shuts the machine down),
  \<open>Assert_Fail\<close> a failed \<^verbatim>\<open>assert\<close> or \<^verbatim>\<open>kassert\<close>, \<open>Fault\<close> a load or store
  outside the memory the kernel maps, \<open>Undefined\<close> a C operation with undefined behaviour (an
  array index out of range, a shift by the width or more), \<open>Diverge\<close> a loop that never ends and
  \<open>Shutdown\<close> the orderly \<^verbatim>\<open>shutdown(code)\<close>.
\<close>

datatype kerror =
    Panic string
  | Assert_Fail string
  | Fault addr
  | Undefined string
  | Diverge
  | Shutdown int

type_synonym 'a res = "kerror + 'a"

definition bnd :: "'a res \<Rightarrow> ('a \<Rightarrow> 'b res) \<Rightarrow> 'b res" where
  "bnd m f = (case m of Inl e \<Rightarrow> Inl e | Inr x \<Rightarrow> f x)"

definition of_loop :: "'a option \<Rightarrow> 'a res" where
  "of_loop r = (case r of None \<Rightarrow> Inl Diverge | Some x \<Rightarrow> Inr x)"

lemma bnd_simps [simp]: "bnd (Inl e) f = Inl e" "bnd (Inr x) f = f x"
  by (simp_all add: bnd_def)

lemma of_loop_simps [simp]: "of_loop None = Inl Diverge" "of_loop (Some x) = Inr x"
  by (simp_all add: of_loop_def)

lemma of_loop_eq_Inr [simp]: "of_loop r = Inr x \<longleftrightarrow> r = Some x"
  by (cases r) auto

lemma bnd_eq_Inr: "bnd m f = Inr y \<longleftrightarrow> (\<exists>x. m = Inr x \<and> f x = Inr y)"
  by (cases m) auto

lemma bnd_eq_Inl: "bnd m f = Inl e \<longleftrightarrow> m = Inl e \<or> (\<exists>x. m = Inr x \<and> f x = Inl e)"
  by (cases m) auto

lemma bndE:
  assumes "bnd m f = Inr y"
  obtains x where "m = Inr x" "f x = Inr y"
  using assms by (auto simp: bnd_eq_Inr)

lemma bnd_assoc: "bnd (bnd m f) g = bnd m (\<lambda>x. bnd (f x) g)"
  by (cases m) auto

lemma bnd_cong [fundef_cong]:
  assumes "m = m'" "\<And>x. m' = Inr x \<Longrightarrow> f x = f' x"
  shows "bnd m f = bnd m' f'"
  using assms by (cases m') auto

section \<open>Arrays\<close>

text \<open>An array element, with the index out of range as undefined behaviour.\<close>

definition arr_get :: "'a list \<Rightarrow> int \<Rightarrow> 'a res" where
  "arr_get xs i = (if 0 \<le> i \<and> i < int (length xs) then Inr (xs ! nat i) else Inl (Undefined ''array index''))"

definition arr_set :: "int \<Rightarrow> 'a \<Rightarrow> 'a list \<Rightarrow> 'a list res" where
  "arr_set i v xs = (if 0 \<le> i \<and> i < int (length xs) then Inr (xs[nat i := v]) else Inl (Undefined ''array index''))"

text \<open>The index of the first entry of an array that satisfies a test.\<close>

fun find_slot :: "('a \<Rightarrow> bool) \<Rightarrow> 'a list \<Rightarrow> nat option" where
  "find_slot P [] = None"
| "find_slot P (x # xs) = (if P x then Some 0 else map_option Suc (find_slot P xs))"

lemma find_slot_Some: "find_slot P xs = Some i \<Longrightarrow> i < length xs \<and> P (xs ! i)"
  by (induction xs arbitrary: i) (auto split: if_splits)

lemma find_slot_first: "find_slot P xs = Some i \<Longrightarrow> j < i \<Longrightarrow> \<not> P (xs ! j)"
  by (induction xs arbitrary: i j) (auto simp: nth_Cons split: if_splits nat.splits)

lemma find_slot_None: "find_slot P xs = None \<longleftrightarrow> (\<forall>x \<in> set xs. \<not> P x)"
  by (induction xs) auto

lemma arr_get_ok [simp]: "0 \<le> i \<Longrightarrow> i < int (length xs) \<Longrightarrow> arr_get xs i = Inr (xs ! nat i)"
  by (simp add: arr_get_def)

lemma arr_set_ok [simp]: "0 \<le> i \<Longrightarrow> i < int (length xs) \<Longrightarrow> arr_set i v xs = Inr (xs[nat i := v])"
  by (simp add: arr_set_def)

section \<open>Words\<close>

lemma word_mod_0_iff_dvd:
  fixes a n :: "'a::len word"
  shows "a mod n = 0 \<longleftrightarrow> unat n dvd unat a"
  by (metis dvd_eq_mod_eq_0 unat_eq_0 unat_mod)

lemma dvd_unat_add:
  fixes a b :: uint64
  assumes "n dvd unat a" "n dvd unat b" "n dvd (2 ^ 64 :: nat)"
  shows "n dvd unat (a + b)"
  using assms by (simp add: unat_word_ariths dvd_mod)

lemma dvd_unat_diff:
  fixes a b :: uint64
  assumes "n dvd unat a" "n dvd unat b" "n dvd (2 ^ 64 :: nat)"
  shows "n dvd unat (a - b)"
proof (cases "unat b \<le> unat a")
  case True
  then show ?thesis using assms by (simp add: unat_sub_if')
next
  case False
  have "n dvd (unat a + 2 ^ 64 - unat b)"
    using assms by (intro dvd_diff_nat dvd_add) auto
  then show ?thesis using False by (simp add: unat_sub_if')
qed

lemma power_dvd_2_64: "k \<le> 64 \<Longrightarrow> (2 ^ k :: nat) dvd 2 ^ 64"
  by (rule le_imp_power_dvd)

text \<open>Two different cells of the same aligned size do not overlap.\<close>

lemma aligned_cells_disjoint:
  fixes a b i :: uint64
  assumes "2 ^ k dvd unat a" "2 ^ k dvd unat b" "a \<noteq> b" "k < 64" "unat i < 2 ^ k"
  shows "2 ^ k \<le> unat (a + i - b)"
proof -
  let ?d = "unat (a - b)"
  have d: "2 ^ k dvd ?d"
    using assms(1,2,4) by (intro dvd_unat_diff power_dvd_2_64) auto
  have nz: "?d \<noteq> 0" using assms(3) by (simp add: unat_eq_0)
  with d have ge: "2 ^ k \<le> ?d" by (intro dvd_imp_le) auto
  have lt: "?d < 2 ^ 64" using unsigned_less [of "a - b", where ?'a = nat] by simp
  have "(2 ^ k :: nat) dvd 2 ^ 64 - ?d"
    using d assms(4) by (intro dvd_diff_nat power_dvd_2_64) auto
  with lt have "2 ^ k \<le> 2 ^ 64 - ?d" by (intro dvd_imp_le) auto
  with assms(5) lt have "?d + unat i < 2 ^ 64" by linarith
  then have "unat ((a - b) + i) = ?d + unat i"
    by (simp add: unat_word_ariths)
  moreover have "(a - b) + i = a + i - b" by (simp add: algebra_simps)
  ultimately have "unat (a + i - b) = ?d + unat i" by metis
  then show ?thesis using ge by linarith
qed

lemma unat_of_nat64: "n < 2 ^ 64 \<Longrightarrow> unat (of_nat n :: uint64) = n"
  by (simp add: unsigned_of_nat take_bit_nat_eq_self)

lemma unat_minus_one64: "unat (- 1 :: uint64) = 2 ^ 64 - 1"
  by (simp add: unsigned_minus_1_eq_mask mask_eq_exp_minus_1)

section \<open>Physical memory\<close>

type_synonym mem = "addr \<Rightarrow> uint8"

definition load64 :: "mem \<Rightarrow> addr \<Rightarrow> uint64" where
  "load64 m a =
     ucast (m a) OR push_bit 8 (ucast (m (a + 1))) OR push_bit 16 (ucast (m (a + 2)))
     OR push_bit 24 (ucast (m (a + 3))) OR push_bit 32 (ucast (m (a + 4)))
     OR push_bit 40 (ucast (m (a + 5))) OR push_bit 48 (ucast (m (a + 6)))
     OR push_bit 56 (ucast (m (a + 7)))"

definition store64 :: "mem \<Rightarrow> addr \<Rightarrow> uint64 \<Rightarrow> mem" where
  "store64 m a v = (\<lambda>b. if b - a < 8 then ucast (drop_bit (8 * unat (b - a)) v) else m b)"

lemma load64_store64_same [simp]: "load64 (store64 m a v) a = v"
proof (rule bit_word_eqI)
  fix n assume "n < LENGTH(64)"
  then consider "n < 8" | "8 \<le> n" "n < 16" | "16 \<le> n" "n < 24" | "24 \<le> n" "n < 32"
    | "32 \<le> n" "n < 40" | "40 \<le> n" "n < 48" | "48 \<le> n" "n < 56" | "56 \<le> n" "n < 64"
    by fastforce
  then show "bit (load64 (store64 m a v) a) n \<longleftrightarrow> bit v n"
    by cases (simp_all add: load64_def store64_def bit_simps less_diff_conv2)
qed

lemma load64_cong:
  assumes "\<And>i. i < 8 \<Longrightarrow> m (a + i) = m' (a + i)"
  shows "load64 m a = load64 m' a"
proof -
  have "m a = m' a" using assms [of 0] by simp
  then show ?thesis
    using assms [of 1] assms [of 2] assms [of 3] assms [of 4] assms [of 5] assms [of 6] assms [of 7]
    by (simp add: load64_def)
qed

lemma load64_zero:
  assumes "\<And>i. i < 8 \<Longrightarrow> m (a + i) = 0"
  shows "load64 m a = 0"
proof -
  have "load64 m a = load64 (\<lambda>_. 0) a" using assms by (intro load64_cong) simp
  then show ?thesis by (simp add: load64_def)
qed

lemma load64_store64_other:
  assumes "8 dvd unat a" "8 dvd unat b" "a \<noteq> b"
  shows "load64 (store64 m b v) a = load64 m a"
proof (rule load64_cong)
  fix i :: addr assume "i < 8"
  then have "unat i < 2 ^ 3" by (simp add: word_less_nat_alt)
  then have "2 ^ 3 \<le> unat (a + i - b)"
    using assms by (intro aligned_cells_disjoint) auto
  then have "\<not> a + i - b < 8" by (simp add: word_less_nat_alt)
  then show "store64 m b v (a + i) = m (a + i)" by (simp add: store64_def)
qed

definition load32 :: "mem \<Rightarrow> addr \<Rightarrow> uint32" where
  "load32 m a =
     ucast (m a) OR push_bit 8 (ucast (m (a + 1))) OR push_bit 16 (ucast (m (a + 2))) OR push_bit 24 (ucast (m (a + 3)))"

definition store32 :: "mem \<Rightarrow> addr \<Rightarrow> uint32 \<Rightarrow> mem" where
  "store32 m a v = (\<lambda>b. if b - a < 4 then ucast (drop_bit (8 * unat (b - a)) v) else m b)"

lemma load32_store32_same [simp]: "load32 (store32 m a v) a = v"
proof (rule bit_word_eqI)
  fix n assume "n < LENGTH(32)"
  then consider "n < 8" | "8 \<le> n" "n < 16" | "16 \<le> n" "n < 24" | "24 \<le> n" "n < 32" by fastforce
  then show "bit (load32 (store32 m a v) a) n \<longleftrightarrow> bit v n"
    by cases (simp_all add: load32_def store32_def bit_simps less_diff_conv2)
qed

lemma load32_cong:
  assumes "\<And>i. i < 4 \<Longrightarrow> m (a + i) = m' (a + i)"
  shows "load32 m a = load32 m' a"
proof -
  have "m a = m' a" using assms [of 0] by simp
  then show ?thesis using assms [of 1] assms [of 2] assms [of 3] by (simp add: load32_def)
qed

end
