(* ===== verification/Riscv.thy ===== *)
theory Riscv
  imports Prelude
begin

text \<open>
  The hardware layer of \<^verbatim>\<open>kernel/riscv.h\<close>, \<^verbatim>\<open>kernel/memlayout.h\<close>,
  \<^verbatim>\<open>kernel/config.h\<close> and \<^verbatim>\<open>util/functions.h\<close>: the constants of the memory layout, the
  Sv39 page-table-entry macros, and checked accesses to the physical memory that the kernel maps.
  The lemmas give the encoding laws of page table entries that the virtual memory code relies on.
\<close>

section \<open>Constants\<close>

abbreviation (input) PGSIZE :: uint64 where "PGSIZE \<equiv> 4096"
abbreviation (input) PGSHIFT :: nat where "PGSHIFT \<equiv> 12"
abbreviation (input) DRAM_BASE :: uint64 where "DRAM_BASE \<equiv> 0x80000000"
abbreviation (input) KERN_BASE :: uint64 where "KERN_BASE \<equiv> 0x80000000"
abbreviation (input) USER_STACK_TOP :: uint64 where "USER_STACK_TOP \<equiv> 0x7ffff000"
abbreviation (input) USER_FREE_ADDRESS_START :: uint64 where "USER_FREE_ADDRESS_START \<equiv> 0x400000"
abbreviation (input) PKE_MAX_ALLOWABLE_RAM :: uint64 where "PKE_MAX_ALLOWABLE_RAM \<equiv> 0x8000000"
abbreviation (input) PHYS_TOP :: uint64 where "PHYS_TOP \<equiv> 0x88000000"
abbreviation (input) MAXVA :: uint64 where "MAXVA \<equiv> 0x4000000000"
abbreviation (input) NCPU :: nat where "NCPU \<equiv> 2"

abbreviation (input) PTE_V :: uint64 where "PTE_V \<equiv> 1"
abbreviation (input) PTE_R :: uint64 where "PTE_R \<equiv> 2"
abbreviation (input) PTE_W :: uint64 where "PTE_W \<equiv> 4"
abbreviation (input) PTE_X :: uint64 where "PTE_X \<equiv> 8"
abbreviation (input) PTE_U :: uint64 where "PTE_U \<equiv> 16"
abbreviation (input) PTE_A :: uint64 where "PTE_A \<equiv> 64"
abbreviation (input) PTE_D :: uint64 where "PTE_D \<equiv> 128"
abbreviation (input) PTE_RSW :: uint64 where "PTE_RSW \<equiv> 256"

section \<open>Macros\<close>

definition ROUNDUP :: "uint64 \<Rightarrow> uint64 \<Rightarrow> uint64" where
  "ROUNDUP a b = ((a - 1) div b + 1) * b"

definition ROUNDDOWN :: "uint64 \<Rightarrow> uint64 \<Rightarrow> uint64" where
  "ROUNDDOWN a b = a div b * b"

definition PA2PTE :: "uint64 \<Rightarrow> uint64" where
  "PA2PTE pa = push_bit 10 (drop_bit 12 pa)"

definition PTE2PA :: "uint64 \<Rightarrow> uint64" where
  "PTE2PA pte = push_bit 12 (drop_bit 10 pte)"

definition PTE_FLAGS :: "uint64 \<Rightarrow> uint64" where
  "PTE_FLAGS pte = pte AND 0x3FF"

definition PXSHIFT :: "nat \<Rightarrow> nat" where
  "PXSHIFT level = PGSHIFT + 9 * level"

definition PX :: "nat \<Rightarrow> uint64 \<Rightarrow> uint64" where
  "PX level va = drop_bit (PXSHIFT level) va AND 0x1FF"

definition RSW :: "uint64 \<Rightarrow> uint64" where
  "RSW pte = drop_bit 8 pte AND 3"

definition MAKE_SATP :: "uint64 \<Rightarrow> uint64" where
  "MAKE_SATP pagetable = 0x8000000000000000 OR drop_bit 12 pagetable"

section \<open>Checked memory accesses\<close>

text \<open>
  Kernel code runs on a direct map of [\<open>KERN_BASE\<close>, \<open>PHYS_TOP\<close>). A load or store of \<open>n\<close> bytes
  that leaves this range (a null pointer in particular) traps, and so does a misaligned access of a
  64-bit cell: \<^verbatim>\<open>handle_mtrap\<close> panics in both cases.
\<close>

definition ram_ok :: "addr \<Rightarrow> nat \<Rightarrow> bool" where
  "ram_ok a n \<longleftrightarrow> KERN_BASE \<le> a \<and> unat a + n \<le> unat PHYS_TOP"

definition ld64 :: "mem \<Rightarrow> addr \<Rightarrow> uint64 res" where
  "ld64 m a = (if ram_ok a 8 \<and> a mod 8 = 0 then Inr (load64 m a) else Inl (Fault a))"

definition st64 :: "mem \<Rightarrow> addr \<Rightarrow> uint64 \<Rightarrow> mem res" where
  "st64 m a v = (if ram_ok a 8 \<and> a mod 8 = 0 then Inr (store64 m a v) else Inl (Fault a))"

definition ld32 :: "mem \<Rightarrow> addr \<Rightarrow> uint32 res" where
  "ld32 m a = (if ram_ok a 4 \<and> a mod 4 = 0 then Inr (load32 m a) else Inl (Fault a))"

definition st32 :: "mem \<Rightarrow> addr \<Rightarrow> uint32 \<Rightarrow> mem res" where
  "st32 m a v = (if ram_ok a 4 \<and> a mod 4 = 0 then Inr (store32 m a v) else Inl (Fault a))"

section \<open>Pages\<close>

definition page_aligned :: "addr \<Rightarrow> bool" where
  "page_aligned a \<longleftrightarrow> a mod PGSIZE = 0"

definition in_page :: "addr \<Rightarrow> addr \<Rightarrow> bool" where
  "in_page p a \<longleftrightarrow> a - p < PGSIZE"

lemma page_aligned_iff: "page_aligned a \<longleftrightarrow> 2 ^ 12 dvd unat a"
  by (simp add: page_aligned_def word_mod_0_iff_dvd)

lemma page_aligned_dvd8: "page_aligned a \<Longrightarrow> 8 dvd unat a"
  by (auto simp: page_aligned_iff dest!: dvd_trans [where a = "8::nat", rotated])

lemma page_aligned_mod8: "page_aligned a \<Longrightarrow> a mod 8 = 0"
  by (simp add: word_mod_0_iff_dvd page_aligned_dvd8)

lemma in_page_self [simp]: "in_page p p"
  by (simp add: in_page_def)

lemma in_page_disjoint:
  assumes "page_aligned p" "page_aligned q" "p \<noteq> q" "in_page p a"
  shows "\<not> in_page q a"
proof -
  define i where "i = a - p"
  have a: "a = p + i" by (simp add: i_def)
  have "unat i < 2 ^ 12" using assms(4) by (simp add: in_page_def i_def word_less_nat_alt)
  then have "2 ^ 12 \<le> unat (p + i - q)"
    using assms(1-3) by (intro aligned_cells_disjoint) (auto simp: page_aligned_iff)
  then show ?thesis by (simp add: in_page_def a word_less_nat_alt)
qed

end
