(* ===== verification/Cmem.thy ===== *)
theory Cmem
  imports Riscv
begin

text \<open>
  The block operations of \<^verbatim>\<open>util/string.c\<close> on physical memory: \<^verbatim>\<open>memcpy\<close> with its
  word-at-a-time fast path, \<^verbatim>\<open>memset\<close> with its replicated word pattern and the two
  directions of \<^verbatim>\<open>memmove\<close>. The lemmas reduce each of them to a pointwise description of
  the memory afterwards (\<open>copied\<close>, \<open>filled\<close>), which is what the kernel components use.
  The loops over pointers are partial functions: \<open>None\<close> is a loop that never ends.
\<close>

section \<open>Operations\<close>


partial_function (option) memcpy_words :: "mem \<Rightarrow> addr \<Rightarrow> addr \<Rightarrow> addr \<Rightarrow> (mem \<times> addr \<times> addr) option" where
  "memcpy_words m d s e =
     (if d < e - 7 then memcpy_words (store64 m d (load64 m s)) (d + 8) (s + 8) e
      else Some (m, d, s))"

partial_function (option) memcpy_bytes :: "mem \<Rightarrow> addr \<Rightarrow> addr \<Rightarrow> addr \<Rightarrow> mem option" where
  "memcpy_bytes m d s e =
     (if d < e then memcpy_bytes (m(d := m s)) (d + 1) (s + 1) e else Some m)"

definition memcpy :: "mem \<Rightarrow> addr \<Rightarrow> addr \<Rightarrow> uint64 \<Rightarrow> mem option" where
  "memcpy m dest src len =
     (if (dest OR src) AND 7 = 0
      then (case memcpy_words m dest src (dest + len) of
              None \<Rightarrow> None
            | Some (m', d, s) \<Rightarrow> memcpy_bytes m' d s (dest + len))
      else memcpy_bytes m dest src (dest + len))"

partial_function (option) memset_words :: "mem \<Rightarrow> addr \<Rightarrow> uint64 \<Rightarrow> addr \<Rightarrow> mem option" where
  "memset_words m d word e =
     (if d < e then memset_words (store64 m d word) (d + 8) word e else Some m)"

partial_function (option) memset_bytes :: "mem \<Rightarrow> addr \<Rightarrow> uint8 \<Rightarrow> addr \<Rightarrow> mem option" where
  "memset_bytes m d b e =
     (if d < e then memset_bytes (m(d := b)) (d + 1) b e else Some m)"

definition memset :: "mem \<Rightarrow> addr \<Rightarrow> uint32 \<Rightarrow> uint64 \<Rightarrow> mem option" where
  "memset m dest byte len =
     (if (dest OR len) AND 7 = 0
      then (let w0 = ucast (byte AND 0xFF);
                w1 = w0 OR push_bit 8 w0;
                w2 = w1 OR push_bit 16 w1;
                w3 = w2 OR push_bit 16 (push_bit 16 w2)
            in memset_words m dest w3 (dest + len))
      else memset_bytes m dest (ucast byte) (dest + len))"

fun memmove_up :: "mem \<Rightarrow> addr \<Rightarrow> addr \<Rightarrow> nat \<Rightarrow> mem" where
  "memmove_up m d s 0 = m"
| "memmove_up m d s (Suc n) = memmove_up (m(d := m s)) (d + 1) (s + 1) n"

fun memmove_down :: "mem \<Rightarrow> addr \<Rightarrow> addr \<Rightarrow> nat \<Rightarrow> mem" where
  "memmove_down m d s 0 = m"
| "memmove_down m d s (Suc n) = memmove_down (m(d - 1 := m (s - 1))) (d - 1) (s - 1) n"

definition memmove :: "mem \<Rightarrow> addr \<Rightarrow> addr \<Rightarrow> uint64 \<Rightarrow> mem" where
  "memmove m dst src n =
     (if src < dst \<and> src + n > dst then memmove_down m (dst + n) (src + n) (unat n)
      else memmove_up m dst src (unat n))"

section \<open>Reference semantics of block operations\<close>

definition copied :: "mem \<Rightarrow> addr \<Rightarrow> addr \<Rightarrow> nat \<Rightarrow> mem" where
  "copied m d s n = (\<lambda>a. if unat (a - d) < n then m (s + (a - d)) else m a)"

definition filled :: "mem \<Rightarrow> addr \<Rightarrow> uint8 \<Rightarrow> nat \<Rightarrow> mem" where
  "filled m d b n = (\<lambda>a. if unat (a - d) < n then b else m a)"

definition up_safe :: "addr \<Rightarrow> addr \<Rightarrow> nat \<Rightarrow> bool" where
  "up_safe d s n \<longleftrightarrow> (\<forall>i j. i < j \<longrightarrow> j < n \<longrightarrow> d + of_nat i \<noteq> s + of_nat j)"

lemma load64_byte:
  assumes "i < 8"
  shows "ucast (drop_bit (8 * i) (load64 m s)) = m (s + of_nat i)"
proof -
  from assms consider "i = 0" | "i = 1" | "i = 2" | "i = 3" | "i = 4" | "i = 5" | "i = 6" | "i = 7"
    by linarith
  then show ?thesis
    by cases (rule bit_word_eqI, auto simp: load64_def bit_simps less_diff_conv2 dest: bit_imp_le_length)+
qed

lemma copied_0 [simp]: "copied m d s 0 = m"
  by (simp add: copied_def)

lemma unat_diff_Suc:
  fixes a d :: addr
  assumes "a \<noteq> d"
  shows "unat (a - (d + 1)) = unat (a - d) - 1"
proof -
  have "unat (a - d) \<noteq> 0" using assms by (simp add: unat_eq_0)
  then show ?thesis
    by (metis diff_diff_add unat_minus_one unat_0 )
qed

lemma store64_load64: "store64 m d (load64 m s) = copied m d s 8"
proof
  fix a
  have "a - d < 8 \<longleftrightarrow> unat (a - d) < 8" by (simp add: word_less_nat_alt)
  then show "store64 m d (load64 m s) a = copied m d s 8 a"
    by (simp add: store64_def copied_def load64_byte)
qed

lemma up_safe_Suc: "up_safe d s (Suc n) \<Longrightarrow> up_safe (d + 1) (s + 1) n"
  unfolding up_safe_def
proof (intro allI impI)
  fix i j assume A: "\<forall>i j. i < j \<longrightarrow> j < Suc n \<longrightarrow> d + of_nat i \<noteq> s + of_nat j"
    and ij: "i < j" "j < n"
  from A ij have "d + of_nat (Suc i) \<noteq> s + of_nat (Suc j)" by blast
  then show "d + 1 + of_nat i \<noteq> s + 1 + of_nat j" by (simp add: algebra_simps)
qed

lemma up_safe_mono: "up_safe d s n \<Longrightarrow> k \<le> n \<Longrightarrow> up_safe d s k"
  by (auto simp: up_safe_def)

lemma up_safe_add: "up_safe d s (k + n) \<Longrightarrow> up_safe (d + of_nat k) (s + of_nat k) n"
proof (induction k arbitrary: d s)
  case (Suc k)
  then have "up_safe (d + 1 + of_nat k) (s + 1 + of_nat k) n"
    by (intro Suc.IH up_safe_Suc) simp
  then show ?case by (simp add: algebra_simps)
qed simp

lemma copied_Suc:
  assumes "up_safe d s (Suc n)" "n < 2 ^ 64"
  shows "copied (m(d := m s)) (d + 1) (s + 1) n = copied m d s (Suc n)"
proof
  fix a
  show "copied (m(d := m s)) (d + 1) (s + 1) n a = copied m d s (Suc n) a"
  proof (cases "a = d")
    case True
    then show ?thesis using assms(2) by (simp add: copied_def unat_minus_one64)
  next
    case False
    then have p: "0 < unat (a - d)" by (simp add: unat_gt_0)
    have "s + (a - d) \<noteq> d" if "unat (a - d) < Suc n"
    proof -
      have "d + of_nat 0 \<noteq> s + of_nat (unat (a - d))"
        using assms(1) p that unfolding up_safe_def by blast
      then show ?thesis by simp
    qed
    moreover have "s + 1 + (a - (d + 1)) = s + (a - d)" by simp
    ultimately show ?thesis using False p
      by (auto simp: copied_def unat_diff_Suc)
  qed
qed

lemma memmove_up_eq: "up_safe d s n \<Longrightarrow> n < 2 ^ 64 \<Longrightarrow> memmove_up m d s n = copied m d s n"
  by (induction n arbitrary: m d s) (auto simp: copied_Suc up_safe_Suc)

lemma memmove_up_add:
  "memmove_up m d s (k + n) = memmove_up (memmove_up m d s k) (d + of_nat k) (s + of_nat k) n"
  by (induction k arbitrary: m d s) (auto simp: algebra_simps)

definition down_safe :: "addr \<Rightarrow> addr \<Rightarrow> nat \<Rightarrow> bool" where
  "down_safe d s n \<longleftrightarrow> (\<forall>i j. i < j \<longrightarrow> j < n \<longrightarrow> d + of_nat j \<noteq> s + of_nat i)"

lemma memmove_down_eq:
  assumes "down_safe d s n" "n \<le> 2 ^ 64"
  shows "memmove_down m (d + of_nat n) (s + of_nat n) n = copied m d s n"
  using assms
proof (induction n arbitrary: m)
  case (Suc n)
  have p: "d + of_nat (Suc n) - 1 = d + of_nat n" "s + of_nat (Suc n) - 1 = s + of_nat n"
    by simp_all
  let ?m = "m(d + of_nat n := m (s + of_nat n))"
  have "memmove_down ?m (d + of_nat n) (s + of_nat n) n = copied ?m d s n"
    using Suc.prems by (intro Suc.IH) (auto simp: down_safe_def)
  moreover have "copied ?m d s n = copied m d s (Suc n)"
  proof
    fix a
    have un: "unat (of_nat n :: addr) = n" using Suc.prems(2) by (simp add: unat_of_nat64)
    consider "unat (a - d) < n" | "unat (a - d) = n" | "n < unat (a - d)" by linarith
    then show "copied ?m d s n a = copied m d s (Suc n) a"
    proof cases
      case 1
      have "d + of_nat n \<noteq> s + of_nat (unat (a - d))"
        using Suc.prems(1) 1 unfolding down_safe_def by blast
      then have "s + (a - d) \<noteq> d + of_nat n" by simp
      with 1 show ?thesis by (simp add: copied_def)
    next
      case 2
      then have "a - d = of_nat n" using un by (metis unsigned_word_eqI)
      then have "a = d + of_nat n" by (simp add: algebra_simps)
      then show ?thesis by (simp add: copied_def un)
    next
      case 3
      then have "a \<noteq> d + of_nat n" using un by auto
      with 3 show ?thesis by (simp add: copied_def)
    qed
  qed
  ultimately show ?case by (simp only: memmove_down.simps p)
qed simp


lemma memcpy_bytes_eq:
  assumes "unat d + n = unat e"
  shows "memcpy_bytes m d s e = Some (memmove_up m d s n)"
  using assms
proof (induction n arbitrary: m d s)
  case 0
  then have "d = e" by (simp add: unsigned_word_eqI)
  then show ?case by (simp add: memcpy_bytes.simps)
next
  case (Suc n)
  have lt: "d < e" using Suc.prems by (simp add: word_less_nat_alt)
  then have "unat (d + 1) = unat d + 1"
    using Suc.prems unsigned_less [of e, where ?'a = nat] by (simp add: unat_word_ariths)
  with Suc.prems have "unat (d + 1) + n = unat e" by simp
  then have "memcpy_bytes (m(d := m s)) (d + 1) (s + 1) e
      = Some (memmove_up (m(d := m s)) (d + 1) (s + 1) n)" by (rule Suc.IH)
  with lt show ?case by (simp add: memcpy_bytes.simps [of m d s e])
qed

lemma memcpy_words_eq:
  assumes "unat d + n = unat e" "7 \<le> unat e" "up_safe d s n"
  shows "memcpy_words m d s e =
    Some (memmove_up m d s (8 * (n div 8)), d + of_nat (8 * (n div 8)), s + of_nat (8 * (n div 8)))"
  using assms
proof (induction n arbitrary: m d s rule: less_induct)
  case (less n)
  have e7: "unat (e - 7) = unat e - 7"
    using less.prems(2) by (simp add: unat_sub_if')
  show ?case
  proof (cases "8 \<le> n")
    case False
    then have "\<not> d < e - 7"
      using less.prems(1) e7 by (simp add: word_less_nat_alt)
    then show ?thesis using False by (simp add: memcpy_words.simps)
  next
    case True
    then have lt: "d < e - 7"
      using less.prems(1) e7 by (simp add: word_less_nat_alt)
    have n8: "n = 8 + (n - 8)" using True by simp
    have "unat (d + 8) = unat d + 8"
      using True less.prems(1) unsigned_less [of e, where ?'a = nat] by (simp add: unat_word_ariths)
    then have u: "unat (d + 8) + (n - 8) = unat e" using less.prems(1) True by simp
    have us: "up_safe (d + 8) (s + 8) (n - 8)"
      using up_safe_add [of d s 8 "n - 8"] less.prems(3) n8 by simp
    have st: "store64 m d (load64 m s) = memmove_up m d s 8"
      using less.prems(3) True
      by (simp add: store64_load64 memmove_up_eq up_safe_mono)
    have q: "8 * (n div 8) = 8 + 8 * ((n - 8) div 8)"
      using True by (simp add: le_div_geq)
    have "memcpy_words (memmove_up m d s 8) (d + 8) (s + 8) e =
      Some (memmove_up (memmove_up m d s 8) (d + 8) (s + 8) (8 * ((n - 8) div 8)),
            d + 8 + of_nat (8 * ((n - 8) div 8)), s + 8 + of_nat (8 * ((n - 8) div 8)))"
      using True by (intro less.IH u us less.prems(2)) simp
    also have "memmove_up (memmove_up m d s 8) (d + 8) (s + 8) (8 * ((n - 8) div 8))
        = memmove_up m d s (8 * (n div 8))"
      using memmove_up_add [of m d s 8 "8 * ((n - 8) div 8)"] by (simp only: q of_nat_numeral)
    also have "d + 8 + of_nat (8 * ((n - 8) div 8)) = d + of_nat (8 * (n div 8))"
      by (simp only: q of_nat_add of_nat_numeral add.assoc)
    also have "s + 8 + of_nat (8 * ((n - 8) div 8)) = s + of_nat (8 * (n div 8))"
      by (simp only: q of_nat_add of_nat_numeral add.assoc)
    finally show ?thesis
      using lt by (simp only: memcpy_words.simps [of m d s e] st if_True)
  qed
qed

lemma memcpy_up:
  assumes "unat dest + unat len < 2 ^ 64" "7 \<le> unat dest" "up_safe dest src (unat len)"
  shows "memcpy m dest src len = Some (memmove_up m dest src (unat len))"
proof -
  let ?n = "unat len" and ?k = "8 * (unat len div 8)"
  have e: "unat (dest + len) = unat dest + ?n"
    using assms(1) by (simp add: unat_word_ariths)
  have kn: "?k \<le> ?n" by simp
  have k64: "?k < 2 ^ 64" using assms(1) kn by linarith
  have uk: "unat (of_nat ?k :: addr) = ?k" using k64 by (rule unat_of_nat64)
  have d: "unat (dest + of_nat ?k) = unat dest + ?k"
    using assms(1) kn uk by (simp add: unat_word_ariths)
  have "memcpy_bytes (memmove_up m dest src ?k) (dest + of_nat ?k) (src + of_nat ?k) (dest + len)
      = Some (memmove_up (memmove_up m dest src ?k) (dest + of_nat ?k) (src + of_nat ?k) (?n - ?k))"
    using d e kn by (intro memcpy_bytes_eq) simp
  also have "\<dots> = Some (memmove_up m dest src ?n)"
    using memmove_up_add [of m dest src ?k "?n - ?k"] kn by simp
  finally have tail: "memcpy_bytes (memmove_up m dest src ?k) (dest + of_nat ?k) (src + of_nat ?k)
    (dest + len) = Some (memmove_up m dest src ?n)" .
  have "memcpy_words m dest src (dest + len)
      = Some (memmove_up m dest src ?k, dest + of_nat ?k, src + of_nat ?k)"
    using assms e by (intro memcpy_words_eq) auto
  moreover have "memcpy_bytes m dest src (dest + len) = Some (memmove_up m dest src ?n)"
    using e by (intro memcpy_bytes_eq) simp
  ultimately show ?thesis using tail by (simp add: memcpy_def)
qed


lemma filled_add: 
  assumes "k + n \<le> 2 ^ 64"
  shows "filled (filled m d b k) (d + of_nat k) b n = filled m d b (k + n)"
proof (cases "n = 0")
  case False
  then have uk: "unat (of_nat k :: addr) = k" using assms by (intro unat_of_nat64) simp
  show ?thesis
  proof
    fix a :: addr
    have ua: "a - (d + of_nat k) = (a - d) - of_nat k" by simp
    show "filled (filled m d b k) (d + of_nat k) b n a = filled m d b (k + n) a"
    proof (cases "k \<le> unat (a - d)")
      case True
      then have "unat (a - (d + of_nat k)) = unat (a - d) - k"
        unfolding ua using uk by (simp add: unat_sub_if')
      with True show ?thesis by (auto simp: filled_def)
    next
      case False
      then show ?thesis by (simp add: filled_def)
    qed
  qed
qed (simp add: filled_def)

lemma filled_1: "filled m d b 1 = m(d := b)"
  by (auto simp: filled_def fun_eq_iff unat_eq_0)

lemma memset_bytes_eq:
  assumes "unat d + n = unat e"
  shows "memset_bytes m d b e = Some (filled m d b n)"
  using assms
proof (induction n arbitrary: m d)
  case 0
  then have "d = e" by (simp add: unsigned_word_eqI)
  then show ?case by (simp add: memset_bytes.simps filled_def)
next
  case (Suc n)
  have lt: "d < e" using Suc.prems by (simp add: word_less_nat_alt)
  then have "unat (d + 1) = unat d + 1"
    using Suc.prems unsigned_less [of e, where ?'a = nat] by (simp add: unat_word_ariths)
  with Suc.prems have "unat (d + 1) + n = unat e" by simp
  then have "memset_bytes (m(d := b)) (d + 1) b e = Some (filled (m(d := b)) (d + 1) b n)"
    by (rule Suc.IH)
  moreover have "filled (m(d := b)) (d + 1) b n = filled m d b (1 + n)"
    using filled_add [of 1 n m d b] Suc.prems unsigned_less [of e, where ?'a = nat]
    by (simp only: filled_1) simp
  ultimately show ?case using lt by (simp add: memset_bytes.simps [of m d b e])
qed

lemma memset_pattern:
  assumes "i < 8"
    and "w0 = ucast (byte AND 0xFF :: uint32)" "w1 = w0 OR push_bit 8 w0"
    and "w2 = w1 OR push_bit 16 w1" "w3 = w2 OR push_bit 16 (push_bit 16 w2)"
  shows "(ucast (drop_bit (8 * i) (w3 :: uint64)) :: uint8) = ucast byte"
proof -
  have w0: "w0 = ucast (take_bit 8 byte)"
    using assms(2) by (simp add: take_bit_eq_mask mask_eq_exp_minus_1)
  from assms(1) consider "i = 0" | "i = 1" | "i = 2" | "i = 3" | "i = 4" | "i = 5" | "i = 6" | "i = 7"
    by linarith
  then show ?thesis
    by cases (rule bit_word_eqI, auto simp: assms(3-5) w0 bit_simps less_diff_conv2)+
qed

lemma memset_words_eq:
  assumes "unat d + 8 * n = unat e" "\<And>i. i < 8 \<Longrightarrow> ucast (drop_bit (8 * i) w) = b"
  shows "memset_words m d w e = Some (filled m d b (8 * n))"
  using assms(1)
proof (induction n arbitrary: m d)
  case 0
  then have "d = e" by (simp add: unsigned_word_eqI)
  then show ?case by (simp add: memset_words.simps filled_def)
next
  case (Suc n)
  have lt: "d < e" using Suc.prems by (simp add: word_less_nat_alt)
  then have "unat (d + 8) = unat d + 8"
    using Suc.prems unsigned_less [of e, where ?'a = nat] by (simp add: unat_word_ariths)
  with Suc.prems have u: "unat (d + 8) + 8 * n = unat e" by simp
  have st: "store64 m d w = filled m d b 8"
    by (auto simp: store64_def filled_def fun_eq_iff word_less_nat_alt assms(2))
  have "memset_words (filled m d b 8) (d + 8) w e = Some (filled (filled m d b 8) (d + 8) b (8 * n))"
    using u by (rule Suc.IH)
  also have "filled (filled m d b 8) (d + 8) b (8 * n) = filled m d b (8 * Suc n)"
    using filled_add [of 8 "8 * n" m d b] Suc.prems unsigned_less [of e, where ?'a = nat] by simp
  finally show ?case using lt by (simp only: memset_words.simps [of m d w e] st if_True)
qed

lemma or_and_7_zero:
  fixes a b :: uint64
  shows "(a OR b) AND 7 = 0 \<longleftrightarrow> 8 dvd unat a \<and> 8 dvd unat b"
proof -
  have "(a OR b) AND 7 = take_bit 3 a OR take_bit 3 b"
    by (simp add: take_bit_eq_mask mask_eq_exp_minus_1 bit.conj_disj_distrib2)
  also have "\<dots> = 0 \<longleftrightarrow> take_bit 3 a = 0 \<and> take_bit 3 b = 0"
    by (metis or_eq_0_iff)
  also have "\<dots> \<longleftrightarrow> 8 dvd unat a \<and> 8 dvd unat b"
    by (simp add: take_bit_eq_mod word_mod_0_iff_dvd)
  finally show ?thesis .
qed

lemma memset_eq:
  assumes "unat dest + unat len < 2 ^ 64"
  shows "memset m dest byte len = Some (filled m dest (ucast byte) (unat len))"
proof -
  have e: "unat (dest + len) = unat dest + unat len"
    using assms by (simp add: unat_word_ariths)
  show ?thesis
  proof (cases "(dest OR len) AND 7 = 0")
    case False
    then show ?thesis using e by (simp add: memset_def memset_bytes_eq)
  next
    case True
    then have "8 dvd unat len" by (simp add: or_and_7_zero)
    then have k: "8 * (unat len div 8) = unat len" by simp
    define w0 where "w0 = (ucast (byte AND 0xFF) :: uint64)"
    define w1 where "w1 = w0 OR push_bit 8 w0"
    define w2 where "w2 = w1 OR push_bit 16 w1"
    define w3 where "w3 = w2 OR push_bit 16 (push_bit 16 w2)"
    have "memset_words m dest w3 (dest + len) = Some (filled m dest (ucast byte) (8 * (unat len div 8)))"
      using e k by (intro memset_words_eq memset_pattern [OF _ w0_def w1_def w2_def w3_def]) auto
    then show ?thesis
      using True k by (simp add: memset_def Let_def w0_def w1_def w2_def w3_def)
  qed
qed


text \<open>memmove is right on overlapping blocks.\<close>

lemma memmove_eq:
  assumes "unat dst + unat n < 2 ^ 64" "unat src + unat n < 2 ^ 64"
  shows "memmove m dst src n = copied m dst src (unat n)"
proof -
  have u: "unat (dst + of_nat k) = unat dst + k" "unat (src + of_nat k) = unat src + k"
    if "k \<le> unat n" for k
    using that assms by (simp_all add: unat_word_ariths unat_of_nat64)
  have n: "of_nat (unat n) = n" by simp
  show ?thesis
  proof (cases "src < dst \<and> src + n > dst")
    case True
    then have "unat src < unat dst" by (simp add: word_less_nat_alt)
    then have "down_safe dst src (unat n)"
      unfolding down_safe_def
    proof (intro allI impI)
      fix i j assume "i < j" "j < unat n" "unat src < unat dst"
      then have "unat (dst + of_nat j) \<noteq> unat (src + of_nat i)" using u by simp
      then show "dst + of_nat j \<noteq> src + of_nat i" by metis
    qed
    then have "memmove_down m (dst + of_nat (unat n)) (src + of_nat (unat n)) (unat n)
        = copied m dst src (unat n)"
      using assms(1) by (intro memmove_down_eq) auto
    then show ?thesis using True by (simp add: memmove_def)
  next
    case False
    have nle: "unat dst \<le> unat src \<or> unat src + unat n \<le> unat dst"
      using False assms(2) by (auto simp: word_less_nat_alt unat_word_ariths)
    have "up_safe dst src (unat n)"
      unfolding up_safe_def
    proof (intro allI impI)
      fix i j assume "i < j" "j < unat n"
      then have "unat (dst + of_nat i) \<noteq> unat (src + of_nat j)" using u nle by auto
      then show "dst + of_nat i \<noteq> src + of_nat j" by metis
    qed
    then show ?thesis using False assms(1) by (auto simp: memmove_def memmove_up_eq)
  qed
qed

text \<open>memcpy copies when the source is not overwritten before it is read.\<close>

lemma memcpy_eq:
  assumes "unat dest + unat len < 2 ^ 64" "7 \<le> unat dest" "up_safe dest src (unat len)"
  shows "memcpy m dest src len = Some (copied m dest src (unat len))"
  using memcpy_up [OF assms] assms by (simp add: memmove_up_eq)

text \<open>
  C12. \<^verbatim>\<open>memmove\<close> copies correctly for overlapping ranges in both directions: if neither
  range wraps around the address space, every byte of the destination range afterwards holds the byte
  that the source range held before the call, and no other byte changes.
\<close>

theorem memmove_correct:
  assumes "unat dst + unat n < 2 ^ 64" "unat src + unat n < 2 ^ 64"
  shows "memmove m dst src n = (\<lambda>a. if unat (a - dst) < unat n then m (src + (a - dst)) else m a)"
  using memmove_eq [OF assms] by (simp add: copied_def)

theorem memmove_correct_witness:
  "memmove (\<lambda>a. ucast a) 0x1001 0x1000 3 0x1002 = 1"
  by (simp add: memmove_correct [of "0x1001" 3 "0x1000" "\<lambda>a. ucast a"])

end
