(* ===== verification/Cstring.thy ===== *)
theory Cstring
  imports Cmem
begin

text \<open>
  The string functions of \<^verbatim>\<open>util/string.c\<close>. A string in memory is related to a list of
  non-zero bytes by \<open>cstr\<close>; on such strings every function returns, and its result is the
  corresponding operation on lists.
\<close>

section \<open>Operations\<close>

partial_function (option) strlen_loop :: "mem \<Rightarrow> addr \<Rightarrow> addr option" where
  "strlen_loop m p = (if m p \<noteq> 0 then strlen_loop m (p + 1) else Some p)"

definition strlen :: "mem \<Rightarrow> addr \<Rightarrow> uint64 option" where
  "strlen m s = map_option (\<lambda>p. p - s) (strlen_loop m s)"

partial_function (option) strcmp :: "mem \<Rightarrow> addr \<Rightarrow> addr \<Rightarrow> int option" where
  "strcmp m s1 s2 =
     (let c1 = m s1; c2 = m s2
      in if c1 \<noteq> 0 \<and> c1 = c2 then strcmp m (s1 + 1) (s2 + 1) else Some (uint c1 - uint c2))"

fun strncmp_loop :: "mem \<Rightarrow> addr \<Rightarrow> addr \<Rightarrow> nat \<Rightarrow> int" where
  "strncmp_loop m s1 s2 0 = 0"
| "strncmp_loop m s1 s2 (Suc n) =
     (let c1 = m s1; c2 = m s2
      in if c1 = 0 \<or> c1 \<noteq> c2 then uint c1 - uint c2 else strncmp_loop m (s1 + 1) (s2 + 1) n)"

definition strncmp :: "mem \<Rightarrow> addr \<Rightarrow> addr \<Rightarrow> uint64 \<Rightarrow> int" where
  "strncmp m s1 s2 n = strncmp_loop m s1 s2 (unat n)"

partial_function (option) strcpy :: "mem \<Rightarrow> addr \<Rightarrow> addr \<Rightarrow> mem option" where
  "strcpy m d s =
     (let c = m s; m' = m(d := c) in if c \<noteq> 0 then strcpy m' (d + 1) (s + 1) else Some m')"

text \<open>Pointers that may be \<^verbatim>\<open>NULL\<close> are addresses, with \<open>0\<close> for \<^verbatim>\<open>NULL\<close>.\<close>

partial_function (option) strchr :: "mem \<Rightarrow> addr \<Rightarrow> uint8 \<Rightarrow> addr option" where
  "strchr m p c =
     (if m p = c then Some p else if m p = 0 then Some 0 else strchr m (p + 1) c)"

definition strcat :: "mem \<Rightarrow> addr \<Rightarrow> addr \<Rightarrow> mem option" where
  "strcat m dst src =
     (case strlen m dst of None \<Rightarrow> None | Some n \<Rightarrow> strcpy m (dst + n) src)"

partial_function (option) strtok_skip :: "mem \<Rightarrow> addr \<Rightarrow> addr \<Rightarrow> addr option" where
  "strtok_skip m delim start =
     (if m start \<noteq> 0
      then (case strchr m delim (m start) of
              None \<Rightarrow> None
            | Some q \<Rightarrow> if q \<noteq> 0 then strtok_skip m delim (start + 1) else Some start)
      else Some start)"

partial_function (option) strtok_end :: "mem \<Rightarrow> addr \<Rightarrow> addr \<Rightarrow> addr option" where
  "strtok_end m delim e =
     (if m e \<noteq> 0
      then (case strchr m delim (m e) of
              None \<Rightarrow> None
            | Some q \<Rightarrow> if q = 0 then strtok_end m delim (e + 1) else Some e)
      else Some e)"

text \<open>
  \<^verbatim>\<open>strtok\<close> keeps its position in the static variable \<^verbatim>\<open>current\<close>: it is an argument
  here, and the result is the memory, the new \<^verbatim>\<open>current\<close> and the returned pointer.
\<close>

definition strtok :: "mem \<Rightarrow> addr \<Rightarrow> addr \<Rightarrow> addr \<Rightarrow> (mem \<times> addr \<times> addr) option" where
  "strtok m current str delim =
     (let cur = (if str \<noteq> 0 then str else current)
      in if cur = 0 then Some (m, cur, 0)
         else (case strtok_skip m delim cur of
            None \<Rightarrow> None
          | Some start \<Rightarrow>
              if m start = 0 then Some (m, 0, 0)
              else (case strtok_end m delim start of
                 None \<Rightarrow> None
               | Some e \<Rightarrow>
                   if m e \<noteq> 0 then Some (m(e := 0), e + 1, start) else Some (m, 0, start))))"

partial_function (option) atol_spaces :: "mem \<Rightarrow> addr \<Rightarrow> addr option" where
  "atol_spaces m s = (if m s = 32 then atol_spaces m (s + 1) else Some s)"

partial_function (option) atol_digits :: "mem \<Rightarrow> addr \<Rightarrow> uint64 \<Rightarrow> uint64 option" where
  "atol_digits m s r =
     (if m s \<noteq> 0 then atol_digits m (s + 1) (r * 10 + (ucast (m s) - 48)) else Some r)"

definition atol :: "mem \<Rightarrow> addr \<Rightarrow> uint64 option" where
  "atol m str =
     (case atol_spaces m str of
        None \<Rightarrow> None
      | Some s \<Rightarrow>
          (let signed = (m s = 45 \<or> m s = 43); sign = (m s = 45)
           in map_option (\<lambda>r. if sign then - r else r)
                (atol_digits m (if signed then s + 1 else s) 0)))"

fun safestrcpy_loop :: "mem \<Rightarrow> addr \<Rightarrow> addr \<Rightarrow> nat \<Rightarrow> mem \<times> addr" where
  "safestrcpy_loop m s t 0 = (m, s)"
| "safestrcpy_loop m s t (Suc n) =
     (let c = m t; m' = m(s := c)
      in if c \<noteq> 0 then safestrcpy_loop m' (s + 1) (t + 1) n else (m', s + 1))"

definition safestrcpy :: "mem \<Rightarrow> addr \<Rightarrow> addr \<Rightarrow> int \<Rightarrow> mem" where
  "safestrcpy m s t n =
     (if n \<le> 0 then m
      else (let (m', s') = safestrcpy_loop m s t (nat (n - 1)) in m'(s' := 0)))"

section \<open>Strings as lists\<close>

fun cstr :: "mem \<Rightarrow> addr \<Rightarrow> uint8 list \<Rightarrow> bool" where
  "cstr m s [] \<longleftrightarrow> m s = 0"
| "cstr m s (x # xs) \<longleftrightarrow> m s = x \<and> x \<noteq> 0 \<and> cstr m (s + 1) xs"

fun strcmp_l :: "uint8 list \<Rightarrow> uint8 list \<Rightarrow> int" where
  "strcmp_l [] [] = 0"
| "strcmp_l [] (y # ys) = - uint y"
| "strcmp_l (x # xs) [] = uint x"
| "strcmp_l (x # xs) (y # ys) = (if x = y then strcmp_l xs ys else uint x - uint y)"

function tokens :: "(uint8 \<Rightarrow> bool) \<Rightarrow> uint8 list \<Rightarrow> uint8 list list" where
  "tokens P xs =
     (let ys = dropWhile P xs
      in if ys = [] then []
         else takeWhile (\<lambda>c. \<not> P c) ys # tokens P (tl (dropWhile (\<lambda>c. \<not> P c) ys)))"
  by pat_completeness auto
termination
proof (relation "measure (\<lambda>(P, xs). length xs)", goal_cases)
  case (2 P xs ys)
  have "length ys > 0" using 2 by simp
  then have "length (tl (dropWhile (\<lambda>c. \<not> P c) ys)) < length ys"
    using length_dropWhile_le [of "\<lambda>c. \<not> P c" ys] unfolding length_tl by linarith
  moreover have "length ys \<le> length xs" using 2 by (simp add: length_dropWhile_le)
  ultimately show ?case by simp
qed simp

declare tokens.simps [simp del]

lemma strlen_loop_cstr: "cstr m p xs \<Longrightarrow> strlen_loop m p = Some (p + of_nat (length xs))"
  by (induction xs arbitrary: p) (simp_all add: strlen_loop.simps algebra_simps)

lemma strlen_cstr: "cstr m s xs \<Longrightarrow> strlen m s = Some (of_nat (length xs))"
  by (simp add: strlen_def strlen_loop_cstr)

lemma strcmp_cstr: "cstr m s xs \<Longrightarrow> cstr m t ys \<Longrightarrow> strcmp m s t = Some (strcmp_l xs ys)"
proof (induction xs ys arbitrary: s t rule: strcmp_l.induct)
  case 1
  then show ?case by (simp add: strcmp.simps [of m s t])
next
  case (2 y ys)
  then show ?case by (auto simp: strcmp.simps [of m s t])
next
  case (3 x xs)
  then show ?case by (auto simp: strcmp.simps [of m s t])
next
  case (4 x xs y ys)
  then show ?case by (auto simp: strcmp.simps [of m s t])
qed

lemma uint8_iffs:
  fixes x y :: uint8
  shows "uint x < uint y \<longleftrightarrow> x < y" "uint x = uint y \<longleftrightarrow> x = y" "uint x = 0 \<longleftrightarrow> x = 0"
    "0 < uint x \<longleftrightarrow> x \<noteq> 0"
proof -
  show *: "uint x < uint y \<longleftrightarrow> x < y" "uint x = uint y \<longleftrightarrow> x = y" "uint x = 0 \<longleftrightarrow> x = 0"
    by (auto simp: word_less_def word_uint_eq_iff)
  have "0 \<le> uint x" by simp
  then show "0 < uint x \<longleftrightarrow> x \<noteq> 0" using *(3) by linarith
qed

lemma strcmp_l_eq_0: "0 \<notin> set xs \<Longrightarrow> 0 \<notin> set ys \<Longrightarrow> strcmp_l xs ys = 0 \<longleftrightarrow> xs = ys"
  by (induction xs ys rule: strcmp_l.induct) (auto simp: uint8_iffs)

lemma strcmp_l_less_0:
  "0 \<notin> set xs \<Longrightarrow> 0 \<notin> set ys \<Longrightarrow> strcmp_l xs ys < 0 \<longleftrightarrow> ord_class.lexordp xs ys"
  by (induction xs ys rule: strcmp_l.induct)
    (auto simp: uint8_iffs)

lemma cstr_nonzero: "cstr m s xs \<Longrightarrow> 0 \<notin> set xs"
  by (induction xs arbitrary: s) auto


lemma cstr_upd:
  assumes "\<And>j. j \<le> length xs \<Longrightarrow> d \<noteq> s + of_nat j"
  shows "cstr (m(d := v)) s xs \<longleftrightarrow> cstr m s xs"
  using assms
proof (induction xs arbitrary: s)
  case Nil
  then show ?case using Nil.prems [of 0] by simp
next
  case (Cons x xs)
  have "d \<noteq> s + 1 + of_nat j" if "j \<le> length xs" for j
    using Cons.prems [of "Suc j"] that by (simp add: algebra_simps)
  then have "cstr (m(d := v)) (s + 1) xs \<longleftrightarrow> cstr m (s + 1) xs" by (rule Cons.IH)
  then show ?case using Cons.prems [of 0] by (simp add: fun_upd_def)
qed

lemma strcpy_up:
  assumes "cstr m s xs" "up_safe d s (Suc (length xs))"
  shows "strcpy m d s = Some (memmove_up m d s (Suc (length xs)))"
  using assms
proof (induction xs arbitrary: m d s)
  case Nil
  then show ?case by (simp add: strcpy.simps [of m d s] fun_upd_def)
next
  case (Cons x xs)
  let ?m = "m(d := m s)"
  have "d \<noteq> s + 1 + of_nat j" if "j \<le> length xs" for j
  proof -
    have "0 < Suc j \<and> Suc j < Suc (length (x # xs))" using that by simp
    then have "d + of_nat 0 \<noteq> s + of_nat (Suc j)"
      using Cons.prems(2) unfolding up_safe_def by blast
    then show ?thesis by (simp add: algebra_simps)
  qed
  then have "cstr ?m (s + 1) xs" using Cons.prems(1) by (simp add: cstr_upd)
  moreover have "up_safe (d + 1) (s + 1) (Suc (length xs))"
    using Cons.prems(2) by (intro up_safe_Suc) simp
  ultimately have "strcpy ?m (d + 1) (s + 1) = Some (memmove_up ?m (d + 1) (s + 1) (Suc (length xs)))"
    by (rule Cons.IH)
  then have "strcpy ?m (d + 1) (s + 1) = Some (memmove_up m d s (Suc (length (x # xs))))"
    by (simp only: memmove_up.simps list.size add_Suc_right add_0_right)
  then show ?case
    using Cons.prems(1) by (simp add: strcpy.simps [of m d s] del: fun_upd_apply memmove_up.simps)
qed

lemma cstr_copied:
  assumes "cstr m s xs" "length xs < n" "n \<le> 2 ^ 64"
  shows "cstr (copied m d s n) d xs"
proof -
  have "cstr (copied m d s n) (d + of_nat k) ys" if "cstr m (s + of_nat k) ys" "k + length ys < n" for k ys
    using that
  proof (induction ys arbitrary: k)
    case Nil
    then have "unat (of_nat k :: addr) = k" using assms(3) by (intro unat_of_nat64) auto
    then show ?case using Nil by (simp add: copied_def)
  next
    case (Cons y ys)
    then have "unat (of_nat k :: addr) = k" using assms(3) by (intro unat_of_nat64) auto
    moreover have "cstr (copied m d s n) (d + of_nat (Suc k)) ys"
      using Cons.prems by (intro Cons.IH) (auto simp: algebra_simps)
    ultimately show ?case using Cons.prems by (simp add: copied_def algebra_simps)
  qed
  from this [of 0 xs] show ?thesis using assms by simp
qed

lemma strcpy_eq:
  assumes "cstr m s xs" "up_safe d s (Suc (length xs))" "length xs < 2 ^ 64 - 1"
  shows "strcpy m d s = Some (copied m d s (Suc (length xs)))"
    "cstr (copied m d s (Suc (length xs))) d xs"
  using strcpy_up [OF assms(1,2)] memmove_up_eq [OF assms(2)] cstr_copied [OF assms(1)] assms(3)
  by auto

lemma strchr_cstr:
  assumes "cstr m p ds" "c \<noteq> 0" "\<And>j. j < length ds \<Longrightarrow> p + of_nat j \<noteq> 0"
  shows "\<exists>q. strchr m p c = Some q \<and> (q \<noteq> 0 \<longleftrightarrow> c \<in> set ds)"
  using assms(1,3)
proof (induction ds arbitrary: p)
  case Nil
  then show ?case using assms(2) by (auto simp: strchr.simps [of m p c])
next
  case (Cons d ds)
  have "p + 1 + of_nat j \<noteq> 0" if "j < length ds" for j
    using Cons.prems(2) [of "Suc j"] that by (simp add: algebra_simps)
  then obtain q where "strchr m (p + 1) c = Some q" "q \<noteq> 0 \<longleftrightarrow> c \<in> set ds"
    using Cons.IH [of "p + 1"] Cons.prems(1) by auto
  then show ?case using Cons.prems(1) Cons.prems(2) [of 0] by (auto simp: strchr.simps [of m p c])
qed

section \<open>strtok\<close>

lemma cstr_drop: "cstr m s xs \<Longrightarrow> n \<le> length xs \<Longrightarrow> cstr m (s + of_nat n) (drop n xs)"
proof (induction n arbitrary: s xs)
  case (Suc n)
  then obtain y ys where xs: "xs = y # ys" by (cases xs) auto
  with Suc have "cstr m (s + 1 + of_nat n) (drop n ys)" by (intro Suc.IH) auto
  then show ?case by (simp add: xs algebra_simps)
qed simp

lemma cstr_take:
  assumes "cstr m s xs" "n < length xs" "length xs < 2 ^ 64"
  shows "cstr (m(s + of_nat n := 0)) s (take n xs)"
  using assms
proof (induction n arbitrary: s xs)
  case 0
  then show ?case by simp
next
  case (Suc n)
  then obtain y ys where xs: "xs = y # ys" by (cases xs) auto
  have "unat (of_nat (Suc n) :: addr) = Suc n" using Suc.prems by (intro unat_of_nat64) simp
  then have "(of_nat (Suc n) :: addr) \<noteq> 0" by (metis nat.distinct(1) unsigned_0)
  then have "s \<noteq> s + of_nat (Suc n)" by simp
  moreover have "cstr (m(s + 1 + of_nat n := 0)) (s + 1) (take n ys)"
    using Suc.prems by (intro Suc.IH) (auto simp: xs)
  moreover have "s + 1 + of_nat n = s + of_nat (Suc n)" by (simp add: algebra_simps)
  ultimately show ?case using Suc.prems(1)
    by (simp add: xs fun_upd_def del: of_nat_Suc)
qed

definition delims :: "mem \<Rightarrow> addr \<Rightarrow> uint8 list \<Rightarrow> bool" where
  "delims m d ds \<longleftrightarrow> cstr m d ds \<and> (\<forall>j \<le> length ds. d + of_nat j \<noteq> 0)"

lemma delims_strchr:
  assumes "delims m d ds" "c \<noteq> 0"
  obtains q where "strchr m d c = Some q" "q \<noteq> 0 \<longleftrightarrow> c \<in> set ds"
  using strchr_cstr [of m d ds c] assms by (auto simp: delims_def)

lemma strtok_skip_cstr:
  assumes "delims m d ds" "cstr m s xs"
  shows "strtok_skip m d s = Some (s + of_nat (length (takeWhile (\<lambda>c. c \<in> set ds) xs)))"
  using assms(2)
proof (induction xs arbitrary: s)
  case Nil
  then show ?case by (simp add: strtok_skip.simps [of m d s])
next
  case (Cons x xs)
  then obtain q where "strchr m d (m s) = Some q" "q \<noteq> 0 \<longleftrightarrow> x \<in> set ds"
    using delims_strchr [OF assms(1), of "m s"] by auto
  then show ?case using Cons by (auto simp: strtok_skip.simps [of m d s] algebra_simps)
qed

lemma strtok_end_cstr:
  assumes "delims m d ds" "cstr m s xs"
  shows "strtok_end m d s = Some (s + of_nat (length (takeWhile (\<lambda>c. c \<notin> set ds) xs)))"
  using assms(2)
proof (induction xs arbitrary: s)
  case Nil
  then show ?case by (simp add: strtok_end.simps [of m d s])
next
  case (Cons x xs)
  then obtain q where "strchr m d (m s) = Some q" "q \<noteq> 0 \<longleftrightarrow> x \<in> set ds"
    using delims_strchr [OF assms(1), of "m s"] by auto
  then show ?case using Cons by (auto simp: strtok_end.simps [of m d s] algebra_simps)
qed

lemma cstr_hd: "cstr m s xs \<Longrightarrow> m s = (case xs of [] \<Rightarrow> 0 | x # _ \<Rightarrow> x)"
  by (cases xs) auto

lemma cstr_hd_0: "cstr m s xs \<Longrightarrow> m s = 0 \<longleftrightarrow> xs = []"
  by (cases xs) auto

text \<open>One call of \<^verbatim>\<open>strtok\<close> with the position at the string \<open>xs\<close>.\<close>

lemma strtok_step:
  fixes xs ds :: "uint8 list"
  defines "ys \<equiv> dropWhile (\<lambda>c. c \<in> set ds) xs"
  defines "tk \<equiv> takeWhile (\<lambda>c. c \<notin> set ds) ys" and "rest \<equiv> dropWhile (\<lambda>c. c \<notin> set ds) ys"
  defines "k \<equiv> length xs - length ys"
  assumes d: "delims m d ds" and s: "cstr m cur xs" and nz: "cur \<noteq> 0"
    and arg: "cur = (if str \<noteq> 0 then str else current)"
  shows "strtok m current str d =
    (if ys = [] then Some (m, 0, 0)
     else if rest = [] then Some (m, 0, cur + of_nat k)
     else Some (m(cur + of_nat (k + length tk) := 0), cur + of_nat (k + length tk) + 1, cur + of_nat k))"
    "cstr m (cur + of_nat k) ys" "k + length ys = length xs"
    "cstr m (cur + of_nat (k + length tk)) rest"
proof -
  have le: "length ys \<le> length xs" by (simp add: ys_def length_dropWhile_le)
  then show kl: "k + length ys = length xs" by (simp add: k_def)
  have k: "k = length (takeWhile (\<lambda>c. c \<in> set ds) xs)"
    unfolding k_def ys_def dropWhile_eq_drop length_drop
    using length_takeWhile_le [of "\<lambda>c. c \<in> set ds" xs] by linarith
  have ysd: "ys = drop k xs" by (simp add: ys_def k dropWhile_eq_drop)
  show y: "cstr m (cur + of_nat k) ys"
    unfolding ysd using kl by (intro cstr_drop [OF s]) simp
  have "cstr m (cur + of_nat k + of_nat (length tk)) (drop (length tk) ys)"
    by (intro cstr_drop [OF y]) (simp add: tk_def length_takeWhile_le)
  then show r: "cstr m (cur + of_nat (k + length tk)) rest"
    by (simp add: rest_def tk_def dropWhile_eq_drop algebra_simps)
  have 1: "strtok_skip m d cur = Some (cur + of_nat k)"
    using strtok_skip_cstr [OF d s] by (simp add: k)
  have 2: "strtok_end m d (cur + of_nat k) = Some (cur + of_nat (k + length tk))"
    using strtok_end_cstr [OF d y] by (simp add: tk_def algebra_simps)
  have c: "(let c = (if str \<noteq> 0 then str else current) in f c) = f cur" for f :: "addr \<Rightarrow> (mem \<times> addr \<times> addr) option"
    using arg by simp
  show "strtok m current str d =
    (if ys = [] then Some (m, 0, 0)
     else if rest = [] then Some (m, 0, cur + of_nat k)
     else Some (m(cur + of_nat (k + length tk) := 0), cur + of_nat (k + length tk) + 1, cur + of_nat k))"
    unfolding strtok_def c using nz 1 2 cstr_hd_0 [OF y] cstr_hd_0 [OF r] by simp
qed

text \<open>
  The way the callers use \<^verbatim>\<open>strtok\<close>: a first call with the string, then calls with
  \<^verbatim>\<open>NULL\<close> until \<^verbatim>\<open>NULL\<close> comes back; the result is the list of returned pointers.
\<close>

fun strtok_calls :: "nat \<Rightarrow> mem \<Rightarrow> addr \<Rightarrow> addr \<Rightarrow> addr \<Rightarrow> (mem \<times> addr list) option" where
  "strtok_calls 0 m current str d = Some (m, [])"
| "strtok_calls (Suc n) m current str d =
     (case strtok m current str d of
        None \<Rightarrow> None
      | Some (m', current', p) \<Rightarrow>
          if p = 0 then Some (m', [])
          else map_option (\<lambda>(m'', ps). (m'', p # ps)) (strtok_calls n m' current' 0 d))"

lemma cstr_frame:
  "(\<And>j. j \<le> length xs \<Longrightarrow> m' (s + of_nat j) = m (s + of_nat j)) \<Longrightarrow> cstr m' s xs \<longleftrightarrow> cstr m s xs"
proof (induction xs arbitrary: s)
  case Nil
  then show ?case using Nil.prems [of 0] by simp
next
  case (Cons x xs)
  have "m' (s + 1 + of_nat j) = m (s + 1 + of_nat j)" if "j \<le> length xs" for j
    using Cons.prems [of "Suc j"] that by (simp add: algebra_simps)
  then have "cstr m' (s + 1) xs \<longleftrightarrow> cstr m (s + 1) xs" by (rule Cons.IH)
  then show ?case using Cons.prems [of 0] by simp
qed

lemma strtok_calls_tokens:
  assumes "delims m d ds" "cstr m cur xs" "cur \<noteq> 0" "cur = (if str \<noteq> 0 then str else current)"
    "unat cur + length xs + 1 < 2 ^ 64" "length xs < n"
    "\<And>j. j \<le> length ds \<Longrightarrow> unat (d + of_nat j) < unat cur \<or> unat cur + length xs < unat (d + of_nat j)"
  shows "\<exists>m' ps. strtok_calls n m current str d = Some (m', ps) \<and>
     list_all2 (cstr m') ps (tokens (\<lambda>c. c \<in> set ds) xs) \<and>
     (\<forall>a. a < cur \<or> unat cur + length xs \<le> unat a \<longrightarrow> m' a = m a)"
  using assms
proof (induction "\<lambda>c. c \<in> set ds" xs arbitrary: m cur str current n rule: tokens.induct)
  case (1 xs)
  define ys tk rest k where "ys = dropWhile (\<lambda>c. c \<in> set ds) xs" and "tk = takeWhile (\<lambda>c. c \<notin> set ds) ys"
    and "rest = dropWhile (\<lambda>c. c \<notin> set ds) ys" and "k = length xs - length ys"
  note defs = ys_def [symmetric] tk_def [symmetric] rest_def [symmetric] k_def [symmetric]
  note step = strtok_step [OF 1(2-5), folded ys_def, folded tk_def rest_def k_def]
  obtain n' where n: "n = Suc n'" using 1(7) by (cases n) auto
  have tok: "tokens (\<lambda>c. c \<in> set ds) xs = (if ys = [] then [] else tk # tokens (\<lambda>c. c \<in> set ds) (tl rest))"
    by (subst tokens.simps) (simp add: Let_def defs)
  have u: "unat (cur + of_nat j) = unat cur + j" if "j \<le> length xs + 1" for j
    using that 1(6) by (simp add: unat_word_ariths unat_of_nat64)
  have tkl: "length tk + length rest = length ys"
    unfolding tk_def rest_def by (metis length_append takeWhile_dropWhile_id)
  have pnz: "cur + of_nat k \<noteq> 0"
    using u [of k] step(3) 1(4) by (metis add_is_0 le_add1 trans_le_add1 unat_eq_0 unat_0)
  show ?case
  proof (cases "ys = []")
    case True
    then show ?thesis using step(1) by (simp add: n tok)
  next
    case ys: False
    show ?thesis
    proof (cases "rest = []")
      case True
      then have "tk = ys" unfolding tk_def rest_def by (metis append_Nil2 takeWhile_dropWhile_id)
      moreover have "tokens (\<lambda>c. c \<in> set ds) [] = []" by (subst tokens.simps) simp
      moreover have "strtok_calls n' m 0 0 d = Some (m, [])"
        by (cases n') (simp_all add: strtok_def)
      ultimately show ?thesis using step(1,2) ys True pnz by (simp add: n tok)
    next
      case rest: False
      define e where "e = cur + of_nat (k + length tk)"
      let ?m = "m(e := 0)"
      have ue: "unat e = unat cur + k + length tk"
        unfolding e_def using step(3) tkl by (subst u) auto
      have ue1: "unat (e + 1) = unat e + 1"
        unfolding e_def using u [of "k + length tk"] u [of "k + length tk + 1"] step(3) tkl
        by (simp add: algebra_simps)
      have lr: "unat e + length rest = unat cur + length xs" using ue tkl step(3) by simp
      have lr0: "length (tl rest) + 1 = length rest" using rest by (cases rest) auto
      have D: "delims ?m d ds"
      proof -
        have "e \<noteq> d + of_nat j" if "j \<le> length ds" for j
          using 1(8) [OF that] lr ue lr0 by auto
        then show ?thesis using 1(2) by (simp add: delims_def cstr_upd)
      qed
      have R: "cstr ?m (e + 1) (tl rest)"
      proof -
        have "e \<noteq> e + 1 + of_nat j" if "j \<le> length (tl rest)" for j
        proof -
          have "unat (cur + of_nat (k + length tk + 1 + j)) = unat cur + (k + length tk + 1 + j)"
            using that lr0 step(3) tkl by (intro u) auto
          then have "unat (e + 1 + of_nat j) \<noteq> unat e"
            using ue by (simp add: e_def algebra_simps)
          then show ?thesis by metis
        qed
        moreover have "cstr m (e + 1) (tl rest)"
          using step(4) rest by (cases rest) (auto simp: e_def)
        ultimately show ?thesis using cstr_upd [of "tl rest" e "e + 1" m 0] by blast
      qed
      have "\<exists>m' ps. strtok_calls n' ?m (e + 1) 0 d = Some (m', ps) \<and>
         list_all2 (cstr m') ps (tokens (\<lambda>c. c \<in> set ds) (tl rest)) \<and>
         (\<forall>a. a < e + 1 \<or> unat (e + 1) + length (tl rest) \<le> unat a \<longrightarrow> m' a = ?m a)"
      proof (rule 1(1) [of ys, folded rest_def])
        show "ys = dropWhile (\<lambda>c. c \<in> set ds) xs" by (rule ys_def)
        show "e + 1 \<noteq> 0" using ue1 by (metis Zero_not_Suc Suc_eq_plus1 unsigned_0)
        show "unat (e + 1) + length (tl rest) + 1 < 2 ^ 64" using ue1 lr lr0 1(6) by linarith
        show "length (tl rest) < n'" using 1(7) n lr0 step(3) tkl by linarith
        show "unat (d + of_nat j) < unat (e + 1) \<or> unat (e + 1) + length (tl rest) < unat (d + of_nat j)"
          if "j \<le> length ds" for j
          using 1(8) [OF that] ue1 ue lr lr0 by linarith
      qed (use ys D R in auto)
      then obtain m' ps where call: "strtok_calls n' ?m (e + 1) 0 d = Some (m', ps)"
        and toks: "list_all2 (cstr m') ps (tokens (\<lambda>c. c \<in> set ds) (tl rest))"
        and fr: "\<And>a. a < e + 1 \<or> unat (e + 1) + length (tl rest) \<le> unat a \<Longrightarrow> m' a = ?m a"
        by blast
      have "cstr ?m (cur + of_nat k) tk"
      proof -
        have "cstr (m(cur + of_nat k + of_nat (length tk) := 0)) (cur + of_nat k) (take (length tk) ys)"
          using step(2,3) tkl lr0 1(6) by (intro cstr_take) auto
        moreover have "take (length tk) ys = tk" unfolding tk_def by (metis takeWhile_eq_take)
        ultimately show ?thesis by (simp add: e_def algebra_simps)
      qed
      moreover have "m' (cur + of_nat k + of_nat j) = ?m (cur + of_nat k + of_nat j)" if "j \<le> length tk" for j
      proof (rule fr)
        have "unat (cur + of_nat (k + j)) = unat cur + (k + j)" using that step(3) tkl by (intro u) auto
        then show "cur + of_nat k + of_nat j < e + 1 \<or> unat (e + 1) + length (tl rest) \<le> unat (cur + of_nat k + of_nat j)"
          using that ue1 ue by (simp add: word_less_nat_alt algebra_simps)
      qed
      ultimately have "cstr m' (cur + of_nat k) tk" using cstr_frame by blast
      moreover have "m' a = m a" if "a < cur \<or> unat cur + length xs \<le> unat a" for a
      proof -
        have "m' a = ?m a" using that ue ue1 lr lr0 by (intro fr) (unfold word_less_nat_alt, linarith)
        moreover have "a \<noteq> e" using that ue lr lr0 unfolding word_less_nat_alt by auto
        ultimately show ?thesis by simp
      qed
      ultimately show ?thesis
        using step(1) [folded e_def] ys rest pnz call toks
        by (intro exI [of _ m'] exI [of _ "(cur + of_nat k) # ps"]) (simp add: n tok)
    qed
  qed
qed

section \<open>strcat, atol and safestrcpy\<close>

lemma cstr_append:
  "cstr m s xs \<Longrightarrow> cstr m' (s + of_nat (length xs)) ys \<Longrightarrow>
   (\<And>j. j < length xs \<Longrightarrow> m' (s + of_nat j) = m (s + of_nat j)) \<Longrightarrow> cstr m' s (xs @ ys)"
proof (induction xs arbitrary: s)
  case (Cons x xs)
  have "m' (s + 1 + of_nat j) = m (s + 1 + of_nat j)" if "j < length xs" for j
    using Cons.prems(3) [of "Suc j"] that by (simp add: algebra_simps)
  then have "cstr m' (s + 1) (xs @ ys)"
    using Cons.prems by (intro Cons.IH) (auto simp: algebra_simps)
  then show ?case using Cons.prems(1) Cons.prems(3) [of 0] by simp
qed simp

lemma strcat_cstr:
  assumes "cstr m dst xs" "cstr m src ys"
    "up_safe (dst + of_nat (length xs)) src (Suc (length ys))" "length xs + length ys < 2 ^ 64 - 1"
  shows "\<exists>m'. strcat m dst src = Some m' \<and> cstr m' dst (xs @ ys)"
proof -
  let ?d = "dst + of_nat (length xs)"
  let ?m = "copied m ?d src (Suc (length ys))"
  have ly: "length ys < 2 ^ 64 - 1" using assms(4) by simp
  note sc = strcpy_eq [OF assms(2,3) ly]
  have "?m (dst + of_nat j) = m (dst + of_nat j)" if j: "j < length xs" for j
  proof -
    have "unat (of_nat j - of_nat (length xs) :: addr) = 2 ^ 64 - (length xs - j)"
      using j assms(4) by (subst unat_sub_if') (auto simp: unat_of_nat64)
    then have "\<not> unat (dst + of_nat j - ?d) < Suc (length ys)"
      using j assms(4) by simp
    then show ?thesis by (simp add: copied_def)
  qed
  then have "cstr ?m dst (xs @ ys)" using assms(1) sc(2) by (intro cstr_append)
  then show ?thesis using sc(1) by (simp add: strcat_def strlen_cstr [OF assms(1)])
qed

text \<open>The decimal number a digit string denotes.\<close>

definition digits_val :: "uint8 list \<Rightarrow> nat" where
  "digits_val xs = foldl (\<lambda>r c. r * 10 + (unat c - 48)) 0 xs"

lemma atol_spaces_cstr:
  "cstr m s xs \<Longrightarrow> atol_spaces m s = Some (s + of_nat (length (takeWhile (\<lambda>c. c = 32) xs)))"
proof (induction xs arbitrary: s)
  case (Cons x xs)
  then show ?case by (auto simp: atol_spaces.simps [of m s] algebra_simps)
qed (simp add: atol_spaces.simps)

lemma atol_digits_cstr:
  assumes "cstr m s xs" "list_all (\<lambda>c. 48 \<le> c \<and> c \<le> 57) xs"
  shows "atol_digits m s (of_nat r) = Some (of_nat (foldl (\<lambda>r c. r * 10 + (unat c - 48)) r xs))"
  using assms
proof (induction xs arbitrary: s r)
  case (Cons x xs)
  have x: "48 \<le> unat x" using Cons.prems(2) by (simp add: word_le_nat_alt)
  have "(ucast x - 48 :: uint64) = of_nat (unat x - 48)"
    using x by (simp add: of_nat_diff)
  then have "of_nat r * 10 + (ucast x - 48 :: uint64) = of_nat (r * 10 + (unat x - 48))"
    by simp
  then show ?case using Cons by (simp add: atol_digits.simps [of m s] del: of_nat_add of_nat_mult)
qed (simp add: atol_digits.simps)

lemma safestrcpy_loop_bound:
  assumes "safestrcpy_loop m s t n = (m', s')"
  shows "\<exists>k \<le> n. s' = s + of_nat k \<and> (\<forall>a. n \<le> unat (a - s) \<longrightarrow> m' a = m a)"
  using assms
proof (induction n arbitrary: m s t)
  case (Suc n)
  show ?case
  proof (cases "m t = 0")
    case True
    then have "s' = s + of_nat 1" "m' = m(s := 0)" using Suc.prems by auto
    then show ?thesis by (intro exI [of _ 1]) auto
  next
    case False
    then have "safestrcpy_loop (m(s := m t)) (s + 1) (t + 1) n = (m', s')"
      using Suc.prems by (simp add: Let_def)
    from Suc.IH [OF this] obtain k where k: "k \<le> n" "s' = s + 1 + of_nat k"
      "\<forall>a. n \<le> unat (a - (s + 1)) \<longrightarrow> m' a = (m(s := m t)) a"
      by blast
    have "m' a = m a" if "Suc n \<le> unat (a - s)" for a
    proof -
      have "a \<noteq> s" using that by auto
      then have "unat (a - (s + 1)) = unat (a - s) - 1" by (rule unat_diff_Suc)
      then show ?thesis using k(3) that \<open>a \<noteq> s\<close> by auto
    qed
    then show ?thesis using k by (intro exI [of _ "Suc k"]) (auto simp: algebra_simps)
  qed
qed auto

section \<open>Properties\<close>

text \<open>
  C15. A first call \<^verbatim>\<open>strtok(str, delim)\<close> followed by calls \<^verbatim>\<open>strtok(NULL, delim)\<close>
  until \<^verbatim>\<open>NULL\<close> comes back always returns, and the returned pointers are, in order, exactly the
  maximal runs of non-delimiter bytes of the string, each one NUL-terminated in the buffer; bytes outside
  the string are not written. The buffer must not wrap around and must not overlap the delimiter string.
\<close>

theorem strtok_correct:
  assumes "cstr m d ds" "\<forall>j \<le> length ds. d + of_nat j \<noteq> 0" "cstr m str xs" "str \<noteq> 0"
    "unat str + length xs + 1 < 2 ^ 64"
    "\<forall>j \<le> length ds. unat (d + of_nat j) < unat str \<or> unat str + length xs < unat (d + of_nat j)"
  shows "\<exists>m' ps. strtok_calls (Suc (length xs)) m current str d = Some (m', ps) \<and>
     list_all2 (cstr m') ps (tokens (\<lambda>c. c \<in> set ds) xs) \<and>
     (\<forall>a. a < str \<or> unat str + length xs \<le> unat a \<longrightarrow> m' a = m a)"
  using assms by (intro strtok_calls_tokens) (auto simp: delims_def)

theorem strtok_correct_witness:
  "\<exists>m' ps. strtok_calls 5 ((\<lambda>_. 0)(0x1000 := 97, 0x1001 := 32, 0x1002 := 32, 0x1003 := 98, 0x2000 := 32)) 0 0x1000 0x2000
     = Some (m', ps) \<and> list_all2 (cstr m') ps [[97], [98]]"
proof -
  let ?m = "(\<lambda>_. 0)(0x1000 := 97, 0x1001 := 32, 0x1002 := 32, 0x1003 := 98, 0x2000 := 32) :: mem"
  let ?xs = "[97, 32, 32, 98] :: uint8 list"
  have "\<exists>m' ps. strtok_calls (Suc (length ?xs)) ?m 0 0x1000 0x2000 = Some (m', ps) \<and>
     list_all2 (cstr m') ps (tokens (\<lambda>c. c \<in> set [32]) ?xs) \<and>
     (\<forall>a. a < 0x1000 \<or> unat (0x1000 :: addr) + length ?xs \<le> unat a \<longrightarrow> m' a = ?m a)"
    by (rule strtok_correct) (auto simp: le_Suc_eq)
  moreover have "tokens (\<lambda>c. c \<in> set [32]) ?xs = [[97], [98]]" by (simp add: tokens.simps)
  moreover have "Suc (length ?xs) = 5" by simp
  ultimately show ?thesis by (simp only:) blast
qed

text \<open>
  \<^verbatim>\<open>strcmp\<close> on two NUL-terminated strings always returns; it returns 0 exactly when the strings
  are equal and a negative number exactly when the first one comes first in the lexicographic order of
  their unsigned bytes, so symbol and directory lookups that search by it compare whole names.
\<close>

theorem strcmp_correct:
  assumes "cstr m s xs" "cstr m t ys"
  shows "\<exists>r. strcmp m s t = Some r \<and> (r = 0 \<longleftrightarrow> xs = ys) \<and> (r < 0 \<longleftrightarrow> ord_class.lexordp xs ys)"
  using strcmp_cstr [OF assms] strcmp_l_eq_0 strcmp_l_less_0 assms [THEN cstr_nonzero] by blast

theorem strcmp_correct_witness:
  "\<exists>r. strcmp ((\<lambda>_. 0)(0x1000 := 97, 0x1001 := 98, 0x2000 := 97, 0x2001 := 200)) 0x1000 0x2000 = Some r \<and> r < 0"
proof -
  let ?m = "(\<lambda>_. 0)(0x1000 := 97, 0x1001 := 98, 0x2000 := 97, 0x2001 := 200) :: mem"
  have "cstr ?m 0x1000 [97, 98]" "cstr ?m 0x2000 [97, 200]" by simp_all
  from strcmp_correct [OF this] show ?thesis by auto
qed

text \<open>
  \<^verbatim>\<open>safestrcpy(s, t, n)\<close> with \<open>n > 0\<close> always leaves a NUL byte among the first \<open>n\<close> bytes of the
  destination and never writes a byte outside them, whatever the source contains.
\<close>

theorem safestrcpy_bounded:
  assumes "0 < n" "n < 2 ^ 63"
  shows "(\<exists>k < nat n. safestrcpy m s t n (s + of_nat k) = 0) \<and>
     (\<forall>a. nat n \<le> unat (a - s) \<longrightarrow> safestrcpy m s t n a = m a)"
proof -
  obtain m' s' where l: "safestrcpy_loop m s t (nat (n - 1)) = (m', s')" by fastforce
  then have e: "safestrcpy m s t n = m'(s' := 0)" using assms by (simp add: safestrcpy_def)
  obtain k where k: "k \<le> nat (n - 1)" "s' = s + of_nat k"
    "\<forall>a. nat (n - 1) \<le> unat (a - s) \<longrightarrow> m' a = m a"
    using safestrcpy_loop_bound [OF l] by blast
  have kn: "k < nat n" using k(1) assms by linarith
  have "m' a = m a \<and> a \<noteq> s'" if "nat n \<le> unat (a - s)" for a
  proof
    show "m' a = m a" using that k(3) by auto
    have "unat (of_nat k :: addr) = k" using kn assms by (intro unat_of_nat64) auto
    then show "a \<noteq> s'" using that kn k(2) by auto
  qed
  then show ?thesis using kn k(2) by (auto simp: e intro!: exI [of _ k])
qed

theorem safestrcpy_bounded_witness:
  "(\<exists>k < nat 2. safestrcpy (\<lambda>_. 65) 0x1000 0x2000 2 (0x1000 + of_nat k) = 0) \<and>
   safestrcpy (\<lambda>_. 65) 0x1000 0x2000 2 0x1002 = 65"
  using safestrcpy_bounded [of 2 "\<lambda>_. 65" "0x1000" "0x2000"] by auto

end
