(* ===== verification/Spinlock.thy ===== *)
theory Spinlock
  imports Riscv
begin

text \<open>
  The spinlocks of \<^verbatim>\<open>spike_interface/atomic.h\<close>. The lock word is an integer: 0 is free and
  \<open>-1\<close> is taken. The operations come in two forms: as functions on the lock word, run by one hart
  without interference (the form the other components use), and as a step relation in which the harts
  interleave between the single loads and stores of \<^verbatim>\<open>atomic_swap\<close>, which the header builds
  from a separate \<^verbatim>\<open>atomic_read\<close> and \<^verbatim>\<open>atomic_set\<close>.
\<close>

section \<open>Sequential operations\<close>

definition atomic_swap :: "int \<Rightarrow> int \<Rightarrow> int \<times> int" where
  "atomic_swap lock inc = (let res = lock; lock = inc in (res, lock))"

definition spinlock_trylock :: "int \<Rightarrow> int \<times> int" where
  "spinlock_trylock lock = atomic_swap lock (- 1)"

partial_function (option) spin_wait :: "int \<Rightarrow> int option" where
  "spin_wait lock = (if lock \<noteq> 0 then spin_wait lock else Some lock)"

partial_function (option) spinlock_lock :: "int \<Rightarrow> int option" where
  "spinlock_lock lock =
     (case spin_wait lock of
        None \<Rightarrow> None
      | Some l \<Rightarrow>
          (let (res, l') = spinlock_trylock l in if res \<noteq> 0 then spinlock_lock l' else Some l'))"

definition spinlock_unlock :: "int \<Rightarrow> int" where
  "spinlock_unlock lock = 0"

lemma spin_wait_SomeD: "spin_wait l = Some y \<Longrightarrow> l = 0 \<and> y = 0"
  by (rule spin_wait.raw_induct [of "\<lambda>l y. l = 0 \<and> y = 0"]) (auto split: if_splits)

lemma spinlock_lock_free [simp]: "spinlock_lock 0 = Some (- 1)"
  by (subst spinlock_lock.simps, subst spin_wait.simps) (simp add: spinlock_trylock_def atomic_swap_def)

lemma spinlock_lock_taken: "l \<noteq> 0 \<Longrightarrow> spinlock_lock l = None"
  using spin_wait_SomeD [of l] by (subst spinlock_lock.simps) (cases "spin_wait l"; auto)

lemma spinlock_lock_iff: "spinlock_lock l = Some l' \<longleftrightarrow> l = 0 \<and> l' = - 1"
  by (cases "l = 0") (auto simp: spinlock_lock_taken)

section \<open>Interleaved execution\<close>

text \<open>
  The program counter of a hart: \<open>Outside\<close> the lock, \<open>Spinning\<close> in the inner loop, at the load and
  at the store of \<^verbatim>\<open>atomic_swap\<close> (the store remembers the loaded value), at the test of the
  returned value, and \<open>Critical\<close> once \<^verbatim>\<open>spinlock_lock\<close> has returned.
\<close>

datatype lock_pc = Outside | Spinning | Swap_Load | Swap_Store int | Swap_Test int | Critical

record lock_state =
  lock_word :: int
  hart_pc :: "nat \<Rightarrow> lock_pc"

inductive lock_step :: "nat \<Rightarrow> lock_state \<Rightarrow> lock_state \<Rightarrow> bool" where
  enter: "hart_pc s h = Outside \<Longrightarrow> lock_step h s (s\<lparr>hart_pc := (hart_pc s)(h := Spinning)\<rparr>)"
| spin: "hart_pc s h = Spinning \<Longrightarrow> lock_word s \<noteq> 0 \<Longrightarrow> lock_step h s s"
| leave: "hart_pc s h = Spinning \<Longrightarrow> lock_word s = 0 \<Longrightarrow>
     lock_step h s (s\<lparr>hart_pc := (hart_pc s)(h := Swap_Load)\<rparr>)"
| load: "hart_pc s h = Swap_Load \<Longrightarrow>
     lock_step h s (s\<lparr>hart_pc := (hart_pc s)(h := Swap_Store (lock_word s))\<rparr>)"
| store: "hart_pc s h = Swap_Store r \<Longrightarrow>
     lock_step h s (s\<lparr>lock_word := - 1, hart_pc := (hart_pc s)(h := Swap_Test r)\<rparr>)"
| retry: "hart_pc s h = Swap_Test r \<Longrightarrow> r \<noteq> 0 \<Longrightarrow>
     lock_step h s (s\<lparr>hart_pc := (hart_pc s)(h := Spinning)\<rparr>)"
| acquire: "hart_pc s h = Swap_Test r \<Longrightarrow> r = 0 \<Longrightarrow>
     lock_step h s (s\<lparr>hart_pc := (hart_pc s)(h := Critical)\<rparr>)"
| unlock: "hart_pc s h = Critical \<Longrightarrow>
     lock_step h s (s\<lparr>lock_word := 0, hart_pc := (hart_pc s)(h := Outside)\<rparr>)"

definition lock_init :: lock_state where
  "lock_init = \<lparr>lock_word = 0, hart_pc = (\<lambda>_. Outside)\<rparr>"

text \<open>Executions of the harts in \<open>H\<close> from the free lock.\<close>

inductive lock_reach :: "nat set \<Rightarrow> lock_state \<Rightarrow> bool" for H where
  init: "lock_reach H lock_init"
| step: "lock_reach H s \<Longrightarrow> h \<in> H \<Longrightarrow> lock_step h s t \<Longrightarrow> lock_reach H t"

text \<open>The next step of a hart is determined by its program counter and the lock word.\<close>

definition lock_exec :: "nat \<Rightarrow> lock_state \<Rightarrow> lock_state" where
  "lock_exec h s =
     (let goto = (\<lambda>pc. s\<lparr>hart_pc := (hart_pc s)(h := pc)\<rparr>)
      in case hart_pc s h of
           Outside \<Rightarrow> goto Spinning
         | Spinning \<Rightarrow> if lock_word s \<noteq> 0 then s else goto Swap_Load
         | Swap_Load \<Rightarrow> goto (Swap_Store (lock_word s))
         | Swap_Store r \<Rightarrow> (goto (Swap_Test r))\<lparr>lock_word := - 1\<rparr>
         | Swap_Test r \<Rightarrow> if r \<noteq> 0 then goto Spinning else goto Critical
         | Critical \<Rightarrow> (goto Outside)\<lparr>lock_word := 0\<rparr>)"

lemma lock_step_iff: "lock_step h s t \<longleftrightarrow> t = lock_exec h s"
  unfolding lock_exec_def lock_step.simps by (cases "hart_pc s h") auto

lemma lock_exec_reach: "lock_reach H s \<Longrightarrow> set hs \<subseteq> H \<Longrightarrow> lock_reach H (fold lock_exec hs s)"
proof (induction hs arbitrary: s)
  case (Cons h hs)
  then have "lock_reach H (lock_exec h s)" by (auto intro: lock_reach.step simp: lock_step_iff)
  then show ?case using Cons by simp
qed simp

text \<open>A hart that holds what it loaded or owns the lock, when no other hart runs.\<close>

definition solo_inv :: "nat \<Rightarrow> lock_state \<Rightarrow> bool" where
  "solo_inv h s \<longleftrightarrow> (\<forall>k. k \<noteq> h \<longrightarrow> hart_pc s k = Outside) \<and>
     (case hart_pc s h of
        Outside \<Rightarrow> lock_word s = 0 | Spinning \<Rightarrow> lock_word s = 0 | Swap_Load \<Rightarrow> lock_word s = 0
      | Swap_Store r \<Rightarrow> r = 0 \<and> lock_word s = 0 | Swap_Test r \<Rightarrow> r = 0 \<and> lock_word s = - 1
      | Critical \<Rightarrow> lock_word s = - 1)"

lemma solo_inv_step: "lock_step h s t \<Longrightarrow> solo_inv h s \<Longrightarrow> solo_inv h t"
  by (induction rule: lock_step.induct) (auto simp: solo_inv_def)

lemma solo_inv_reach: "lock_reach {h} s \<Longrightarrow> solo_inv h s"
  by (induction rule: lock_reach.induct) (auto simp: solo_inv_step, simp add: solo_inv_def lock_init_def)

section \<open>The start-up barrier (kernel/sync_utils.h)\<close>

text \<open>
  \<^verbatim>\<open>sync_barrier\<close> counts arrivals with one atomic \<^verbatim>\<open>amoadd.w\<close> and then polls the
  counter. A hart is \<open>Before\<close> its \<^verbatim>\<open>amoadd.w\<close>, \<open>Polling\<close>, or has \<open>Passed\<close>.
\<close>

datatype barrier_pc = Before | Polling | Passed

record barrier_state =
  counter :: int
  barrier_pc :: "nat \<Rightarrow> barrier_pc"

definition barrier_exec :: "int \<Rightarrow> nat \<Rightarrow> barrier_state \<Rightarrow> barrier_state" where
  "barrier_exec all h s =
     (case barrier_pc s h of
        Before \<Rightarrow>
          (let local = counter s
           in s\<lparr>counter := counter s + 1,
                barrier_pc := (barrier_pc s)(h := (if local + 1 < all then Polling else Passed))\<rparr>)
      | Polling \<Rightarrow>
          (let local = counter s
           in if local < all then s else s\<lparr>barrier_pc := (barrier_pc s)(h := Passed)\<rparr>)
      | Passed \<Rightarrow> s)"

definition barrier_init :: barrier_state where
  "barrier_init = \<lparr>counter = 0, barrier_pc = (\<lambda>_. Before)\<rparr>"

definition arrived :: "barrier_state \<Rightarrow> nat set" where
  "arrived s = {h. barrier_pc s h \<noteq> Before}"

definition barrier_inv :: "int \<Rightarrow> barrier_state \<Rightarrow> bool" where
  "barrier_inv all s \<longleftrightarrow> finite (arrived s) \<and> counter s = int (card (arrived s)) \<and>
     (\<forall>h. barrier_pc s h = Passed \<longrightarrow> all \<le> counter s)"

lemma barrier_inv_exec: "barrier_inv all s \<Longrightarrow> barrier_inv all (barrier_exec all h s)"
proof (cases "barrier_pc s h")
  case Before
  assume inv: "barrier_inv all s"
  have "arrived (barrier_exec all h s) = insert h (arrived s)" "h \<notin> arrived s"
    using Before by (auto simp: arrived_def barrier_exec_def Let_def split: if_splits)
  then show ?thesis
    using inv Before by (auto simp: barrier_inv_def barrier_exec_def Let_def split: if_splits)
next
  case Polling
  moreover have "arrived (barrier_exec all h s) = arrived s"
    using Polling by (auto simp: arrived_def barrier_exec_def Let_def)
  ultimately show "barrier_inv all s \<Longrightarrow> ?thesis"
    by (auto simp: barrier_inv_def barrier_exec_def Let_def)
qed (simp add: barrier_exec_def)

lemma barrier_inv_fold: "barrier_inv all s \<Longrightarrow> barrier_inv all (fold (barrier_exec all) hs s)"
  by (induction hs arbitrary: s) (auto simp: barrier_inv_exec)

lemma barrier_inv_init: "barrier_inv all barrier_init"
  by (simp add: barrier_inv_def barrier_init_def arrived_def)

section \<open>Properties\<close>

text \<open>
  No hart leaves \<^verbatim>\<open>sync_barrier(counter, all)\<close> before \<^verbatim>\<open>all\<close> harts have entered it,
  in every interleaving \<open>hs\<close> of the harts' steps.
\<close>

theorem sync_barrier_waits:
  assumes "barrier_pc (fold (barrier_exec all) hs barrier_init) h = Passed"
  shows "all \<le> int (card (arrived (fold (barrier_exec all) hs barrier_init)))"
  using barrier_inv_fold [OF barrier_inv_init, of all hs] assms by (auto simp: barrier_inv_def)

theorem sync_barrier_waits_witness:
  "2 \<le> int (card (arrived (fold (barrier_exec 2) [0, 0, 1, 0] barrier_init)))"
  by (rule sync_barrier_waits [of _ _ 0]) (simp add: barrier_exec_def barrier_init_def)

text \<open>
  When a single hart runs, the lock protocol is exact: the hart is inside the critical section
  only while the lock word is \<open>-1\<close>, the lock word is 0 whenever the hart is outside, and
  the hart never spins on a lock nobody holds.
\<close>

theorem spinlock_single_hart:
  assumes "lock_reach {h} s"
  shows "(hart_pc s h = Critical \<longrightarrow> lock_word s = - 1) \<and> (hart_pc s h = Outside \<longrightarrow> lock_word s = 0) \<and>
    (hart_pc s h = Spinning \<longrightarrow> lock_word s = 0)"
  using solo_inv_reach [OF assms] by (auto simp: solo_inv_def)

theorem spinlock_single_hart_witness:
  "lock_word (fold lock_exec [0, 0, 0, 0, 0] lock_init) = - 1"
  using spinlock_single_hart [OF lock_exec_reach [OF lock_reach.init], of "[0, 0, 0, 0, 0]" 0]
  by (simp add: lock_init_def lock_exec_def)

text \<open>
  C10. With two harts the lock does not give mutual exclusion: because \<^verbatim>\<open>atomic_swap\<close> reads the
  lock word and writes it in two separate accesses, both harts can load 0 before either stores
  \<open>-1\<close>, and both then hold the lock at the same time.
\<close>

theorem spinlock_no_mutual_exclusion:
  "\<exists>s. lock_reach {0, 1} s \<and> hart_pc s 0 = Critical \<and> hart_pc s 1 = Critical"
proof -
  let ?s = "fold lock_exec [0, 1, 0, 1, 0, 1, 0, 1, 0, 1] lock_init"
  have "lock_reach {0, 1} ?s" by (rule lock_exec_reach [OF lock_reach.init]) simp
  moreover have "hart_pc ?s 0 = Critical \<and> hart_pc ?s 1 = Critical"
    by (simp add: lock_init_def lock_exec_def)
  ultimately show ?thesis by blast
qed

end
