(* ===== verification/Pmm.thy ===== *)
theory Pmm
  imports Cmem Spinlock
begin

text \<open>
  The physical page allocator, \<^verbatim>\<open>kernel/pmm.c\<close>: the free list threaded through the free pages
  themselves, the sorted table \<^verbatim>\<open>ref_list\<close> of reference counts with its binary searches,
  \<^verbatim>\<open>alloc_page\<close>, \<^verbatim>\<open>free_page\<close> and the initialisation. The allocator contract is the
  locale \<open>page_allocator\<close>; the code's definitions are an interpretation of it.
\<close>

section \<open>State\<close>

record ref_unit =
  ru_pa :: uint64
  ru_ref :: uint64

text \<open>
  \<open>g_free_mem_list\<close> is the \<^verbatim>\<open>next\<close> field of the static list head; \<open>ref_list\<close> is the static array,
  of which only the indices below \<open>REF_CAP\<close> exist; \<open>ram\<close> is the physical memory.
\<close>

record pmm =
  ram :: mem
  g_mem_size :: uint64
  free_mem_start_addr :: uint64
  free_mem_end_addr :: uint64
  g_free_mem_list :: addr
  ref_list :: "nat \<Rightarrow> ref_unit"
  ref_total :: int
  page_latch :: int

abbreviation (input) REF_CAP :: int where "REF_CAP \<equiv> 0x4000"

section \<open>The reference-count table\<close>

text \<open>
  The search loop that \<^verbatim>\<open>ref_find\<close> and \<^verbatim>\<open>ref_erase\<close> share: the index of the entry found, if
  any. Indices are C \<^verbatim>\<open>int\<close>s below \<open>REF_CAP\<close>, so that no operation on them overflows.
\<close>

function ref_search :: "(nat \<Rightarrow> ref_unit) \<Rightarrow> uint64 \<Rightarrow> int \<Rightarrow> int \<Rightarrow> int option" where
  "ref_search a p left right =
     (if left \<le> right
      then (let mid = (left + right) div 2
            in if ru_pa (a (nat mid)) = p then Some mid
               else if ru_pa (a (nat mid)) < p then ref_search a p (mid + 1) right
               else ref_search a p left (mid - 1))
      else None)"
  by pat_completeness auto
termination by (relation "measure (\<lambda>(a, p, l, r). nat (r - l + 1))") auto

function ref_lower :: "(nat \<Rightarrow> ref_unit) \<Rightarrow> uint64 \<Rightarrow> int \<Rightarrow> int \<Rightarrow> int \<Rightarrow> int" where
  "ref_lower a p left right idx =
     (if left \<le> right
      then (let mid = (left + right) div 2
            in if ru_pa (a (nat mid)) < p then ref_lower a p (mid + 1) right idx
               else ref_lower a p left (mid - 1) mid)
      else idx)"
  by pat_completeness auto
termination by (relation "measure (\<lambda>(a, p, l, r, i). nat (r - l + 1))") auto

declare ref_search.simps [simp del] ref_lower.simps [simp del]

definition ref_find :: "uint64 \<Rightarrow> pmm \<Rightarrow> int \<times> pmm" where
  "ref_find p s =
     (case ref_search (ref_list s) p 0 (ref_total s - 1) of
        Some mid \<Rightarrow>
          (let u = ref_list s (nat mid)
           in (1, s\<lparr>ref_list := (ref_list s)(nat mid := u\<lparr>ru_ref := ru_ref u + 1\<rparr>)\<rparr>))
      | None \<Rightarrow> (0, s))"

text \<open>\<^verbatim>\<open>memmove\<close> of \<open>n\<close> array elements from index \<open>src\<close> to index \<open>dst\<close>.\<close>

definition arr_move :: "(nat \<Rightarrow> 'a) \<Rightarrow> nat \<Rightarrow> nat \<Rightarrow> nat \<Rightarrow> (nat \<Rightarrow> 'a)" where
  "arr_move a dst src n = (\<lambda>i. if dst \<le> i \<and> i < dst + n then a (src + (i - dst)) else a i)"

definition ref_insert :: "uint64 \<Rightarrow> pmm \<Rightarrow> pmm res" where
  "ref_insert p s =
     (let (r, s) = ref_find p s
      in if r = 1 then Inr s
         else (let idx = ref_lower (ref_list s) p 0 (ref_total s - 1) 0;
                   a = arr_move (ref_list s) (nat (idx + 1)) (nat idx) (nat (ref_total s - idx))
               in if ref_total s < REF_CAP
                  then Inr (s\<lparr>ref_list := a(nat idx := \<lparr>ru_pa = p, ru_ref = 1\<rparr>),
                              ref_total := ref_total s + 1\<rparr>)
                  else Inl (Undefined ''ref_list overflow'')))"

definition ref_erase :: "uint64 \<Rightarrow> pmm \<Rightarrow> int \<times> pmm" where
  "ref_erase p s =
     (case ref_search (ref_list s) p 0 (ref_total s - 1) of
        Some mid \<Rightarrow>
          (let u = ref_list s (nat mid);
               a = (ref_list s)(nat mid := u\<lparr>ru_ref := ru_ref u - 1\<rparr>)
           in if ru_ref u - 1 = 0
              then (1, s\<lparr>ref_list := arr_move a (nat mid) (nat (mid + 1)) (nat (ref_total s - mid - 1)),
                         ref_total := ref_total s - 1\<rparr>)
              else (0, s\<lparr>ref_list := a\<rparr>))
      | None \<Rightarrow> (1, s))"

section \<open>Allocation and release\<close>

definition lock_pages :: "pmm \<Rightarrow> pmm res" where
  "lock_pages s = bnd (of_loop (spinlock_lock (page_latch s))) (\<lambda>l. Inr (s\<lparr>page_latch := l\<rparr>))"

definition unlock_pages :: "pmm \<Rightarrow> pmm" where
  "unlock_pages s = s\<lparr>page_latch := spinlock_unlock (page_latch s)\<rparr>"

definition free_page :: "addr \<Rightarrow> pmm \<Rightarrow> pmm res" where
  "free_page p s =
     bnd (lock_pages s) (\<lambda>s.
       if p mod PGSIZE \<noteq> 0 \<or> p < free_mem_start_addr s \<or> p \<ge> free_mem_end_addr s
       then Inl (Panic ''free_page'')
       else (let (r, s) = ref_erase p s
             in if r = 0 then Inr (unlock_pages s)
                else bnd (st64 (ram s) p (g_free_mem_list s)) (\<lambda>m.
                       Inr (unlock_pages (s\<lparr>ram := m, g_free_mem_list := p\<rparr>)))))"

definition alloc_page :: "pmm \<Rightarrow> (addr \<times> pmm) res" where
  "alloc_page s =
     bnd (lock_pages s) (\<lambda>s.
       let n = g_free_mem_list s
       in bnd (if n \<noteq> 0
               then bnd (ld64 (ram s) n) (\<lambda>nx. Inr (s\<lparr>g_free_mem_list := nx\<rparr>))
               else Inr s) (\<lambda>s.
          bnd (ref_insert n s) (\<lambda>s. Inr (n, unlock_pages s))))"

text \<open>The loop of \<^verbatim>\<open>create_freepage_list\<close>; \<open>None\<close> would be a loop that never ends.\<close>

partial_function (option) free_pages_loop :: "addr \<Rightarrow> addr \<Rightarrow> pmm \<Rightarrow> pmm res option" where
  "free_pages_loop p e s =
     (if p + PGSIZE < e
      then (case free_page p s of
              Inl err \<Rightarrow> Some (Inl err)
            | Inr s' \<Rightarrow> free_pages_loop (p + PGSIZE) e s')
      else Some (Inr s))"

definition loop_res :: "'a res option \<Rightarrow> 'a res" where
  "loop_res r = (case r of None \<Rightarrow> Inl Diverge | Some x \<Rightarrow> x)"

definition create_freepage_list :: "addr \<Rightarrow> addr \<Rightarrow> pmm \<Rightarrow> pmm res" where
  "create_freepage_list start e s =
     loop_res (free_pages_loop (ROUNDUP start PGSIZE) e (s\<lparr>g_free_mem_list := 0\<rparr>))"

text \<open>\<open>end_sym\<close> is the address of the linker symbol \<^verbatim>\<open>_end\<close>, the end of the kernel image.\<close>

definition pmm_init :: "addr \<Rightarrow> pmm \<Rightarrow> pmm res" where
  "pmm_init end_sym s =
     (let g_kernel_start = KERN_BASE;
          g_kernel_end = end_sym;
          pke_kernel_size = g_kernel_end - g_kernel_start;
          s = s\<lparr>free_mem_start_addr := ROUNDUP g_kernel_end PGSIZE\<rparr>;
          s = s\<lparr>g_mem_size := min PKE_MAX_ALLOWABLE_RAM (g_mem_size s)\<rparr>
      in if g_mem_size s < pke_kernel_size
         then Inl (Panic ''Error when recomputing physical memory size (g_mem_size).'')
         else (let s = s\<lparr>free_mem_end_addr := g_mem_size s + DRAM_BASE\<rparr>
               in create_freepage_list (free_mem_start_addr s) (free_mem_end_addr s) s))"

section \<open>Binary searches\<close>

lemma ref_search_found:
  "ref_search a p l r = Some mid \<Longrightarrow> 0 \<le> l \<Longrightarrow> l \<le> mid \<and> mid \<le> r \<and> ru_pa (a (nat mid)) = p"
proof (induction a p l r arbitrary: mid rule: ref_search.induct)
  case (1 a p l r)
  define md where "md = (l + r) div 2"
  have lr: "l \<le> r" using 1(3) by (subst (asm) ref_search.simps) (simp split: if_splits)
  then have m: "l \<le> md" "md \<le> r" by (auto simp: md_def)
  have s: "ref_search a p l r = (if ru_pa (a (nat md)) = p then Some md
      else if ru_pa (a (nat md)) < p then ref_search a p (md + 1) r else ref_search a p l (md - 1))"
    using lr by (subst ref_search.simps) (simp add: md_def [symmetric] Let_def)
  consider "ru_pa (a (nat md)) = p" | "ru_pa (a (nat md)) < p" | "\<not> ru_pa (a (nat md)) < p" "ru_pa (a (nat md)) \<noteq> p"
    by blast
  then show ?case
  proof cases
    case 1
    then show ?thesis using m "1.prems" s by simp
  next
    case 2
    then have "ref_search a p (md + 1) r = Some mid" using "1.prems" s less_imp_neq [OF 2] by simp
    from "1.IH"(1) [OF lr md_def less_imp_neq [OF 2] 2 this] m "1.prems"(2) show ?thesis by auto
  next
    case 3
    then have "ref_search a p l (md - 1) = Some mid" using "1.prems" s by auto
    from "1.IH"(2) [OF lr md_def _ _ this] 3 m "1.prems"(2) show ?thesis by auto
  qed
qed

definition sorted_seg :: "(nat \<Rightarrow> ref_unit) \<Rightarrow> int \<Rightarrow> int \<Rightarrow> bool" where
  "sorted_seg a l r \<longleftrightarrow> (\<forall>i j. l \<le> i \<and> i < j \<and> j \<le> r \<longrightarrow> ru_pa (a (nat i)) < ru_pa (a (nat j)))"

lemma sorted_seg_sub: "sorted_seg a l r \<Longrightarrow> l \<le> l' \<Longrightarrow> r' \<le> r \<Longrightarrow> sorted_seg a l' r'"
  by (auto simp: sorted_seg_def)

lemma sorted_segD: "sorted_seg a l r \<Longrightarrow> l \<le> i \<Longrightarrow> i < j \<Longrightarrow> j \<le> r \<Longrightarrow> ru_pa (a (nat i)) < ru_pa (a (nat j))"
  by (auto simp: sorted_seg_def)

lemma ref_search_complete:
  assumes "sorted_seg a l r" "l \<le> i" "i \<le> r" "ru_pa (a (nat i)) = p"
  shows "ref_search a p l r \<noteq> None"
  using assms
proof (induction a p l r rule: ref_search.induct)
  case (1 a p l r)
  define mid where "mid = (l + r) div 2"
  have m: "l \<le> mid" "mid \<le> r" using 1(4,5) by (auto simp: mid_def)
  consider "i < mid" | "i = mid" | "mid < i" by linarith
  then show ?case
  proof cases
    case 1
    then have "p < ru_pa (a (nat mid))" using sorted_segD [OF "1.prems"(1), of i mid] m "1.prems" by auto
    then show ?thesis
      using "1.IH"(2) [OF _ mid_def] 1 "1.prems" m sorted_seg_sub [OF "1.prems"(1), of l "mid - 1"]
      by (subst ref_search.simps) (auto simp: mid_def [symmetric] Let_def)
  next
    case 2
    then show ?thesis using "1.prems" by (subst ref_search.simps) (auto simp: mid_def [symmetric] Let_def)
  next
    case 3
    then have "ru_pa (a (nat mid)) < p" using sorted_segD [OF "1.prems"(1), of mid i] m "1.prems" by auto
    then show ?thesis
      using "1.IH"(1) [OF _ mid_def] 3 "1.prems" m sorted_seg_sub [OF "1.prems"(1), of "mid + 1" r]
      by (subst ref_search.simps) (auto simp: mid_def [symmetric] Let_def)
  qed
qed

text \<open>
  The lower-bound search of \<^verbatim>\<open>ref_insert\<close>: the least index of the segment whose address is not
  below \<open>p\<close>, and the initial \<open>idx\<close> when there is no such index.
\<close>

lemma ref_lower_none:
  "(\<And>i. l \<le> i \<Longrightarrow> i \<le> r \<Longrightarrow> ru_pa (a (nat i)) < p) \<Longrightarrow> ref_lower a p l r idx = idx"
proof (induction a p l r idx rule: ref_lower.induct)
  case (1 a p l r idx)
  define mid where "mid = (l + r) div 2"
  show ?case
  proof (cases "l \<le> r")
    case True
    then have m: "l \<le> mid" "mid \<le> r" by (auto simp: mid_def)
    have "ref_lower a p (mid + 1) r idx = idx"
      by (rule "1.IH"(1) [OF True mid_def]) (use "1.prems" m in auto)
    then show ?thesis
      using True "1.prems" [OF m] by (subst ref_lower.simps) (simp add: mid_def [symmetric] Let_def)
  qed (subst ref_lower.simps, simp)
qed

lemma ref_lower_least:
  assumes "l \<le> k" "k \<le> r" "sorted_seg a l r" "p \<le> ru_pa (a (nat k))"
    "\<And>i. l \<le> i \<Longrightarrow> i < k \<Longrightarrow> ru_pa (a (nat i)) < p"
  shows "ref_lower a p l r idx = k"
  using assms
proof (induction a p l r idx rule: ref_lower.induct)
  case (1 a p l r idx)
  define mid where "mid = (l + r) div 2"
  have m: "l \<le> r" "l \<le> mid" "mid \<le> r" using 1(3,4) by (auto simp: mid_def)
  have s: "ref_lower a p l r idx =
      (if ru_pa (a (nat mid)) < p then ref_lower a p (mid + 1) r idx else ref_lower a p l (mid - 1) mid)"
    using m by (subst ref_lower.simps) (simp add: mid_def [symmetric] Let_def)
  consider "k < mid" | "k = mid" | "mid < k" by linarith
  then show ?case
  proof cases
    case 1
    then have "\<not> ru_pa (a (nat mid)) < p"
      using sorted_segD [OF "1.prems"(3) "1.prems"(1) 1 m(3)] "1.prems"(4) by auto
    moreover from this have "ref_lower a p l (mid - 1) mid = k"
      using 1 m by (intro "1.IH"(2) [OF m(1) mid_def]) (auto intro: "1.prems" sorted_seg_sub [OF "1.prems"(3)])
    ultimately show ?thesis by (simp add: s)
  next
    case 2
    then have "ref_lower a p l (mid - 1) mid = mid"
      by (intro ref_lower_none) (use "1.prems"(5) in auto)
    then show ?thesis using 2 "1.prems"(4) by (auto simp: s dest: leD)
  next
    case 3
    then have "ru_pa (a (nat mid)) < p" using "1.prems"(5) m by auto
    moreover from this have "ref_lower a p (mid + 1) r idx = k"
      using 3 m by (intro "1.IH"(1) [OF m(1) mid_def]) (auto intro: "1.prems" sorted_seg_sub [OF "1.prems"(3)])
    ultimately show ?thesis by (simp add: s)
  qed
qed

section \<open>The table as a list\<close>

definition refs :: "pmm \<Rightarrow> ref_unit list" where
  "refs s = map (ref_list s) [0..<nat (ref_total s)]"

definition ref_pas :: "pmm \<Rightarrow> uint64 list" where
  "ref_pas s = map ru_pa (refs s)"

definition table_ok :: "pmm \<Rightarrow> bool" where
  "table_ok s \<longleftrightarrow> 0 \<le> ref_total s \<and> ref_total s \<le> REF_CAP \<and> sorted_wrt (<) (ref_pas s) \<and>
     (\<forall>u \<in> set (refs s). ru_ref u \<noteq> 0)"

lemma length_refs [simp]: "length (refs s) = nat (ref_total s)" "length (ref_pas s) = nat (ref_total s)"
  by (simp_all add: refs_def ref_pas_def)

lemma refs_nth: "i < nat (ref_total s) \<Longrightarrow> refs s ! i = ref_list s i"
  by (simp add: refs_def)

lemma ref_pas_nth: "i < nat (ref_total s) \<Longrightarrow> ref_pas s ! i = ru_pa (ref_list s i)"
  by (simp add: refs_def ref_pas_def)

lemma table_sorted_seg: "table_ok s \<Longrightarrow> sorted_seg (ref_list s) 0 (ref_total s - 1)"
  unfolding sorted_seg_def
proof (intro allI impI)
  fix i j assume ok: "table_ok s" and ij: "0 \<le> i \<and> i < j \<and> j \<le> ref_total s - 1"
  then have "ref_pas s ! nat i < ref_pas s ! nat j"
    using sorted_wrt_nth_less [of "(<)" "ref_pas s" "nat i" "nat j"] by (simp add: table_ok_def)
  then show "ru_pa (ref_list s (nat i)) < ru_pa (ref_list s (nat j))"
    using ij by (simp add: ref_pas_nth)
qed

lemma table_distinct: "table_ok s \<Longrightarrow> distinct (ref_pas s)"
  by (auto simp: table_ok_def strict_sorted_iff)

text \<open>What the binary search returns on a sorted table.\<close>

lemma ref_search_SomeE:
  assumes "table_ok s" "p \<in> set (ref_pas s)"
  obtains i where "i < nat (ref_total s)" "ref_search (ref_list s) p 0 (ref_total s - 1) = Some (int i)"
    "ref_pas s ! i = p"
proof -
  obtain k where k: "k < nat (ref_total s)" "ref_pas s ! k = p"
    using assms(2) by (auto simp: in_set_conv_nth)
  then have "ref_search (ref_list s) p 0 (ref_total s - 1) \<noteq> None"
    by (intro ref_search_complete [OF table_sorted_seg [OF assms(1)], of "int k"]) (auto simp: ref_pas_nth)
  then obtain mid where "ref_search (ref_list s) p 0 (ref_total s - 1) = Some mid" by blast
  with ref_search_found [OF this] that [of "nat mid"] show thesis by (auto simp: ref_pas_nth)
qed

lemma ref_search_None:
  assumes "p \<notin> set (ref_pas s)"
  shows "ref_search (ref_list s) p 0 (ref_total s - 1) = None"
proof (rule ccontr)
  assume "\<not> ?thesis"
  then obtain mid where "ref_search (ref_list s) p 0 (ref_total s - 1) = Some mid" by blast
  from ref_search_found [OF this] have "ref_pas s ! nat mid = p" "nat mid < length (ref_pas s)"
    by (auto simp: ref_pas_nth)
  then show False using assms nth_mem by blast
qed

lemma set_take_drop: "set (take k xs) \<union> set (drop k xs) = set xs"
  by (metis append_take_drop_id set_append)

lemma refs_arr_update: "map (a(i := x)) [0..<n] = (map a [0..<n])[i := x]"
  by (rule nth_equalityI) (auto simp: nth_list_update)

lemma refs_arr_insert:
  assumes "i \<le> n"
  shows "map ((arr_move a (Suc i) i (n - i))(i := x)) [0..<Suc n] =
         take i (map a [0..<n]) @ x # drop i (map a [0..<n])"
  using assms by (intro nth_equalityI) (auto simp: arr_move_def nth_append nth_Cons' simp del: upt_Suc)

lemma refs_arr_delete:
  assumes "i < n"
  shows "map (arr_move a i (Suc i) (n - i - 1)) [0..<n - 1] = take i (map a [0..<n]) @ drop (Suc i) (map a [0..<n])"
  using assms by (intro nth_equalityI) (auto simp: arr_move_def nth_append)

section \<open>Reference counts\<close>

definition cnt_list :: "ref_unit list \<Rightarrow> addr \<Rightarrow> nat" where
  "cnt_list us p = (\<Sum>u \<leftarrow> us. if ru_pa u = p then unat (ru_ref u) else 0)"

definition ref_count :: "pmm \<Rightarrow> addr \<Rightarrow> nat" where
  "ref_count s = cnt_list (refs s)"

lemma cnt_list_simps [simp]:
  "cnt_list [] p = 0"
  "cnt_list (u # us) p = (if ru_pa u = p then unat (ru_ref u) else 0) + cnt_list us p"
  "cnt_list (us @ vs) p = cnt_list us p + cnt_list vs p"
  by (simp_all add: cnt_list_def)

lemma cnt_list_notin [simp]: "p \<notin> ru_pa ` set us \<Longrightarrow> cnt_list us p = 0"
  by (induction us) auto

lemma cnt_list_split:
  assumes "i < length us"
  shows "cnt_list us p = cnt_list (take i us) p + (if ru_pa (us ! i) = p then unat (ru_ref (us ! i)) else 0)
     + cnt_list (drop (Suc i) us) p"
  by (subst (1) id_take_nth_drop [OF assms]) simp

lemma cnt_list_nth:
  assumes "distinct (map ru_pa us)" "i < length us"
  shows "cnt_list us (ru_pa (us ! i)) = unat (ru_ref (us ! i))"
    "cnt_list (take i us) (ru_pa (us ! i)) = 0" "cnt_list (drop (Suc i) us) (ru_pa (us ! i)) = 0"
proof -
  have "distinct (map ru_pa (take i us) @ ru_pa (us ! i) # map ru_pa (drop (Suc i) us))"
    using assms(1) id_take_nth_drop [OF assms(2)] by (metis list.simps(9) map_append)
  then have "ru_pa (us ! i) \<notin> ru_pa ` set (take i us)" "ru_pa (us ! i) \<notin> ru_pa ` set (drop (Suc i) us)"
    by auto
  then show "cnt_list (take i us) (ru_pa (us ! i)) = 0" "cnt_list (drop (Suc i) us) (ru_pa (us ! i)) = 0"
    by simp_all
  then show "cnt_list us (ru_pa (us ! i)) = unat (ru_ref (us ! i))"
    using cnt_list_split [OF assms(2)] by simp
qed

lemma ref_count_0_iff: "table_ok s \<Longrightarrow> ref_count s p = 0 \<longleftrightarrow> p \<notin> set (ref_pas s)"
proof
  assume ok: "table_ok s" and z: "ref_count s p = 0"
  show "p \<notin> set (ref_pas s)"
  proof
    assume "p \<in> set (ref_pas s)"
    then obtain i where i: "i < length (refs s)" "p = ru_pa (refs s ! i)"
      by (auto simp: ref_pas_def in_set_conv_nth)
    then have "ref_count s p = unat (ru_ref (refs s ! i))"
      using cnt_list_nth(1) [OF table_distinct [OF ok, unfolded ref_pas_def] i(1)] by (simp add: ref_count_def)
    moreover have "ru_ref (refs s ! i) \<noteq> 0" using ok i(1) by (simp add: table_ok_def del: length_refs)
    ultimately show False using z by (simp add: unat_eq_0)
  qed
qed (simp add: ref_count_def ref_pas_def)

text \<open>The three outcomes of a table operation, as changes of the list of entries.\<close>

lemma refs_bump:
  assumes ok: "table_ok s" and i: "i < nat (ref_total s)" "ref_pas s ! i = p" and w: "w \<noteq> 0"
  defines "s' \<equiv> s\<lparr>ref_list := (ref_list s)(i := (ref_list s i)\<lparr>ru_ref := w\<rparr>)\<rparr>"
  shows "table_ok s'" "ref_pas s' = ref_pas s" "ref_count s' = (ref_count s)(p := unat w)"
proof -
  have r: "refs s' = (refs s)[i := (refs s ! i)\<lparr>ru_ref := w\<rparr>]"
    using i(1) by (simp add: s'_def refs_def refs_arr_update)
  show p: "ref_pas s' = ref_pas s"
    unfolding ref_pas_def r map_update by (simp add: list_update_same_conv i)
  have il: "i < length (refs s)" and ip: "ru_pa (refs s ! i) = p"
    using i by (auto simp: ref_pas_def refs_nth)
  note n = cnt_list_nth [OF table_distinct [OF ok, unfolded ref_pas_def] il, unfolded ip]
  show "ref_count s' = (ref_count s)(p := unat w)"
  proof
    fix q
    show "ref_count s' q = ((ref_count s)(p := unat w)) q"
      unfolding ref_count_def r upd_conv_take_nth_drop [OF il]
      using n ip cnt_list_split [OF il, of q] by (auto simp: il)
  qed
  have "u \<in> set (refs s') \<Longrightarrow> ru_ref u \<noteq> 0" for u
    using ok w by (auto simp: r table_ok_def dest!: set_update_subset_insert [THEN subsetD])
  then show "table_ok s'" using ok p by (simp add: table_ok_def) (simp add: s'_def)
qed

lemma refs_delete:
  fixes x :: ref_unit
  assumes ok: "table_ok s" and i: "i < nat (ref_total s)" "ref_pas s ! i = p"
  defines "s' \<equiv> s\<lparr>ref_list := arr_move ((ref_list s)(i := x)) i (Suc i) (nat (ref_total s - int i - 1)),
                 ref_total := ref_total s - 1\<rparr>"
  shows "table_ok s'" "ref_pas s' = take i (ref_pas s) @ drop (Suc i) (ref_pas s)"
    "ref_count s' = (ref_count s)(p := 0)"
proof -
  let ?n = "nat (ref_total s)"
  have n: "nat (ref_total s - int i - 1) = ?n - i - 1" "nat (ref_total s - 1) = ?n - 1" using i(1) by auto
  have r: "refs s' = take i (refs s) @ drop (Suc i) (refs s)"
    using refs_arr_delete [OF i(1), of "(ref_list s)(i := x)"]
    by (simp add: s'_def refs_def n refs_arr_update drop_update_cancel)
  then show p: "ref_pas s' = take i (ref_pas s) @ drop (Suc i) (ref_pas s)"
    by (simp add: ref_pas_def take_map drop_map)
  have il: "i < length (refs s)" and ip: "ru_pa (refs s ! i) = p"
    using i by (auto simp: ref_pas_def refs_nth)
  note cn = cnt_list_nth [OF table_distinct [OF ok, unfolded ref_pas_def] il, unfolded ip]
  show "ref_count s' = (ref_count s)(p := 0)"
  proof
    fix q
    show "ref_count s' q = ((ref_count s)(p := 0)) q"
      unfolding ref_count_def r using cn ip cnt_list_split [OF il, of q] by auto
  qed
  have "sorted_wrt (<) (take i (ref_pas s) @ [ref_pas s ! i] @ drop (Suc i) (ref_pas s))"
    using ok i(1) id_take_nth_drop [of i "ref_pas s"] by (simp add: table_ok_def)
  then have "sorted_wrt (<) (ref_pas s')" unfolding p by (simp add: sorted_wrt_append)
  moreover have "u \<in> set (refs s') \<Longrightarrow> ru_ref u \<noteq> 0" for u
    using ok by (auto simp: r table_ok_def dest: in_set_takeD in_set_dropD)
  ultimately show "table_ok s'" using ok i(1) by (simp add: table_ok_def) (simp add: s'_def)
qed

lemma refs_insert:
  assumes ok: "table_ok s" and k: "k \<le> nat (ref_total s)" "ref_total s < REF_CAP"
    and lt: "\<And>i. i < k \<Longrightarrow> ref_pas s ! i < p" and gt: "\<And>i. k \<le> i \<Longrightarrow> i < nat (ref_total s) \<Longrightarrow> p < ref_pas s ! i"
  defines "s' \<equiv> s\<lparr>ref_list := (arr_move (ref_list s) (Suc k) k (nat (ref_total s - int k)))
                   (k := \<lparr>ru_pa = p, ru_ref = 1\<rparr>), ref_total := ref_total s + 1\<rparr>"
  shows "table_ok s'" "ref_pas s' = take k (ref_pas s) @ p # drop k (ref_pas s)"
    "ref_count s' = (ref_count s)(p := 1)"
proof -
  let ?n = "nat (ref_total s)"
  have n: "nat (ref_total s - int k) = ?n - k" "nat (ref_total s + 1) = Suc ?n" using k ok by (auto simp: table_ok_def)
  have r: "refs s' = take k (refs s) @ \<lparr>ru_pa = p, ru_ref = 1\<rparr> # drop k (refs s)"
    using refs_arr_insert [OF k(1), of "ref_list s" "\<lparr>ru_pa = p, ru_ref = 1\<rparr>"]
    by (simp add: s'_def refs_def n del: upt_Suc)
  then show p: "ref_pas s' = take k (ref_pas s) @ p # drop k (ref_pas s)"
    by (simp add: ref_pas_def take_map drop_map)
  have tl: "q < p" if q: "q \<in> set (take k (ref_pas s))" for q
    using q lt by (auto simp: in_set_conv_nth)
  have td: "p < q" if q: "q \<in> set (drop k (ref_pas s))" for q
    using q gt by (auto simp: in_set_conv_nth)
  have pn: "p \<notin> set (ref_pas s)"
    using tl td by (metis append_take_drop_id less_irrefl set_append UnE)
  show "ref_count s' = (ref_count s)(p := 1)"
  proof
    fix q
    have "cnt_list (refs s) q = cnt_list (take k (refs s)) q + cnt_list (drop k (refs s)) q"
      by (metis append_take_drop_id cnt_list_simps(3))
    moreover have "cnt_list (refs s) p = 0" using pn by (simp add: ref_pas_def)
    ultimately show "ref_count s' q = ((ref_count s)(p := 1)) q"
      unfolding ref_count_def r by auto
  qed
  have "sorted_wrt (<) (take k (ref_pas s) @ drop k (ref_pas s))" using ok by (simp add: table_ok_def)
  then have "sorted_wrt (<) (ref_pas s')"
    unfolding p sorted_wrt_append sorted_wrt.simps using tl td by (metis set_ConsD)
  moreover have "u \<in> set (refs s') \<Longrightarrow> ru_ref u \<noteq> 0" for u
    using ok by (auto simp: r table_ok_def dest: in_set_takeD in_set_dropD)
  ultimately show "table_ok s'" using ok k by (simp add: table_ok_def) (simp add: s'_def)
qed

section \<open>The table operations on a sorted table\<close>

lemma ref_insert_old:
  assumes "table_ok s" "p \<in> set (ref_pas s)" "ref_count s p < 2 ^ 64 - 1"
  obtains a where "ref_insert p s = Inr (s\<lparr>ref_list := a\<rparr>)" "table_ok (s\<lparr>ref_list := a\<rparr>)"
    "ref_pas (s\<lparr>ref_list := a\<rparr>) = ref_pas s"
    "ref_count (s\<lparr>ref_list := a\<rparr>) = (ref_count s)(p := ref_count s p + 1)"
proof -
  obtain i where i: "i < nat (ref_total s)" "ref_search (ref_list s) p 0 (ref_total s - 1) = Some (int i)"
    "ref_pas s ! i = p"
    by (rule ref_search_SomeE [OF assms(1,2)])
  let ?w = "ru_ref (ref_list s i) + 1"
  have c: "ref_count s p = unat (ru_ref (ref_list s i))"
    using cnt_list_nth(1) [OF table_distinct [OF assms(1), unfolded ref_pas_def], of i] i
    by (simp add: ref_count_def refs_nth ref_pas_nth)
  have w: "unat ?w = ref_count s p + 1" using assms(3) by (simp add: c unat_word_ariths)
  then have "?w \<noteq> 0" by (metis Zero_not_Suc Suc_eq_plus1 unsigned_0)
  note b = refs_bump [OF assms(1) i(1,3) this]
  show thesis
    by (rule that) (use b i w in \<open>simp_all add: ref_insert_def ref_find_def Let_def\<close>)
qed

lemma ref_insert_new:
  assumes ok: "table_ok s" and p: "p \<notin> set (ref_pas s)" "ref_pas s = [] \<or> p < last (ref_pas s)"
    and cap: "ref_total s < REF_CAP"
  obtains a where "ref_insert p s = Inr (s\<lparr>ref_list := a, ref_total := ref_total s + 1\<rparr>)"
    "table_ok (s\<lparr>ref_list := a, ref_total := ref_total s + 1\<rparr>)"
    "ref_count (s\<lparr>ref_list := a, ref_total := ref_total s + 1\<rparr>) = (ref_count s)(p := 1)"
    "set (ref_pas (s\<lparr>ref_list := a, ref_total := ref_total s + 1\<rparr>)) = insert p (set (ref_pas s))"
    "last (ref_pas (s\<lparr>ref_list := a, ref_total := ref_total s + 1\<rparr>)) =
       (if ref_pas s = [] then p else last (ref_pas s))"
proof -
  define k where "k = length (takeWhile (\<lambda>q. q < p) (ref_pas s))"
  have k: "k \<le> nat (ref_total s)" using length_takeWhile_le [of "\<lambda>q. q < p" "ref_pas s"] by (simp add: k_def)
  have lt: "ref_pas s ! i < p" if "i < k" for i
    using that by (metis k_def nth_mem set_takeWhileD takeWhile_nth)
  have gt: "p < ref_pas s ! i" if "k \<le> i" "i < nat (ref_total s)" for i
  proof -
    have "\<not> ref_pas s ! k < p"
      using that nth_length_takeWhile [of "\<lambda>q. q < p" "ref_pas s"] by (simp add: k_def)
    moreover have "ref_pas s ! k \<le> ref_pas s ! i"
      using that ok sorted_nth_mono [of "ref_pas s" k i] by (simp add: table_ok_def strict_sorted_iff)
    moreover have "ref_pas s ! i \<noteq> p" using that p(1) nth_mem [of i "ref_pas s"] by auto
    ultimately show ?thesis by auto
  qed
  have kl: "ref_pas s \<noteq> [] \<Longrightarrow> k < nat (ref_total s)"
  proof (rule ccontr)
    assume ne: "ref_pas s \<noteq> []" and "\<not> k < nat (ref_total s)"
    moreover have "0 < nat (ref_total s)" using ne by (metis length_greater_0_conv length_refs(2))
    ultimately have "last (ref_pas s) < p"
      using lt [of "nat (ref_total s) - 1"] ne by (simp add: last_conv_nth)
    then show False using ne p(2) by auto
  qed
  have idx: "ref_lower (ref_list s) p 0 (ref_total s - 1) 0 = int k"
  proof (cases "ref_pas s = []")
    case True
    then have "ref_total s - 1 < 0" using length_refs(2) [of s] by simp
    then show ?thesis using True by (subst ref_lower.simps) (simp add: k_def)
  next
    case False
    have "ru_pa (ref_list s (nat i)) < p" if "0 \<le> i" "i < int k" for i
    proof -
      have "nat i < k" using that by linarith
      moreover from this have "nat i < nat (ref_total s)" using k by (rule less_le_trans)
      ultimately show ?thesis using lt [of "nat i"] ref_pas_nth [of "nat i" s] by argo
    qed
    moreover have "p \<le> ru_pa (ref_list s (nat (int k)))"
      using gt [of k] kl [OF False] by (simp add: ref_pas_nth less_imp_le)
    ultimately show ?thesis
      using kl [OF False] by (intro ref_lower_least [OF _ _ table_sorted_seg [OF ok]]) auto
  qed
  note ins = refs_insert [OF ok k cap lt gt]
  let ?s = "s\<lparr>ref_list := (arr_move (ref_list s) (Suc k) k (nat (ref_total s - int k)))
                   (k := \<lparr>ru_pa = p, ru_ref = 1\<rparr>), ref_total := ref_total s + 1\<rparr>"
  have "nat (1 + int k) = Suc k" by simp
  then have "ref_insert p s = Inr ?s"
    using idx cap by (simp add: ref_insert_def ref_find_def ref_search_None [OF p(1)] Let_def add.commute)
  moreover have "set (ref_pas ?s) = insert p (set (ref_pas s))"
    by (simp add: ins(2) set_take_drop)
  moreover have "last (ref_pas ?s) = (if ref_pas s = [] then p else last (ref_pas s))"
  proof (cases "ref_pas s = []")
    case True
    then show ?thesis by (simp only: ins(2)) simp
  next
    case False
    then show ?thesis using kl [OF False] by (simp add: ins(2) last_append)
  qed
  ultimately show thesis using ins(1,3) by (intro that)
qed

lemma ref_erase_None [simp]: "p \<notin> set (ref_pas s) \<Longrightarrow> ref_erase p s = (1, s)"
  by (simp add: ref_erase_def ref_search_None)

lemma ref_count_nth: "table_ok s \<Longrightarrow> i < nat (ref_total s) \<Longrightarrow> ref_count s (ref_pas s ! i) = unat (ru_ref (ref_list s i))"
  using cnt_list_nth(1) [OF table_distinct [unfolded ref_pas_def], of s i]
  by (simp add: ref_count_def refs_nth ref_pas_nth)

lemma ref_erase_shared:
  assumes "table_ok s" "1 < ref_count s p"
  obtains a where "ref_erase p s = (0, s\<lparr>ref_list := a\<rparr>)" "table_ok (s\<lparr>ref_list := a\<rparr>)"
    "ref_pas (s\<lparr>ref_list := a\<rparr>) = ref_pas s"
    "ref_count (s\<lparr>ref_list := a\<rparr>) = (ref_count s)(p := ref_count s p - 1)"
proof -
  have "p \<in> set (ref_pas s)" using assms ref_count_0_iff [of s p] by auto
  then obtain i where i: "i < nat (ref_total s)" "ref_search (ref_list s) p 0 (ref_total s - 1) = Some (int i)"
    "ref_pas s ! i = p"
    by (rule ref_search_SomeE [OF assms(1)])
  let ?w = "ru_ref (ref_list s i) - 1"
  have c: "ref_count s p = unat (ru_ref (ref_list s i))" using ref_count_nth [OF assms(1) i(1)] i(3) by simp
  then have "ru_ref (ref_list s i) \<noteq> 0" using assms(2) by auto
  then have w: "unat ?w = ref_count s p - 1" by (simp add: c unat_minus_one)
  then have nz: "?w \<noteq> 0" using assms(2) by (metis unsigned_0 zero_less_diff less_numeral_extra(3))
  note b = refs_bump [OF assms(1) i(1,3) nz]
  show thesis
    by (rule that) (use b i w nz in \<open>simp_all add: ref_erase_def Let_def\<close>)
qed

lemma ref_erase_last:
  assumes "table_ok s" "ref_count s p = 1"
  obtains i a where "ref_erase p s = (1, s\<lparr>ref_list := a, ref_total := ref_total s - 1\<rparr>)"
    "table_ok (s\<lparr>ref_list := a, ref_total := ref_total s - 1\<rparr>)"
    "i < length (ref_pas s)" "ref_pas s ! i = p"
    "ref_pas (s\<lparr>ref_list := a, ref_total := ref_total s - 1\<rparr>) = take i (ref_pas s) @ drop (Suc i) (ref_pas s)"
    "ref_count (s\<lparr>ref_list := a, ref_total := ref_total s - 1\<rparr>) = (ref_count s)(p := 0)"
proof -
  have "p \<in> set (ref_pas s)" using assms ref_count_0_iff [of s p] by auto
  then obtain i where i: "i < nat (ref_total s)" "ref_search (ref_list s) p 0 (ref_total s - 1) = Some (int i)"
    "ref_pas s ! i = p"
    by (rule ref_search_SomeE [OF assms(1)])
  have c: "ref_count s p = unat (ru_ref (ref_list s i))" using ref_count_nth [OF assms(1) i(1)] i(3) by simp
  then have w: "ru_ref (ref_list s i) = 1" using assms(2) by (simp add: word_unat_eq_iff)
  have e: "nat (1 + int i) = Suc i" by simp
  show thesis
  proof (rule that [of _ i])
    let ?a = "arr_move ((ref_list s)(i := (ref_list s i)\<lparr>ru_ref := 0\<rparr>)) i (Suc i) (nat (ref_total s - int i - 1))"
    show "ref_erase p s = (1, s\<lparr>ref_list := ?a, ref_total := ref_total s - 1\<rparr>)"
      using i(2) w e by (simp add: ref_erase_def Let_def add.commute)
  qed (use refs_delete [OF assms(1) i(1,3)] i in simp_all)
qed

section \<open>The free list and the invariant of the allocator\<close>

fun flist :: "mem \<Rightarrow> addr \<Rightarrow> addr list \<Rightarrow> bool" where
  "flist m p [] \<longleftrightarrow> p = 0"
| "flist m p (q # qs) \<longleftrightarrow> p = q \<and> q \<noteq> 0 \<and> flist m (load64 m q) qs"

definition managed :: "pmm \<Rightarrow> addr \<Rightarrow> bool" where
  "managed s p \<longleftrightarrow> page_aligned p \<and> free_mem_start_addr s \<le> p \<and> p < free_mem_end_addr s"

definition bounds_ok :: "pmm \<Rightarrow> bool" where
  "bounds_ok s \<longleftrightarrow> KERN_BASE \<le> free_mem_start_addr s \<and> free_mem_end_addr s \<le> PHYS_TOP"

text \<open>
  \<open>pmm_inv s ps\<close>: the free pages are \<open>ps\<close>, in list order. They are distinct managed pages without an
  entry in the table. The table also keeps an entry above every free page once a page has been
  handed out: the lower-bound search of \<^verbatim>\<open>ref_insert\<close> needs it (the kernel's page directory, the
  highest page, is allocated first and never released).
\<close>

definition pmm_inv :: "pmm \<Rightarrow> addr list \<Rightarrow> bool" where
  "pmm_inv s ps \<longleftrightarrow> bounds_ok s \<and> page_latch s = 0 \<and> table_ok s \<and>
     flist (ram s) (g_free_mem_list s) ps \<and> distinct ps \<and>
     (\<forall>p \<in> set ps. managed s p \<and> p \<notin> set (ref_pas s)) \<and>
     (\<forall>p \<in> set (ref_pas s). p = 0 \<or> managed s p) \<and>
     (\<forall>p \<in> set ps. if ref_pas s = [] then p \<le> hd ps else p < last (ref_pas s))"

lemma flist_unique: "flist m p xs \<Longrightarrow> flist m p ys \<Longrightarrow> xs = ys"
proof (induction xs arbitrary: p ys)
  case Nil
  then show ?case by (cases ys) auto
next
  case (Cons x xs)
  then show ?case by (cases ys) auto
qed

lemma flist_cong: "(\<And>q. q \<in> set ps \<Longrightarrow> load64 m' q = load64 m q) \<Longrightarrow> flist m' p ps \<longleftrightarrow> flist m p ps"
  by (induction ps arbitrary: p) auto

lemma pmm_inv_unique: "pmm_inv s ps \<Longrightarrow> pmm_inv s qs \<Longrightarrow> ps = qs"
  by (auto simp: pmm_inv_def intro: flist_unique)

lemma page_room:
  assumes "page_aligned p" "KERN_BASE \<le> p" "p < PHYS_TOP"
  shows "ram_ok p 4096"
proof -
  obtain k where k: "unat p = 4096 * k" using assms(1) by (auto simp: page_aligned_iff)
  have "unat p < unat PHYS_TOP" using assms(3) by (simp add: word_less_nat_alt)
  then have "4096 * k + 4096 \<le> unat PHYS_TOP" using k by simp
  then show ?thesis using assms(2) k by (simp add: ram_ok_def)
qed

lemma managed_ram_ok: "bounds_ok s \<Longrightarrow> managed s p \<Longrightarrow> ram_ok p 4096"
  by (intro page_room) (auto simp: bounds_ok_def managed_def)

lemma ram_ok_mono: "ram_ok a n \<Longrightarrow> k \<le> n \<Longrightarrow> ram_ok a k"
  by (auto simp: ram_ok_def)

lemma managed_nonzero: "bounds_ok s \<Longrightarrow> managed s p \<Longrightarrow> p \<noteq> 0"
  by (auto simp: bounds_ok_def managed_def)

lemma managed_ld64: "bounds_ok s \<Longrightarrow> managed s p \<Longrightarrow> ld64 m p = Inr (load64 m p)"
  using ram_ok_mono [OF managed_ram_ok, of s p 8]
  by (simp add: ld64_def managed_def page_aligned_mod8)

lemma managed_st64: "bounds_ok s \<Longrightarrow> managed s p \<Longrightarrow> st64 m p v = Inr (store64 m p v)"
  using ram_ok_mono [OF managed_ram_ok, of s p 8]
  by (simp add: st64_def managed_def page_aligned_mod8)

lemma refs_cong [simp]:
  "refs (s\<lparr>page_latch := l\<rparr>) = refs s" "refs (s\<lparr>g_free_mem_list := f\<rparr>) = refs s" "refs (s\<lparr>ram := m\<rparr>) = refs s"
  "ref_pas (s\<lparr>page_latch := l\<rparr>) = ref_pas s" "ref_pas (s\<lparr>g_free_mem_list := f\<rparr>) = ref_pas s"
  "ref_pas (s\<lparr>ram := m\<rparr>) = ref_pas s"
  "ref_count (s\<lparr>page_latch := l\<rparr>) = ref_count s" "ref_count (s\<lparr>g_free_mem_list := f\<rparr>) = ref_count s"
  "ref_count (s\<lparr>ram := m\<rparr>) = ref_count s"
  "table_ok (s\<lparr>page_latch := l\<rparr>) = table_ok s" "table_ok (s\<lparr>g_free_mem_list := f\<rparr>) = table_ok s"
  "table_ok (s\<lparr>ram := m\<rparr>) = table_ok s"
proof -
  show r: "refs (s\<lparr>page_latch := l\<rparr>) = refs s" "refs (s\<lparr>g_free_mem_list := f\<rparr>) = refs s" "refs (s\<lparr>ram := m\<rparr>) = refs s"
    by (simp_all add: refs_def)
qed (simp_all add: refs_def ref_pas_def ref_count_def table_ok_def)

definition same_bounds :: "pmm \<Rightarrow> pmm \<Rightarrow> bool" where
  "same_bounds s s' \<longleftrightarrow> free_mem_start_addr s' = free_mem_start_addr s \<and>
     free_mem_end_addr s' = free_mem_end_addr s \<and> g_mem_size s' = g_mem_size s"

lemma same_bounds_refl [simp]: "same_bounds s s"
  by (simp add: same_bounds_def)

lemma same_bounds_trans: "same_bounds s t \<Longrightarrow> same_bounds t u \<Longrightarrow> same_bounds s u"
  by (simp add: same_bounds_def)

lemma same_boundsD: "same_bounds s s' \<Longrightarrow> managed s' = managed s \<and> bounds_ok s' = bounds_ok s"
  by (auto simp: same_bounds_def managed_def bounds_ok_def)

lemma lock_pages_free [simp]: "page_latch s = 0 \<Longrightarrow> lock_pages s = Inr (s\<lparr>page_latch := - 1\<rparr>)"
  by (simp add: lock_pages_def)

lemma lock_pages_taken: "page_latch s \<noteq> 0 \<Longrightarrow> lock_pages s = Inl Diverge"
  by (simp add: lock_pages_def spinlock_lock_taken)

lemma pmm_inv_ram:
  assumes "pmm_inv s ps" "\<And>p. p \<in> set ps \<Longrightarrow> load64 m p = load64 (ram s) p"
  shows "pmm_inv (s\<lparr>ram := m\<rparr>) ps"
  using assms flist_cong [of ps m "ram s"]
  by (simp add: pmm_inv_def managed_def bounds_ok_def)

lemma pmm_inv_fresh: "pmm_inv s ps \<Longrightarrow> p \<in> set ps \<Longrightarrow> ref_count s p = 0 \<and> managed s p"
  using ref_count_0_iff by (auto simp: pmm_inv_def)

lemma alloc_page_some:
  assumes inv: "pmm_inv s (p # ps)" and cap: "ref_total s < REF_CAP"
  obtains s' where "alloc_page s = Inr (p, s')" "pmm_inv s' ps" "ref_count s' = (ref_count s)(p := 1)"
    "ram s' = ram s" "same_bounds s s'" "ref_total s' = ref_total s + 1" "ref_pas s' \<noteq> []"
    "last (ref_pas s') = (if ref_pas s = [] then p else last (ref_pas s))"
proof -
  let ?t = "s\<lparr>page_latch := - 1, g_free_mem_list := load64 (ram s) p\<rparr>"
  have p: "p \<notin> set (ref_pas s)" "managed s p" "p \<noteq> 0" "g_free_mem_list s = p" "page_latch s = 0"
    "bounds_ok s" and ok: "table_ok ?t"
    using inv by (auto simp: pmm_inv_def)
  have top: "ref_pas ?t = [] \<or> p < last (ref_pas ?t)" using inv by (auto simp: pmm_inv_def split: if_splits)
  obtain a where a: "ref_insert p ?t = Inr (?t\<lparr>ref_list := a, ref_total := ref_total ?t + 1\<rparr>)"
    "table_ok (?t\<lparr>ref_list := a, ref_total := ref_total ?t + 1\<rparr>)"
    "ref_count (?t\<lparr>ref_list := a, ref_total := ref_total ?t + 1\<rparr>) = (ref_count ?t)(p := 1)"
    "set (ref_pas (?t\<lparr>ref_list := a, ref_total := ref_total ?t + 1\<rparr>)) = insert p (set (ref_pas ?t))"
    "last (ref_pas (?t\<lparr>ref_list := a, ref_total := ref_total ?t + 1\<rparr>)) =
       (if ref_pas ?t = [] then p else last (ref_pas ?t))"
    by (rule ref_insert_new [OF ok _ top]) (use p cap in auto)
  let ?u = "?t\<lparr>ref_list := a, ref_total := ref_total ?t + 1\<rparr>"
  let ?s = "?u\<lparr>page_latch := 0\<rparr>"
  have "alloc_page s = Inr (p, ?s)"
    using p a(1) by (simp add: alloc_page_def managed_ld64 Let_def unlock_pages_def spinlock_unlock_def)
  moreover have st: "set (ref_pas ?s) = insert p (set (ref_pas s))" using a(4) by (simp only: refs_cong)
  moreover have la: "last (ref_pas ?s) = (if ref_pas s = [] then p else last (ref_pas s))"
    using a(5) by (simp only: refs_cong)
  moreover have ne: "ref_pas ?s \<noteq> []" using st by auto
  moreover have "pmm_inv ?s ps"
  proof -
    have "table_ok ?s" using a(2) by (simp only: refs_cong)
    moreover have "q < p" if "ref_pas s = []" "q \<in> set ps" for q
      using inv that by (auto simp: pmm_inv_def order.order_iff_strict)
    moreover have "managed ?s = managed s" "bounds_ok ?s = bounds_ok s"
      by (simp_all add: managed_def bounds_ok_def fun_eq_iff)
    ultimately show ?thesis using inv st la ne by (auto simp: pmm_inv_def)
  qed
  moreover have "ref_count ?s = (ref_count s)(p := 1)" using a(3) by (simp only: refs_cong)
  ultimately show thesis by (intro that [of ?s]) (auto simp: same_bounds_def)
qed

lemma alloc_page_none:
  assumes inv: "pmm_inv s []" and cap: "ref_total s < REF_CAP" "ref_count s 0 < 2 ^ 64 - 1"
  obtains s' where "alloc_page s = Inr (0, s')" "pmm_inv s' []" "ram s' = ram s" "same_bounds s s'"
    "ref_count s' = (ref_count s)(0 := ref_count s 0 + 1)"
proof -
  let ?t = "s\<lparr>page_latch := - 1\<rparr>"
  have ok: "table_ok ?t" and h: "g_free_mem_list s = 0" "page_latch s = 0" using inv by (auto simp: pmm_inv_def)
  obtain u where u: "ref_insert 0 ?t = Inr u" "table_ok u" "set (ref_pas u) = insert 0 (set (ref_pas s))"
    "ref_count u = (ref_count s)(0 := ref_count s 0 + 1)" "ram u = ram s" "same_bounds s u" "g_free_mem_list u = 0"
  proof (cases "0 \<in> set (ref_pas s)")
    case True
    obtain a where "ref_insert 0 ?t = Inr (?t\<lparr>ref_list := a\<rparr>)" "table_ok (?t\<lparr>ref_list := a\<rparr>)"
      "ref_pas (?t\<lparr>ref_list := a\<rparr>) = ref_pas ?t"
      "ref_count (?t\<lparr>ref_list := a\<rparr>) = (ref_count ?t)(0 := ref_count ?t 0 + 1)"
      by (rule ref_insert_old [OF ok, of 0]) (use True cap(2) in auto)
    then show thesis using True h by (intro that [of "?t\<lparr>ref_list := a\<rparr>"]) (auto simp: same_bounds_def)
  next
    case False
    have "0 < last (ref_pas s)" if "ref_pas s \<noteq> []"
      using that False last_in_set [OF that] by (metis word_neq_0_conv)
    then have top: "ref_pas ?t = [] \<or> 0 < last (ref_pas ?t)" by auto
    have z: "ref_count s 0 = 0" using False ok ref_count_0_iff [of s 0] by simp
    obtain a where "ref_insert 0 ?t = Inr (?t\<lparr>ref_list := a, ref_total := ref_total ?t + 1\<rparr>)"
      "table_ok (?t\<lparr>ref_list := a, ref_total := ref_total ?t + 1\<rparr>)"
      "ref_count (?t\<lparr>ref_list := a, ref_total := ref_total ?t + 1\<rparr>) = (ref_count ?t)(0 := 1)"
      "set (ref_pas (?t\<lparr>ref_list := a, ref_total := ref_total ?t + 1\<rparr>)) = insert 0 (set (ref_pas ?t))"
      by (rule ref_insert_new [OF ok _ top]) (use False cap in auto)
    then show thesis
      using z h by (intro that [of "?t\<lparr>ref_list := a, ref_total := ref_total ?t + 1\<rparr>"]) (auto simp: same_bounds_def)
  qed
  have "alloc_page s = Inr (0, u\<lparr>page_latch := 0\<rparr>)"
    using h u(1) by (simp add: alloc_page_def Let_def unlock_pages_def spinlock_unlock_def)
  moreover have "pmm_inv (u\<lparr>page_latch := 0\<rparr>) []"
    using inv u by (auto simp: pmm_inv_def managed_def bounds_ok_def same_bounds_def)
  ultimately show thesis using u by (intro that [of "u\<lparr>page_latch := 0\<rparr>"]) (auto simp: same_bounds_def)
qed

lemma free_page_panic:
  "page_latch s = 0 \<Longrightarrow> \<not> managed s p \<Longrightarrow> free_page p s = Inl (Panic ''free_page'')"
  by (auto simp: free_page_def managed_def page_aligned_def not_le not_less)

lemma free_page_shared:
  assumes inv: "pmm_inv s ps" and p: "managed s p" "1 < ref_count s p"
  obtains s' where "free_page p s = Inr s'" "pmm_inv s' ps" "ref_count s' = (ref_count s)(p := ref_count s p - 1)"
    "ram s' = ram s" "same_bounds s s'" "ref_pas s' = ref_pas s" "ref_total s' = ref_total s"
proof -
  let ?t = "s\<lparr>page_latch := - 1\<rparr>"
  have ok: "table_ok ?t" and h: "page_latch s = 0" using inv by (auto simp: pmm_inv_def)
  obtain a where a: "ref_erase p ?t = (0, ?t\<lparr>ref_list := a\<rparr>)" "table_ok (?t\<lparr>ref_list := a\<rparr>)"
    "ref_pas (?t\<lparr>ref_list := a\<rparr>) = ref_pas ?t"
    "ref_count (?t\<lparr>ref_list := a\<rparr>) = (ref_count ?t)(p := ref_count ?t p - 1)"
    by (rule ref_erase_shared [OF ok, of p]) (use p in auto)
  let ?s = "(?t\<lparr>ref_list := a\<rparr>)\<lparr>page_latch := 0\<rparr>"
  have "free_page p s = Inr ?s"
    using h a(1) p(1) by (simp add: free_page_def unlock_pages_def spinlock_unlock_def managed_def page_aligned_def not_le not_less)
  moreover have "ref_pas ?s = ref_pas s" "table_ok ?s" "ref_count ?s = (ref_count s)(p := ref_count s p - 1)"
    using a by (simp_all only: refs_cong)
  moreover from this have "pmm_inv ?s ps"
    using inv by (auto simp: pmm_inv_def managed_def bounds_ok_def)
  ultimately show thesis by (intro that [of ?s]) (auto simp: same_bounds_def)
qed

lemma flist_push:
  assumes "flist m q ps" "\<And>x. x \<in> set ps \<Longrightarrow> page_aligned x" "page_aligned p" "p \<notin> set ps" "p \<noteq> 0"
  shows "flist (store64 m p q) p (p # ps)"
proof -
  have "load64 (store64 m p q) x = load64 m x" if "x \<in> set ps" for x
    using assms that by (intro load64_store64_other page_aligned_dvd8) auto
  then show ?thesis using assms flist_cong [of ps "store64 m p q" m] by simp
qed

lemma delete_nth_props:
  assumes "distinct xs" "i < length xs" "xs ! i \<noteq> last xs"
  shows "set (take i xs @ drop (Suc i) xs) = set xs - {xs ! i}"
    "take i xs @ drop (Suc i) xs \<noteq> []" "last (take i xs @ drop (Suc i) xs) = last xs"
proof -
  have "i \<noteq> length xs - 1" using assms by (metis last_conv_nth length_pos_if_in_set less_nat_zero_code list.size(3))
  then have i: "Suc i < length xs" using assms(2) by linarith
  then show "take i xs @ drop (Suc i) xs \<noteq> []" "last (take i xs @ drop (Suc i) xs) = last xs"
    by (auto simp: last_append)
  have "set xs = set (take i xs) \<union> insert (xs ! i) (set (drop (Suc i) xs))"
    by (metis assms(2) id_take_nth_drop list.simps(15) set_append)
  moreover have "distinct (take i xs @ xs ! i # drop (Suc i) xs)" using assms by (metis id_take_nth_drop)
  ultimately show "set (take i xs @ drop (Suc i) xs) = set xs - {xs ! i}" by auto
qed

text \<open>
  Releasing the last reference of a page, or a page that has no entry yet (as the initialisation
  does), puts it at the front of the free list.
\<close>

lemma free_page_push:
  assumes inv: "pmm_inv s ps" and p: "managed s p" "ref_count s p \<le> 1" "p \<notin> set ps"
    and top: "if ref_pas s = [] then \<forall>q \<in> set ps. q \<le> p else p \<le> last (ref_pas s) \<and> p \<noteq> last (ref_pas s)"
  obtains s' where "free_page p s = Inr s'" "pmm_inv s' (p # ps)" "ref_count s' = (ref_count s)(p := 0)"
    "ram s' = store64 (ram s) p (g_free_mem_list s)" "same_bounds s s'"
    "ref_pas s \<noteq> [] \<Longrightarrow> ref_pas s' \<noteq> [] \<and> last (ref_pas s') = last (ref_pas s)"
    "ref_pas s = [] \<Longrightarrow> ref_pas s' = []"
proof -
  let ?t = "s\<lparr>page_latch := - 1\<rparr>"
  have ok: "table_ok ?t" and h: "page_latch s = 0" "bounds_ok s" using inv by (auto simp: pmm_inv_def)
  have d: "distinct (ref_pas s)" using ok table_distinct [of s] by simp
  obtain u where u: "ref_erase p ?t = (1, u)" "table_ok u" "set (ref_pas u) = set (ref_pas s) - {p}"
    "ref_count u = (ref_count s)(p := 0)" "ram u = ram s" "same_bounds s u" "g_free_mem_list u = g_free_mem_list s"
    "ref_pas s \<noteq> [] \<Longrightarrow> ref_pas u \<noteq> [] \<and> last (ref_pas u) = last (ref_pas s)"
    "ref_pas s = [] \<Longrightarrow> ref_pas u = []"
  proof (cases "p \<in> set (ref_pas s)")
    case False
    then have "ref_count s p = 0" using ok ref_count_0_iff [of s p] by simp
    then show thesis using False ok by (intro that [of ?t]) (auto simp: same_bounds_def fun_upd_idem)
  next
    case True
    then have "ref_count ?t p = 1" using ok p(2) ref_count_0_iff [of s p] by simp
    then obtain i a where a: "ref_erase p ?t = (1, ?t\<lparr>ref_list := a, ref_total := ref_total ?t - 1\<rparr>)"
      "table_ok (?t\<lparr>ref_list := a, ref_total := ref_total ?t - 1\<rparr>)"
      "i < length (ref_pas ?t)" "ref_pas ?t ! i = p"
      "ref_pas (?t\<lparr>ref_list := a, ref_total := ref_total ?t - 1\<rparr>) = take i (ref_pas ?t) @ drop (Suc i) (ref_pas ?t)"
      "ref_count (?t\<lparr>ref_list := a, ref_total := ref_total ?t - 1\<rparr>) = (ref_count ?t)(p := 0)"
      by (rule ref_erase_last [OF ok])
    let ?u = "?t\<lparr>ref_list := a, ref_total := ref_total ?t - 1\<rparr>"
    have "ref_pas s ! i \<noteq> last (ref_pas s)" "i < length (ref_pas s)"
      using True top a(3,4) by (auto split: if_splits)
    note dn = delete_nth_props [OF d this(2,1)]
    have e: "ref_pas ?u = take i (ref_pas s) @ drop (Suc i) (ref_pas s)" using a(5) by (simp only: refs_cong)
    have "set (ref_pas ?u) = set (ref_pas s) - {p}" unfolding e using dn(1) a(4) by simp
    moreover have "ref_pas ?u \<noteq> []" "last (ref_pas ?u) = last (ref_pas s)" unfolding e using dn(2,3) by blast+
    moreover have "ref_count ?u = (ref_count s)(p := 0)" using a(6) by (simp only: refs_cong)
    moreover have "ref_pas s \<noteq> []" using True by auto
    ultimately show thesis
      using a(1,2) by (intro that [of ?u]) (simp_all add: same_bounds_def)
  qed
  let ?s = "u\<lparr>ram := store64 (ram s) p (g_free_mem_list s), g_free_mem_list := p, page_latch := 0\<rparr>"
  have b: "bounds_ok u" "managed u p" using same_boundsD [OF u(6)] h p by auto
  have "free_page p s = Inr ?s"
    using h u(1,5,7) p(1) managed_st64 [OF b]
    by (simp add: free_page_def unlock_pages_def spinlock_unlock_def managed_def page_aligned_def not_le not_less)
  moreover have "pmm_inv ?s (p # ps)"
  proof -
    have "flist (store64 (ram s) p (g_free_mem_list s)) p (p # ps)"
      using inv p managed_nonzero [OF h(2) p(1)] by (intro flist_push) (auto simp: pmm_inv_def managed_def)
    moreover have "managed ?s = managed s" "bounds_ok ?s = bounds_ok s"
      using u(6) by (auto simp: managed_def bounds_ok_def same_bounds_def fun_eq_iff)
    moreover have "ref_pas ?s = ref_pas u" "table_ok ?s" using u(2) by simp_all
    moreover have "\<forall>q \<in> set (p # ps). if ref_pas u = [] then q \<le> p else q < last (ref_pas u)"
      using inv top u(8,9) by (auto simp: pmm_inv_def split: if_splits)
    ultimately show ?thesis using inv p u(3) by (auto simp: pmm_inv_def)
  qed
  ultimately show thesis using u by (intro that [of ?s]) (auto simp: same_bounds_def)
qed

section \<open>Initialisation\<close>

definition pages_from :: "addr \<Rightarrow> nat \<Rightarrow> addr list" where
  "pages_from p n = map (\<lambda>i. p + of_nat i * PGSIZE) [0..<n]"

lemma pages_from_Suc: "pages_from p (Suc n) = p # pages_from (p + PGSIZE) n"
  unfolding pages_from_def upt_conv_Cons [OF zero_less_Suc] map_Suc_upt [symmetric]
  by (simp add: algebra_simps del: upt_Suc)

text \<open>The number of pages that \<^verbatim>\<open>create_freepage_list\<close> releases from an aligned start address.\<close>

definition page_count :: "addr \<Rightarrow> addr \<Rightarrow> nat" where
  "page_count p e = (unat e - unat p - 1) div 4096"

lemma page_count_step:
  assumes "e \<le> PHYS_TOP" "p \<le> PHYS_TOP"
  shows "p + PGSIZE < e \<longleftrightarrow> 0 < page_count p e"
    "p + PGSIZE < e \<Longrightarrow> page_count p e = Suc (page_count (p + PGSIZE) e)"
proof -
  have b: "unat e \<le> 0x88000000" "unat p \<le> 0x88000000" using assms by (simp_all add: word_le_nat_alt)
  then have u: "unat (p + PGSIZE) = unat p + 4096" by (simp add: unat_word_ariths)
  show *: "p + PGSIZE < e \<longleftrightarrow> 0 < page_count p e"
    unfolding word_less_nat_alt u page_count_def div_greater_zero_iff by linarith
  show "p + PGSIZE < e \<Longrightarrow> page_count p e = Suc (page_count (p + PGSIZE) e)"
  proof -
    assume "p + PGSIZE < e"
    then have "unat p + 4096 < unat e" by (simp add: word_less_nat_alt u)
    then have "unat e - unat p - 1 = (unat e - unat (p + PGSIZE) - 1) + 4096" by (simp add: u)
    then show ?thesis by (simp add: page_count_def)
  qed
qed

lemma page_aligned_next: "page_aligned p \<Longrightarrow> page_aligned (p + PGSIZE)"
  by (auto simp: page_aligned_iff intro!: dvd_unat_add)

lemma free_pages_loop_inv:
  assumes "pmm_inv s ps" "ref_pas s = []" "free_mem_end_addr s = e" "page_aligned p"
    "free_mem_start_addr s \<le> p" "p \<le> PHYS_TOP" "\<And>q. q \<in> set ps \<Longrightarrow> q < p"
  shows "\<exists>s'. free_pages_loop p e s = Some (Inr s') \<and> pmm_inv s' (rev (pages_from p (page_count p e)) @ ps) \<and>
     ref_pas s' = [] \<and> same_bounds s s'"
  using assms
proof (induction "page_count p e" arbitrary: p s ps)
  case 0
  have e: "e \<le> PHYS_TOP" using 0 by (auto simp: pmm_inv_def bounds_ok_def)
  then have "\<not> p + PGSIZE < e" using page_count_step(1) [OF e] 0 by simp
  then show ?case using 0 by (subst free_pages_loop.simps) (auto simp: pages_from_def)
next
  case (Suc n)
  have e: "e \<le> PHYS_TOP" using Suc.prems by (auto simp: pmm_inv_def bounds_ok_def)
  have lt: "p + PGSIZE < e" using page_count_step(1) [OF e] Suc by simp
  note pc = page_count_step(2) [OF e Suc.prems(6) lt]
  have b: "unat e \<le> 0x88000000" "unat p \<le> 0x88000000" using e Suc.prems(6) by (simp_all add: word_le_nat_alt)
  then have u: "unat (p + PGSIZE) = unat p + 4096" by (simp add: unat_word_ariths)
  have m: "managed s p" using Suc.prems lt u by (auto simp: managed_def word_less_nat_alt)
  have c: "ref_count s p \<le> 1" using Suc.prems(1,2) ref_count_0_iff [of s p] by (simp add: pmm_inv_def)
  obtain s' where s': "free_page p s = Inr s'" "pmm_inv s' (p # ps)" "same_bounds s s'" "ref_pas s' = []"
    by (rule free_page_push [OF Suc.prems(1) m c]) (use Suc.prems in \<open>auto intro: less_imp_le\<close>)
  have "\<exists>s''. free_pages_loop (p + PGSIZE) e s' = Some (Inr s'') \<and>
     pmm_inv s'' (rev (pages_from (p + PGSIZE) (page_count (p + PGSIZE) e)) @ p # ps) \<and>
     ref_pas s'' = [] \<and> same_bounds s' s''"
  proof (rule Suc.hyps(1))
    show "n = page_count (p + PGSIZE) e" using Suc.hyps(2) pc by simp
    show "free_mem_end_addr s' = e" "free_mem_start_addr s' \<le> p + PGSIZE"
      using s'(3) Suc.prems(3,5) u by (auto simp: same_bounds_def word_le_nat_alt)
    show "p + PGSIZE \<le> PHYS_TOP" using lt e by (rule less_imp_le [OF order.strict_trans2])
    show "q < p + PGSIZE" if "q \<in> set (p # ps)" for q
      using that Suc.prems(7) [of q] u unfolding word_less_nat_alt by auto
    show "page_aligned (p + PGSIZE)" by (rule page_aligned_next [OF Suc.prems(4)])
  qed (rule s')+
  then obtain s'' where "free_pages_loop (p + PGSIZE) e s' = Some (Inr s'')"
     "pmm_inv s'' (rev (pages_from (p + PGSIZE) (page_count (p + PGSIZE) e)) @ p # ps)"
     "ref_pas s'' = []" "same_bounds s' s''" by blast
  then show ?case
    using s' lt by (subst free_pages_loop.simps) (auto simp: pc pages_from_Suc intro: same_bounds_trans)
qed

lemma ROUNDUP_page:
  assumes "0 < a" "a \<le> PHYS_TOP"
  shows "unat (ROUNDUP a PGSIZE) = ((unat a - 1) div 4096 + 1) * 4096"
    "page_aligned (ROUNDUP a PGSIZE)" "a \<le> ROUNDUP a PGSIZE" "ROUNDUP a PGSIZE \<le> PHYS_TOP"
proof -
  have a: "0 < unat a" "unat a \<le> 0x88000000" using assms by (simp_all add: word_le_nat_alt unat_gt_0)
  have "unat (a - 1) = unat a - 1" using assms by (simp add: unat_minus_one)
  then have d: "unat ((a - 1) div PGSIZE) = (unat a - 1) div 4096" by (simp add: unat_div)
  have le: "(unat a - 1) div 4096 \<le> 0x87fff" using a by auto
  show u: "unat (ROUNDUP a PGSIZE) = ((unat a - 1) div 4096 + 1) * 4096"
    unfolding ROUNDUP_def using d le by (simp add: unat_word_ariths)
  then show "page_aligned (ROUNDUP a PGSIZE)" by (simp add: page_aligned_iff)
  show "a \<le> ROUNDUP a PGSIZE" 
    unfolding word_le_nat_alt u
    using a(1) div_mult_mod_eq [of "unat a - 1" 4096] mod_less_divisor [of 4096 "unat a - 1"]
    by (simp add: add_mult_distrib)
  show "ROUNDUP a PGSIZE \<le> PHYS_TOP" unfolding word_le_nat_alt u using le by simp
qed

lemma ROUNDUP_aligned:
  assumes "page_aligned a" "0 < a" "a \<le> PHYS_TOP"
  shows "ROUNDUP a PGSIZE = a"
proof -
  obtain k where k: "unat a = 4096 * k" using assms(1) by (auto simp: page_aligned_iff)
  then have "k \<noteq> 0" using assms(2) by (metis mult_0_right unat_eq_0 word_neq_0_conv)
  then have "(4096 * k - 1) div 4096 + 1 = k" by (cases k) auto
  then have "unat (ROUNDUP a PGSIZE) = unat a" using ROUNDUP_page(1) [OF assms(2,3)] k by simp
  then show ?thesis by (rule unsigned_word_eqI)
qed

section \<open>The allocator contract\<close>

text \<open>\<open>n\<close> successive allocations, collecting the pages.\<close>

fun alloc_n :: "('s \<Rightarrow> (addr \<times> 's) res) \<Rightarrow> nat \<Rightarrow> 's \<Rightarrow> (addr list \<times> 's) res" where
  "alloc_n alloc 0 s = Inr ([], s)"
| "alloc_n alloc (Suc n) s =
     bnd (alloc s) (\<lambda>(p, s). bnd (alloc_n alloc n s) (\<lambda>(ps, s). Inr (p # ps, s)))"

text \<open>
  What the clients of the allocator rely on: \<open>inv s ps\<close> says that the free pages are \<open>ps\<close>, \<open>cnt\<close> is
  the reference count of a page, \<open>room\<close> the number of pages that can still be recorded and \<open>pin\<close> a page
  that is never released.
\<close>

locale page_allocator =
  fixes inv :: "'s \<Rightarrow> addr list \<Rightarrow> bool"
    and cnt :: "'s \<Rightarrow> addr \<Rightarrow> nat"
    and alloc :: "'s \<Rightarrow> (addr \<times> 's) res"
    and free :: "addr \<Rightarrow> 's \<Rightarrow> 's res"
    and room :: "'s \<Rightarrow> nat"
    and pin :: addr
  assumes inv_distinct: "inv s ps \<Longrightarrow> distinct ps"
    and inv_unused: "inv s ps \<Longrightarrow> p \<in> set ps \<Longrightarrow> cnt s p = 0 \<and> p \<noteq> 0 \<and> p \<noteq> pin"
    and alloc_take: "inv s (p # ps) \<Longrightarrow> 0 < room s \<Longrightarrow>
      \<exists>s'. alloc s = Inr (p, s') \<and> inv s' ps \<and> cnt s' = (cnt s)(p := 1) \<and> room s = Suc (room s')"
    and free_shared: "inv s ps \<Longrightarrow> 1 < cnt s p \<Longrightarrow> p \<noteq> 0 \<Longrightarrow>
      \<exists>s'. free p s = Inr s' \<and> inv s' ps \<and> cnt s' = (cnt s)(p := cnt s p - 1)"
    and free_last: "inv s ps \<Longrightarrow> cnt s p = 1 \<Longrightarrow> p \<noteq> 0 \<Longrightarrow> p \<noteq> pin \<Longrightarrow>
      \<exists>s'. free p s = Inr s' \<and> inv s' (p # ps) \<and> cnt s' = (cnt s)(p := 0)"
begin

lemma alloc_n_take:
  "inv s ps \<Longrightarrow> n \<le> length ps \<Longrightarrow> n \<le> room s \<Longrightarrow>
   \<exists>s'. alloc_n alloc n s = Inr (take n ps, s') \<and> inv s' (drop n ps) \<and>
     cnt s' = (\<lambda>q. if q \<in> set (take n ps) then 1 else cnt s q)"
proof (induction n arbitrary: s ps)
  case (Suc n)
  then obtain p qs where ps: "ps = p # qs" by (cases ps) auto
  obtain t where t: "alloc s = Inr (p, t)" "inv t qs" "cnt t = (cnt s)(p := 1)" "room s = Suc (room t)"
    using alloc_take [of s p qs] Suc.prems by (auto simp: ps)
  obtain u where "alloc_n alloc n t = Inr (take n qs, u)" "inv u (drop n qs)"
    "cnt u = (\<lambda>q. if q \<in> set (take n qs) then 1 else cnt t q)"
    using Suc.IH [of t qs] Suc.prems t by (auto simp: ps)
  then show ?case using t by (auto simp: ps fun_eq_iff)
qed auto

lemma alloc_n_distinct:
  assumes "inv s ps" "n \<le> length ps" "n \<le> room s"
  shows "\<exists>qs s'. alloc_n alloc n s = Inr (qs, s') \<and> length qs = n \<and> distinct qs \<and>
    (\<forall>q \<in> set qs. cnt s q = 0 \<and> cnt s' q = 1) \<and> (\<forall>q. q \<notin> set qs \<longrightarrow> cnt s' q = cnt s q)"
proof -
  obtain s' where s': "alloc_n alloc n s = Inr (take n ps, s')" "inv s' (drop n ps)"
    "cnt s' = (\<lambda>q. if q \<in> set (take n ps) then 1 else cnt s q)"
    using alloc_n_take [OF assms] by blast
  have "distinct (take n ps)" using inv_distinct [OF assms(1)] by simp
  moreover have "cnt s q = 0" if "q \<in> set (take n ps)" for q
    using inv_unused [OF assms(1)] that by (auto dest: in_set_takeD)
  ultimately show ?thesis using s' assms(2) by (intro exI [of _ "take n ps"] exI [of _ s']) auto
qed

lemma alloc_free_restores:
  assumes "inv s (p # ps)" "0 < room s"
  shows "\<exists>s'. bnd (alloc s) (\<lambda>(q, t). free q t) = Inr s' \<and> inv s' (p # ps) \<and> cnt s' = cnt s"
proof -
  obtain t where t: "alloc s = Inr (p, t)" "inv t ps" "cnt t = (cnt s)(p := 1)"
    using alloc_take [OF assms] by auto
  have p: "cnt s p = 0" "p \<noteq> 0" "p \<noteq> pin" using inv_unused [OF assms(1)] by auto
  obtain u where "free p t = Inr u" "inv u (p # ps)" "cnt u = (cnt t)(p := 0)"
    using free_last [OF t(2), of p] p t(3) by auto
  then show ?thesis using t p by (auto simp: fun_eq_iff)
qed

end

text \<open>
  The code after the first page \<open>pin\<close> has been taken (the page directory of the kernel, which is
  never released).
\<close>

definition booted :: "addr \<Rightarrow> pmm \<Rightarrow> addr list \<Rightarrow> bool" where
  "booted pin s ps \<longleftrightarrow> pmm_inv s ps \<and> ref_pas s \<noteq> [] \<and> last (ref_pas s) = pin"

definition table_room :: "pmm \<Rightarrow> nat" where
  "table_room s = nat (REF_CAP - ref_total s)"

lemma booted_managed: "booted pin s ps \<Longrightarrow> ref_count s p \<noteq> 0 \<Longrightarrow> p \<noteq> 0 \<Longrightarrow> managed s p"
  using ref_count_0_iff [of s p] by (auto simp: booted_def pmm_inv_def)

lemma booted_last_in: "booted pin s ps \<Longrightarrow> pin \<in> set (ref_pas s) \<and> (\<forall>p \<in> set (ref_pas s). p \<le> pin)"
proof
  assume b: "booted pin s ps"
  then show "pin \<in> set (ref_pas s)" by (auto simp: booted_def)
  show "\<forall>p \<in> set (ref_pas s). p \<le> pin"
  proof
    fix p assume "p \<in> set (ref_pas s)"
    then obtain i where i: "i < length (ref_pas s)" "ref_pas s ! i = p" by (auto simp: in_set_conv_nth)
    have "sorted (ref_pas s)" using b by (auto simp: booted_def pmm_inv_def table_ok_def strict_sorted_iff)
    then show "p \<le> pin"
      using b i sorted_nth_mono [of "ref_pas s" i "length (ref_pas s) - 1"]
      by (auto simp: booted_def last_conv_nth)
  qed
qed

lemma booted_free_shared:
  assumes b: "booted pin s ps" and p: "1 < ref_count s p" "p \<noteq> 0"
  shows "\<exists>s'. free_page p s = Inr s' \<and> booted pin s' ps \<and> ref_count s' = (ref_count s)(p := ref_count s p - 1) \<and>
     ram s' = ram s \<and> same_bounds s s' \<and> ref_total s' = ref_total s"
proof -
  have "managed s p" "pmm_inv s ps" using b p booted_managed [OF b, of p] by (auto simp: booted_def)
  then obtain s' where "free_page p s = Inr s'" "pmm_inv s' ps" "ref_count s' = (ref_count s)(p := ref_count s p - 1)"
    "ram s' = ram s" "same_bounds s s'" "ref_pas s' = ref_pas s" "ref_total s' = ref_total s"
    by (elim free_page_shared [OF _ _ p(1)])
  then show ?thesis using b by (simp add: booted_def)
qed

lemma booted_free_last:
  assumes b: "booted pin s ps" and p: "ref_count s p = 1" "p \<noteq> 0" "p \<noteq> pin"
  shows "\<exists>s'. free_page p s = Inr s' \<and> booted pin s' (p # ps) \<and> ref_count s' = (ref_count s)(p := 0) \<and>
     ram s' = store64 (ram s) p (g_free_mem_list s) \<and> same_bounds s s'"
proof -
  have m: "p \<in> set (ref_pas s)" "pmm_inv s ps" "managed s p"
    using b p ref_count_0_iff [of s p] booted_managed [OF b, of p] by (auto simp: booted_def pmm_inv_def)
  have n: "p \<notin> set ps" using pmm_inv_fresh [OF m(2), of p] p(1) by auto
  have t: "if ref_pas s = [] then \<forall>q \<in> set ps. q \<le> p else p \<le> last (ref_pas s) \<and> p \<noteq> last (ref_pas s)"
    using b p(3) booted_last_in [OF b] m(1) by (auto simp: booted_def)
  obtain s' where "free_page p s = Inr s'" "pmm_inv s' (p # ps)" "ref_count s' = (ref_count s)(p := 0)"
    "ram s' = store64 (ram s) p (g_free_mem_list s)" "same_bounds s s'"
    "ref_pas s \<noteq> [] \<Longrightarrow> ref_pas s' \<noteq> [] \<and> last (ref_pas s') = last (ref_pas s)"
    by (rule free_page_push [OF m(2,3) _ n t]) (simp add: p(1), blast)
  then show ?thesis using b by (simp add: booted_def)
qed

lemma booted_alloc:
  assumes b: "booted pin s (p # ps)" and r: "0 < table_room s"
  shows "\<exists>s'. alloc_page s = Inr (p, s') \<and> booted pin s' ps \<and> ref_count s' = (ref_count s)(p := 1) \<and>
     table_room s = Suc (table_room s') \<and> ram s' = ram s \<and> same_bounds s s'"
proof -
  have "ref_total s < REF_CAP" "pmm_inv s (p # ps)" using b r by (auto simp: table_room_def booted_def)
  then obtain s' where s': "alloc_page s = Inr (p, s')" "pmm_inv s' ps" "ref_count s' = (ref_count s)(p := 1)"
    "ram s' = ram s" "same_bounds s s'" "ref_total s' = ref_total s + 1" "ref_pas s' \<noteq> []"
    "last (ref_pas s') = (if ref_pas s = [] then p else last (ref_pas s))"
    by (elim alloc_page_some [rotated])
  moreover have "table_room s = Suc (table_room s')" using s'(6) r by (simp add: table_room_def)
  ultimately show ?thesis using b by (auto simp: booted_def)
qed

interpretation pa: page_allocator "booted pin" ref_count alloc_page free_page table_room pin for pin
proof
  fix s ps p assume b: "booted pin s ps"
  then show "distinct ps" by (simp add: booted_def pmm_inv_def)
  show "p \<in> set ps \<Longrightarrow> ref_count s p = 0 \<and> p \<noteq> 0 \<and> p \<noteq> pin"
    using b booted_last_in [OF b] pmm_inv_fresh [of s ps p] managed_nonzero [of s p]
    by (auto simp: booted_def pmm_inv_def)
qed (use booted_free_shared booted_free_last booted_alloc in meson)+

lemma pmm_init_spec:
  assumes "KERN_BASE < end_sym" "end_sym - KERN_BASE \<le> min PKE_MAX_ALLOWABLE_RAM (g_mem_size s)"
    "ref_total s = 0" "page_latch s = 0"
  shows "\<exists>s'. pmm_init end_sym s = Inr s' \<and>
     free_mem_start_addr s' = ROUNDUP end_sym PGSIZE \<and>
     free_mem_end_addr s' = DRAM_BASE + min PKE_MAX_ALLOWABLE_RAM (g_mem_size s) \<and>
     pmm_inv s' (rev (pages_from (free_mem_start_addr s')
                       (page_count (free_mem_start_addr s') (free_mem_end_addr s')))) \<and>
     (\<forall>p. ref_count s' p = 0)"
proof -
  define sz where "sz = min PKE_MAX_ALLOWABLE_RAM (g_mem_size s)"
  define e where "e = sz + DRAM_BASE"
  let ?st = "ROUNDUP end_sym PGSIZE"
  let ?s = "s\<lparr>free_mem_start_addr := ?st, g_mem_size := sz, free_mem_end_addr := e, g_free_mem_list := 0\<rparr>"
  have sz: "unat sz \<le> 0x8000000"
    using word_le_nat_alt [of sz PKE_MAX_ALLOWABLE_RAM] by (simp add: sz_def)
  then have ue: "unat e = unat sz + 0x80000000" by (simp add: e_def unat_word_ariths)
  have ge: "unat KERN_BASE < unat end_sym" using assms(1) by (simp add: word_less_nat_alt)
  then have "unat (end_sym - KERN_BASE) = unat end_sym - 0x80000000" by (simp add: unat_sub_if')
  moreover have "unat (end_sym - KERN_BASE) \<le> unat sz" using assms(2) by (simp add: sz_def word_le_nat_alt)
  ultimately have le: "end_sym \<le> PHYS_TOP" "0 < end_sym"
    using sz ge by (auto simp: word_le_nat_alt word_less_nat_alt)
  note ru = ROUNDUP_page [OF le(2,1)]
  have rp: "ref_pas ?s = []" using assms(3) by (simp add: ref_pas_def refs_def)
  have st: "KERN_BASE \<le> ?st" by (rule order.trans [OF less_imp_le [OF assms(1)] ru(3)])
  have en: "e \<le> PHYS_TOP" using ue sz by (simp add: word_le_nat_alt)
  have "pmm_inv ?s []"
    using st en assms(3,4) rp by (simp add: pmm_inv_def bounds_ok_def table_ok_def ref_pas_def refs_def)
  from free_pages_loop_inv [OF this rp, of e ?st] ru
  obtain s' where l: "free_pages_loop ?st e ?s = Some (Inr s')" "pmm_inv s' (rev (pages_from ?st (page_count ?st e)))"
    "ref_pas s' = []" "same_bounds ?s s'"
    by auto
  have "0 < ?st" by (rule order.strict_trans2 [OF le(2) ru(3)])
  then have "ROUNDUP ?st PGSIZE = ?st" using ru by (intro ROUNDUP_aligned)
  then have "create_freepage_list ?st e (s\<lparr>free_mem_start_addr := ?st, g_mem_size := sz, free_mem_end_addr := e\<rparr>) = Inr s'"
    using l(1) by (simp add: create_freepage_list_def loop_res_def)
  moreover have "\<not> sz < end_sym - KERN_BASE" using assms(2) by (simp add: sz_def not_less)
  ultimately have "pmm_init end_sym s = Inr s'"
    by (simp add: pmm_init_def Let_def sz_def [symmetric] e_def [symmetric])
  moreover have "ref_count s' p = 0" for p using l(3) by (simp add: ref_count_def ref_pas_def)
  ultimately show ?thesis
    using l(2,4) by (intro exI [of _ s']) (simp add: same_bounds_def sz_def [symmetric] e_def add.commute)
qed

section \<open>Properties\<close>



text \<open>A small allocator state: the page at \<open>0x80102000\<close> is taken, the two pages below it are free.\<close>

definition ex_pmm :: pmm where
  "ex_pmm = \<lparr>ram = store64 (\<lambda>_. 0) 0x80101000 0x80100000, g_mem_size = 0x103000,
     free_mem_start_addr = 0x80100000, free_mem_end_addr = 0x80103000, g_free_mem_list = 0x80101000,
     ref_list = (\<lambda>_. \<lparr>ru_pa = 0, ru_ref = 0\<rparr>)(0 := \<lparr>ru_pa = 0x80102000, ru_ref = 1\<rparr>),
     ref_total = 1, page_latch = 0\<rparr>"

lemma ex_pmm_load: "load64 (ram ex_pmm) 0x80101000 = 0x80100000" "load64 (ram ex_pmm) 0x80100000 = 0"
  by (simp_all add: ex_pmm_def load64_store64_other load64_zero)

lemma ex_pmm_booted: "booted 0x80102000 ex_pmm [0x80101000, 0x80100000]"
  unfolding booted_def pmm_inv_def bounds_ok_def table_ok_def
  using ex_pmm_load
  by (simp add: ref_pas_def refs_def managed_def page_aligned_def) (simp add: ex_pmm_def)

text \<open>
  \<open>n\<close> successive calls of \<^verbatim>\<open>alloc_page\<close>, while that many pages are free and the
  reference table has room, all succeed and return \<open>n\<close> pairwise different pages, none of which was
  in use; each of them has reference count 1 afterwards and no other count changes.
\<close>

theorem alloc_page_distinct:
  assumes "booted pin s ps" "n \<le> length ps" "n \<le> table_room s"
  shows "\<exists>qs s'. alloc_n alloc_page n s = Inr (qs, s') \<and> length qs = n \<and> distinct qs \<and>
    (\<forall>q \<in> set qs. ref_count s q = 0 \<and> ref_count s' q = 1) \<and>
    (\<forall>q. q \<notin> set qs \<longrightarrow> ref_count s' q = ref_count s q)"
  by (rule pa.alloc_n_distinct [OF assms])

theorem alloc_page_distinct_witness:
  "\<exists>qs s'. alloc_n alloc_page 2 ex_pmm = Inr (qs, s') \<and> length qs = 2 \<and> distinct qs"
proof -
  have "2 \<le> table_room ex_pmm" by (simp add: table_room_def ex_pmm_def)
  from alloc_page_distinct [OF ex_pmm_booted _ this] show ?thesis by auto
qed

text \<open>
  \<^verbatim>\<open>free_page\<close> on a page in use never fails: it lowers the reference count by one, and exactly
  when that was the last reference the page goes to the front of the free list and its first word is
  overwritten by the link; a page that is still shared keeps its contents and stays allocated. The
  latch is released on both paths.
\<close>

theorem free_page_correct:
  assumes "booted pin s ps" "0 < ref_count s p" "p \<noteq> 0" "p \<noteq> pin"
  shows "\<exists>s'. free_page p s = Inr s' \<and> ref_count s' = (ref_count s)(p := ref_count s p - 1) \<and>
    booted pin s' (if ref_count s p = 1 then p # ps else ps) \<and> page_latch s' = 0 \<and>
    ram s' = (if ref_count s p = 1 then store64 (ram s) p (g_free_mem_list s) else ram s)"
proof (cases "ref_count s p = 1")
  case True
  then show ?thesis using booted_free_last [OF assms(1) True assms(3,4)] by (auto simp: booted_def pmm_inv_def)
next
  case False
  then have "1 < ref_count s p" using assms(2) by simp
  from booted_free_shared [OF assms(1) this assms(3)] False show ?thesis by (auto simp: booted_def pmm_inv_def)
qed

theorem free_page_correct_witness:
  "\<exists>s t. alloc_page ex_pmm = Inr (0x80101000, s) \<and> free_page 0x80101000 s = Inr t \<and>
     booted 0x80102000 t [0x80101000, 0x80100000] \<and> ref_count t 0x80101000 = 0"
proof -
  obtain s where s: "alloc_page ex_pmm = Inr (0x80101000, s)" "booted 0x80102000 s [0x80100000]"
    "ref_count s = (ref_count ex_pmm)(0x80101000 := 1)"
    using booted_alloc [OF ex_pmm_booted] by (auto simp: table_room_def ex_pmm_def)
  have "0 < ref_count s 0x80101000" by (simp add: s(3))
  from free_page_correct [OF s(2) this] s(1,3) show ?thesis by auto
qed

text \<open>
  Allocating a page and releasing it again brings the allocator back: the same pages are free in the
  same order and every reference count is what it was.
\<close>

theorem alloc_free_roundtrip:
  assumes "booted pin s (p # ps)" "0 < table_room s"
  shows "\<exists>s'. bnd (alloc_page s) (\<lambda>(q, t). free_page q t) = Inr s' \<and> booted pin s' (p # ps) \<and>
    ref_count s' = ref_count s"
  by (rule pa.alloc_free_restores [OF assms])

theorem alloc_free_roundtrip_witness:
  "\<exists>s'. bnd (alloc_page ex_pmm) (\<lambda>(q, t). free_page q t) = Inr s' \<and> ref_count s' = ref_count ex_pmm"
proof -
  have "0 < table_room ex_pmm" by (simp add: table_room_def ex_pmm_def)
  from alloc_free_roundtrip [OF ex_pmm_booted this] show ?thesis by blast
qed

text \<open>
  When no page is free, \<^verbatim>\<open>alloc_page\<close> returns the null pointer, leaves the free list and the
  memory as they are, and records a reference for address 0.
\<close>

theorem alloc_page_exhausted:
  assumes "pmm_inv s []" "ref_total s < REF_CAP" "ref_count s 0 < 2 ^ 64 - 1"
  shows "\<exists>s'. alloc_page s = Inr (0, s') \<and> pmm_inv s' [] \<and> ram s' = ram s \<and>
    ref_count s' = (ref_count s)(0 := ref_count s 0 + 1)"
  using alloc_page_none [OF assms] by metis

theorem alloc_page_exhausted_witness:
  "\<exists>t. alloc_page (ex_pmm\<lparr>g_free_mem_list := 0\<rparr>) = Inr (0, t) \<and> ram t = ram ex_pmm"
proof -
  let ?s = "ex_pmm\<lparr>g_free_mem_list := 0\<rparr>"
  have "pmm_inv ?s []" using ex_pmm_booted by (auto simp: booted_def pmm_inv_def managed_def bounds_ok_def)
  moreover have "ref_total ?s < REF_CAP" "ref_count ?s 0 < 2 ^ 64 - 1"
    by (simp_all add: ref_count_def refs_def ex_pmm_def)
  ultimately show ?thesis using alloc_page_exhausted [of ?s] by auto
qed

text \<open>
  \<^verbatim>\<open>ref_insert\<close> means to keep \<^verbatim>\<open>ref_list\<close> sorted by inserting at the first entry not
  below the new address, but its search leaves the index at 0 when every entry is below: an address
  above all entries of a non-empty table is put in front, and the table is no longer sorted.
\<close>

theorem ref_insert_above_all:
  assumes "table_ok s" "ref_pas s \<noteq> []" "\<forall>q \<in> set (ref_pas s). q < p" "ref_total s < REF_CAP"
  shows "\<exists>s'. ref_insert p s = Inr s' \<and> ref_pas s' = p # ref_pas s \<and> \<not> table_ok s'"
proof -
  have n: "p \<notin> set (ref_pas s)" using assms(3) by auto
  have t: "0 \<le> ref_total s" using assms(1) by (simp add: table_ok_def)
  have "ru_pa (ref_list s (nat i)) < p" if "0 \<le> i" "i \<le> ref_total s - 1" for i
    using assms(3) that nth_mem [of "nat i" "ref_pas s"] ref_pas_nth [of "nat i" s] by simp
  then have idx: "ref_lower (ref_list s) p 0 (ref_total s - 1) 0 = 0" by (intro ref_lower_none)
  let ?s = "s\<lparr>ref_list := (arr_move (ref_list s) (Suc 0) 0 (nat (ref_total s)))(0 := \<lparr>ru_pa = p, ru_ref = 1\<rparr>),
             ref_total := ref_total s + 1\<rparr>"
  have "ref_insert p s = Inr ?s"
    using idx assms(4) by (simp add: ref_insert_def ref_find_def ref_search_None [OF n] Let_def)
  moreover have "refs ?s = \<lparr>ru_pa = p, ru_ref = 1\<rparr> # refs s"
    using refs_arr_insert [of 0 "nat (ref_total s)" "ref_list s"] t
    by (simp add: refs_def nat_add_distrib del: upt_Suc)
  then have e: "ref_pas ?s = p # ref_pas s" by (simp add: ref_pas_def)
  moreover have "\<not> table_ok ?s"
  proof
    assume "table_ok ?s"
    then have "sorted_wrt (<) (p # ref_pas s)" unfolding table_ok_def e by blast
    then have "p < hd (ref_pas s)" using assms(2) by simp
    then show False using assms(2,3) by (metis hd_in_set less_asym)
  qed
  ultimately show ?thesis by blast
qed

theorem ref_insert_above_all_witness:
  "\<exists>s'. ref_insert 0x80103000 ex_pmm = Inr s' \<and> ref_pas s' = [0x80103000, 0x80102000] \<and> \<not> table_ok s'"
proof -
  have e: "ref_pas ex_pmm = [0x80102000]" by (simp add: ref_pas_def refs_def ex_pmm_def)
  have "table_ok ex_pmm" using ex_pmm_booted by (simp add: booted_def pmm_inv_def)
  moreover have "ref_total ex_pmm < REF_CAP" by (simp add: ex_pmm_def)
  ultimately show ?thesis using ref_insert_above_all [of ex_pmm "0x80103000"] by (simp add: e)
qed


end
