(* ===== verification/Vmm.thy ===== *)
theory Vmm
  imports Pmm
begin

text \<open>
  Virtual memory, \<^verbatim>\<open>kernel/vmm.c\<close>: Sv39 page tables in physical memory, walked by
  \<^verbatim>\<open>page_walk\<close> and filled by \<^verbatim>\<open>map_pages\<close>, the kernel's direct map, and the user-space
  operations. A page table is abstracted to the function \<open>pte_of\<close> from virtual addresses to leaf
  entries; the lemmas show how every operation changes that function.
\<close>

section \<open>Operations\<close>

abbreviation (input) PROT_NONE :: uint32 where "PROT_NONE \<equiv> 0"
abbreviation (input) PROT_READ :: uint32 where "PROT_READ \<equiv> 1"
abbreviation (input) PROT_WRITE :: uint32 where "PROT_WRITE \<equiv> 2"
abbreviation (input) PROT_EXEC :: uint32 where "PROT_EXEC \<equiv> 4"

definition prot_to_type :: "uint32 \<Rightarrow> int \<Rightarrow> uint64" where
  "prot_to_type prot user =
     (let perm = 0;
          perm = (if prot AND PROT_READ \<noteq> 0 then perm OR (PTE_R OR PTE_A) else perm);
          perm = (if prot AND PROT_WRITE \<noteq> 0 then perm OR (PTE_W OR PTE_D) else perm);
          perm = (if prot AND PROT_EXEC \<noteq> 0 then perm OR (PTE_X OR PTE_A) else perm);
          perm = (if perm = 0 then PTE_R else perm)
      in if user \<noteq> 0 then perm OR PTE_U else perm)"

text \<open>\<^verbatim>\<open>memset\<close> on the kernel's memory.\<close>

definition kmemset :: "addr \<Rightarrow> uint32 \<Rightarrow> uint64 \<Rightarrow> pmm \<Rightarrow> pmm res" where
  "kmemset d byte len s =
     (if ram_ok d (unat len)
      then bnd (of_loop (memset (ram s) d byte len)) (\<lambda>m. Inr (s\<lparr>ram := m\<rparr>))
      else Inl (Fault d))"

text \<open>
  The loop of \<^verbatim>\<open>page_walk\<close> from level \<open>level\<close> down; \<open>pt\<close> is the table of that level. The result is
  the address of the entry, or 0 when the walk stops.
\<close>

fun walk_levels :: "nat \<Rightarrow> addr \<Rightarrow> uint64 \<Rightarrow> int \<Rightarrow> pmm \<Rightarrow> (addr \<times> pmm) res" where
  "walk_levels 0 pt va alloc s = Inr (pt + PX 0 va * 8, s)"
| "walk_levels (Suc l) pt va alloc s =
     (let pte = pt + PX (Suc l) va * 8
      in bnd (ld64 (ram s) pte) (\<lambda>e.
         if e AND PTE_V \<noteq> 0 then walk_levels l (PTE2PA e) va alloc s
         else if alloc \<noteq> 0
         then bnd (alloc_page s) (\<lambda>(pt, s).
                if pt \<noteq> 0
                then bnd (kmemset pt 0 PGSIZE s) (\<lambda>s.
                     bnd (st64 (ram s) pte (PA2PTE pt OR PTE_V)) (\<lambda>m.
                     walk_levels l pt va alloc (s\<lparr>ram := m\<rparr>)))
                else Inr (0, s))
         else Inr (0, s)))"

definition page_walk :: "addr \<Rightarrow> uint64 \<Rightarrow> int \<Rightarrow> pmm \<Rightarrow> (addr \<times> pmm) res" where
  "page_walk page_dir va alloc s =
     (if va \<ge> MAXVA then Inl (Panic ''page_walk'') else walk_levels 2 page_dir va alloc s)"

text \<open>
  The loop of \<^verbatim>\<open>map_pages\<close>. The C \<^verbatim>\<open>int\<close> permission is sign-extended when it is combined with
  the 64-bit entry. The loop ends because \<^verbatim>\<open>page_walk\<close> stops at \<open>MAXVA\<close>.
\<close>

function map_loop :: "addr \<Rightarrow> uint64 \<Rightarrow> uint64 \<Rightarrow> uint64 \<Rightarrow> uint32 \<Rightarrow> pmm \<Rightarrow> (int \<times> pmm) res" where
  "map_loop page_dir first lst pa perm s =
     (if first \<le> lst
      then bnd (page_walk page_dir first 1 s) (\<lambda>(pte, s).
             if pte = 0 then Inr (- 1, s)
             else bnd (ld64 (ram s) pte) (\<lambda>e.
               if e AND PTE_V \<noteq> 0 then Inl (Panic ''map_pages fails on mapping'')
               else bnd (st64 (ram s) pte (PA2PTE pa OR scast perm OR PTE_V)) (\<lambda>m.
                 map_loop page_dir (first + PGSIZE) lst (pa + PGSIZE) perm (s\<lparr>ram := m\<rparr>))))
      else Inr (0, s))"
  by pat_completeness auto
termination
proof (relation "measure (\<lambda>(d, first, lst, pa, perm, s). unat (MAXVA + PGSIZE) - unat first)", goal_cases)
  case (2 page_dir first lst pa perm s x xa y xb xc)
  then have "first < MAXVA" by (auto simp: page_walk_def split: if_splits)
  then have "unat first < 0x4000000000" by (simp add: word_less_nat_alt)
  moreover from this have "unat (first + PGSIZE) = unat first + 4096" by (simp add: unat_word_ariths)
  ultimately show ?case by simp
qed simp

declare map_loop.simps [simp del]

definition map_pages :: "addr \<Rightarrow> uint64 \<Rightarrow> uint64 \<Rightarrow> uint64 \<Rightarrow> uint32 \<Rightarrow> pmm \<Rightarrow> (int \<times> pmm) res" where
  "map_pages page_dir va sz pa perm s =
     map_loop page_dir (ROUNDDOWN va PGSIZE) (ROUNDDOWN (va + sz - 1) PGSIZE) pa perm s"

definition lookup_pa :: "addr \<Rightarrow> uint64 \<Rightarrow> pmm \<Rightarrow> uint64 res" where
  "lookup_pa pagetable va s =
     (if va \<ge> MAXVA then Inr 0
      else bnd (page_walk pagetable va 0 s) (\<lambda>(pte, s).
        if pte = 0 then Inr 0
        else bnd (ld64 (ram s) pte) (\<lambda>e.
          if e AND PTE_V = 0 \<or> (e AND PTE_R = 0 \<and> e AND PTE_W = 0) then Inr 0 else Inr (PTE2PA e))))"

definition kern_vm_map :: "addr \<Rightarrow> uint64 \<Rightarrow> uint64 \<Rightarrow> uint64 \<Rightarrow> uint32 \<Rightarrow> pmm \<Rightarrow> pmm res" where
  "kern_vm_map page_dir va pa sz perm s =
     bnd (map_pages page_dir va sz pa perm s) (\<lambda>(r, s).
       if r \<noteq> 0 then Inl (Panic ''kern_vm_map'') else Inr s)"

text \<open>
  \<open>etext\<close> is the linker symbol \<^verbatim>\<open>_etext\<close>. The result is the new value of
  \<^verbatim>\<open>g_kernel_pagetable\<close>; the two \<^verbatim>\<open>sprint\<close> calls only read the table.
\<close>

definition kern_vm_init :: "addr \<Rightarrow> pmm \<Rightarrow> (addr \<times> pmm) res" where
  "kern_vm_init etext s =
     bnd (alloc_page s) (\<lambda>(t_page_dir, s).
     bnd (kmemset t_page_dir 0 PGSIZE s) (\<lambda>s.
     bnd (kern_vm_map t_page_dir KERN_BASE DRAM_BASE (etext - KERN_BASE)
            (ucast (prot_to_type (PROT_READ OR PROT_EXEC) 0)) s) (\<lambda>s.
     bnd (lookup_pa t_page_dir KERN_BASE s) (\<lambda>_.
     bnd (kern_vm_map t_page_dir etext etext (PHYS_TOP - etext)
            (ucast (prot_to_type (PROT_READ OR PROT_WRITE) 0)) s) (\<lambda>s.
     bnd (lookup_pa t_page_dir etext s) (\<lambda>_.
     Inr (t_page_dir, s)))))))"

definition user_va_to_pa :: "addr \<Rightarrow> uint64 \<Rightarrow> pmm \<Rightarrow> uint64 res" where
  "user_va_to_pa page_dir va s =
     bnd (lookup_pa page_dir va s) (\<lambda>pa. Inr (pa + (va AND (push_bit PGSHIFT 1 - 1))))"

definition user_vm_map :: "addr \<Rightarrow> uint64 \<Rightarrow> uint64 \<Rightarrow> uint64 \<Rightarrow> uint32 \<Rightarrow> pmm \<Rightarrow> pmm res" where
  "user_vm_map page_dir va sz pa perm s =
     bnd (map_pages page_dir va sz pa perm s) (\<lambda>(r, s).
       if r \<noteq> 0 then Inl (Panic ''fail to user_vm_map'') else Inr s)"

definition user_vm_unmap :: "addr \<Rightarrow> uint64 \<Rightarrow> uint64 \<Rightarrow> int \<Rightarrow> pmm \<Rightarrow> pmm res" where
  "user_vm_unmap page_dir va sz free s =
     bnd (page_walk page_dir va 0 s) (\<lambda>(pte, s).
       if pte = 0 then Inl (Panic ''fail to user_vm_unmap'')
       else bnd (ld64 (ram s) pte) (\<lambda>e.
            bnd (free_page (PTE2PA e) s) (\<lambda>s.
            bnd (ld64 (ram s) pte) (\<lambda>e.
            bnd (st64 (ram s) pte (e AND NOT PTE_V)) (\<lambda>m. Inr (s\<lparr>ram := m\<rparr>))))))"

definition cow_vm_map :: "addr \<Rightarrow> uint64 \<Rightarrow> uint64 \<Rightarrow> pmm \<Rightarrow> pmm res" where
  "cow_vm_map page_dir va pa s =
     bnd (page_walk page_dir va 1 s) (\<lambda>(pte, s).
     bnd (st64 (ram s) pte (PA2PTE pa OR prot_to_type PROT_READ 1 OR PTE_RSW OR PTE_V)) (\<lambda>m.
     ref_insert pa (s\<lparr>ram := m\<rparr>)))"

section \<open>Entries and their addresses\<close>

lemma PX_less: "unat (PX l va) < 512"
proof -
  have "PX l va \<le> 0x1FF" unfolding PX_def by (rule word_and_le1)
  then show ?thesis by (simp add: word_le_nat_alt)
qed

lemma unat_PX8: "unat (PX l va * 8) = unat (PX l va) * 8"
  using PX_less [of l va] by (simp add: unat_word_ariths)

definition cell :: "addr \<Rightarrow> nat \<Rightarrow> uint64 \<Rightarrow> addr" where
  "cell t l va = t + PX l va * 8"

lemma cell_in_page: "in_page t (cell t l va)"
  using PX_less [of l va] by (simp add: in_page_def cell_def word_less_nat_alt unat_PX8)

lemma cell_dvd8: "page_aligned t \<Longrightarrow> 8 dvd unat (cell t l va)"
  unfolding cell_def by (rule dvd_unat_add) (auto simp: page_aligned_dvd8 unat_PX8)

lemma cell_inj_table: "page_aligned t \<Longrightarrow> page_aligned u \<Longrightarrow> cell t l va = cell u k vb \<Longrightarrow> t = u"
  using in_page_disjoint [of t u "cell t l va"] cell_in_page by metis

lemma cell_eq_iff: "cell t l va = cell t k vb \<longleftrightarrow> PX l va = PX k vb"
proof
  assume "cell t l va = cell t k vb"
  then have "unat (PX l va * 8) = unat (PX k vb * 8)" by (simp add: cell_def)
  then have "unat (PX l va) = unat (PX k vb)" by (simp add: unat_PX8)
  then show "PX l va = PX k vb" by (rule unsigned_word_eqI)
qed (simp add: cell_def)

lemma cell_ram_ok:
  assumes "page_aligned t" "ram_ok t 4096"
  shows "ram_ok (cell t l va) 8 \<and> cell t l va mod 8 = 0"
proof -
  have u: "unat t + 4096 \<le> 0x88000000" "0x80000000 \<le> unat t"
    using assms(2) by (auto simp: ram_ok_def word_le_nat_alt)
  have "unat (cell t l va) = unat t + unat (PX l va) * 8"
    unfolding cell_def using u PX_less [of l va] by (simp add: unat_word_ariths unat_PX8)
  then have "ram_ok (cell t l va) 8" using u PX_less [of l va] by (simp add: ram_ok_def word_le_nat_alt)
  moreover have "cell t l va mod 8 = 0" using cell_dvd8 [OF assms(1)] by (simp add: word_mod_0_iff_dvd)
  ultimately show ?thesis by simp
qed

lemma cell_ld64: "page_aligned t \<Longrightarrow> ram_ok t 4096 \<Longrightarrow> ld64 m (cell t l va) = Inr (load64 m (cell t l va))"
  by (simp add: ld64_def cell_ram_ok)

lemma cell_st64: "page_aligned t \<Longrightarrow> ram_ok t 4096 \<Longrightarrow> st64 m (cell t l va) v = Inr (store64 m (cell t l va) v)"
  by (simp add: st64_def cell_ram_ok)

lemma PTE2PA_PA2PTE:
  assumes "page_aligned pa" "f < 1024"
  shows "PTE2PA (PA2PTE pa OR f) = pa"
proof (rule bit_word_eqI)
  fix n assume n: "n < LENGTH(64)"
  have lo: "\<not> bit pa n" if "n < 12" for n
  proof -
    have "take_bit 12 pa = 0"
      using assms(1) by (simp add: page_aligned_def take_bit_eq_mod)
    then have "bit (take_bit 12 pa) n = bit (0 :: uint64) n" by simp
    then show ?thesis using that by (simp add: bit_take_bit_iff)
  qed
  have hi: "\<not> bit f n" if "10 \<le> n" for n
  proof -
    have "unat f < 2 ^ 10" using assms(2) by (simp add: word_less_nat_alt)
    then have "unat (take_bit 10 f) = unat f" by (simp add: unsigned_take_bit_eq take_bit_nat_eq_self)
    then have "take_bit 10 f = f" by (rule unsigned_word_eqI)
    then have "bit f n = bit (take_bit 10 f) n" by simp
    then show ?thesis using that by (simp add: bit_take_bit_iff)
  qed
  show "bit (PTE2PA (PA2PTE pa OR f)) n \<longleftrightarrow> bit pa n"
  proof (cases "n < 12")
    case True
    then show ?thesis using lo [OF True] by (simp add: PTE2PA_def bit_simps)
  next
    case False
    then have "10 + (n - 12) = n - 2" "12 + (n - 12) = n" "12 + (n - 2 - 10) = n" "10 \<le> n - 2" "n - 2 < 64"
      using n by auto
    then show ?thesis using n False hi [of "n - 2"] by (simp add: PTE2PA_def PA2PTE_def bit_simps)
  qed
qed

lemma PTE_V_or: "(x OR 1 :: uint64) AND 1 \<noteq> 0"
proof -
  have "bit ((x OR 1) AND 1) 0" by (simp add: bit_simps)
  then show ?thesis by (metis bit_0_eq bot_fun_def bot_bool_def)
qed

section \<open>Page tables as functions\<close>

text \<open>
  \<open>desc m root va k\<close> is the table reached from the directory \<open>root\<close> after \<open>k\<close> levels of the walk for
  \<open>va\<close>, if the entries on the way are valid; \<open>pte_of\<close> is the leaf entry (0 when a table is missing).
\<close>

fun desc :: "mem \<Rightarrow> addr \<Rightarrow> uint64 \<Rightarrow> nat \<Rightarrow> addr option" where
  "desc m root va 0 = Some root"
| "desc m root va (Suc k) =
     (case desc m root va k of
        None \<Rightarrow> None
      | Some t \<Rightarrow>
          (let e = load64 m (cell t (2 - k) va) in if e AND PTE_V \<noteq> 0 then Some (PTE2PA e) else None))"

definition pte_of :: "mem \<Rightarrow> addr \<Rightarrow> uint64 \<Rightarrow> uint64" where
  "pte_of m root va = (case desc m root va 2 of None \<Rightarrow> 0 | Some t \<Rightarrow> load64 m (cell t 0 va))"

text \<open>Virtual addresses that share the first \<open>k\<close> indices of the walk.\<close>

definition agree :: "nat \<Rightarrow> uint64 \<Rightarrow> uint64 \<Rightarrow> bool" where
  "agree k va vb \<longleftrightarrow> (\<forall>j < k. PX (2 - j) va = PX (2 - j) vb)"

text \<open>
  A well-formed page table: all its tables are allocated pages, and no page is used as two tables.
\<close>

definition pt_wf :: "pmm \<Rightarrow> addr \<Rightarrow> bool" where
  "pt_wf s root \<longleftrightarrow>
     (\<forall>va k t. k \<le> 2 \<longrightarrow> desc (ram s) root va k = Some t \<longrightarrow> managed s t \<and> 0 < ref_count s t) \<and>
     (\<forall>va vb k j t. k \<le> 2 \<longrightarrow> j \<le> 2 \<longrightarrow> desc (ram s) root va k = Some t \<longrightarrow> desc (ram s) root vb j = Some t \<longrightarrow>
        k = j \<and> agree k va vb)"

lemma agree_0 [simp]: "agree 0 va vb"
  by (simp add: agree_def)

lemma agree_refl [simp]: "agree k va va"
  by (simp add: agree_def)

lemma agree_Suc: "agree (Suc k) va vb \<longleftrightarrow> agree k va vb \<and> PX (2 - k) va = PX (2 - k) vb"
  by (auto simp: agree_def less_Suc_eq)

lemma agree_sym: "agree k va vb \<longleftrightarrow> agree k vb va"
  by (auto simp: agree_def)

lemma agree_mono: "agree k va vb \<Longrightarrow> j \<le> k \<Longrightarrow> agree j va vb"
  by (auto simp: agree_def)

lemma desc_agree: "agree k va vb \<Longrightarrow> desc m root va k = desc m root vb k"
proof (induction k)
  case (Suc k)
  then show ?case by (auto simp: agree_Suc cell_def split: option.splits)
qed simp

lemma desc_None_mono: "desc m root va k = None \<Longrightarrow> k \<le> j \<Longrightarrow> desc m root va j = None"
  by (induction j) (auto simp: le_Suc_eq)

lemma pt_wf_table: "pt_wf s root \<Longrightarrow> k \<le> 2 \<Longrightarrow> desc (ram s) root va k = Some t \<Longrightarrow> managed s t \<and> 0 < ref_count s t"
  by (auto simp: pt_wf_def)

lemma pt_wf_unique:
  "pt_wf s root \<Longrightarrow> k \<le> 2 \<Longrightarrow> j \<le> 2 \<Longrightarrow> desc (ram s) root va k = Some t \<Longrightarrow> desc (ram s) root vb j = Some t \<Longrightarrow>
   k = j \<and> agree k va vb"
  unfolding pt_wf_def by blast

lemma pt_wf_aligned: "pt_wf s root \<Longrightarrow> k \<le> 2 \<Longrightarrow> desc (ram s) root va k = Some t \<Longrightarrow> page_aligned t"
  using pt_wf_table by (auto simp: managed_def)

text \<open>Two entries on walks of the same table are the same cell only at the same place of the walk.\<close>

lemma pt_wf_cells:
  assumes "pt_wf s root" "k \<le> 2" "j \<le> 2" "desc (ram s) root va k = Some t" "desc (ram s) root vb j = Some u"
    "cell t (2 - k) va = cell u (2 - j) vb"
  shows "k = j \<and> agree (Suc k) va vb"
proof -
  have "t = u" using assms pt_wf_aligned by (metis cell_inj_table)
  then have "k = j \<and> agree k va vb" using assms pt_wf_unique by blast
  then show ?thesis using assms(6) \<open>t = u\<close> by (auto simp: agree_Suc cell_eq_iff)
qed

section \<open>Writing an entry\<close>

text \<open>Storing a leaf entry changes the mapping of its page only.\<close>

lemma load_cell_store:
  assumes "page_aligned t" "page_aligned u" "cell t l va \<noteq> cell u k vb"
  shows "load64 (store64 m (cell t l va) v) (cell u k vb) = load64 m (cell u k vb)"
  using assms by (intro load64_store64_other cell_dvd8) auto

lemma desc_store_leaf:
  assumes wf: "pt_wf s root" and t: "desc (ram s) root va 2 = Some t" and k: "k \<le> 2"
  shows "desc (store64 (ram s) (cell t 0 va) v) root vb k = desc (ram s) root vb k"
  using k
proof (induction k)
  case (Suc k)
  show ?case
  proof (cases "desc (ram s) root vb k")
    case None
    then show ?thesis using Suc by simp
  next
    case (Some u)
    have "cell t (2 - 2) va \<noteq> cell u (2 - k) vb"
      using pt_wf_cells [OF wf _ _ t Some] Suc.prems by auto
    then have "load64 (store64 (ram s) (cell t 0 va) v) (cell u (2 - k) vb) = load64 (ram s) (cell u (2 - k) vb)"
      using pt_wf_aligned [OF wf _ t] pt_wf_aligned [OF wf _ Some] Suc.prems by (intro load_cell_store) auto
    then show ?thesis using Some Suc by simp
  qed
qed simp

lemma pt_wf_store_leaf:
  assumes wf: "pt_wf s root" and t: "desc (ram s) root va 2 = Some t"
  shows "pt_wf (s\<lparr>ram := store64 (ram s) (cell t 0 va) v\<rparr>) root"
proof -
  let ?s = "s\<lparr>ram := store64 (ram s) (cell t 0 va) v\<rparr>"
  have "managed ?s = managed s" by (simp add: managed_def fun_eq_iff)
  then show ?thesis
    using wf desc_store_leaf [OF wf t] unfolding pt_wf_def by simp
qed

lemma pte_of_store_leaf:
  assumes wf: "pt_wf s root" and t: "desc (ram s) root va 2 = Some t"
  shows "pte_of (store64 (ram s) (cell t 0 va) v) root vb =
    (if agree 3 va vb then v else pte_of (ram s) root vb)"
proof (cases "desc (ram s) root vb 2")
  case None
  then have "\<not> agree 2 va vb" using t desc_agree [of 2 va vb "ram s" root] by auto
  then have "\<not> agree 3 va vb" using agree_mono [of 3 va vb 2] by auto
  then show ?thesis using None desc_store_leaf [OF wf t, of 2 v vb] by (simp add: pte_of_def)
next
  case (Some u)
  have d: "desc (store64 (ram s) (cell t 0 va) v) root vb 2 = Some u"
    using desc_store_leaf [OF wf t, of 2 v vb] Some by simp
  show ?thesis
  proof (cases "agree 3 va vb")
    case True
    then have "agree 2 va vb" "PX 0 va = PX 0 vb" by (simp_all add: agree_Suc numeral_3_eq_3 numeral_2_eq_2)
    then have "cell u 0 vb = cell t 0 va" using t Some desc_agree [of 2 va vb "ram s" root] by (simp add: cell_def)
    then show ?thesis using True d by (simp add: pte_of_def)
  next
    case False
    then have "cell t (2 - 2) va \<noteq> cell u (2 - 2) vb"
      using pt_wf_cells [OF wf _ _ t Some] by (auto simp: numeral_3_eq_3 numeral_2_eq_2)
    then have "load64 (store64 (ram s) (cell t 0 va) v) (cell u 0 vb) = load64 (ram s) (cell u 0 vb)"
      using pt_wf_aligned [OF wf _ t] pt_wf_aligned [OF wf _ Some] by (intro load_cell_store) auto
    then show ?thesis using False d Some by (simp add: pte_of_def)
  qed
qed

section \<open>Linking a fresh table\<close>

lemma cell_bytes_in_page: "i < 8 \<Longrightarrow> in_page t (cell t l va + i)"
proof -
  assume "i < 8"
  then have i: "unat i < 8" by (simp add: word_less_nat_alt)
  have "cell t l va + i - t = PX l va * 8 + i" by (simp add: cell_def)
  moreover have "unat (PX l va * 8 + i) < 4096"
    using i PX_less [of l va] by (simp add: unat_word_ariths)
  ultimately show ?thesis by (simp only: in_page_def word_less_nat_alt) simp
qed

lemma filled_page: "filled m n b 4096 a = (if in_page n a then b else m a)"
  by (simp add: filled_def in_page_def word_less_nat_alt)

lemma load_cell_filled:
  assumes "page_aligned n" "page_aligned u" "u \<noteq> n"
  shows "load64 (filled m n b 4096) (cell u l va) = load64 m (cell u l va)"
proof (rule load64_cong)
  fix i :: addr assume "i < 8"
  then have "\<not> in_page n (cell u l va + i)"
    using in_page_disjoint [OF assms(2,1,3)] cell_bytes_in_page by blast
  then show "filled m n b 4096 (cell u l va + i) = m (cell u l va + i)" by (simp add: filled_page)
qed

lemma load_cell_zeroed: "load64 (filled m n 0 4096) (cell n l va) = 0"
  by (rule load64_zero) (simp add: filled_page cell_bytes_in_page)

definition linked :: "mem \<Rightarrow> addr \<Rightarrow> addr \<Rightarrow> mem" where
  "linked m c n = store64 (filled m n 0 4096) c (PA2PTE n OR PTE_V)"

text \<open>
  The situation in which \<^verbatim>\<open>page_walk\<close> adds a table: the walk for \<open>va\<close> has reached table \<open>t\<close> after \<open>k\<close>
  levels, its entry is invalid, and \<open>n\<close> is a page that is not in use.
\<close>

definition link_pre :: "pmm \<Rightarrow> addr \<Rightarrow> uint64 \<Rightarrow> nat \<Rightarrow> addr \<Rightarrow> addr \<Rightarrow> bool" where
  "link_pre s root va k t n \<longleftrightarrow> pt_wf s root \<and> k < 2 \<and> desc (ram s) root va k = Some t \<and>
     load64 (ram s) (cell t (2 - k) va) AND PTE_V = 0 \<and> page_aligned n \<and> ref_count s n = 0"

lemma link_preD:
  assumes "link_pre s root va k t n"
  shows "pt_wf s root" "k < 2" "desc (ram s) root va k = Some t" "page_aligned t" "page_aligned n"
    "desc (ram s) root va (Suc k) = None" "\<And>j vb u. j \<le> 2 \<Longrightarrow> desc (ram s) root vb j = Some u \<Longrightarrow> u \<noteq> n"
proof -
  note d = assms [unfolded link_pre_def]
  show w: "pt_wf s root" "k < 2" "desc (ram s) root va k = Some t" "page_aligned n" using d by auto
  then show "page_aligned t" using pt_wf_aligned [of s root k va t] by simp
  show "desc (ram s) root va (Suc k) = None" using d by simp
  show "u \<noteq> n" if "j \<le> 2" "desc (ram s) root vb j = Some u" for j vb u
    using pt_wf_table [OF w(1) that] d by auto
qed

lemma link_load_old:
  assumes L: "link_pre s root va k t n" and j: "j \<le> 2" "desc (ram s) root vb j = Some u"
    "\<not> (j = k \<and> agree (Suc k) va vb)"
  shows "load64 (linked (ram s) (cell t (2 - k) va) n) (cell u (2 - j) vb) = load64 (ram s) (cell u (2 - j) vb)"
proof -
  note d = link_preD [OF L]
  have "cell t (2 - k) va \<noteq> cell u (2 - j) vb"
    using pt_wf_cells [OF d(1) _ j(1) d(3) j(2)] j(3) d(2) by auto
  then show ?thesis
    unfolding linked_def
    using pt_wf_aligned [OF d(1) j(1,2)] d(4,5) d(7) [OF j(1,2)]
    by (simp add: load_cell_store load_cell_filled)
qed

lemma link_load_new:
  assumes L: "link_pre s root va k t n"
  shows "load64 (linked (ram s) (cell t (2 - k) va) n) (cell n l vb) = 0"
proof -
  note d = link_preD [OF L]
  have "t \<noteq> n" using d(7) [OF _ d(3)] d(2) by simp
  then have "cell t (2 - k) va \<noteq> cell n l vb" using cell_inj_table d(4,5) by auto
  then show ?thesis unfolding linked_def using d(4,5) by (simp add: load_cell_store load_cell_zeroed)
qed

lemma desc_link:
  assumes L: "link_pre s root va k t n"
  shows "j \<le> 2 \<Longrightarrow> desc (linked (ram s) (cell t (2 - k) va) n) root vb j =
     (if j = Suc k \<and> agree (Suc k) va vb then Some n else desc (ram s) root vb j)"
proof (induction j)
  case (Suc j)
  note d = link_preD [OF L]
  show ?case
  proof (cases "j = Suc k \<and> agree (Suc k) va vb")
    case True
    then have "desc (ram s) root vb j = None" using d(6) desc_agree by metis
    then show ?thesis using True Suc link_load_new [OF L] by simp
  next
    case old: False
    then have IH: "desc (linked (ram s) (cell t (2 - k) va) n) root vb j = desc (ram s) root vb j"
      using Suc by auto
    show ?thesis
    proof (cases "j = k \<and> agree (Suc k) va vb")
      case True
      then have "desc (ram s) root vb j = Some t" "cell t (2 - j) vb = cell t (2 - k) va"
        using d(3) desc_agree [of k va vb] by (auto simp: agree_Suc cell_def)
      then show ?thesis
        using True IH d(5) by (simp add: linked_def PTE2PA_PA2PTE PTE_V_or)
    next
      case False
      then show ?thesis
        using IH link_load_old [OF L, of j vb] Suc.prems by (cases "desc (ram s) root vb j") auto
    qed
  qed
qed simp

lemma pte_of_link:
  assumes L: "link_pre s root va k t n"
  shows "pte_of (linked (ram s) (cell t (2 - k) va) n) root vb = pte_of (ram s) root vb"
proof (cases "2 = Suc k \<and> agree (Suc k) va vb")
  case True
  note d = link_preD [OF L]
  have "desc (ram s) root vb (Suc k) = None" using True d(6) desc_agree by metis
  then have "desc (ram s) root vb 2 = None" using True by (simp only:)
  moreover have "desc (linked (ram s) (cell t (2 - k) va) n) root vb 2 = Some n"
    by (rule trans [OF desc_link [OF L order_refl] if_P [OF True]])
  ultimately show ?thesis using link_load_new [OF L] by (simp add: pte_of_def)
next
  case False
  then have "desc (linked (ram s) (cell t (2 - k) va) n) root vb 2 = desc (ram s) root vb 2"
    using desc_link [OF L, of 2 vb] by auto
  then show ?thesis
    using link_load_old [OF L, of 2 vb] link_preD(2) [OF L] by (auto simp: pte_of_def split: option.splits)
qed

lemma pt_wf_link:
  assumes L: "link_pre s root va k t n"
    and s': "ram s' = linked (ram s) (cell t (2 - k) va) n" "ref_count s' = (ref_count s)(n := 1)"
      "managed s' = managed s" "managed s n"
  shows "pt_wf s' root"
proof -
  note d = link_preD [OF L]
  have new: "desc (ram s') root vb j = (if j = Suc k \<and> agree (Suc k) va vb then Some n else desc (ram s) root vb j)"
    if "j \<le> 2" for vb j
    using desc_link [OF L that] s'(1) by simp
  have "managed s' u \<and> 0 < ref_count s' u" if "j \<le> 2" "desc (ram s') root vb j = Some u" for vb j u
    using that new [OF that(1), of vb] pt_wf_table [OF d(1) that(1), of vb u] s' by (auto split: if_splits)
  moreover have "i = j \<and> agree i va' vb"
    if ij: "i \<le> 2" "j \<le> 2" "desc (ram s') root va' i = Some u" "desc (ram s') root vb j = Some u" for va' vb i j u
  proof (cases "u = n")
    case True
    then have "desc (ram s) root va' i \<noteq> Some u" "desc (ram s) root vb j \<noteq> Some u"
      using d(7) [OF ij(1)] d(7) [OF ij(2)] by blast+
    then have "i = Suc k \<and> agree (Suc k) va va'" "j = Suc k \<and> agree (Suc k) va vb"
      using ij new [OF ij(1), of va'] new [OF ij(2), of vb] by metis+
    then show ?thesis by (auto simp: agree_def)
  next
    case False
    then have "desc (ram s) root va' i = Some u" "desc (ram s) root vb j = Some u"
      using ij new [OF ij(1), of va'] new [OF ij(2), of vb] by (metis option.inject)+
    then show ?thesis using pt_wf_unique [OF d(1) ij(1,2)] by blast
  qed
  ultimately show ?thesis unfolding pt_wf_def by blast
qed

section \<open>Walking with allocation\<close>

lemma kmemset_page:
  assumes "ram_ok d 4096"
  shows "kmemset d byte PGSIZE s = Inr (s\<lparr>ram := filled (ram s) d (ucast byte) 4096\<rparr>)"
proof -
  have "unat d + unat PGSIZE < 2 ^ 64" using assms by (simp add: ram_ok_def)
  then show ?thesis using assms by (simp add: kmemset_def memset_eq)
qed

text \<open>Memory changes only inside the tables of the walk and the pages that were free.\<close>

definition frame_ok :: "pmm \<Rightarrow> addr \<Rightarrow> addr list \<Rightarrow> mem \<Rightarrow> bool" where
  "frame_ok s root ps m \<longleftrightarrow>
     (\<forall>a. (\<forall>p \<in> set ps. \<not> in_page p a) \<and>
          (\<forall>va k t. k \<le> 2 \<longrightarrow> desc (ram s) root va k = Some t \<longrightarrow> \<not> in_page t a) \<longrightarrow> m a = ram s a)"

lemma frame_okD:
  assumes "frame_ok s root ps m" "\<And>p. p \<in> set ps \<Longrightarrow> \<not> in_page p a"
    "\<And>va k t. k \<le> 2 \<Longrightarrow> desc (ram s) root va k = Some t \<Longrightarrow> \<not> in_page t a"
  shows "m a = ram s a"
  using assms unfolding frame_ok_def by blast

text \<open>Storing into a page that is not free keeps the allocator invariant.\<close>

lemma booted_ram:
  assumes "booted pin s ps" "\<And>p. p \<in> set ps \<Longrightarrow> load64 m p = load64 (ram s) p"
  shows "booted pin (s\<lparr>ram := m\<rparr>) ps"
  using assms pmm_inv_ram [of s ps m] by (simp add: booted_def)

lemma cell_0: "cell p l 0 = p"
  by (simp add: cell_def PX_def)

lemma booted_store_cell:
  assumes b: "booted pin s ps" and t: "page_aligned t" "0 < ref_count s t"
  shows "booted pin (s\<lparr>ram := store64 (ram s) (cell t l va) v\<rparr>) ps"
proof (rule booted_ram [OF b])
  fix p assume p: "p \<in> set ps"
  then have "page_aligned p" "p \<noteq> t"
    using b t pmm_inv_fresh [of s ps p] by (auto simp: booted_def managed_def)
  then show "load64 (store64 (ram s) (cell t l va) v) p = load64 (ram s) p"
    using load_cell_store [OF t(1), of p l va 0 0] cell_inj_table [OF t(1), of p l va 0 0] by (auto simp: cell_0)
qed

lemma booted_fill_page:
  assumes b: "booted pin s ps" and t: "page_aligned n" "0 < ref_count s n"
  shows "booted pin (s\<lparr>ram := filled (ram s) n v 4096\<rparr>) ps"
proof (rule booted_ram [OF b])
  fix p assume p: "p \<in> set ps"
  then have "page_aligned p" "p \<noteq> n"
    using b t pmm_inv_fresh [of s ps p] by (auto simp: booted_def managed_def)
  then show "load64 (filled (ram s) n v 4096) p = load64 (ram s) p"
    using load_cell_filled [OF t(1), of p "ram s" v 0 0] by (simp add: cell_0)
qed

text \<open>One step of the walk that adds a table.\<close>

lemma walk_add_table:
  assumes b: "booted pin s (n # ps)" and r: "0 < table_room s" and wf: "pt_wf s root"
    and k: "k < 2" "desc (ram s) root va k = Some t" "load64 (ram s) (cell t (2 - k) va) AND PTE_V = 0"
    and al: "alloc \<noteq> 0"
  obtains s' where "walk_levels (2 - k) t va alloc s = walk_levels (1 - k) n va alloc s'"
    "booted pin s' ps" "pt_wf s' root" "table_room s = Suc (table_room s')" "same_bounds s s'"
    "ref_count s' = (ref_count s)(n := 1)" "ram s' = linked (ram s) (cell t (2 - k) va) n"
    "link_pre s root va k t n"
proof -
  obtain s1 where s1: "alloc_page s = Inr (n, s1)" "booted pin s1 ps" "ref_count s1 = (ref_count s)(n := 1)"
    "table_room s = Suc (table_room s1)" "ram s1 = ram s" "same_bounds s s1"
    using booted_alloc [OF b r] by blast
  have n: "ref_count s n = 0" "managed s n" "n \<noteq> 0" "bounds_ok s"
    using pmm_inv_fresh [of s "n # ps" n] managed_nonzero [of s n] b by (auto simp: booted_def pmm_inv_def)
  then have na: "page_aligned n" "ram_ok n 4096" using managed_ram_ok [OF n(4,2)] by (auto simp: managed_def)
  have L: "link_pre s root va k t n" using wf k n na by (simp add: link_pre_def)
  note d = link_preD [OF L]
  have t: "managed s t" "0 < ref_count s t" using pt_wf_table [OF wf _ k(2)] k(1) by auto
  then have ta: "page_aligned t" "ram_ok t 4096" using managed_ram_ok [OF n(4)] by (auto simp: managed_def)
  let ?c = "cell t (2 - k) va"
  let ?s2 = "s1\<lparr>ram := filled (ram s) n 0 4096\<rparr>"
  let ?s3 = "?s2\<lparr>ram := store64 (ram ?s2) ?c (PA2PTE n OR PTE_V)\<rparr>"
  define l where "l = 1 - k"
  have lev: "2 - k = Suc l" using k(1) by (simp add: l_def)
  have "walk_levels (2 - k) t va alloc s = walk_levels (1 - k) n va alloc ?s3"
    unfolding lev l_def [symmetric] walk_levels.simps cell_def [symmetric]
    using k(3) [unfolded lev] s1(1,5) n(3) al cell_ld64 [OF ta] cell_st64 [OF ta] kmemset_page [OF na(2)]
    by (simp add: Let_def)
  moreover have "booted pin ?s2 ps" using booted_fill_page [OF s1(2) na(1)] s1(3,5) by simp
  then have "booted pin ?s3 ps"
    using booted_store_cell [OF _ ta(1), of pin ?s2 ps "2 - k" va] t s1(3) n(1) by (simp add: fun_upd_apply)
  moreover have rm: "ram ?s3 = linked (ram s) ?c n" by (simp add: linked_def)
  moreover have rc: "ref_count ?s3 = (ref_count s)(n := 1)" using s1(3) by simp
  moreover have sb: "same_bounds s ?s3" using s1(6) by (simp add: same_bounds_def)
  moreover have "pt_wf ?s3 root"
    using pt_wf_link [OF L rm rc _ n(2)] same_boundsD [OF sb] by blast
  moreover have "table_room ?s3 = table_room s1" by (simp add: table_room_def)
  ultimately show thesis using L s1(4) by (intro that [of ?s3]) simp_all
qed

text \<open>
  \<open>grown s s' root va ps\<close>: the page table of \<open>s'\<close> maps what the one of \<open>s\<close> maps, and has in addition
  exactly the tables missing on the walk for \<open>va\<close>; pages in use keep their counts, and memory changed
  only in the old tables and the pages \<open>ps\<close> that were free.
\<close>

definition grown :: "pmm \<Rightarrow> pmm \<Rightarrow> addr \<Rightarrow> uint64 \<Rightarrow> addr list \<Rightarrow> bool" where
  "grown s s' root va ps \<longleftrightarrow> pt_wf s' root \<and> same_bounds s s' \<and>
     (\<forall>vb. pte_of (ram s') root vb = pte_of (ram s) root vb) \<and>
     (\<forall>vb j. j \<le> 2 \<longrightarrow> (desc (ram s') root vb j = None \<longleftrightarrow> desc (ram s) root vb j = None \<and> \<not> agree j va vb)) \<and>
     (\<forall>vb j u. j \<le> 2 \<longrightarrow> desc (ram s) root vb j = Some u \<longrightarrow> desc (ram s') root vb j = Some u) \<and>
     (\<forall>vb j u. j \<le> 2 \<longrightarrow> desc (ram s') root vb j = Some u \<longrightarrow> desc (ram s) root vb j = Some u \<or> u \<in> set ps) \<and>
     (\<forall>p. 0 < ref_count s p \<longrightarrow> ref_count s' p = ref_count s p) \<and> frame_ok s root ps (ram s')"

lemma grown_refl:
  assumes "pt_wf s root" "desc (ram s) root va 2 = Some t"
  shows "grown s s root va ps"
proof -
  have "\<not> agree j va vb" if "j \<le> 2" "desc (ram s) root vb j = None" for vb j
    using assms(2) desc_None_mono [of "ram s" root va j 2] desc_agree [of j va vb "ram s" root] that by auto
  then show ?thesis using assms by (auto simp: grown_def frame_ok_def)
qed

lemma store_cell_frame: "\<not> in_page t a \<Longrightarrow> store64 m (cell t l va) v a = m a"
proof -
  assume a: "\<not> in_page t a"
  have "\<not> a - cell t l va < 8"
  proof
    assume "a - cell t l va < 8"
    then have "in_page t (cell t l va + (a - cell t l va))" by (rule cell_bytes_in_page)
    then show False using a by simp
  qed
  then show ?thesis by (simp add: store64_def)
qed

lemma linked_frame: "\<not> in_page n a \<Longrightarrow> \<not> in_page t a \<Longrightarrow> linked m (cell t l va) n a = m a"
  by (simp add: linked_def store_cell_frame filled_page)

lemma grown_link:
  assumes L: "link_pre s root va k t n" and r: "ram s1 = linked (ram s) (cell t (2 - k) va) n"
    and c: "ref_count s1 = (ref_count s)(n := 1)" and sb: "same_bounds s s1"
    and g: "grown s1 s' root va ps"
  shows "grown s s' root va (n # ps)"
proof -
  note d = link_preD [OF L]
  note l = desc_link [OF L, folded r]
  have n0: "ref_count s n = 0" using L by (simp add: link_pre_def)
  have old: "desc (ram s1) root vb j = Some u" if j: "j \<le> 2" "desc (ram s) root vb j = Some u" for vb j u
  proof -
    have "\<not> (j = Suc k \<and> agree (Suc k) va vb)" using that d(6) desc_agree [of j va vb "ram s" root] by auto
    then show ?thesis using l [OF j(1), of vb] j(2) by argo
  qed
  have "frame_ok s root (n # ps) (ram s')"
    unfolding frame_ok_def
  proof (intro allI impI, elim conjE)
    fix a assume f: "\<forall>p \<in> set (n # ps). \<not> in_page p a"
      and tb: "\<forall>va k t. k \<le> 2 \<longrightarrow> desc (ram s) root va k = Some t \<longrightarrow> \<not> in_page t a"
    have "\<forall>va k t. k \<le> 2 \<longrightarrow> desc (ram s1) root va k = Some t \<longrightarrow> \<not> in_page t a"
      using l tb f by (auto split: if_splits)
    then have "ram s' a = ram s1 a" using g f by (auto simp: grown_def frame_ok_def)
    also have "\<dots> = ram s a"
      unfolding r
    proof (rule linked_frame)
      show "\<not> in_page n a" using f by simp
      show "\<not> in_page t a" using tb d(2,3) less_imp_le by blast
    qed
    finally show "ram s' a = ram s a" .
  qed
  moreover have "desc (ram s') root vb j = None \<longleftrightarrow> desc (ram s) root vb j = None \<and> \<not> agree j va vb"
    if "j \<le> 2" for vb j
    using g that l [OF that, of vb] by (auto simp: grown_def)
  moreover have "desc (ram s) root vb j = Some u \<or> u \<in> set (n # ps)"
    if "j \<le> 2" "desc (ram s') root vb j = Some u" for vb j u
  proof -
    have "desc (ram s1) root vb j = Some u \<or> u \<in> set ps" using g that unfolding grown_def by blast
    then show ?thesis using l [OF that(1), of vb] by (metis list.set_intros option.inject)
  qed
  moreover have "pte_of (ram s') root vb = pte_of (ram s) root vb" for vb
    using g pte_of_link [OF L, of vb] r by (simp add: grown_def)
  moreover have "ref_count s' p = ref_count s p" if "0 < ref_count s p" for p
    using g that c n0 by (auto simp: grown_def)
  ultimately show ?thesis
    using g old same_bounds_trans [OF sb] by (auto simp: grown_def)
qed

definition walk_need :: "mem \<Rightarrow> addr \<Rightarrow> uint64 \<Rightarrow> nat \<Rightarrow> nat" where
  "walk_need m root va k = card {j. k < j \<and> j \<le> 2 \<and> desc m root va j = None}"

lemma walk_need_Suc:
  assumes "k < 2"
  shows "walk_need m root va k =
    (if desc m root va (Suc k) = None then 1 else 0) + walk_need m root va (Suc k)"
proof -
  let ?A = "{j. Suc k < j \<and> j \<le> 2 \<and> desc m root va j = None}"
  have "{j. k < j \<and> j \<le> 2 \<and> desc m root va j = None} =
      (if desc m root va (Suc k) = None then insert (Suc k) ?A else ?A)"
    using assms by (auto intro: Suc_lessI simp del: desc.simps)
  moreover have "finite ?A" by (rule finite_subset [of _ "{..2}"]) auto
  ultimately show ?thesis by (simp add: walk_need_def)
qed

lemma walk_need_2 [simp]: "walk_need m root va 2 = 0"
  by (simp add: walk_need_def)

lemma walk_levels_alloc:
  assumes "booted pin s ps" "pt_wf s root" "k \<le> 2" "desc (ram s) root va k = Some t" "alloc \<noteq> 0"
    "walk_need (ram s) root va k \<le> length ps" "walk_need (ram s) root va k \<le> table_room s"
  shows "\<exists>s' u. walk_levels (2 - k) t va alloc s = Inr (cell u 0 va, s') \<and> desc (ram s') root va 2 = Some u \<and>
     booted pin s' (drop (walk_need (ram s) root va k) ps) \<and>
     table_room s = walk_need (ram s) root va k + table_room s' \<and> grown s s' root va ps"
  using assms
proof (induction "2 - k" arbitrary: k s ps t)
  case 0
  then have "k = 2" by simp
  then show ?case using 0 grown_refl [of s root va t ps] by (simp add: cell_def)
next
  case (Suc l)
  then have k: "k < 2" and l: "l = 2 - Suc k" "1 - k = 2 - Suc k" by auto
  have t: "managed s t" "bounds_ok s"
    using pt_wf_table [OF Suc.prems(2-4)] Suc.prems(1) by (auto simp: booted_def pmm_inv_def)
  then have ta: "page_aligned t" "ram_ok t 4096" using managed_ram_ok [OF t(2,1)] by (auto simp: managed_def)
  show ?case
  proof (cases "load64 (ram s) (cell t (2 - k) va) AND PTE_V = 0")
    case False
    let ?u = "PTE2PA (load64 (ram s) (cell t (2 - k) va))"
    have d: "desc (ram s) root va (Suc k) = Some ?u" using Suc.prems(4) False by simp
    then have n: "walk_need (ram s) root va k = walk_need (ram s) root va (Suc k)"
      using walk_need_Suc [OF k, of "ram s" root va] by (simp del: desc.simps)
    have "walk_levels (2 - k) t va alloc s = walk_levels (2 - Suc k) ?u va alloc s"
      unfolding Suc.hyps(2) [symmetric] walk_levels.simps cell_def [symmetric] l(1) [symmetric]
      using False [folded Suc.hyps(2)] by (simp add: Let_def cell_ld64 [OF ta])
    then show ?thesis
      using Suc.hyps(1) [OF l(1) Suc.prems(1,2) _ d Suc.prems(5)] Suc.prems(6,7) k unfolding n by simp
  next
    case True
    have d: "desc (ram s) root va (Suc k) = None" using Suc.prems(4) True by simp
    then have n: "walk_need (ram s) root va k = Suc (walk_need (ram s) root va (Suc k))"
      using walk_need_Suc [OF k, of "ram s" root va] by (simp del: desc.simps)
    obtain p qs where ps: "ps = p # qs" using Suc.prems(6) n by (cases ps) auto
    have r: "0 < table_room s" using Suc.prems(7) n by simp
    obtain s1 where s1: "walk_levels (2 - k) t va alloc s = walk_levels (1 - k) p va alloc s1"
      "booted pin s1 qs" "pt_wf s1 root" "table_room s = Suc (table_room s1)" "same_bounds s s1"
      "ref_count s1 = (ref_count s)(p := 1)" "ram s1 = linked (ram s) (cell t (2 - k) va) p"
      "link_pre s root va k t p"
      by (rule walk_add_table [OF Suc.prems(1) [unfolded ps] r Suc.prems(2) k Suc.prems(4) True Suc.prems(5)])
    have dl: "desc (ram s1) root va j = (if j = Suc k then Some p else desc (ram s) root va j)" if "j \<le> 2" for j
      using desc_link [OF s1(8) that, of va] s1(7) by simp
    have n1: "walk_need (ram s1) root va (Suc k) = walk_need (ram s) root va (Suc k)"
      unfolding walk_need_def using dl by (intro arg_cong [where f = card]) auto
    have "\<exists>s' u. walk_levels (2 - Suc k) p va alloc s1 = Inr (cell u 0 va, s') \<and> desc (ram s') root va 2 = Some u \<and>
       booted pin s' (drop (walk_need (ram s1) root va (Suc k)) qs) \<and>
       table_room s1 = walk_need (ram s1) root va (Suc k) + table_room s' \<and> grown s1 s' root va qs"
      using Suc.prems(5-7) n s1(4) k dl [of "Suc k"]
      by (intro Suc.hyps(1) [OF l(1) s1(2,3)]) (auto simp: n1 ps simp del: desc.simps)
    then obtain s' u where s': "walk_levels (2 - Suc k) p va alloc s1 = Inr (cell u 0 va, s')"
      "desc (ram s') root va 2 = Some u" "booted pin s' (drop (walk_need (ram s1) root va (Suc k)) qs)"
      "table_room s1 = walk_need (ram s1) root va (Suc k) + table_room s'" "grown s1 s' root va qs"
      by blast
    have "grown s s' root va ps" unfolding ps by (rule grown_link [OF s1(8,7,6,5) s'(5)])
    then show ?thesis using s' s1(1,4) l(2) n n1 ps by (intro exI [of _ s'] exI [of _ u]) simp
  qed
qed

section \<open>Virtual pages\<close>

lemma PX_drop12: "PX l va = drop_bit (9 * l) (drop_bit 12 va) AND 0x1FF"
  by (simp add: PX_def PXSHIFT_def add.commute)

lemma bit_PX: "bit (PX l va) i \<longleftrightarrow> i < 9 \<and> bit va (12 + 9 * l + i)"
proof -
  have m: "(0x1FF :: uint64) = mask 9" by (simp add: mask_eq_exp_minus_1)
  show ?thesis unfolding PX_def PXSHIFT_def m by (auto simp: bit_simps dest: bit_imp_le_length)
qed

lemma bit_below_MAXVA:
  assumes "va < MAXVA" "38 \<le> n"
  shows "\<not> bit va n"
proof -
  have "unat va < 2 ^ 38" using assms(1) by (simp add: word_less_nat_alt)
  then have "unat (take_bit 38 va) = unat va" by (simp add: unsigned_take_bit_eq take_bit_nat_eq_self)
  then have "take_bit 38 va = va" by (rule unsigned_word_eqI)
  then have "bit va n = bit (take_bit 38 va) n" by simp
  then show ?thesis using assms(2) by (simp add: bit_take_bit_iff)
qed

lemma agree_3: "agree 3 va vb \<longleftrightarrow> PX 2 va = PX 2 vb \<and> PX 1 va = PX 1 vb \<and> PX 0 va = PX 0 vb"
  by (simp add: numeral_3_eq_3 agree_Suc)

lemma agree_1: "agree 1 va vb \<longleftrightarrow> PX 2 va = PX 2 vb"
  by (simp add: agree_def)

lemma agree_2: "agree 2 va vb \<longleftrightarrow> PX 2 va = PX 2 vb \<and> PX 1 va = PX 1 vb"
  by (simp add: numeral_2_eq_2 agree_Suc)

lemma agree_3_iff:
  assumes "va < MAXVA" "vb < MAXVA"
  shows "agree 3 va vb \<longleftrightarrow> drop_bit 12 va = drop_bit 12 vb"
proof
  assume a: "agree 3 va vb"
  have px: "bit va (12 + 9 * l + i) = bit vb (12 + 9 * l + i)" if "l \<le> 2" "i < 9" for l i
  proof -
    have "PX l va = PX l vb" using a that(1) by (cases l rule: nat.exhaust) (auto simp: agree_3 le_Suc_eq numeral_2_eq_2)
    then have "bit (PX l va) i = bit (PX l vb) i" by simp
    then show ?thesis using that(2) by (simp add: bit_PX)
  qed
  show "drop_bit 12 va = drop_bit 12 vb"
  proof (rule bit_word_eqI)
    fix n
    show "bit (drop_bit 12 va) n \<longleftrightarrow> bit (drop_bit 12 vb) n"
    proof (cases "n < 27")
      case True
      then have "n div 9 \<le> 2" "n mod 9 < 9" "12 + 9 * (n div 9) + n mod 9 = 12 + n" by auto
      then show ?thesis using px [of "n div 9" "n mod 9"] by (simp add: bit_drop_bit_eq add.commute)
    next
      case False
      then show ?thesis using assms [THEN bit_below_MAXVA] by (simp add: bit_drop_bit_eq)
    qed
  qed
qed (simp add: agree_3 PX_drop12)

lemma agree_3_page:
  assumes "page_aligned p" "p < MAXVA" "vb < MAXVA"
  shows "agree 3 p vb \<longleftrightarrow> unat p \<le> unat vb \<and> unat vb < unat p + 4096"
proof -
  obtain k where k: "unat p = 4096 * k" using assms(1) by (auto simp: page_aligned_iff)
  have "drop_bit 12 p = drop_bit 12 vb \<longleftrightarrow> unat (drop_bit 12 p) = unat (drop_bit 12 vb)"
    by (auto intro: unsigned_word_eqI)
  also have "\<dots> \<longleftrightarrow> k = unat vb div 4096"
    by (simp add: drop_bit_eq_div unat_div k)
  also have "\<dots> \<longleftrightarrow> unat p \<le> unat vb \<and> unat vb < unat p + 4096" unfolding k by auto
  finally show ?thesis using agree_3_iff [OF assms(2,3)] by simp
qed

section \<open>Mapping a range\<close>

text \<open>The tables that a page table lacks for the addresses in \<open>S\<close>, counted by level.\<close>

definition missing :: "mem \<Rightarrow> addr \<Rightarrow> nat \<Rightarrow> (uint64 \<Rightarrow> 'k) \<Rightarrow> uint64 set \<Rightarrow> 'k set" where
  "missing m root j key S = key ` {va \<in> S. desc m root va j = None}"

definition range_need :: "mem \<Rightarrow> addr \<Rightarrow> uint64 set \<Rightarrow> nat" where
  "range_need m root S =
     card (missing m root 1 (PX 2) S) + card (missing m root 2 (\<lambda>va. (PX 2 va, PX 1 va)) S)"

lemma finite_missing [simp]: "finite (missing m root j key S)"
  unfolding missing_def by (rule finite_imageI) (rule finite_subset [OF subset_UNIV], simp)

lemma missing_grown:
  assumes g: "grown s s' root va ps" and j: "j \<le> 2" and S: "va \<in> S"
    and key: "\<And>vb. agree j va vb \<longleftrightarrow> key va = key vb"
  shows "card (missing (ram s') root j key S) + (if desc (ram s) root va j = None then 1 else 0)
    \<le> card (missing (ram s) root j key S)"
proof -
  have eq: "missing (ram s') root j key S = missing (ram s) root j key S - {key va}"
    using g j key by (auto simp: missing_def grown_def)
  show ?thesis
  proof (cases "desc (ram s) root va j = None")
    case True
    then have "key va \<in> missing (ram s) root j key S" using S by (auto simp: missing_def)
    from card_Diff1_less [OF finite_missing this] True show ?thesis by (simp add: eq)
  next
    case False
    then show ?thesis unfolding eq by (auto simp: card_Diff1_le)
  qed
qed

lemma walk_need_0:
  "walk_need m root va 0 = (if desc m root va 1 = None then 1 else 0) + (if desc m root va 2 = None then 1 else 0)"
proof -
  have "walk_need m root va 1 = (if desc m root va 2 = None then 1 else 0) + walk_need m root va 2"
    using walk_need_Suc [of 1 m root va] by (simp only: Suc_1)
  then show ?thesis using walk_need_Suc [of 0 m root va] by (simp only: One_nat_def [symmetric] walk_need_2)
qed

lemma range_need_grown:
  assumes g: "grown s s' root va ps" and S: "va \<in> S"
  shows "range_need (ram s') root S + walk_need (ram s) root va 0 \<le> range_need (ram s) root S"
proof -
  have 1: "card (missing (ram s') root 1 (PX 2) S) + (if desc (ram s) root va 1 = None then 1 else 0)
      \<le> card (missing (ram s) root 1 (PX 2) S)"
    by (rule missing_grown [OF g _ S]) (simp, rule agree_1)
  have 2: "card (missing (ram s') root 2 (\<lambda>va. (PX 2 va, PX 1 va)) S) + (if desc (ram s) root va 2 = None then 1 else 0)
      \<le> card (missing (ram s) root 2 (\<lambda>va. (PX 2 va, PX 1 va)) S)"
    by (rule missing_grown [OF g _ S]) (simp_all add: agree_2)
  show ?thesis unfolding range_need_def walk_need_0 using 1 2 by linarith
qed

lemma missing_one:
  "va \<in> S \<Longrightarrow> (if desc m root va j = None then 1 else 0) \<le> card (missing m root j key S)"
proof (cases "desc m root va j = None")
  case True
  assume "va \<in> S"
  then have "key va \<in> missing m root j key S" using True by (auto simp: missing_def)
  then have "0 < card (missing m root j key S)" by (auto simp: card_gt_0_iff)
  then show ?thesis by simp
qed auto

lemma walk_need_le_range: "va \<in> S \<Longrightarrow> walk_need m root va 0 \<le> range_need m root S"
  unfolding walk_need_0 range_need_def by (intro add_mono missing_one)

lemma missing_mono: "A \<subseteq> B \<Longrightarrow> missing m root j key A \<subseteq> missing m root j key B"
  by (auto simp: missing_def)

lemma range_need_mono: "A \<subseteq> B \<Longrightarrow> range_need m root A \<le> range_need m root B"
  unfolding range_need_def by (intro add_mono card_mono missing_mono) auto

lemma range_need_cong: "(\<And>va j. j \<le> 2 \<Longrightarrow> desc m' root va j = desc m root va j) \<Longrightarrow> range_need m' root S = range_need m root S"
  by (simp add: range_need_def missing_def del: desc.simps)

text \<open>
  One round of the loop of \<^verbatim>\<open>map_pages\<close>: the walk gives the entry of the page, which is then written.
\<close>

lemma map_one:
  assumes b: "booted pin s ps" and wf: "pt_wf s root" and va: "va < MAXVA"
    and need: "walk_need (ram s) root va 0 \<le> length ps" "walk_need (ram s) root va 0 \<le> table_room s"
  obtains s' t where "page_walk root va 1 s = Inr (cell t 0 va, s')" "cell t 0 va \<noteq> 0"
    "desc (ram s') root va 2 = Some t" "booted pin s' (drop (walk_need (ram s) root va 0) ps)"
    "table_room s = walk_need (ram s) root va 0 + table_room s'" "grown s s' root va ps"
    "\<forall>m v. ld64 m (cell t 0 va) = Inr (load64 m (cell t 0 va)) \<and> st64 m (cell t 0 va) v = Inr (store64 m (cell t 0 va) v)"
    "load64 (ram s') (cell t 0 va) = pte_of (ram s) root va"
proof -
  have "\<exists>s' u. walk_levels (2 - 0) root va 1 s = Inr (cell u 0 va, s') \<and> desc (ram s') root va 2 = Some u \<and>
     booted pin s' (drop (walk_need (ram s) root va 0) ps) \<and>
     table_room s = walk_need (ram s) root va 0 + table_room s' \<and> grown s s' root va ps"
    by (rule walk_levels_alloc [OF b wf _ _ _ need]) simp_all
  then obtain s' t where s': "walk_levels 2 root va 1 s = Inr (cell t 0 va, s')" "desc (ram s') root va 2 = Some t"
    "booted pin s' (drop (walk_need (ram s) root va 0) ps)"
    "table_room s = walk_need (ram s) root va 0 + table_room s'" "grown s s' root va ps" by auto
  have t: "managed s' t" "bounds_ok s'"
    using s'(2,3,5) pt_wf_table [of s' root 2 va t] by (auto simp: grown_def booted_def pmm_inv_def)
  then have ta: "page_aligned t" "ram_ok t 4096" using managed_ram_ok [OF t(2,1)] by (auto simp: managed_def)
  have "cell t 0 va \<noteq> 0" using cell_ram_ok [OF ta, of 0 va] by (auto simp: ram_ok_def)
  moreover have "load64 (ram s') (cell t 0 va) = pte_of (ram s) root va"
  proof -
    have "pte_of (ram s') root va = pte_of (ram s) root va" using s'(5) by (simp add: grown_def)
    then show ?thesis using s'(2) by (simp add: pte_of_def [of "ram s'"])
  qed
  ultimately show thesis
    using s' va cell_ld64 [OF ta] cell_st64 [OF ta] by (intro that [of t s']) (simp_all add: page_walk_def)
qed

definition vpages :: "addr \<Rightarrow> nat \<Rightarrow> addr set" where
  "vpages p n = {v. unat p \<le> unat v \<and> unat v < unat p + 4096 * n}"

text \<open>The entries that mapping \<open>n\<close> pages at \<open>first\<close> to the frames at \<open>pa\<close> gives.\<close>

definition mapped :: "addr \<Rightarrow> nat \<Rightarrow> uint64 \<Rightarrow> uint32 \<Rightarrow> (addr \<Rightarrow> uint64) \<Rightarrow> addr \<Rightarrow> uint64" where
  "mapped first n pa perm f vb =
     (if vb \<in> vpages first n then PA2PTE (pa + ROUNDDOWN (vb - first) PGSIZE) OR scast perm OR PTE_V else f vb)"

lemma unat_ROUNDDOWN: "unat (ROUNDDOWN a PGSIZE) = unat a div 4096 * 4096"
proof -
  have "unat a div 4096 * 4096 \<le> unat a" by simp
  also have "\<dots> < 2 ^ 64" using unsigned_less [of a, where ?'a = nat] by simp
  finally have "unat a div 4096 * 4096 < 2 ^ 64" .
  then show ?thesis by (simp add: ROUNDDOWN_def unat_word_ariths unat_div)
qed

lemma ROUNDDOWN_step:
  assumes "4096 \<le> unat d"
  shows "ROUNDDOWN (d - PGSIZE) PGSIZE + PGSIZE = ROUNDDOWN d PGSIZE"
proof (rule unsigned_word_eqI [where ?'a = nat])
  have u: "unat (d - PGSIZE) = unat d - 4096" using assms by (simp add: unat_sub_if')
  have e: "(unat d - 4096) div 4096 * 4096 + 4096 = unat d div 4096 * 4096"
    using assms by (simp add: le_div_geq [of 4096 "unat d"])
  have "unat d div 4096 * 4096 \<le> unat d" by simp
  also have "\<dots> < 2 ^ 64" using unsigned_less [of d, where ?'a = nat] by simp
  finally have "unat d div 4096 * 4096 < 2 ^ 64" .
  then show "unat (ROUNDDOWN (d - PGSIZE) PGSIZE + PGSIZE) = unat (ROUNDDOWN d PGSIZE)"
    unfolding unat_ROUNDDOWN e [symmetric] by (simp add: unat_word_ariths unat_ROUNDDOWN u)
qed

lemma mapped_Suc:
  assumes p: "page_aligned first" "first < MAXVA" and v: "vb < MAXVA"
  shows "mapped first (Suc n) pa perm f vb =
    mapped (first + PGSIZE) n (pa + PGSIZE) perm
      (\<lambda>vb. if agree 3 first vb then PA2PTE pa OR scast perm OR PTE_V else f vb) vb"
proof -
  have u: "unat (first + PGSIZE) = unat first + 4096"
    using p(2) by (simp add: unat_word_ariths word_less_nat_alt)
  show ?thesis
  proof (cases "agree 3 first vb")
    case True
    then have r: "unat first \<le> unat vb" "unat vb < unat first + 4096"
      using agree_3_page [OF p v] by auto
    then have "unat (vb - first) div 4096 = 0" by (simp add: unat_sub_if')
    then have "unat (ROUNDDOWN (vb - first) PGSIZE) = 0" by (simp add: unat_ROUNDDOWN)
    then have "ROUNDDOWN (vb - first) PGSIZE = 0" by (simp add: unat_eq_0)
    then show ?thesis using True r by (simp add: mapped_def vpages_def u)
  next
    case False
    then have r: "\<not> (unat first \<le> unat vb \<and> unat vb < unat first + 4096)"
      using agree_3_page [OF p v] by auto
    show ?thesis
    proof (cases "vb \<in> vpages (first + PGSIZE) n")
      case True
      then have "4096 \<le> unat (vb - first)" by (auto simp: vpages_def u unat_sub_if')
      then have "ROUNDDOWN (vb - first - PGSIZE) PGSIZE + PGSIZE = ROUNDDOWN (vb - first) PGSIZE"
        by (rule ROUNDDOWN_step)
      moreover have "vb - (first + PGSIZE) = vb - first - PGSIZE" by (rule diff_diff_add [symmetric])
      moreover have "pa + PGSIZE + x = pa + (x + PGSIZE)" for x :: uint64 by (simp add: ac_simps)
      ultimately have e: "pa + PGSIZE + ROUNDDOWN (vb - (first + PGSIZE)) PGSIZE = pa + ROUNDDOWN (vb - first) PGSIZE"
        by (simp only:)
      show ?thesis using True False unfolding mapped_def e by (simp add: vpages_def u)
    next
      case out: False
      then show ?thesis using False r by (auto simp: mapped_def vpages_def u)
    qed
  qed
qed

lemma vpages_0 [simp]: "vpages p 0 = {}"
  by (auto simp: vpages_def)

lemma mapped_0 [simp]: "mapped first 0 pa perm f = f"
  by (simp add: mapped_def fun_eq_iff)

lemma vpages_Suc:
  assumes "page_aligned p" "p < MAXVA"
  shows "p \<in> vpages p (Suc n)" "vpages (p + PGSIZE) n \<subseteq> vpages p (Suc n)"
    "v \<in> vpages (p + PGSIZE) n \<Longrightarrow> v < MAXVA \<Longrightarrow> \<not> agree 3 p v"
proof -
  have u: "unat (p + PGSIZE) = unat p + 4096"
    using assms(2) by (simp add: unat_word_ariths word_less_nat_alt)
  show "p \<in> vpages p (Suc n)" "vpages (p + PGSIZE) n \<subseteq> vpages p (Suc n)" by (auto simp: vpages_def u)
  show "v \<in> vpages (p + PGSIZE) n \<Longrightarrow> v < MAXVA \<Longrightarrow> \<not> agree 3 p v"
    using agree_3_page [OF assms] by (auto simp: vpages_def u)
qed

text \<open>
  What mapping leaves behind: the mapping \<open>f\<close>, a well-formed page table whose new tables come from the
  free pages \<open>ps\<close>, unchanged counts of the pages in use, and unchanged memory elsewhere.
\<close>

definition remapped :: "pmm \<Rightarrow> pmm \<Rightarrow> addr \<Rightarrow> addr list \<Rightarrow> (addr \<Rightarrow> uint64) \<Rightarrow> bool" where
  "remapped s s' root ps f \<longleftrightarrow> pt_wf s' root \<and> same_bounds s s' \<and>
     (\<forall>v < MAXVA. pte_of (ram s') root v = f v) \<and>
     (\<forall>vb j u. j \<le> 2 \<longrightarrow> desc (ram s') root vb j = Some u \<longrightarrow> desc (ram s) root vb j = Some u \<or> u \<in> set ps) \<and>
     (\<forall>vb j u. j \<le> 2 \<longrightarrow> desc (ram s) root vb j = Some u \<longrightarrow> desc (ram s') root vb j = Some u) \<and>
     (\<forall>p. 0 < ref_count s p \<longrightarrow> ref_count s' p = ref_count s p) \<and> frame_ok s root ps (ram s')"

lemma remapped_store:
  assumes g: "grown s s1 root va ps" and t: "desc (ram s1) root va 2 = Some t"
  shows "remapped s (s1\<lparr>ram := store64 (ram s1) (cell t 0 va) v\<rparr>) root ps
     (\<lambda>vb. if agree 3 va vb then v else pte_of (ram s) root vb)"
proof -
  let ?s = "s1\<lparr>ram := store64 (ram s1) (cell t 0 va) v\<rparr>"
  have wf: "pt_wf s1 root" using g by (simp add: grown_def)
  note d = desc_store_leaf [OF wf t]
  have "frame_ok s root ps (ram ?s)"
    unfolding frame_ok_def
  proof (intro allI impI, elim conjE)
    fix a assume f: "\<forall>p \<in> set ps. \<not> in_page p a"
      and tb: "\<forall>va k t. k \<le> 2 \<longrightarrow> desc (ram s) root va k = Some t \<longrightarrow> \<not> in_page t a"
    have "desc (ram s) root va 2 = Some t \<or> t \<in> set ps" using g t by (auto simp: grown_def)
    then have "\<not> in_page t a" using f tb by blast
    moreover have "ram s1 a = ram s a" using g f tb by (auto simp: grown_def frame_ok_def)
    ultimately show "ram ?s a = ram s a" by (simp add: store_cell_frame)
  qed
  moreover have "pt_wf ?s root" by (rule pt_wf_store_leaf [OF wf t])
  moreover have "same_bounds s ?s" using g by (simp add: grown_def same_bounds_def)
  ultimately show ?thesis
    using g d pte_of_store_leaf [OF wf t, of v] by (simp add: remapped_def grown_def)
qed

lemma remapped_trans:
  assumes a: "remapped s t root ps f" and b: "remapped t u root qs h" and q: "set qs \<subseteq> set ps"
  shows "remapped s u root ps h"
proof -
  have "frame_ok s root ps (ram u)"
    unfolding frame_ok_def
  proof (intro allI impI, elim conjE)
    fix x assume f: "\<forall>p \<in> set ps. \<not> in_page p x"
      and tb: "\<forall>va k t. k \<le> 2 \<longrightarrow> desc (ram s) root va k = Some t \<longrightarrow> \<not> in_page t x"
    then have "ram t x = ram s x" using a by (intro frame_okD [of s root ps]) (auto simp: remapped_def)
    moreover have "\<forall>va k w. k \<le> 2 \<longrightarrow> desc (ram t) root va k = Some w \<longrightarrow> \<not> in_page w x"
      using a f tb unfolding remapped_def by metis
    then have "ram u x = ram t x"
      using b f q by (intro frame_okD [of t root qs]) (auto simp: remapped_def)
    ultimately show "ram u x = ram s x" by simp
  qed
  moreover have "desc (ram s) root vb j = Some w \<or> w \<in> set ps" if "j \<le> 2" "desc (ram u) root vb j = Some w" for vb j w
    using a b q that unfolding remapped_def by blast
  moreover have "same_bounds s u" using a b by (auto simp: remapped_def intro: same_bounds_trans)
  ultimately show ?thesis using a b by (auto simp: remapped_def)
qed

lemma remapped_cong:
  "remapped s s' root ps f \<Longrightarrow> (\<And>v. v < MAXVA \<Longrightarrow> f v = h v) \<Longrightarrow> remapped s s' root ps h"
  by (simp add: remapped_def)

lemma range_need_remapped:
  assumes "grown s s1 root va ps" "desc (ram s1) root va 2 = Some t" "va \<in> S" "T \<subseteq> S"
  shows "range_need (store64 (ram s1) (cell t 0 va) v) root T + walk_need (ram s) root va 0
     \<le> range_need (ram s) root S"
proof -
  have "pt_wf s1 root" using assms(1) by (simp add: grown_def)
  then have "range_need (store64 (ram s1) (cell t 0 va) v) root T = range_need (ram s1) root T"
    by (intro range_need_cong) (rule desc_store_leaf [OF _ assms(2)])
  also have "\<dots> \<le> range_need (ram s1) root S" by (rule range_need_mono [OF assms(4)])
  finally show ?thesis using range_need_grown [OF assms(1,3)] by linarith
qed

text \<open>
  The whole loop: \<open>n\<close> pages from \<open>first\<close>, all below \<open>MAXVA\<close> and not yet mapped, with enough free pages
  for the missing tables.
\<close>

lemma map_loop_correct:
  assumes "booted pin s ps" "pt_wf s root" "page_aligned first"
    "unat first + 4096 * n = unat lst + 4096" "unat first + 4096 * n \<le> 2 ^ 38"
    "\<forall>v \<in> vpages first n. pte_of (ram s) root v AND PTE_V = 0"
    "range_need (ram s) root (vpages first n) \<le> length ps" "range_need (ram s) root (vpages first n) \<le> table_room s"
  shows "\<exists>s' j. map_loop root first lst pa perm s = Inr (0, s') \<and> booted pin s' (drop j ps) \<and>
     j \<le> range_need (ram s) root (vpages first n) \<and> table_room s = j + table_room s' \<and>
     remapped s s' root ps (mapped first n pa perm (pte_of (ram s) root))"
  using assms
proof (induction n arbitrary: s ps first pa)
  case 0
  then have "\<not> first \<le> lst" by (simp add: word_le_nat_alt)
  moreover have "remapped s s root ps (mapped first 0 pa perm (pte_of (ram s) root))"
    using 0 by (simp add: remapped_def frame_ok_def)
  ultimately show ?case
    using 0 by (intro exI [of _ s] exI [of _ 0]) (simp add: map_loop.simps)
next
  case (Suc n)
  have le: "first \<le> lst" using Suc.prems(4) by (simp add: word_le_nat_alt)
  have lt: "first < MAXVA" using Suc.prems(4,5) by (simp add: word_less_nat_alt)
  have u: "unat (first + PGSIZE) = unat first + 4096"
    using lt by (simp add: unat_word_ariths word_less_nat_alt)
  note vp = vpages_Suc [OF Suc.prems(3) lt, where n = n]
  let ?w = "walk_need (ram s) root first 0" and ?v = "PA2PTE pa OR scast perm OR PTE_V"
  let ?S = "vpages first (Suc n)" and ?T = "vpages (first + PGSIZE) n"
  have "?w \<le> range_need (ram s) root ?S" by (rule walk_need_le_range [OF vp(1)])
  then have w: "?w \<le> length ps" "?w \<le> table_room s" using Suc.prems(7,8) by linarith+
  obtain s1 t where s1: "page_walk root first 1 s = Inr (cell t 0 first, s1)" "cell t 0 first \<noteq> 0"
    "desc (ram s1) root first 2 = Some t" "booted pin s1 (drop ?w ps)"
    "table_room s = ?w + table_room s1" "grown s s1 root first ps"
    "\<forall>m v. ld64 m (cell t 0 first) = Inr (load64 m (cell t 0 first)) \<and> st64 m (cell t 0 first) v = Inr (store64 m (cell t 0 first) v)"
    "load64 (ram s1) (cell t 0 first) = pte_of (ram s) root first"
    by (rule map_one [OF Suc.prems(1,2) lt w]) blast
  let ?s2 = "s1\<lparr>ram := store64 (ram s1) (cell t 0 first) ?v\<rparr>"
  have step: "map_loop root first lst pa perm s = map_loop root (first + PGSIZE) lst (pa + PGSIZE) perm ?s2"
    using le s1(1,2,7,8) Suc.prems(6) vp(1) by (subst map_loop.simps) simp
  have r2: "remapped s ?s2 root ps (\<lambda>vb. if agree 3 first vb then ?v else pte_of (ram s) root vb)"
    by (rule remapped_store [OF s1(6,3)])
  have t: "page_aligned t" "0 < ref_count s1 t"
    using s1(3,6) pt_wf_table [of s1 root 2 first t] by (auto simp: grown_def managed_def)
  have b2: "booted pin ?s2 (drop ?w ps)" by (rule booted_store_cell [OF s1(4) t])
  have need: "range_need (ram ?s2) root ?T + ?w \<le> range_need (ram s) root ?S"
    using range_need_remapped [OF s1(6,3) vp(1,2), of ?v] by simp
  have "\<exists>s' j. map_loop root (first + PGSIZE) lst (pa + PGSIZE) perm ?s2 = Inr (0, s') \<and> booted pin s' (drop j (drop ?w ps)) \<and>
     j \<le> range_need (ram ?s2) root ?T \<and> table_room ?s2 = j + table_room s' \<and>
     remapped ?s2 s' root (drop ?w ps) (mapped (first + PGSIZE) n (pa + PGSIZE) perm (pte_of (ram ?s2) root))"
  proof (rule Suc.IH)
    show "booted pin ?s2 (drop ?w ps)" "pt_wf ?s2 root" using b2 r2 by (simp_all add: remapped_def)
    show "page_aligned (first + PGSIZE)" by (rule page_aligned_next [OF Suc.prems(3)])
    show "unat (first + PGSIZE) + 4096 * n = unat lst + 4096" "unat (first + PGSIZE) + 4096 * n \<le> 2 ^ 38"
      using Suc.prems(4,5) u by simp_all
    show "range_need (ram ?s2) root ?T \<le> length (drop ?w ps)" "range_need (ram ?s2) root ?T \<le> table_room ?s2"
      using need Suc.prems(7,8) s1(5) by (simp_all add: table_room_def)
    show "\<forall>v \<in> ?T. pte_of (ram ?s2) root v AND PTE_V = 0"
    proof
      fix v assume v: "v \<in> ?T"
      then have "v < MAXVA" using Suc.prems(5) u by (simp add: vpages_def word_less_nat_alt)
      then show "pte_of (ram ?s2) root v AND PTE_V = 0"
        using r2 v vp(2) vp(3) [OF v] Suc.prems(6) by (auto simp: remapped_def)
    qed
  qed
  then obtain s' j where s': "map_loop root (first + PGSIZE) lst (pa + PGSIZE) perm ?s2 = Inr (0, s')"
    "booted pin s' (drop j (drop ?w ps))" "j \<le> range_need (ram ?s2) root ?T" "table_room ?s2 = j + table_room s'"
    "remapped ?s2 s' root (drop ?w ps) (mapped (first + PGSIZE) n (pa + PGSIZE) perm (pte_of (ram ?s2) root))"
    by blast
  have "remapped s s' root ps (mapped (first + PGSIZE) n (pa + PGSIZE) perm (pte_of (ram ?s2) root))"
    by (rule remapped_trans [OF r2 s'(5)]) (rule set_drop_subset)
  moreover have "mapped (first + PGSIZE) n (pa + PGSIZE) perm (pte_of (ram ?s2) root) v =
      mapped first (Suc n) pa perm (pte_of (ram s) root) v" if "v < MAXVA" for v
    using r2 that mapped_Suc [OF Suc.prems(3) lt that] by (simp add: remapped_def mapped_def)
  ultimately have "remapped s s' root ps (mapped first (Suc n) pa perm (pte_of (ram s) root))"
    by (rule remapped_cong)
  moreover have "table_room s = (j + ?w) + table_room s'" using s'(4) s1(5) by (simp add: table_room_def)
  ultimately show ?case
    using step s'(1-3) need by (intro exI [of _ s'] exI [of _ "j + ?w"]) simp
qed

section \<open>Walking without allocation\<close>

lemma walk_levels_find:
  assumes "pt_wf s root" "bounds_ok s" "k \<le> 2" "desc (ram s) root va k = Some t"
  shows "walk_levels (2 - k) t va 0 s = Inr (case desc (ram s) root va 2 of Some u \<Rightarrow> cell u 0 va | None \<Rightarrow> 0, s)"
  using assms
proof (induction "2 - k" arbitrary: k t)
  case 0
  then have "k = 2" by simp
  then show ?case using 0 by (simp add: cell_def)
next
  case (Suc l)
  then have k: "k < 2" and l: "l = 2 - Suc k" by auto
  have t: "managed s t" using pt_wf_table [OF Suc.prems(1,3,4)] by simp
  then have ta: "page_aligned t" "ram_ok t 4096" using managed_ram_ok [OF Suc.prems(2)] by (auto simp: managed_def)
  show ?case
  proof (cases "load64 (ram s) (cell t (2 - k) va) AND PTE_V = 0")
    case False
    let ?u = "PTE2PA (load64 (ram s) (cell t (2 - k) va))"
    have d: "desc (ram s) root va (Suc k) = Some ?u" using Suc.prems(4) False by simp
    have "walk_levels (2 - k) t va 0 s = walk_levels (2 - Suc k) ?u va 0 s"
      unfolding Suc.hyps(2) [symmetric] walk_levels.simps cell_def [symmetric] l [symmetric]
      using False [folded Suc.hyps(2)] by (simp add: Let_def cell_ld64 [OF ta])
    then show ?thesis using Suc.hyps(1) [OF l Suc.prems(1,2) _ d] k by simp
  next
    case True
    have "desc (ram s) root va (Suc k) = None" using Suc.prems(4) True by simp
    then have "desc (ram s) root va 2 = None" by (rule desc_None_mono) (use k in simp)
    moreover have "walk_levels (2 - k) t va 0 s = Inr (0, s)"
      unfolding Suc.hyps(2) [symmetric] walk_levels.simps cell_def [symmetric]
      using True [folded Suc.hyps(2)] by (simp add: Let_def cell_ld64 [OF ta])
    ultimately show ?thesis by simp
  qed
qed

lemma page_walk_find:
  assumes "pt_wf s root" "bounds_ok s" "va < MAXVA"
  shows "page_walk root va 0 s = Inr (case desc (ram s) root va 2 of Some u \<Rightarrow> cell u 0 va | None \<Rightarrow> 0, s)"
  using walk_levels_find [OF assms(1,2), of 0 va root] assms(3) by (simp add: page_walk_def)

lemma leaf_cell:
  assumes "pt_wf s root" "bounds_ok s" "desc (ram s) root va 2 = Some t"
  shows "page_aligned t" "ram_ok t 4096" "cell t 0 va \<noteq> 0" "0 < ref_count s t"
proof -
  have "managed s t" "0 < ref_count s t" using pt_wf_table [OF assms(1) _ assms(3)] by auto
  then show ta: "page_aligned t" "ram_ok t 4096" "0 < ref_count s t"
    using managed_ram_ok [OF assms(2)] by (auto simp: managed_def)
  show "cell t 0 va \<noteq> 0" using cell_ram_ok [OF ta(1,2), of 0 va] by (auto simp: ram_ok_def)
qed

lemma lookup_pa_eq:
  assumes "pt_wf s root" "bounds_ok s" "va < MAXVA"
  shows "lookup_pa root va s =
    Inr (let e = pte_of (ram s) root va
         in if e AND PTE_V \<noteq> 0 \<and> (e AND PTE_R \<noteq> 0 \<or> e AND PTE_W \<noteq> 0) then PTE2PA e else 0)"
proof (cases "desc (ram s) root va 2")
  case None
  then show ?thesis using assms page_walk_find [OF assms] by (simp add: lookup_pa_def pte_of_def)
next
  case (Some t)
  note lc = leaf_cell [OF assms(1,2) Some]
  show ?thesis
    using assms(3) page_walk_find [OF assms] Some lc(3) cell_ld64 [OF lc(1,2)]
    by (auto simp: lookup_pa_def pte_of_def Let_def not_le)
qed

section \<open>Ranges\<close>

definition npages :: "uint64 \<Rightarrow> uint64 \<Rightarrow> nat" where
  "npages va sz = (unat va + unat sz - 1) div 4096 - unat va div 4096 + 1"

lemma map_pages_eq:
  assumes b: "booted pin s ps" and wf: "pt_wf s root"
    and r: "0 < unat sz" "unat va + unat sz \<le> 2 ^ 38"
    and un: "\<forall>v \<in> vpages (ROUNDDOWN va PGSIZE) (npages va sz). pte_of (ram s) root v AND PTE_V = 0"
    and need: "range_need (ram s) root (vpages (ROUNDDOWN va PGSIZE) (npages va sz)) \<le> min (length ps) (table_room s)"
  shows "\<exists>s' j. map_pages root va sz pa perm s = Inr (0, s') \<and> booted pin s' (drop j ps) \<and>
     j \<le> range_need (ram s) root (vpages (ROUNDDOWN va PGSIZE) (npages va sz)) \<and> table_room s = j + table_room s' \<and>
     remapped s s' root ps (mapped (ROUNDDOWN va PGSIZE) (npages va sz) pa perm (pte_of (ram s) root))"
  unfolding map_pages_def
proof (rule map_loop_correct [OF b wf])
  let ?f = "ROUNDDOWN va PGSIZE" and ?l = "ROUNDDOWN (va + sz - 1) PGSIZE"
  have "unat (va + sz) = unat va + unat sz" using r by (simp add: unat_word_ariths)
  moreover from this have "va + sz \<noteq> 0" using r(1) by auto
  ultimately have ul: "unat (va + sz - 1) = unat va + unat sz - 1" by (simp add: unat_minus_one)
  have le: "unat va div 4096 \<le> (unat va + unat sz - 1) div 4096" using r(1) by (intro div_le_mono) simp
  show e: "unat ?f + 4096 * npages va sz = unat ?l + 4096"
    using le unfolding npages_def unat_ROUNDDOWN ul by (simp add: algebra_simps)
  have "(unat va + unat sz - 1) div 4096 * 4096 + 4096 \<le> 2 ^ 38"
  proof -
    have "(unat va + unat sz - 1) div 4096 < 2 ^ 26" using r by (simp add: div_less_iff_less_mult)
    then show ?thesis by simp
  qed
  then show "unat ?f + 4096 * npages va sz \<le> 2 ^ 38" unfolding e by (simp only: unat_ROUNDDOWN ul)
  show "page_aligned ?f" by (simp add: page_aligned_iff unat_ROUNDDOWN)
qed (use un need in auto)

lemma user_va_to_pa_eq:
  assumes "pt_wf s root" "bounds_ok s" "va < MAXVA"
    "pte_of (ram s) root va = PA2PTE q OR f" "page_aligned q" "f < 1024" "f AND PTE_V \<noteq> 0"
    "f AND PTE_R \<noteq> 0 \<or> f AND PTE_W \<noteq> 0"
  shows "user_va_to_pa root va s = Inr (q + va mod PGSIZE)"
proof -
  have and_or: "(PA2PTE q OR f) AND b \<noteq> 0" if "f AND b \<noteq> 0" for b
    using that by (metis bit.conj_disj_distrib2 or_eq_0_iff)
  have m: "(4095 :: uint64) = mask 12" by (simp add: mask_eq_exp_minus_1)
  have "va AND 4095 = take_bit 12 va" unfolding m take_bit_eq_mask ..
  then have "va AND (push_bit PGSHIFT 1 - 1) = va mod PGSIZE" by (simp add: take_bit_eq_mod)
  moreover have "lookup_pa root va s = Inr q"
    using lookup_pa_eq [OF assms(1-3)] assms(4,7,8) and_or PTE2PA_PA2PTE [OF assms(5,6)] by auto
  ultimately show ?thesis by (simp add: user_va_to_pa_def)
qed

lemma bit_small:
  fixes w :: "'a::len word"
  assumes "unat w < 2 ^ k" "k \<le> n"
  shows "\<not> bit w n"
proof -
  have "unat (take_bit k w) = unat w" using assms(1) by (simp add: unsigned_take_bit_eq take_bit_nat_eq_self)
  then have "take_bit k w = w" by (rule unsigned_word_eqI)
  then have "bit w n = bit (take_bit k w) n" by simp
  then show ?thesis using assms(2) by (simp add: bit_take_bit_iff)
qed

lemma perm_bit: "(perm :: uint32) < 1024 \<Longrightarrow> bit (scast perm :: uint64) n \<longleftrightarrow> bit perm n"
  using bit_small [of perm 10 n] bit_small [of perm 10 31]
  by (cases "n \<le> 31") (auto simp: bit_simps word_less_nat_alt min_def dest: bit_imp_le_length)

lemma small_bits:
  fixes w :: uint64
  assumes "\<And>n. 10 \<le> n \<Longrightarrow> \<not> bit w n"
  shows "w < 1024"
proof -
  have "take_bit 10 w = w" using assms by (intro bit_word_eqI) (auto simp: bit_take_bit_iff not_le [symmetric])
  moreover have "unat (take_bit 10 w) < 2 ^ 10"
    unfolding unsigned_take_bit_eq by (rule take_bit_nat_less_exp)
  ultimately show ?thesis by (simp add: word_less_nat_alt)
qed

lemma perm_flags:
  assumes "(perm :: uint32) < 1024"
  shows "(scast perm OR PTE_V :: uint64) < 1024"
proof (rule small_bits)
  fix n :: nat assume "10 \<le> n"
  then show "\<not> bit (scast perm OR PTE_V :: uint64) n"
    using perm_bit [OF assms, of n] bit_small [of perm 10 n] assms by (simp add: bit_simps word_less_nat_alt)
qed

lemma perm_rw:
  assumes "(perm :: uint32) < 1024" "perm AND 6 \<noteq> 0"
  shows "(scast perm OR PTE_V :: uint64) AND PTE_R \<noteq> 0 \<or> (scast perm OR PTE_V :: uint64) AND PTE_W \<noteq> 0"
proof -
  have "perm AND 6 = (perm AND 2 ^ 1) OR (perm AND 2 ^ 2)"
    using bit.conj_disj_distrib [of perm 2 4] by simp
  then have "perm AND 2 ^ 1 \<noteq> 0 \<or> perm AND 2 ^ 2 \<noteq> 0"
    using assms(2) by auto
  then have "bit perm 1 \<or> bit perm 2" by (simp only: and_exp_eq_0_iff_not_bit not_not)
  then have "bit (scast perm OR PTE_V :: uint64) 1 \<or> bit (scast perm OR PTE_V :: uint64) 2"
    using perm_bit [OF assms(1)] by (auto simp: bit_or_iff)
  then have "(scast perm OR PTE_V :: uint64) AND 2 ^ 1 \<noteq> 0 \<or> (scast perm OR PTE_V :: uint64) AND 2 ^ 2 \<noteq> 0"
    by (simp only: and_exp_eq_0_iff_not_bit not_not)
  then show ?thesis by simp
qed

text \<open>A single page needs at most two new tables.\<close>

lemma range_need_page:
  assumes "page_aligned p" "p < MAXVA"
  shows "range_need m root (vpages p 1) \<le> 2"
proof -
  have "agree 3 p v" if "v \<in> vpages p 1" for v
  proof -
    have "unat p + 4096 \<le> 2 ^ 38"
    proof -
      obtain k where "unat p = 4096 * k" using assms(1) by (auto simp: page_aligned_iff)
      then show ?thesis using assms(2) by (simp add: word_less_nat_alt)
    qed
    then have "v < MAXVA" using that by (simp add: vpages_def word_less_nat_alt)
    then show ?thesis using that agree_3_page [OF assms] by (simp add: vpages_def)
  qed
  then have "missing m root 1 (PX 2) (vpages p 1) \<subseteq> {PX 2 p}"
    "missing m root 2 (\<lambda>va. (PX 2 va, PX 1 va)) (vpages p 1) \<subseteq> {(PX 2 p, PX 1 p)}"
    by (auto simp: missing_def agree_3)
  then have "card (missing m root 1 (PX 2) (vpages p 1)) \<le> 1"
    "card (missing m root 2 (\<lambda>va. (PX 2 va, PX 1 va)) (vpages p 1)) \<le> 1"
    using card_mono [of "{PX 2 p}"] card_mono [of "{(PX 2 p, PX 1 p)}"] by fastforce+
  then show ?thesis by (simp add: range_need_def)
qed

section \<open>A page directory with no mapping\<close>

definition empty_dir :: "mem \<Rightarrow> addr \<Rightarrow> bool" where
  "empty_dir m root \<longleftrightarrow> (\<forall>l va. load64 m (cell root l va) = 0)"

lemma empty_dir_desc: "empty_dir m root \<Longrightarrow> desc m root va (Suc k) = None"
  by (rule desc_None_mono [of _ _ _ 1]) (simp_all add: empty_dir_def)

lemma empty_dir_pte: "empty_dir m root \<Longrightarrow> pte_of m root va = 0"
  using empty_dir_desc [of m root va 1] by (simp add: pte_of_def numeral_2_eq_2 del: desc.simps)

lemma empty_dir_wf:
  assumes "empty_dir (ram s) root" "managed s root" "0 < ref_count s root"
  shows "pt_wf s root"
proof -
  have "k = 0 \<and> t = root" if "desc (ram s) root va k = Some t" for va k t
    using that empty_dir_desc [OF assms(1)] by (cases k) auto
  then show ?thesis using assms(2,3) unfolding pt_wf_def by (metis agree_0)
qed

lemma empty_dir_filled: "empty_dir (filled m root 0 4096) root"
  by (simp add: empty_dir_def load_cell_zeroed)

section \<open>Releasing a mapped page\<close>

text \<open>Memory of a page that is not a table does not matter to the page table.\<close>

lemma desc_other_page:
  assumes wf: "pt_wf s root" and p: "page_aligned p"
    and nt: "\<And>va k t. k \<le> 2 \<Longrightarrow> desc (ram s) root va k = Some t \<Longrightarrow> t \<noteq> p"
  shows "k \<le> 2 \<Longrightarrow> desc (store64 (ram s) p x) root va k = desc (ram s) root va k"
    "pte_of (store64 (ram s) p x) root va = pte_of (ram s) root va"
proof -
  have ld: "load64 (store64 (ram s) p x) (cell t l va) = load64 (ram s) (cell t l va)"
    if "k \<le> 2" "desc (ram s) root va k = Some t" for k va t l
  proof -
    have t: "page_aligned t" "t \<noteq> p" using pt_wf_aligned [OF wf that] nt [OF that] by auto
    then have "p \<noteq> cell t l va" using cell_inj_table [OF p t(1), of 0 0 l va] by (metis cell_0)
    then show ?thesis using load_cell_store [OF p t(1), of 0 0 l va] by (simp add: cell_0)
  qed
  show d: "k \<le> 2 \<Longrightarrow> desc (store64 (ram s) p x) root va k = desc (ram s) root va k" for k
  proof (induction k)
    case (Suc k)
    then show ?case using ld [of k va] by (cases "desc (ram s) root va k") auto
  qed simp
  show "pte_of (store64 (ram s) p x) root va = pte_of (ram s) root va"
    using d [of 2] ld [of 2 va] by (auto simp: pte_of_def split: option.splits)
qed

lemma pt_wf_other:
  assumes wf: "pt_wf s root" and d: "\<And>va k. k \<le> 2 \<Longrightarrow> desc (ram s') root va k = desc (ram s) root va k"
    and m: "managed s' = managed s"
    and c: "\<And>va k t. k \<le> 2 \<Longrightarrow> desc (ram s) root va k = Some t \<Longrightarrow> 0 < ref_count s' t"
  shows "pt_wf s' root"
proof -
  have "managed s' t \<and> 0 < ref_count s' t" if "k \<le> 2" "desc (ram s') root va k = Some t" for va k t
    using that d [OF that(1)] c [OF that(1)] pt_wf_table [OF wf that(1)] m by simp
  moreover have "k = j \<and> agree k va vb" if "k \<le> 2" "j \<le> 2" "desc (ram s') root va k = Some t" "desc (ram s') root vb j = Some t"
    for va vb k j t
    using that d [OF that(1)] d [OF that(2)] pt_wf_unique [OF wf that(1,2)] by simp
  ultimately show ?thesis unfolding pt_wf_def by blast
qed

lemma user_vm_unmap_eq:
  assumes b: "booted pin s ps" and wf: "pt_wf s root" and va: "va < MAXVA"
    and d: "desc (ram s) root va 2 \<noteq> None"
    and p: "p = PTE2PA (pte_of (ram s) root va)" "0 < ref_count s p" "p \<noteq> 0" "p \<noteq> pin"
    and nt: "\<And>va k t. k \<le> 2 \<Longrightarrow> desc (ram s) root va k = Some t \<Longrightarrow> t \<noteq> p"
  shows "\<exists>s'. user_vm_unmap root va sz free s = Inr s' \<and> pt_wf s' root \<and>
     booted pin s' (if ref_count s p = 1 then p # ps else ps) \<and>
     ref_count s' = (ref_count s)(p := ref_count s p - 1) \<and>
     (\<forall>vb. pte_of (ram s') root vb =
        (if agree 3 va vb then pte_of (ram s) root va AND NOT PTE_V else pte_of (ram s) root vb)) \<and>
     (\<forall>vb k. k \<le> 2 \<longrightarrow> desc (ram s') root vb k = desc (ram s) root vb k)"
proof -
  have bo: "bounds_ok s" using b by (simp add: booted_def pmm_inv_def)
  obtain t where t: "desc (ram s) root va 2 = Some t" using d by auto
  note lc = leaf_cell [OF wf bo t]
  have pm: "managed s p" using booted_managed [OF b, of p] p by simp
  then have pal: "page_aligned p" by (simp add: managed_def)
  obtain s1 where s1: "free_page p s = Inr s1" "booted pin s1 (if ref_count s p = 1 then p # ps else ps)"
    "ref_count s1 = (ref_count s)(p := ref_count s p - 1)" "same_bounds s s1"
    "ram s1 = ram s \<or> ram s1 = store64 (ram s) p (g_free_mem_list s)"
  proof (cases "ref_count s p = 1")
    case True
    then show thesis using booted_free_last [OF b True p(3,4)] that by fastforce
  next
    case False
    then have "1 < ref_count s p" using p(2) by linarith
    then show thesis using booted_free_shared [OF b _ p(3)] that False by fastforce
  qed
  have dd: "desc (ram s1) root v k = desc (ram s) root v k" if "k \<le> 2" for v k
    using s1(5) desc_other_page(1) [OF wf pal nt that] by auto
  have pp: "pte_of (ram s1) root v = pte_of (ram s) root v" for v
    using s1(5) desc_other_page(2) [OF wf pal nt] by auto
  have wf1: "pt_wf s1 root"
    using same_boundsD [OF s1(4)] s1(3) nt pt_wf_table [OF wf] by (intro pt_wf_other [OF wf dd]) auto
  have t1: "desc (ram s1) root va 2 = Some t" using dd [of 2 va] t by simp
  have e: "load64 (ram s1) (cell t 0 va) = pte_of (ram s) root va" "load64 (ram s) (cell t 0 va) = pte_of (ram s) root va"
    using pp [of va] t1 t by (simp_all add: pte_of_def)
  let ?s = "s1\<lparr>ram := store64 (ram s1) (cell t 0 va) (pte_of (ram s) root va AND NOT PTE_V)\<rparr>"
  have "user_vm_unmap root va sz free s = Inr ?s"
    using page_walk_find [OF wf bo va] t lc(3) cell_ld64 [OF lc(1,2)] cell_st64 [OF lc(1,2)] e p(1) s1(1)
    by (simp add: user_vm_unmap_def)
  moreover have "0 < ref_count s1 t" using s1(3) lc(4) nt [OF _ t] by auto
  then have "booted pin ?s (if ref_count s p = 1 then p # ps else ps)"
    by (rule booted_store_cell [OF s1(2) lc(1)])
  moreover have "pt_wf ?s root" by (rule pt_wf_store_leaf [OF wf1 t1])
  moreover have "ref_count ?s = (ref_count s)(p := ref_count s p - 1)" using s1(3) by simp
  ultimately show ?thesis
    using pte_of_store_leaf [OF wf1 t1] pp desc_store_leaf [OF wf1 t1] dd by (intro exI [of _ ?s]) simp
qed

section \<open>The kernel's direct map\<close>

lemma unat_PX: "unat (PX l v) = unat v div 2 ^ (12 + 9 * l) mod 512"
proof -
  have m: "(0x1FF :: uint64) = mask 9" by (simp add: mask_eq_exp_minus_1)
  have e: "PX l v = take_bit 9 (drop_bit (12 + 9 * l) v)"
    unfolding PX_def PXSHIFT_def m take_bit_eq_mask ..
  have "unat v < 2 ^ LENGTH(64)" by (rule unsigned_less)
  then have "take_bit LENGTH(64) (unat v) = unat v" by (simp add: take_bit_nat_eq_self)
  then have "unat (PX l v) = take_bit 9 (drop_bit (12 + 9 * l) (unat v))"
    by (simp only: e unsigned_take_bit_eq unsigned_drop_bit_eq)
  then show ?thesis by (simp add: take_bit_eq_mod drop_bit_eq_div)
qed

lemma range_need_kernel:
  assumes "\<And>v. v \<in> S \<Longrightarrow> 0x80000000 \<le> unat v \<and> unat v < 0x88000000"
  shows "range_need m root S \<le> 65"
proof -
  have p: "PX 2 v = 2" "unat (PX 1 v) < 64" if "v \<in> S" for v
  proof -
    have "unat v div 1073741824 = 2" using assms [OF that] by (intro div_nat_eqI) auto
    then have "unat (PX 2 v) = 2" by (simp add: unat_PX)
    then have "unat (PX 2 v) = unat (2 :: uint64)" by simp
    then show "PX 2 v = 2" by (rule unsigned_word_eqI)
    have "1024 \<le> unat v div 2097152" "unat v div 2097152 < 1088"
      using assms [OF that] by (auto simp: div_less_iff_less_mult less_eq_div_iff_mult_less_eq)
    moreover from this obtain y where "unat v div 2097152 = y + 2 * 512" by (metis le_Suc_ex mult_2 numeral_Bit0 add.commute)
    ultimately have "unat v div 2097152 mod 512 < 64" by (simp only: mod_mult_self1)
    then show "unat (PX 1 v) < 64" by (simp add: unat_PX)
  qed
  have "missing m root 1 (PX 2) S \<subseteq> {2}" using p by (auto simp: missing_def)
  then have 1: "card (missing m root 1 (PX 2) S) \<le> 1" using card_mono [of "{2 :: uint64}"] by fastforce
  have "missing m root 2 (\<lambda>va. (PX 2 va, PX 1 va)) S \<subseteq> (\<lambda>i. (2, of_nat i)) ` {..<64}"
  proof
    fix x assume "x \<in> missing m root 2 (\<lambda>va. (PX 2 va, PX 1 va)) S"
    then obtain v where v: "v \<in> S" "x = (PX 2 v, PX 1 v)" by (auto simp: missing_def)
    then have "x = (2, of_nat (unat (PX 1 v)))" using p [OF v(1)] by simp
    then show "x \<in> (\<lambda>i. (2, of_nat i)) ` {..<64}" using p(2) [OF v(1)] by blast
  qed
  then have "card (missing m root 2 (\<lambda>va. (PX 2 va, PX 1 va)) S) \<le> card {..<64 :: nat}"
    by (rule surj_card_le [rotated]) simp
  then show ?thesis using 1 by (simp add: range_need_def)
qed

lemma vpages_iff:
  assumes "0 < unat sz"
  shows "v \<in> vpages (ROUNDDOWN va PGSIZE) (npages va sz) \<longleftrightarrow>
    unat va div 4096 \<le> unat v div 4096 \<and> unat v div 4096 \<le> (unat va + unat sz - 1) div 4096"
proof -
  let ?a = "unat va div 4096" and ?b = "(unat va + unat sz - 1) div 4096"
  have le: "?a \<le> ?b" using assms by (intro div_le_mono) simp
  then have "unat (ROUNDDOWN va PGSIZE) + 4096 * npages va sz = (?b + 1) * 4096"
    unfolding npages_def unat_ROUNDDOWN by (simp add: algebra_simps)
  then have "v \<in> vpages (ROUNDDOWN va PGSIZE) (npages va sz) \<longleftrightarrow> ?a * 4096 \<le> unat v \<and> unat v < (?b + 1) * 4096"
    by (simp add: vpages_def unat_ROUNDDOWN)
  also have "\<dots> \<longleftrightarrow> ?a \<le> unat v div 4096 \<and> unat v div 4096 < ?b + 1"
    by (simp only: less_eq_div_iff_mult_less_eq div_less_iff_less_mult zero_less_numeral)
  finally show ?thesis by (simp add: less_Suc_eq_le)
qed

lemma vpages_aligned:
  assumes "page_aligned a" "page_aligned b" "a < b"
  shows "v \<in> vpages (ROUNDDOWN a PGSIZE) (npages a (b - a)) \<longleftrightarrow> a \<le> v \<and> v < b"
proof -
  obtain j k where jk: "unat a = 4096 * j" "unat b = 4096 * k" using assms(1,2) unfolding page_aligned_iff dvd_def by auto
  have lt: "unat a < unat b" using assms(3) by (simp add: word_less_nat_alt)
  then have u: "unat (b - a) = unat b - unat a" by (simp add: unat_sub_if')
  have "(unat b - 1) div 4096 = k - 1" using lt jk by (cases k) auto
  moreover have "unat a + unat (b - a) = unat b" "0 < unat (b - a)" using lt u by auto
  ultimately have "v \<in> vpages (ROUNDDOWN a PGSIZE) (npages a (b - a)) \<longleftrightarrow> j \<le> unat v div 4096 \<and> unat v div 4096 < k"
    using vpages_iff [of "b - a" v a] jk lt by auto
  also have "\<dots> \<longleftrightarrow> a \<le> v \<and> v < b"
    unfolding word_le_nat_alt word_less_nat_alt jk
    by (simp only: less_eq_div_iff_mult_less_eq div_less_iff_less_mult zero_less_numeral mult.commute)
  finally show ?thesis .
qed

lemma ROUNDDOWN_aligned: "page_aligned a \<Longrightarrow> ROUNDDOWN a PGSIZE = a"
proof -
  assume "page_aligned a"
  then have "unat (ROUNDDOWN a PGSIZE) = unat a" by (auto simp: unat_ROUNDDOWN page_aligned_iff)
  then show ?thesis by (rule unsigned_word_eqI)
qed

lemma PA2PTE_direct:
  assumes "page_aligned a" "a \<le> v"
  shows "PA2PTE (a + ROUNDDOWN (v - a) PGSIZE) = PA2PTE v"
proof -
  obtain j where j: "unat a = 4096 * j" using assms(1) by (auto simp: page_aligned_iff)
  have le: "unat a \<le> unat v" using assms(2) by (simp add: word_le_nat_alt)
  then have "unat (v - a) = unat v - unat a" by (simp add: unat_sub_if')
  moreover have "unat a + (unat v - unat a) div 4096 * 4096 = unat v div 4096 * 4096"
  proof -
    obtain d where "unat v = 4096 * j + d" using le j by (metis le_iff_add)
    then show ?thesis using j by simp
  qed
  ultimately have "unat a + unat (ROUNDDOWN (v - a) PGSIZE) = unat (ROUNDDOWN v PGSIZE)"
    by (simp add: unat_ROUNDDOWN)
  then have "unat (a + ROUNDDOWN (v - a) PGSIZE) = unat (ROUNDDOWN v PGSIZE)"
    using unsigned_less [of "ROUNDDOWN v PGSIZE", where ?'a = nat] by (simp add: unat_word_ariths)
  then have "a + ROUNDDOWN (v - a) PGSIZE = ROUNDDOWN v PGSIZE" by (rule unsigned_word_eqI)
  moreover have "drop_bit 12 (ROUNDDOWN v PGSIZE) = drop_bit 12 v"
    by (rule unsigned_word_eqI [where ?'a = nat]) (simp add: drop_bit_eq_div unat_div unat_ROUNDDOWN)
  ultimately show ?thesis by (simp add: PA2PTE_def)
qed

lemma kern_map_aligned:
  assumes b: "booted pin s ps" and wf: "pt_wf s root"
    and al: "page_aligned a" "page_aligned e" "KERN_BASE \<le> a" "a < e" "e \<le> PHYS_TOP"
    and un: "\<And>v. a \<le> v \<Longrightarrow> v < e \<Longrightarrow> pte_of (ram s) root v AND PTE_V = 0"
    and room: "65 \<le> length ps" "65 \<le> table_room s"
  shows "\<exists>s' j. kern_vm_map root a a (e - a) perm s = Inr s' \<and> booted pin s' (drop j ps) \<and> j \<le> 65 \<and>
     table_room s = j + table_room s' \<and> pt_wf s' root \<and> same_bounds s s' \<and>
     (\<forall>v < MAXVA. pte_of (ram s') root v =
        (if a \<le> v \<and> v < e then PA2PTE v OR scast perm OR PTE_V else pte_of (ram s) root v))"
proof -
  let ?S = "vpages (ROUNDDOWN a PGSIZE) (npages a (e - a))"
  have S: "v \<in> ?S \<longleftrightarrow> a \<le> v \<and> v < e" for v by (rule vpages_aligned [OF al(1,2,4)])
  have ub: "unat a < unat e" "unat e \<le> 0x88000000" "0x80000000 \<le> unat a"
    using al by (simp_all add: word_less_nat_alt word_le_nat_alt)
  then have sz: "unat (e - a) = unat e - unat a" by (simp add: unat_sub_if')
  have need: "range_need (ram s) root ?S \<le> 65"
    using ub by (intro range_need_kernel) (auto simp: S word_less_nat_alt word_le_nat_alt)
  have "\<exists>s' j. map_pages root a (e - a) a perm s = Inr (0, s') \<and> booted pin s' (drop j ps) \<and>
     j \<le> range_need (ram s) root ?S \<and> table_room s = j + table_room s' \<and>
     remapped s s' root ps (mapped (ROUNDDOWN a PGSIZE) (npages a (e - a)) a perm (pte_of (ram s) root))"
    using ub sz need room un S by (intro map_pages_eq [OF b wf]) auto
  then obtain s' j where s': "map_pages root a (e - a) a perm s = Inr (0, s')" "booted pin s' (drop j ps)"
    "j \<le> range_need (ram s) root ?S" "table_room s = j + table_room s'"
    "remapped s s' root ps (mapped (ROUNDDOWN a PGSIZE) (npages a (e - a)) a perm (pte_of (ram s) root))"
    by blast
  have "mapped (ROUNDDOWN a PGSIZE) (npages a (e - a)) a perm (pte_of (ram s) root) v =
      (if a \<le> v \<and> v < e then PA2PTE v OR scast perm OR PTE_V else pte_of (ram s) root v)" for v
    unfolding mapped_def S using PA2PTE_direct [OF al(1)] ROUNDDOWN_aligned [OF al(1)] by simp
  then show ?thesis
    using s' need by (intro exI [of _ s'] exI [of _ j]) (simp add: kern_vm_map_def remapped_def)
qed

section \<open>Properties\<close>

text \<open>
  C2. \<^verbatim>\<open>kern_vm_init\<close> on a fresh allocator builds the direct map: in the new directory every
  address of the kernel's text is mapped to itself readable and executable, every other address below
  \<open>PHYS_TOP\<close> is mapped to itself readable and writable, and no other address is mapped. The linker
  script aligns \<^verbatim>\<open>_etext\<close> to a page.
\<close>

theorem kern_vm_init_correct:
  assumes "pmm_inv s ps" "ref_pas s = []" "131 \<le> length ps"
    "page_aligned etext" "KERN_BASE < etext" "etext < PHYS_TOP"
  shows "\<exists>dir s' qs. kern_vm_init etext s = Inr (dir, s') \<and> booted dir s' qs \<and> pt_wf s' dir \<and>
    (\<forall>v < MAXVA. pte_of (ram s') dir v =
      (if KERN_BASE \<le> v \<and> v < etext then PA2PTE v OR (PTE_R OR PTE_A OR PTE_X) OR PTE_V
       else if etext \<le> v \<and> v < PHYS_TOP then PA2PTE v OR (PTE_R OR PTE_A OR PTE_W OR PTE_D) OR PTE_V
       else 0))"
proof -
  obtain dir qs where ps: "ps = dir # qs" using assms(3) by (cases ps) auto
  have "length (ref_pas s) = 0" using assms(2) by simp
  then have "nat (ref_total s) = 0" by (simp only: length_refs)
  then have tot: "ref_total s = 0" using assms(1) by (simp add: pmm_inv_def table_ok_def)
  then have cap: "ref_total s < REF_CAP" by simp
  obtain s1 where s1: "alloc_page s = Inr (dir, s1)" "pmm_inv s1 qs" "ref_count s1 = (ref_count s)(dir := 1)"
    "ram s1 = ram s" "same_bounds s s1" "ref_total s1 = ref_total s + 1" "ref_pas s1 \<noteq> []"
    "last (ref_pas s1) = (if ref_pas s = [] then dir else last (ref_pas s))"
    by (rule alloc_page_some [OF assms(1) [unfolded ps] cap])
  have b1: "booted dir s1 qs" using s1(2,7,8) assms(2) by (simp add: booted_def)
  have md: "managed s1 dir" "bounds_ok s1"
    using pmm_inv_fresh [OF assms(1), of dir] same_boundsD [OF s1(5)] assms(1) by (auto simp: ps pmm_inv_def)
  have da: "page_aligned dir" "ram_ok dir 4096" using md managed_ram_ok [OF md(2,1)] by (auto simp: managed_def)
  let ?s2 = "s1\<lparr>ram := filled (ram s1) dir 0 4096\<rparr>"
  have b2: "booted dir ?s2 qs" using booted_fill_page [OF b1 da(1)] s1(3) by simp
  have e2: "empty_dir (ram ?s2) dir" by (simp add: empty_dir_filled)
  have m2: "managed ?s2 dir" using md(1) by (simp add: managed_def)
  have wf2: "pt_wf ?s2 dir" by (rule empty_dir_wf [OF e2 m2]) (simp add: s1(3))
  have r2: "table_room ?s2 = 16383" using s1(6) tot by (simp add: table_room_def)
  have ka: "page_aligned KERN_BASE" "page_aligned PHYS_TOP" by (simp_all add: page_aligned_def)
  let ?x = "ucast (prot_to_type (PROT_READ OR PROT_EXEC) 0) :: uint32"
  let ?w = "ucast (prot_to_type (PROT_READ OR PROT_WRITE) 0) :: uint32"
  have x: "scast ?x = PTE_R OR PTE_A OR PTE_X" by (simp add: prot_to_type_def)
  have w: "scast ?w = PTE_R OR PTE_A OR PTE_W OR PTE_D" by (simp add: prot_to_type_def)
  obtain s3 j where s3: "kern_vm_map dir KERN_BASE KERN_BASE (etext - KERN_BASE) ?x ?s2 = Inr s3"
    "booted dir s3 (drop j qs)" "j \<le> 65" "table_room ?s2 = j + table_room s3" "pt_wf s3 dir" "same_bounds ?s2 s3"
    "\<forall>v < MAXVA. pte_of (ram s3) dir v =
       (if KERN_BASE \<le> v \<and> v < etext then PA2PTE v OR scast ?x OR PTE_V else pte_of (ram ?s2) dir v)"
    using kern_map_aligned [OF b2 wf2 ka(1) assms(4) order_refl assms(5) less_imp_le [OF assms(6)], of ?x]
      empty_dir_pte [OF e2] r2 assms(3) ps by auto
  have mx: "v < MAXVA" if "v < PHYS_TOP" for v :: addr
    using that by (simp add: word_less_nat_alt)
  have un: "pte_of (ram s3) dir v AND PTE_V = 0" if "etext \<le> v" "v < PHYS_TOP" for v
    using s3(7) mx [OF that(2)] that(1) empty_dir_pte [OF e2] by (simp add: leD)
  have q2: "65 \<le> length (drop j qs)" "65 \<le> table_room s3" using s3(3,4) r2 assms(3) ps by auto
  obtain s4 i where s4: "kern_vm_map dir etext etext (PHYS_TOP - etext) ?w s3 = Inr s4"
    "booted dir s4 (drop i (drop j qs))" "pt_wf s4 dir" "same_bounds s3 s4"
    "\<forall>v < MAXVA. pte_of (ram s4) dir v =
       (if etext \<le> v \<and> v < PHYS_TOP then PA2PTE v OR scast ?w OR PTE_V else pte_of (ram s3) dir v)"
    using kern_map_aligned [OF s3(2,5) assms(4) ka(2) less_imp_le [OF assms(5)] assms(6) order_refl un q2, of ?w] by blast
  have bo: "bounds_ok s3" "bounds_ok s4" using s3(2) s4(2) by (simp_all add: booted_def pmm_inv_def)
  have "KERN_BASE < MAXVA" by simp
  then have "kern_vm_init etext s = Inr (dir, s4)"
    using s1(1) s3(1) s4(1) kmemset_page [OF da(2), of 0 s1] lookup_pa_eq [OF s3(5) bo(1)] lookup_pa_eq [OF s4(3) bo(2)]
      mx [OF assms(6)]
    by (simp add: kern_vm_init_def)
  moreover have "pte_of (ram s4) dir v =
      (if KERN_BASE \<le> v \<and> v < etext then PA2PTE v OR (PTE_R OR PTE_A OR PTE_X) OR PTE_V
       else if etext \<le> v \<and> v < PHYS_TOP then PA2PTE v OR (PTE_R OR PTE_A OR PTE_W OR PTE_D) OR PTE_V
       else 0)" if "v < MAXVA" for v
    using s4(5) s3(7) that empty_dir_pte [OF e2] unfolding x w by (simp add: leD)
  ultimately show ?thesis using s4(2,3) by blast
qed

theorem kern_vm_init_correct_witness:
  "\<exists>s dir s' qs. kern_vm_init 0x80010000 s = Inr (dir, s') \<and> booted dir s' qs \<and>
     pte_of (ram s') dir 0x80000000 = PA2PTE 0x80000000 OR (PTE_R OR PTE_A OR PTE_X) OR PTE_V"
proof -
  let ?s = "\<lparr>ram = \<lambda>_. 0, g_mem_size = 0x200000, free_mem_start_addr = 0, free_mem_end_addr = 0,
      g_free_mem_list = 0, ref_list = \<lambda>_. \<lparr>ru_pa = 0, ru_ref = 0\<rparr>, ref_total = 0, page_latch = 0\<rparr> :: pmm"
  obtain s where s: "pmm_init 0x80100000 ?s = Inr s" "free_mem_start_addr s = ROUNDUP 0x80100000 PGSIZE"
    "free_mem_end_addr s = DRAM_BASE + min PKE_MAX_ALLOWABLE_RAM (g_mem_size ?s)"
    "pmm_inv s (rev (pages_from (free_mem_start_addr s) (page_count (free_mem_start_addr s) (free_mem_end_addr s))))"
    "\<forall>p. ref_count s p = 0"
    using pmm_init_spec [of "0x80100000" ?s] by (auto simp: min_def)
  have "free_mem_start_addr s = 0x80100000" "free_mem_end_addr s = 0x80200000"
    using s(2,3) by (simp_all add: ROUNDUP_def min_def)
  then have "131 \<le> length (rev (pages_from (free_mem_start_addr s) (page_count (free_mem_start_addr s) (free_mem_end_addr s))))"
    by (simp add: page_count_def pages_from_def)
  moreover have "ref_pas s = []"
    using s(4,5) ref_count_0_iff [of s] by (auto simp: pmm_inv_def)
  moreover have "page_aligned 0x80010000" by (simp add: page_aligned_def)
  ultimately show ?thesis using kern_vm_init_correct [OF s(4), of "0x80010000"] by fastforce
qed

text \<open>
  A witness state: the directory is the page at \<open>0x80102000\<close> of the small allocator state, with no
  mapping.
\<close>

lemma ex_dir: "pt_wf ex_pmm 0x80102000" "empty_dir (ram ex_pmm) 0x80102000"
proof -
  have a: "page_aligned 0x80101000" "page_aligned 0x80102000" by (simp_all add: page_aligned_def)
  have "load64 (ram ex_pmm) (cell 0x80102000 l va) = 0" for l va
  proof -
    have "cell 0x80101000 0 0 \<noteq> cell 0x80102000 l va" using cell_inj_table [OF a, of 0 0 l va] by auto
    then have "load64 (ram ex_pmm) (cell 0x80102000 l va) = load64 (\<lambda>_. 0) (cell 0x80102000 l va)"
      using load_cell_store [OF a, of 0 0 l va "\<lambda>_. 0" "0x80100000"] by (simp add: cell_0 ex_pmm_def)
    then show ?thesis by (simp add: load64_zero)
  qed
  then show e: "empty_dir (ram ex_pmm) 0x80102000" by (simp add: empty_dir_def)
  show "pt_wf ex_pmm 0x80102000"
    by (rule empty_dir_wf [OF e]) (simp_all add: managed_def page_aligned_def ref_count_def refs_def ex_pmm_def)
qed

lemma ex_need: "p < MAXVA \<Longrightarrow> page_aligned p \<Longrightarrow> range_need (ram ex_pmm) 0x80102000 (vpages p 1)
    \<le> min (length [0x80101000, 0x80100000 :: addr]) (table_room ex_pmm)"
  using range_need_page [of p "ram ex_pmm" "0x80102000"] by (simp add: table_room_def ex_pmm_def)

text \<open>A second witness state: one page of user memory mapped at \<open>0x10000\<close>.\<close>

definition ex_big :: pmm where
  "ex_big = ex_pmm\<lparr>ram := store64 (ram ex_pmm) 0x80100000 0, free_mem_end_addr := 0x80104000,
     ref_list := (\<lambda>_. \<lparr>ru_pa = 0, ru_ref = 0\<rparr>)(0 := \<lparr>ru_pa = 0x80102000, ru_ref = 1\<rparr>,
                                              1 := \<lparr>ru_pa = 0x80103000, ru_ref = 1\<rparr>),
     ref_total := 2\<rparr>"

lemma ex_big_refs:
  "refs ex_big = [\<lparr>ru_pa = 0x80102000, ru_ref = 1\<rparr>, \<lparr>ru_pa = 0x80103000, ru_ref = 1\<rparr>]"
  "ref_pas ex_big = [0x80102000, 0x80103000]"
  by (simp_all add: ref_pas_def refs_def ex_big_def numeral_2_eq_2)

lemma ex_big_booted: "booted 0x80103000 ex_big [0x80101000, 0x80100000]"
proof -
  have l: "load64 (ram ex_big) 0x80101000 = 0x80100000" "load64 (ram ex_big) 0x80100000 = 0"
    using ex_pmm_load by (simp_all add: ex_big_def load64_store64_other)
  show ?thesis
    unfolding booted_def pmm_inv_def bounds_ok_def table_ok_def ex_big_refs
    using l by (simp add: managed_def page_aligned_def) (simp add: ex_big_def ex_pmm_def)
qed

lemma ex_big_dir: "pt_wf ex_big 0x80103000" "empty_dir (ram ex_big) 0x80103000"
proof -
  have a: "page_aligned 0x80101000" "page_aligned 0x80103000" "page_aligned 0x80100000" by (simp_all add: page_aligned_def)
  have "load64 (ram ex_big) (cell 0x80103000 l va) = 0" for l va
  proof -
    have "cell 0x80101000 0 0 \<noteq> cell 0x80103000 l va" "cell 0x80100000 0 0 \<noteq> cell 0x80103000 l va"
      using cell_inj_table [OF a(1,2), of 0 0 l va] cell_inj_table [OF a(3,2), of 0 0 l va] by auto
    then have "load64 (ram ex_big) (cell 0x80103000 l va) = load64 (\<lambda>_. 0) (cell 0x80103000 l va)"
      using load_cell_store [OF a(1,2), of 0 0 l va "\<lambda>_. 0" "0x80100000"] load_cell_store [OF a(3,2), of 0 0 l va]
      by (simp add: cell_0 ex_big_def ex_pmm_def)
    then show ?thesis by (simp add: load64_zero)
  qed
  then show e: "empty_dir (ram ex_big) 0x80103000" by (simp add: empty_dir_def)
  show "pt_wf ex_big 0x80103000"
    by (rule empty_dir_wf [OF e]) (simp_all add: ref_count_def ex_big_refs managed_def page_aligned_def,
        simp add: ex_big_def ex_pmm_def)
qed

lemma ex_mapped:
  "\<exists>s ps. booted 0x80103000 s ps \<and> pt_wf s 0x80103000 \<and>
     pte_of (ram s) 0x80103000 0x10000 = PA2PTE 0x80102000 OR scast (0xD6 :: uint32) OR PTE_V \<and> ref_count s 0x80102000 = 1 \<and>
     (\<forall>va k t. k \<le> 2 \<longrightarrow> desc (ram s) 0x80103000 va k = Some t \<longrightarrow> t \<noteq> 0x80102000)"
proof -
  have r: "ROUNDDOWN (0x10000 :: uint64) PGSIZE = 0x10000" "npages 0x10000 0x1000 = 1"
    by (simp_all add: ROUNDDOWN_def npages_def)
  have n: "range_need (ram ex_big) 0x80103000 (vpages 0x10000 1) \<le> 2"
    by (rule range_need_page) (simp_all add: page_aligned_def)
  have "table_room ex_big = 16382" by (simp add: table_room_def ex_big_def)
  then obtain s j where s: "booted 0x80103000 s (drop j [0x80101000, 0x80100000])"
    "remapped ex_big s 0x80103000 [0x80101000, 0x80100000]
       (mapped (ROUNDDOWN 0x10000 PGSIZE) (npages 0x10000 0x1000) 0x80102000 0xD6 (pte_of (ram ex_big) 0x80103000))"
    using map_pages_eq [OF ex_big_booted ex_big_dir(1), of "0x1000" "0x10000" "0x80102000" "0xD6"] n
    by (auto simp: r empty_dir_pte [OF ex_big_dir(2)])
  have "pte_of (ram s) 0x80103000 0x10000 = PA2PTE 0x80102000 OR scast (0xD6 :: uint32) OR PTE_V"
    using s(2) by (simp add: remapped_def mapped_def r vpages_def ROUNDDOWN_def)
  moreover have "ref_count s 0x80102000 = 1"
  proof -
    have c: "ref_count ex_big 0x80102000 = 1" by (simp add: ref_count_def ex_big_refs)
    then show ?thesis using s(2) by (simp add: remapped_def)
  qed
  moreover have "t \<noteq> 0x80102000" if "k \<le> 2" "desc (ram s) 0x80103000 va k = Some t" for va k t
  proof -
    have "desc (ram ex_big) 0x80103000 va k = Some t \<or> t \<in> set [0x80101000, 0x80100000]"
      using s(2) that unfolding remapped_def by blast
    then show ?thesis using empty_dir_desc [OF ex_big_dir(2)] by (cases k) auto
  qed
  moreover have "pt_wf s 0x80103000" using s(2) by (simp add: remapped_def)
  ultimately show ?thesis using s(1) by blast
qed

text \<open>
  C1. \<^verbatim>\<open>map_pages\<close> maps exactly the pages that the range [\<open>va\<close>, \<open>va + size\<close>) touches, to
  consecutive frames from \<open>pa\<close> with the given permission, and leaves every other virtual address as it was;
  it always ends and returns 0 when the range is below \<open>MAXVA\<close>, unmapped, and there are as many free pages
  as page tables are missing. The page table stays a tree of allocated pages, and memory outside its
  tables and the free pages does not change.
\<close>

theorem map_pages_correct:
  assumes "booted pin s ps" "pt_wf s root" "0 < unat sz" "unat va + unat sz \<le> 2 ^ 38"
    "\<forall>v \<in> vpages (ROUNDDOWN va PGSIZE) (npages va sz). pte_of (ram s) root v AND PTE_V = 0"
    "range_need (ram s) root (vpages (ROUNDDOWN va PGSIZE) (npages va sz)) \<le> min (length ps) (table_room s)"
  shows "\<exists>s' j. map_pages root va sz pa perm s = Inr (0, s') \<and> booted pin s' (drop j ps) \<and> pt_wf s' root \<and>
    (\<forall>v < MAXVA. pte_of (ram s') root v =
      (if unat va div 4096 \<le> unat v div 4096 \<and> unat v div 4096 \<le> (unat va + unat sz - 1) div 4096
       then PA2PTE (pa + ROUNDDOWN (v - ROUNDDOWN va PGSIZE) PGSIZE) OR scast perm OR PTE_V
       else pte_of (ram s) root v)) \<and>
    frame_ok s root ps (ram s')"
proof -
  obtain s' j where s': "map_pages root va sz pa perm s = Inr (0, s')" "booted pin s' (drop j ps)"
    "remapped s s' root ps (mapped (ROUNDDOWN va PGSIZE) (npages va sz) pa perm (pte_of (ram s) root))"
    using map_pages_eq [OF assms, of pa perm] by blast
  then show ?thesis
    using vpages_iff [OF assms(3), of _ va]
    by (intro exI [of _ s'] exI [of _ j]) (simp add: remapped_def mapped_def)
qed

theorem map_pages_correct_witness:
  "\<exists>s' j. map_pages 0x80102000 0x10000 0x1000 0x80100000 0xD6 ex_pmm = Inr (0, s') \<and>
     pte_of (ram s') 0x80102000 0x10008 = PA2PTE 0x80100000 OR 0xD6 OR PTE_V"
proof -
  have r: "ROUNDDOWN (0x10000 :: uint64) PGSIZE = 0x10000" "npages 0x10000 0x1000 = 1"
    by (simp_all add: ROUNDDOWN_def npages_def)
  have "range_need (ram ex_pmm) 0x80102000 (vpages 0x10000 1)
      \<le> min (length [0x80101000, 0x80100000 :: addr]) (table_room ex_pmm)"
    by (rule ex_need) (simp_all add: page_aligned_def)
  then have "\<exists>s' j. map_pages 0x80102000 0x10000 0x1000 0x80100000 0xD6 ex_pmm = Inr (0, s') \<and>
      booted 0x80102000 s' (drop j [0x80101000, 0x80100000]) \<and> pt_wf s' 0x80102000 \<and>
      (\<forall>v < MAXVA. pte_of (ram s') 0x80102000 v =
      (if unat (0x10000 :: uint64) div 4096 \<le> unat v div 4096 \<and>
          unat v div 4096 \<le> (unat (0x10000 :: uint64) + unat (0x1000 :: uint64) - 1) div 4096
       then PA2PTE (0x80100000 + ROUNDDOWN (v - ROUNDDOWN 0x10000 PGSIZE) PGSIZE) OR scast (0xD6 :: uint32) OR PTE_V
       else pte_of (ram ex_pmm) 0x80102000 v)) \<and>
      frame_ok ex_pmm 0x80102000 [0x80101000, 0x80100000] (ram s')"
    by (intro map_pages_correct [OF ex_pmm_booted ex_dir(1)]) (simp_all add: r empty_dir_pte [OF ex_dir(2)])
  then show ?thesis by (fastforce simp: ROUNDDOWN_def)
qed

text \<open>
  C8. After \<^verbatim>\<open>user_vm_map\<close> of a page-aligned range to a page-aligned physical range, with a
  permission that includes reading or writing, \<^verbatim>\<open>user_va_to_pa\<close> translates every address of the
  range to the corresponding physical address, byte for byte.
\<close>

theorem user_map_translate:
  assumes "booted pin s ps" "pt_wf s root" "page_aligned va" "page_aligned pa"
    "0 < unat sz" "unat va + unat sz \<le> 2 ^ 38" "unat pa + unat sz \<le> 2 ^ 64"
    "\<forall>v \<in> vpages (ROUNDDOWN va PGSIZE) (npages va sz). pte_of (ram s) root v AND PTE_V = 0"
    "range_need (ram s) root (vpages (ROUNDDOWN va PGSIZE) (npages va sz)) \<le> min (length ps) (table_room s)"
    "perm < 1024" "perm AND 6 \<noteq> 0"
  shows "\<exists>s'. user_vm_map root va sz pa perm s = Inr s' \<and>
    (\<forall>i. unat i < unat sz \<longrightarrow> user_va_to_pa root (va + i) s' = Inr (pa + i))"
proof -
  obtain s' j where s': "map_pages root va sz pa perm s = Inr (0, s')" "booted pin s' (drop j ps)"
    "remapped s s' root ps (mapped (ROUNDDOWN va PGSIZE) (npages va sz) pa perm (pte_of (ram s) root))"
    using map_pages_eq [OF assms(1,2,5,6,8,9), of pa perm] by blast
  have wf: "pt_wf s' root" and bo: "bounds_ok s'" using s'(2,3) by (simp_all add: remapped_def booted_def pmm_inv_def)
  have rd: "ROUNDDOWN va PGSIZE = va" by (rule ROUNDDOWN_aligned [OF assms(3)])
  let ?f = "(scast perm OR PTE_V) :: uint64"
  note f = perm_flags [OF assms(10)] PTE_V_or [of "scast perm"] perm_rw [OF assms(10,11)]
  have "user_va_to_pa root (va + i) s' = Inr (pa + i)" if i: "unat i < unat sz" for i
  proof -
    have uv: "unat (va + i) = unat va + unat i" using assms(6) i by (simp add: unat_word_ariths)
    have lt: "va + i < MAXVA" using assms(6) i uv by (simp add: word_less_nat_alt)
    have "va + i \<in> vpages (ROUNDDOWN va PGSIZE) (npages va sz)"
      unfolding vpages_iff [OF assms(5)] uv using i by (auto intro!: div_le_mono)
    then have e: "pte_of (ram s') root (va + i) = PA2PTE (pa + ROUNDDOWN i PGSIZE) OR ?f"
      using s'(3) lt by (simp add: remapped_def mapped_def rd or.assoc)
    have q: "page_aligned (pa + ROUNDDOWN i PGSIZE)"
      using assms(4) unfolding page_aligned_iff by (intro dvd_unat_add) (simp_all add: unat_ROUNDDOWN)
    have "user_va_to_pa root (va + i) s' = Inr (pa + ROUNDDOWN i PGSIZE + (va + i) mod PGSIZE)"
      by (rule user_va_to_pa_eq [OF wf bo lt e q f])
    moreover have "(va + i) mod PGSIZE = i mod PGSIZE"
    proof (rule unsigned_word_eqI [where ?'a = nat])
      obtain k where "unat va = 4096 * k" using assms(3) by (auto simp: page_aligned_iff)
      then show "unat ((va + i) mod PGSIZE) = unat (i mod PGSIZE)" by (simp add: unat_mod uv)
    qed
    moreover have "ROUNDDOWN i PGSIZE + i mod PGSIZE = i"
      using div_mult_mod_eq [of i PGSIZE] by (simp add: ROUNDDOWN_def)
    ultimately show ?thesis by (simp only: add.assoc)
  qed
  then show ?thesis using s'(1) by (simp add: user_vm_map_def)
qed

theorem user_map_translate_witness:
  "\<exists>s'. user_vm_map 0x80102000 0x10000 0x1000 0x80100000 0xD6 ex_pmm = Inr s' \<and>
     user_va_to_pa 0x80102000 (0x10000 + 0x123) s' = Inr (0x80100000 + 0x123)"
proof -
  have r: "ROUNDDOWN (0x10000 :: uint64) PGSIZE = 0x10000" "npages 0x10000 0x1000 = 1"
    by (simp_all add: ROUNDDOWN_def npages_def)
  have "range_need (ram ex_pmm) 0x80102000 (vpages 0x10000 1)
      \<le> min (length [0x80101000, 0x80100000 :: addr]) (table_room ex_pmm)"
    by (rule ex_need) (simp_all add: page_aligned_def)
  then have "\<exists>s'. user_vm_map 0x80102000 0x10000 0x1000 0x80100000 0xD6 ex_pmm = Inr s' \<and>
      (\<forall>i. unat i < unat (0x1000 :: uint64) \<longrightarrow> user_va_to_pa 0x80102000 (0x10000 + i) s' = Inr (0x80100000 + i))"
    by (intro user_map_translate [OF ex_pmm_booted ex_dir(1)])
      (simp_all add: r empty_dir_pte [OF ex_dir(2)] page_aligned_def)
  then obtain s' where s': "user_vm_map 0x80102000 0x10000 0x1000 0x80100000 0xD6 ex_pmm = Inr s'"
    "\<forall>i. unat i < unat (0x1000 :: uint64) \<longrightarrow> user_va_to_pa 0x80102000 (0x10000 + i) s' = Inr (0x80100000 + i)"
    by blast
  have "user_va_to_pa 0x80102000 (0x10000 + 0x123) s' = Inr (0x80100000 + 0x123)"
    using s'(2) [rule_format, of "0x123"] by simp
  then show ?thesis using s'(1) by blast
qed

text \<open>
  C9. \<^verbatim>\<open>user_vm_unmap\<close> of a mapped page releases one reference of its frame and clears the valid bit
  of that page's entry; every other page keeps its entry, and the frame returns to the free list exactly
  when its count reaches 0. The size and the free flag of the call have no influence.
\<close>

theorem user_vm_unmap_correct:
  assumes "booted pin s ps" "pt_wf s root" "va < MAXVA" "desc (ram s) root va 2 \<noteq> None"
    "p = PTE2PA (pte_of (ram s) root va)" "0 < ref_count s p" "p \<noteq> 0" "p \<noteq> pin"
    "\<forall>va k t. k \<le> 2 \<longrightarrow> desc (ram s) root va k = Some t \<longrightarrow> t \<noteq> p"
  shows "\<exists>s'. user_vm_unmap root va sz free s = Inr s' \<and> pt_wf s' root \<and>
     booted pin s' (if ref_count s p = 1 then p # ps else ps) \<and>
     ref_count s' = (ref_count s)(p := ref_count s p - 1) \<and>
     (\<forall>vb. pte_of (ram s') root vb =
        (if agree 3 va vb then pte_of (ram s) root va AND NOT PTE_V else pte_of (ram s) root vb))"
  using user_vm_unmap_eq [OF assms(1-8), of sz free] assms(9) by blast

theorem user_vm_unmap_correct_witness:
  "\<exists>s s'. user_vm_unmap 0x80103000 0x10000 0x1000 1 s = Inr s' \<and> ref_count s 0x80102000 = 1 \<and>
     ref_count s' 0x80102000 = 0 \<and> pte_of (ram s') 0x80103000 0x10000 AND PTE_V = 0"
proof -
  obtain s ps where s: "booted 0x80103000 s ps" "pt_wf s 0x80103000"
    "pte_of (ram s) 0x80103000 0x10000 = PA2PTE 0x80102000 OR scast (0xD6 :: uint32) OR PTE_V" "ref_count s 0x80102000 = 1"
    "\<forall>va k t. k \<le> 2 \<longrightarrow> desc (ram s) 0x80103000 va k = Some t \<longrightarrow> t \<noteq> 0x80102000"
    using ex_mapped by blast
  have p: "0x80102000 = PTE2PA (pte_of (ram s) 0x80103000 0x10000)"
    by (simp add: s(3) PTE2PA_def PA2PTE_def)
  have d: "desc (ram s) 0x80103000 0x10000 2 \<noteq> None"
    using s(3) by (cases "desc (ram s) 0x80103000 0x10000 2") (simp_all add: pte_of_def PA2PTE_def)
  have "\<exists>s'. user_vm_unmap 0x80103000 0x10000 0x1000 1 s = Inr s' \<and> pt_wf s' 0x80103000 \<and>
     booted 0x80103000 s' (if ref_count s 0x80102000 = 1 then 0x80102000 # ps else ps) \<and>
     ref_count s' = (ref_count s)(0x80102000 := ref_count s 0x80102000 - 1) \<and>
     (\<forall>vb. pte_of (ram s') 0x80103000 vb =
        (if agree 3 0x10000 vb then pte_of (ram s) 0x80103000 0x10000 AND NOT PTE_V else pte_of (ram s) 0x80103000 vb))"
    by (rule user_vm_unmap_correct [OF s(1,2) _ d p]) (use s in simp_all)
  then obtain s' where "user_vm_unmap 0x80103000 0x10000 0x1000 1 s = Inr s'"
    "ref_count s' = (ref_count s)(0x80102000 := ref_count s 0x80102000 - 1)"
    "pte_of (ram s') 0x80103000 0x10000 = pte_of (ram s) 0x80103000 0x10000 AND NOT PTE_V"
    by auto
  then show ?thesis using s(4) by (intro exI [of _ s] exI [of _ s']) (simp add: s(3) PA2PTE_def)
qed

text \<open>
  On an address that is not mapped, \<^verbatim>\<open>user_va_to_pa\<close> does not return \<^verbatim>\<open>NULL\<close> as its
  specification asks: it returns the offset of the address inside its page.
\<close>

theorem user_va_to_pa_unmapped:
  assumes "pt_wf s root" "bounds_ok s" "va < MAXVA" "pte_of (ram s) root va AND PTE_V = 0"
  shows "user_va_to_pa root va s = Inr (va AND 0xFFF)"
  using lookup_pa_eq [OF assms(1-3)] assms(4) by (simp add: user_va_to_pa_def)

theorem user_va_to_pa_unmapped_witness:
  "user_va_to_pa 0x80102000 0x10123 ex_pmm = Inr 0x123"
proof -
  have "bounds_ok ex_pmm" using ex_pmm_booted by (simp add: booted_def pmm_inv_def)
  then show ?thesis
    using user_va_to_pa_unmapped [OF ex_dir(1), of "0x10123"] by (simp add: empty_dir_pte [OF ex_dir(2)])
qed

text \<open>
  \<^verbatim>\<open>map_pages\<close> never overwrites a mapping: if the first page of the range is already mapped, the
  kernel panics and nothing is changed.
\<close>

theorem map_pages_remap_panics:
  assumes "booted pin s ps" "pt_wf s root" "va < MAXVA" "0 < unat sz" "unat va + unat sz < 2 ^ 64"
    "pte_of (ram s) root (ROUNDDOWN va PGSIZE) AND PTE_V \<noteq> 0"
  shows "map_pages root va sz pa perm s = Inl (Panic ''map_pages fails on mapping'')"
proof -
  let ?f = "ROUNDDOWN va PGSIZE"
  have fl: "?f < MAXVA"
    using assms(3) unat_ROUNDDOWN [of va] div_times_less_eq_dividend [of "unat va" 4096]
    unfolding word_less_nat_alt by linarith
  have "desc (ram s) root ?f 2 \<noteq> None"
    using assms(6) by (cases "desc (ram s) root ?f 2") (auto simp: pte_of_def)
  moreover from this have "desc (ram s) root ?f 1 \<noteq> None" using desc_None_mono [of "ram s" root ?f 1 2] by linarith
  ultimately have w0: "walk_need (ram s) root ?f 0 = 0" unfolding walk_need_0 by (simp del: desc.simps)
  obtain s1 t where s1: "page_walk root ?f 1 s = Inr (cell t 0 ?f, s1)" "cell t 0 ?f \<noteq> 0"
    "\<forall>m v. ld64 m (cell t 0 ?f) = Inr (load64 m (cell t 0 ?f)) \<and> st64 m (cell t 0 ?f) v = Inr (store64 m (cell t 0 ?f) v)"
    "load64 (ram s1) (cell t 0 ?f) = pte_of (ram s) root ?f"
    by (rule map_one [OF assms(1,2) fl]) (auto simp: w0)
  have "unat (va + sz) = unat va + unat sz" using assms(5) by (simp add: unat_word_ariths)
  moreover from this have "va + sz \<noteq> 0" using assms(4) by auto
  ultimately have "unat (va + sz - 1) = unat va + unat sz - 1" by (simp add: unat_minus_one)
  then have "?f \<le> ROUNDDOWN (va + sz - 1) PGSIZE"
    using assms(4) unfolding word_le_nat_alt unat_ROUNDDOWN by (intro mult_le_mono1 div_le_mono) simp
  then show ?thesis
    using s1 assms(6) by (simp add: map_pages_def map_loop.simps)
qed

theorem map_pages_remap_panics_witness:
  "\<exists>s. map_pages 0x80103000 0x10000 0x1000 0x80100000 0xD6 s = Inl (Panic ''map_pages fails on mapping'')"
proof -
  obtain s ps where s: "booted 0x80103000 s ps" "pt_wf s 0x80103000"
    "pte_of (ram s) 0x80103000 0x10000 = PA2PTE 0x80102000 OR scast (0xD6 :: uint32) OR PTE_V"
    using ex_mapped by blast
  have "map_pages 0x80103000 0x10000 0x1000 0x80100000 0xD6 s = Inl (Panic ''map_pages fails on mapping'')"
    by (rule map_pages_remap_panics [OF s(1,2)]) (simp_all add: ROUNDDOWN_def s(3) PA2PTE_def)
  then show ?thesis by blast
qed

end
