(* ===== verification/Symbol.thy ===== *)
theory Symbol
  imports Cstring "HOL-Library.Multiset"
begin

text \<open>
  The symbol table for backtraces, \<^verbatim>\<open>kernel/symbol.c\<close>: the in-place \<^verbatim>\<open>quickSort\<close> of the
  two parallel arrays \<^verbatim>\<open>symbols\<close> and \<^verbatim>\<open>sym_names\<close> by start address, and the binary search
  of \<^verbatim>\<open>func_name_printer\<close>. Names are the C strings held by the rows of \<^verbatim>\<open>sym_names\<close>; the
  indices that occur are non-negative.
\<close>

section \<open>Data\<close>

record elf_symbol =
  st_name :: uint32
  st_info :: uint8
  st_other :: uint8
  st_shndx :: uint16
  st_value :: uint64
  st_size :: uint64

type_synonym cname = "uint8 list"

record symtab =
  symbols :: "int \<Rightarrow> elf_symbol"
  sym_names :: "int \<Rightarrow> cname"
  sym_count :: int

section \<open>Operations\<close>

text \<open>\<^verbatim>\<open>symbols[i] = symbols[j]; strcpy(sym_names[i], sym_names[j])\<close>\<close>

definition copy_sym :: "int \<Rightarrow> int \<Rightarrow> symtab \<Rightarrow> symtab" where
  "copy_sym i j st = st\<lparr>symbols := (symbols st)(i := symbols st j), sym_names := (sym_names st)(i := sym_names st j)\<rparr>"

function scan_down :: "symtab \<Rightarrow> uint64 \<Rightarrow> int \<Rightarrow> int \<Rightarrow> int" where
  "scan_down st x i j = (if i < j \<and> st_value (symbols st j) \<ge> x then scan_down st x i (j - 1) else j)"
  by pat_completeness auto
termination by (relation "measure (\<lambda>(st, x, i, j). nat (j - i))") auto

function scan_up :: "symtab \<Rightarrow> uint64 \<Rightarrow> int \<Rightarrow> int \<Rightarrow> int" where
  "scan_up st x i j = (if i < j \<and> st_value (symbols st i) < x then scan_up st x (i + 1) j else i)"
  by pat_completeness auto
termination by (relation "measure (\<lambda>(st, x, i, j). nat (j - i))") auto

declare scan_down.simps [simp del] scan_up.simps [simp del]

lemma scan_down_spec:
  "i \<le> j \<Longrightarrow> i \<le> scan_down st x i j \<and> scan_down st x i j \<le> j \<and>
   (\<forall>k. scan_down st x i j < k \<and> k \<le> j \<longrightarrow> x \<le> st_value (symbols st k)) \<and>
   (i < scan_down st x i j \<longrightarrow> st_value (symbols st (scan_down st x i j)) < x)"
proof (induction st x i j rule: scan_down.induct)
  case (1 st x i j)
  show ?case
  proof (cases "i < j \<and> st_value (symbols st j) \<ge> x")
    case True
    then have "scan_down st x i j = scan_down st x i (j - 1)" by (subst scan_down.simps) simp
    moreover have "k \<le> j \<longleftrightarrow> k = j \<or> k \<le> j - 1" for k by auto
    ultimately show ?thesis using 1(1) [OF True] True by auto
  next
    case False
    then have "scan_down st x i j = j" by (subst scan_down.simps) auto
    then show ?thesis using False 1(2) by auto
  qed
qed

lemma scan_up_spec:
  "i \<le> j \<Longrightarrow> i \<le> scan_up st x i j \<and> scan_up st x i j \<le> j \<and>
   (\<forall>k. i \<le> k \<and> k < scan_up st x i j \<longrightarrow> st_value (symbols st k) < x) \<and>
   (scan_up st x i j < j \<longrightarrow> x \<le> st_value (symbols st (scan_up st x i j)))"
proof (induction st x i j rule: scan_up.induct)
  case (1 st x i j)
  show ?case
  proof (cases "i < j \<and> st_value (symbols st i) < x")
    case True
    then have "scan_up st x i j = scan_up st x (i + 1) j" by (subst scan_up.simps) simp
    moreover have "i \<le> k \<longleftrightarrow> k = i \<or> i + 1 \<le> k" for k by auto
    ultimately show ?thesis using 1(1) [OF True] True by auto
  next
    case False
    then have "scan_up st x i j = i" by (subst scan_up.simps) auto
    then show ?thesis using False 1(2) by auto
  qed
qed

lemma scan_up_step: "i < j \<Longrightarrow> st_value (symbols st i) < x \<Longrightarrow> i < scan_up st x i j"
  using scan_up_spec [of "i + 1" j st x] by (subst scan_up.simps) auto

text \<open>The outer loop of the partition; the result is the table and the final index of the hole.\<close>

function part_loop :: "symtab \<Rightarrow> uint64 \<Rightarrow> int \<Rightarrow> int \<Rightarrow> symtab \<times> int" where
  "part_loop st x i j =
     (if i < j
      then (let j1 = scan_down st x i j;
                st1 = (if i < j1 then copy_sym i j1 st else st);
                i1 = scan_up st1 x i j1;
                st2 = (if i1 < j1 then copy_sym j1 i1 st1 else st1)
            in part_loop st2 x i1 j1)
      else (st, i))"
  by pat_completeness auto
termination
proof (relation "measure (\<lambda>(st, x, i, j). nat (j - i))", goal_cases)
  case (2 st x i j j1 st1 i1 st2)
  have d: "i \<le> j1" "j1 \<le> j" "i < j1 \<longrightarrow> st_value (symbols st j1) < x"
    using scan_down_spec [of i j st x] 2 by auto
  show ?case
  proof (cases "i < j1")
    case True
    then have "i < i1" using 2(3,4) d(3) by (auto simp: copy_sym_def intro!: scan_up_step)
    then show ?thesis using d 2 by auto
  next
    case False
    then show ?thesis using d 2 by (auto simp: scan_up.simps)
  qed
qed simp

declare part_loop.simps [simp del]

lemma part_loop_step:
  fixes st :: symtab and x :: uint64 and i j :: int
  assumes "i < j"
  defines "j1 \<equiv> scan_down st x i j"
  defines "st1 \<equiv> (if i < j1 then copy_sym i j1 st else st)"
  defines "i1 \<equiv> scan_up st1 x i j1"
  defines "st2 \<equiv> (if i1 < j1 then copy_sym j1 i1 st1 else st1)"
  shows "part_loop st x i j = part_loop st2 x i1 j1"
  using assms(1) unfolding j1_def st1_def i1_def st2_def by (subst part_loop.simps) (simp add: Let_def)

section \<open>Correctness of the partition\<close>

definition ent :: "symtab \<Rightarrow> int \<Rightarrow> elf_symbol \<times> cname" where
  "ent st k = (symbols st k, sym_names st k)"

definition val :: "symtab \<Rightarrow> int \<Rightarrow> uint64" where
  "val st k = st_value (fst (ent st k))"

lemma val_symbols: "st_value (symbols st k) = val st k"
  by (simp add: val_def ent_def)

lemma ent_copy: "ent (copy_sym i j st) = (ent st)(i := ent st j)"
  by (simp add: ent_def copy_sym_def fun_eq_iff)

text \<open>The entries of the indices \<open>l\<close> to \<open>r\<close>, as a multiset.\<close>

definition bag :: "(int \<Rightarrow> 'a) \<Rightarrow> int \<Rightarrow> int \<Rightarrow> 'a multiset" where
  "bag f l r = image_mset f (mset_set {l..r})"

lemma bag_move:
  assumes "i \<in> {l..r}" "j \<in> {l..r}"
  shows "bag (f(i := f j, j := e)) l r = bag (f(i := e)) l r"
proof (cases "i = j")
  case False
  define S where "S = {l..r} - {i, j}"
  have S: "{l..r} = insert i (insert j S)" "finite S" "i \<notin> insert j S" "j \<notin> S"
    using assms False by (auto simp: S_def)
  have "image_mset (f(i := f j, j := e)) (mset_set S) = image_mset (f(i := e)) (mset_set S)"
    using S by (intro image_mset_cong) auto
  then show ?thesis using S False by (simp add: bag_def add_mset_commute)
qed simp

lemma bag_cong: "(\<And>k. l \<le> k \<Longrightarrow> k \<le> r \<Longrightarrow> f k = g k) \<Longrightarrow> bag f l r = bag g l r"
  unfolding bag_def by (intro image_mset_cong) auto

definition part_inv :: "symtab \<Rightarrow> uint64 \<Rightarrow> int \<Rightarrow> int \<Rightarrow> int \<Rightarrow> int \<Rightarrow> bool" where
  "part_inv st x l i j r \<longleftrightarrow> l \<le> i \<and> i \<le> j \<and> j \<le> r \<and> (\<forall>k. l \<le> k \<and> k < i \<longrightarrow> val st k < x) \<and>
     (\<forall>k. j < k \<and> k \<le> r \<longrightarrow> x \<le> val st k)"

lemma part_loop_ok:
  assumes "part_inv st x l i j r" "part_loop st x i j = (st', p)"
  shows "part_inv st' x l p p r \<and> i \<le> p \<and> p \<le> j \<and> sym_count st' = sym_count st \<and>
    (\<forall>k. k < i \<or> j < k \<longrightarrow> ent st' k = ent st k) \<and>
    (\<forall>e. bag ((ent st')(p := e)) l r = bag ((ent st)(i := e)) l r)"
  using assms
proof (induction st x i j arbitrary: st' p rule: part_loop.induct)
  case (1 st x i j)
  show ?case
  proof (cases "i < j")
    case False
    then have "st' = st" "p = i" "i = j" using 1(3) 1(2) by (auto simp: part_loop.simps part_inv_def)
    then show ?thesis using 1(2) by simp
  next
    case True
    define j1 where "j1 = scan_down st x i j"
    define st1 where "st1 = (if i < j1 then copy_sym i j1 st else st)"
    define i1 where "i1 = scan_up st1 x i j1"
    define st2 where "st2 = (if i1 < j1 then copy_sym j1 i1 st1 else st1)"
    note defs = j1_def st1_def i1_def st2_def
    have call: "part_loop st2 x i1 j1 = (st', p)"
      using part_loop_step [OF True, of st x, folded j1_def, folded st1_def, folded i1_def, folded st2_def] 1(3) by simp
    have lr: "l \<le> i" "j \<le> r" using 1(2) by (auto simp: part_inv_def)
    have d: "i \<le> j1" "j1 \<le> j" "\<And>k. j1 < k \<Longrightarrow> k \<le> j \<Longrightarrow> x \<le> val st k" "i < j1 \<Longrightarrow> val st j1 < x"
      using scan_down_spec [of i j st x] True by (auto simp: j1_def val_symbols)
    have u: "i \<le> i1" "i1 \<le> j1" "\<And>k. i \<le> k \<Longrightarrow> k < i1 \<Longrightarrow> val st1 k < x" "i1 < j1 \<Longrightarrow> x \<le> val st1 i1"
      using scan_up_spec [of i j1 st1 x] d(1) by (auto simp: i1_def val_symbols)
    have ent1: "ent st1 = (if i < j1 then (ent st)(i := ent st j1) else ent st)" by (simp add: st1_def ent_copy)
    have ent2: "ent st2 = (if i1 < j1 then (ent st1)(j1 := ent st1 i1) else ent st1)" by (simp add: st2_def ent_copy)
    have lo: "val st2 k < x" if "l \<le> k" "k < i1" for k
    proof (cases "k < i")
      case True
      then have "val st2 k = val st k" using d(1) u(2) that by (simp add: val_def ent1 ent2)
      then show ?thesis using 1(2) that True by (simp add: part_inv_def)
    next
      case False
      then have "val st2 k = val st1 k" using u(2) that by (simp add: val_def ent2)
      then show ?thesis using u(3) [of k] that False by simp
    qed
    have hi: "x \<le> val st2 k" if "j1 < k" "k \<le> r" for k
    proof -
      have "val st2 k = val st k" using d(1) that by (simp add: val_def ent1 ent2)
      then show ?thesis using 1(2) d(3) [OF that(1)] that by (cases "k \<le> j") (auto simp: part_inv_def)
    qed
    have inv2: "part_inv st2 x l i1 j1 r"
      using lo hi lr d(1,2) u(1,2) by (auto simp: part_inv_def)
    have bag2: "bag ((ent st2)(i1 := e)) l r = bag ((ent st)(i := e)) l r" for e
    proof (cases "i < j1")
      case True
      have "bag ((ent st2)(i1 := e)) l r = bag ((ent st1)(j1 := e)) l r"
        using bag_move [of j1 l r i1 "ent st1" e] u(1,2) d(1,2) lr by (cases "i1 < j1") (auto simp: ent2)
      also have "\<dots> = bag ((ent st)(i := e)) l r"
        using bag_move [of i l r j1 "ent st" e] True d(1,2) lr by (simp add: ent1)
      finally show ?thesis .
    next
      case False
      then show ?thesis using u(1,2) d(1) by (simp add: ent1 ent2)
    qed
    have fr: "ent st2 k = ent st k" if "k < i \<or> j < k" for k
      using that d(1,2) u(1,2) by (auto simp: ent1 ent2)
    have sc: "sym_count st2 = sym_count st" by (simp add: st2_def st1_def copy_sym_def)
    have ih: "part_inv st' x l p p r" "i1 \<le> p" "p \<le> j1" "sym_count st' = sym_count st2"
      "\<forall>k. k < i1 \<or> j1 < k \<longrightarrow> ent st' k = ent st2 k"
      "\<forall>e. bag ((ent st')(p := e)) l r = bag ((ent st2)(i1 := e)) l r"
      using 1(1) [OF True defs inv2 call] by blast+
    show ?thesis
    proof (intro conjI allI impI)
      show "part_inv st' x l p p r" by (rule ih(1))
      show "i \<le> p" using ih(2) u(1) by linarith
      show "p \<le> j" using ih(3) d(2) by linarith
      show "sym_count st' = sym_count st" using ih(4) sc by simp
      show "ent st' k = ent st k" if "k < i \<or> j < k" for k
      proof -
        have "k < i1 \<or> j1 < k" using that u(1) d(2) by linarith
        then show ?thesis using ih(5) fr [OF that] by auto
      qed
      show "bag ((ent st')(p := e)) l r = bag ((ent st)(i := e)) l r" for e
        using ih(6) bag2 by metis
    qed
  qed
qed

section \<open>quickSort\<close>

definition put_sym :: "int \<Rightarrow> elf_symbol \<Rightarrow> cname \<Rightarrow> symtab \<Rightarrow> symtab" where
  "put_sym i x nm st = st\<lparr>symbols := (symbols st)(i := x), sym_names := (sym_names st)(i := nm)\<rparr>"

lemma part_loop_range:
  assumes "l \<le> r" "part_loop st x l r = (st', p)"
  shows "l \<le> p" "p \<le> r"
proof -
  have "part_inv st x l l r r" using assms(1) by (auto simp: part_inv_def)
  from part_loop_ok [OF this assms(2)] show "l \<le> p" "p \<le> r" by auto
qed

function quickSort :: "int \<Rightarrow> int \<Rightarrow> symtab \<Rightarrow> symtab" where
  "quickSort l r st =
     (if l \<ge> r then st
      else (let x = symbols st l; temp_name = sym_names st l;
                (st1, i) = part_loop st (st_value x) l r;
                st2 = put_sym i x temp_name st1
            in quickSort (i + 1) r (quickSort l (i - 1) st2)))"
  by pat_completeness auto
termination
proof (relation "measure (\<lambda>(l, r, st). nat (r - l + 1))", goal_cases)
  case (2 l r st x nm z st1 i st2)
  then show ?case using part_loop_range [of l r st "st_value x" st1 i] by simp
next
  case (3 l r st x nm z st1 i st2)
  then show ?case using part_loop_range [of l r st "st_value x" st1 i] by simp
qed simp

declare quickSort.simps [simp del]

lemma quickSort_step:
  assumes "l < r" "part_loop st (st_value (symbols st l)) l r = (st1, i)"
  shows "quickSort l r st =
    quickSort (i + 1) r (quickSort l (i - 1) (put_sym i (symbols st l) (sym_names st l) st1))"
  using assms by (subst quickSort.simps) simp

definition sorted_syms :: "symtab \<Rightarrow> int \<Rightarrow> int \<Rightarrow> bool" where
  "sorted_syms st l r \<longleftrightarrow> (\<forall>i j. l \<le> i \<and> i \<le> j \<and> j \<le> r \<longrightarrow> val st i \<le> val st j)"

lemma ent_put: "ent (put_sym i x nm st) = (ent st)(i := (x, nm))"
  by (simp add: ent_def put_sym_def fun_eq_iff)

lemma set_bag [simp]: "set_mset (bag f l r) = f ` {l..r}"
  by (simp add: bag_def)

lemma bag_split:
  assumes "l \<le> i" "i \<le> r"
  shows "bag f l r = bag f l (i - 1) + add_mset (f i) (bag f (i + 1) r)"
proof -
  have "{l..r} = {l..i - 1} \<union> insert i {i + 1..r}" using assms by auto
  moreover have "mset_set ({l..i - 1} \<union> insert i {i + 1..r}) = mset_set {l..i - 1} + mset_set (insert i {i + 1..r})"
    by (intro mset_set_Union) auto
  ultimately show ?thesis by (simp add: bag_def)
qed

lemma val_bag:
  assumes "bag (ent st) l r = bag (ent st') l r" "l \<le> k" "k \<le> r"
  obtains m where "l \<le> m" "m \<le> r" "ent st k = ent st' m"
proof -
  have "ent st k \<in> set_mset (bag (ent st') l r)" using assms by (simp flip: assms(1))
  then show ?thesis using that by auto
qed

text \<open>Joining two sorted parts around a pivot.\<close>

lemma sorted_join:
  assumes "sorted_syms st l (i - 1)" "sorted_syms st (i + 1) r"
    "\<And>k. l \<le> k \<Longrightarrow> k < i \<Longrightarrow> val st k \<le> val st i" "\<And>k. i < k \<Longrightarrow> k \<le> r \<Longrightarrow> val st i \<le> val st k"
  shows "sorted_syms st l r"
  unfolding sorted_syms_def
proof (intro allI impI)
  fix a b assume ab: "l \<le> a \<and> a \<le> b \<and> b \<le> r"
  consider "b < i" | "i < a" | "a \<le> i" "i \<le> b" by linarith
  then show "val st a \<le> val st b"
  proof cases
    case 1
    then show ?thesis using assms(1) ab by (simp add: sorted_syms_def)
  next
    case 2
    then show ?thesis using assms(2) ab by (simp add: sorted_syms_def)
  next
    case 3
    have "val st a \<le> val st i" using assms(3) [of a] ab 3 by (cases "a = i") auto
    also have "\<dots> \<le> val st b" using assms(4) [of b] ab 3 by (cases "b = i") auto
    finally show ?thesis .
  qed
qed

lemma quickSort_ok:
  "sorted_syms (quickSort l r st) l r \<and> bag (ent (quickSort l r st)) l r = bag (ent st) l r \<and>
   (\<forall>k. k < l \<or> r < k \<longrightarrow> ent (quickSort l r st) k = ent st k) \<and> sym_count (quickSort l r st) = sym_count st"
proof (induction l r st rule: quickSort.induct)
  case (1 l r st)
  show ?case
  proof (cases "l \<ge> r")
    case True
    then have "quickSort l r st = st" by (simp add: quickSort.simps)
    moreover have "sorted_syms st l r"
      unfolding sorted_syms_def
    proof (intro allI impI)
      fix i j assume "l \<le> i \<and> i \<le> j \<and> j \<le> r"
      then have "i = j" using True by linarith
      then show "val st i \<le> val st j" by simp
    qed
    ultimately show ?thesis by simp
  next
    case False
    let ?x = "symbols st l" and ?n = "sym_names st l"
    obtain st1 i where pl: "part_loop st (st_value ?x) l r = (st1, i)" by fastforce
    define st2 where "st2 = put_sym i ?x ?n st1"
    define st3 where "st3 = quickSort l (i - 1) st2"
    define st4 where "st4 = quickSort (i + 1) r st3"
    have st4: "quickSort l r st = st4"
      using quickSort_step [OF _ pl] False by (simp add: st2_def st3_def st4_def)
    have ih3: "sorted_syms st3 l (i - 1)" "bag (ent st3) l (i - 1) = bag (ent st2) l (i - 1)"
      "\<And>k. k < l \<or> i - 1 < k \<Longrightarrow> ent st3 k = ent st2 k" "sym_count st3 = sym_count st2"
      using 1(1) [OF False refl refl pl [symmetric] refl refl] unfolding st2_def st3_def by blast+
    have ih4: "sorted_syms st4 (i + 1) r" "bag (ent st4) (i + 1) r = bag (ent st3) (i + 1) r"
      "\<And>k. k < i + 1 \<or> r < k \<Longrightarrow> ent st4 k = ent st3 k" "sym_count st4 = sym_count st3"
      using 1(2) [OF False refl refl pl [symmetric] refl refl] unfolding st2_def st3_def st4_def by blast+
    have inv: "part_inv st (st_value ?x) l l r r" using False by (auto simp: part_inv_def)
    have pk: "part_inv st1 (st_value ?x) l i i r" "l \<le> i" "i \<le> r" "sym_count st1 = sym_count st"
      "\<And>k. k < l \<or> r < k \<Longrightarrow> ent st1 k = ent st k"
      "bag ((ent st1)(i := ent st l)) l r = bag ((ent st)(l := ent st l)) l r"
      using part_loop_ok [OF inv pl] by blast+
    have e2: "ent st2 = (ent st1)(i := ent st l)" by (simp add: st2_def ent_put) (simp add: ent_def)
    have v2: "val st2 i = val st l" "\<And>k. l \<le> k \<Longrightarrow> k < i \<Longrightarrow> val st2 k < val st l"
      "\<And>k. i < k \<Longrightarrow> k \<le> r \<Longrightarrow> val st l \<le> val st2 k"
      using pk(1) by (auto simp: val_def e2 part_inv_def ent_def)
    have i34: "ent st3 i = ent st2 i" "ent st4 i = ent st2 i" using ih3(3) [of i] ih4(3) [of i] by simp_all
    have lo: "ent st4 k = ent st3 k" if "k \<le> i" for k using ih4(3) [of k] that by simp
    have hi: "ent st3 k = ent st2 k" if "i \<le> k" for k using ih3(3) [of k] that by simp
    have "sorted_syms st4 l r"
    proof (rule sorted_join)
      show "sorted_syms st4 l (i - 1)"
        using ih3(1) lo by (simp add: sorted_syms_def val_def)
      show "sorted_syms st4 (i + 1) r" by (rule ih4(1))
      show "val st4 k \<le> val st4 i" if k: "l \<le> k" "k < i" for k
      proof -
        obtain m where "l \<le> m" "m \<le> i - 1" "ent st3 k = ent st2 m"
          using val_bag [OF ih3(2), of k] k by auto
        then have "val st4 k < val st l" using v2(2) [of m] lo [of k] k by (simp add: val_def)
        moreover have "val st4 i = val st l" using i34(2) v2(1) by (simp add: val_def)
        ultimately show ?thesis by simp
      qed
      show "val st4 i \<le> val st4 k" if k: "i < k" "k \<le> r" for k
      proof -
        obtain m where "i + 1 \<le> m" "m \<le> r" "ent st4 k = ent st3 m"
          using val_bag [OF ih4(2), of k] k by auto
        then have "val st l \<le> val st4 k" using v2(3) [of m] hi [of m] by (simp add: val_def)
        moreover have "val st4 i = val st l" using i34(2) v2(1) by (simp add: val_def)
        ultimately show ?thesis by simp
      qed
    qed
    moreover have "bag (ent st4) l r = bag (ent st) l r"
    proof -
      have "bag (ent st4) l (i - 1) = bag (ent st2) l (i - 1)"
        using lo by (simp add: bag_cong [of l "i - 1" "ent st4" "ent st3"] ih3(2))
      moreover have "bag (ent st4) (i + 1) r = bag (ent st2) (i + 1) r"
        using hi by (simp add: bag_cong [of "i + 1" r "ent st3" "ent st2"] ih4(2))
      ultimately have "bag (ent st4) l r = bag (ent st2) l r"
        using bag_split [OF pk(2,3), of "ent st4"] bag_split [OF pk(2,3), of "ent st2"] i34(2) by simp
      then show ?thesis using pk(6) by (simp add: e2 fun_upd_triv)
    qed
    moreover have "ent st4 k = ent st k" if "k < l \<or> r < k" for k
      using that pk(2,3,5) ih3(3) [of k] ih4(3) [of k] by (auto simp: e2)
    moreover have "sym_count st4 = sym_count st"
      using ih3(4) ih4(4) pk(4) by (simp add: st2_def put_sym_def)
    ultimately show ?thesis unfolding st4 by blast
  qed
qed

section \<open>func_name_printer\<close>

text \<open>The result is the line it prints, if any; \<open>name_search\<close> is its loop.\<close>

function name_search :: "uint64 \<Rightarrow> symtab \<Rightarrow> int \<Rightarrow> int \<Rightarrow> cname option" where
  "name_search ret_addr st left right =
     (if left \<le> right
      then (let mid = left + (right - left) div 2;
                begin_addr = st_value (symbols st mid);
                end_addr = st_value (symbols st mid) + st_size (symbols st mid)
            in if begin_addr \<le> ret_addr \<and> ret_addr < end_addr then Some (sym_names st mid)
               else if begin_addr > ret_addr then name_search ret_addr st left (mid - 1)
               else name_search ret_addr st (mid + 1) right)
      else None)"
  by pat_completeness auto
termination by (relation "measure (\<lambda>(a, st, left, right). nat (right - left + 1))") auto

declare name_search.simps [simp del]

definition func_name_printer :: "uint64 \<Rightarrow> symtab \<Rightarrow> cname option" where
  "func_name_printer ret_addr st = name_search ret_addr st 0 (sym_count st - 1)"

text \<open>The symbol \<open>k\<close> covers an address.\<close>

definition covers :: "elf_symbol \<Rightarrow> uint64 \<Rightarrow> bool" where
  "covers e a \<longleftrightarrow> st_value e \<le> a \<and> a < st_value e + st_size e"

definition no_wrap :: "elf_symbol \<Rightarrow> bool" where
  "no_wrap e \<longleftrightarrow> unat (st_value e) + unat (st_size e) < 2 ^ 64"

lemma name_search_step:
  fixes left right :: int
  assumes "left \<le> right"
  defines "mid \<equiv> left + (right - left) div 2"
  shows "name_search a st left right =
    (if covers (symbols st mid) a then Some (sym_names st mid)
     else if st_value (symbols st mid) > a then name_search a st left (mid - 1)
     else name_search a st (mid + 1) right)"
  using assms(1) unfolding covers_def mid_def by (subst name_search.simps) (simp only: Let_def if_True)

lemma name_search_ok:
  assumes "\<And>i j. left \<le> i \<Longrightarrow> i < j \<Longrightarrow> j \<le> right \<Longrightarrow> st_value (symbols st i) + st_size (symbols st i) \<le> st_value (symbols st j)"
    "\<And>i. left \<le> i \<Longrightarrow> i \<le> right \<Longrightarrow> no_wrap (symbols st i)"
  shows "name_search a st left right = Some nm \<longleftrightarrow>
    (\<exists>k. left \<le> k \<and> k \<le> right \<and> covers (symbols st k) a \<and> sym_names st k = nm)"
  using assms
proof (induction a st left right rule: name_search.induct)
  case (1 a st left right)
  show ?case
  proof (cases "left \<le> right")
    case False
    then show ?thesis by (simp add: name_search.simps)
  next
    case True
    define mid where "mid = left + (right - left) div 2"
    have step: "name_search a st left right =
        (if covers (symbols st mid) a then Some (sym_names st mid)
         else if st_value (symbols st mid) > a then name_search a st left (mid - 1)
         else name_search a st (mid + 1) right)" "left \<le> mid" "mid \<le> right"
      using name_search_step [OF True, of a st, folded mid_def] True by (auto simp: mid_def)
    let ?b = "\<lambda>k. st_value (symbols st k)" and ?e = "\<lambda>k. st_value (symbols st k) + st_size (symbols st k)"
    have be: "?b k \<le> ?e k" if "left \<le> k" "k \<le> right" for k
      using 1(4) [OF that] by (simp add: no_wrap_def word_le_nat_alt unat_word_ariths)
    consider "covers (symbols st mid) a" | "\<not> covers (symbols st mid) a" "?b mid > a"
      | "\<not> covers (symbols st mid) a" "?b mid \<le> a" by force
    then show ?thesis
    proof cases
      case 1
      have "k = mid" if k: "left \<le> k" "k \<le> right" "covers (symbols st k) a" for k
      proof (rule ccontr)
        assume "k \<noteq> mid"
        then consider "k < mid" | "mid < k" by linarith
        then show False
        proof cases
          case 1
          then have "?e k \<le> ?b mid" using "1.prems"(1) [of k mid] k step(3) by simp
          then show False using k(3) \<open>covers (symbols st mid) a\<close> by (auto simp: covers_def)
        next
          case 2
          then have "?e mid \<le> ?b k" using "1.prems"(1) [of mid k] k step(2) by simp
          then show False using k(3) \<open>covers (symbols st mid) a\<close> by (auto simp: covers_def)
        qed
      qed
      moreover have "name_search a st left right = Some (sym_names st mid)" using step(1) 1 by simp
      ultimately show ?thesis using 1 step(2,3) by (metis option.inject)
    next
      case 2
      have "k \<le> mid - 1" if k: "left \<le> k" "k \<le> right" "covers (symbols st k) a" for k
      proof (rule ccontr)
        assume "\<not> k \<le> mid - 1"
        then have "k = mid \<or> mid < k" by linarith
        moreover have "?b mid \<le> ?b k" if "mid < k"
          using "1.prems"(1) [OF step(2) that k(2)] be [OF step(2,3)] by simp
        ultimately have "?b mid \<le> ?b k" by auto
        then show False using k(3) 2(2) by (auto simp: covers_def)
      qed
      moreover have "name_search a st left right = name_search a st left (mid - 1)" using step(1) 2 by simp
      moreover have "name_search a st left (mid - 1) = Some nm \<longleftrightarrow>
          (\<exists>k. left \<le> k \<and> k \<le> mid - 1 \<and> covers (symbols st k) a \<and> sym_names st k = nm)"
        using 2 step(3)
        by (intro "1.IH"(1) [OF True mid_def refl refl]) (auto simp: covers_def "1.prems")
      ultimately show ?thesis using step(3) by fastforce
    next
      case 3
      have "mid + 1 \<le> k" if k: "left \<le> k" "k \<le> right" "covers (symbols st k) a" for k
      proof (rule ccontr)
        assume "\<not> mid + 1 \<le> k"
        then have "k = mid \<or> k < mid" by linarith
        moreover have "?e k \<le> a" if "k < mid"
          using "1.prems"(1) [OF k(1) that step(3)] 3(2) by simp
        ultimately show False using k(3) 3 by (auto simp: covers_def)
      qed
      moreover have "name_search a st left right = name_search a st (mid + 1) right" using step(1) 3 by (simp add: leD)
      moreover have "name_search a st (mid + 1) right = Some nm \<longleftrightarrow>
          (\<exists>k. mid + 1 \<le> k \<and> k \<le> right \<and> covers (symbols st k) a \<and> sym_names st k = nm)"
        using 3 step(2)
        by (intro "1.IH"(2) [OF True mid_def refl refl]) (auto simp: covers_def "1.prems")
      moreover have "left \<le> k" if "mid + 1 \<le> k" for k using step(2) that by linarith
      ultimately show ?thesis by metis
    qed
  qed
qed

lemma bag_list: "bag f l r = mset (map f [l..r])"
  using mset_set_set [of "[l..r]"] by (simp add: bag_def)

lemma bag_inj:
  assumes "bag f l r = bag g l r" "inj_on g {l..r}"
  shows "inj_on f {l..r}"
proof -
  have "distinct (map g [l..r])" using assms(2) by (simp add: distinct_map)
  then have "distinct (map f [l..r])" using assms(1) mset_eq_imp_distinct_iff unfolding bag_list by blast
  then show ?thesis by (simp add: distinct_map)
qed

section \<open>Properties\<close>

text \<open>
  C21. \<^verbatim>\<open>quickSort(l, r)\<close> always ends, orders the symbols \<open>l\<close> to \<open>r\<close> by start address, only permutes
  them, keeps every symbol together with its name in the parallel array, and touches no other entry.
\<close>

theorem quickSort_correct:
  "sorted_syms (quickSort l r st) l r \<and> bag (ent (quickSort l r st)) l r = bag (ent st) l r \<and>
   (\<forall>k. k < l \<or> r < k \<longrightarrow> ent (quickSort l r st) k = ent st k)"
  using quickSort_ok by blast

definition ex_sym :: "uint64 \<Rightarrow> uint64 \<Rightarrow> elf_symbol" where
  "ex_sym v sz = \<lparr>st_name = 0, st_info = 2, st_other = 0, st_shndx = 1, st_value = v, st_size = sz\<rparr>"

definition ex_symtab :: symtab where
  "ex_symtab = \<lparr>symbols = (\<lambda>k. if k = 0 then ex_sym 0x200 0x40 else if k = 1 then ex_sym 0x100 0x80 else ex_sym 0 0),
     sym_names = (\<lambda>k. if k = 0 then [103] else if k = 1 then [102] else []), sym_count = 2\<rparr>"

theorem quickSort_correct_witness:
  "sorted_syms (quickSort 0 1 ex_symtab) 0 1 \<and> ent (quickSort 0 1 ex_symtab) 7 = ent ex_symtab 7"
  using quickSort_correct [of 0 1 ex_symtab] by simp

text \<open>
  After the table has been sorted, \<^verbatim>\<open>func_name_printer\<close> prints a name exactly when some symbol
  of the table as it was loaded covers the address, and then it prints that symbol's name. The symbols are
  the non-empty, pairwise disjoint address ranges of the functions of one program.
\<close>

theorem backtrace_name_correct:
  assumes "\<forall>i. 0 \<le> i \<and> i < sym_count st \<longrightarrow> no_wrap (symbols st i) \<and> 0 < st_size (symbols st i)"
    "\<forall>i j a. 0 \<le> i \<and> i < j \<and> j < sym_count st \<longrightarrow> \<not> (covers (symbols st i) a \<and> covers (symbols st j) a)"
  shows "func_name_printer a (quickSort 0 (sym_count st - 1) st) = Some nm \<longleftrightarrow>
    (\<exists>k. 0 \<le> k \<and> k < sym_count st \<and> covers (symbols st k) a \<and> sym_names st k = nm)"
proof -
  define st' where "st' = quickSort 0 (sym_count st - 1) st"
  let ?r = "sym_count st - 1"
  have q: "sorted_syms st' 0 ?r" "bag (ent st') 0 ?r = bag (ent st) 0 ?r" "sym_count st' = sym_count st"
    using quickSort_ok [of 0 ?r st] by (simp_all add: st'_def)
  have start: "covers (symbols st i) (st_value (symbols st i))" if "0 \<le> i" "i \<le> ?r" for i
  proof -
    have "no_wrap (symbols st i)" "0 < st_size (symbols st i)" using assms(1) that by simp_all
    then show ?thesis by (simp add: covers_def no_wrap_def word_less_nat_alt unat_word_ariths)
  qed
  have "inj_on (ent st) {0..?r}"
  proof (rule linorder_inj_onI)
    fix i j assume ij: "i < j" "i \<in> {0..?r}" "j \<in> {0..?r}"
    then have "\<not> covers (symbols st j) (st_value (symbols st i))"
      using start [of i] assms(2) by auto
    then show "ent st i \<noteq> ent st j" using start [of i] ij by (auto simp: ent_def)
  qed auto
  then have inj: "inj_on (ent st') {0..?r}" by (rule bag_inj [OF q(2)])
  have old: "\<exists>m. 0 \<le> m \<and> m \<le> ?r \<and> symbols st' k = symbols st m \<and> sym_names st' k = sym_names st m"
    if "0 \<le> k" "k \<le> ?r" for k
    using val_bag [OF q(2) that] by (auto simp: ent_def)
  have new: "\<exists>m. 0 \<le> m \<and> m \<le> ?r \<and> symbols st k = symbols st' m \<and> sym_names st k = sym_names st' m"
    if "0 \<le> k" "k \<le> ?r" for k
    using val_bag [OF q(2) [symmetric] that] by (auto simp: ent_def)
  have sep: "st_value (symbols st' i) + st_size (symbols st' i) \<le> st_value (symbols st' j)"
    if ij: "0 \<le> i" "i < j" "j \<le> ?r" for i j
  proof (rule ccontr)
    assume n: "\<not> ?thesis"
    have le: "st_value (symbols st' i) \<le> st_value (symbols st' j)"
      using q(1) ij by (simp add: sorted_syms_def val_symbols)
    obtain a where a: "0 \<le> a" "a \<le> ?r" "ent st' i = ent st a" using val_bag [OF q(2), of i] ij by auto
    obtain b where b: "0 \<le> b" "b \<le> ?r" "ent st' j = ent st b" using val_bag [OF q(2), of j] ij by auto
    have "ent st' i \<noteq> ent st' j" using inj ij by (auto dest: inj_onD)
    then have "a \<noteq> b" using a(3) b(3) by auto
    have sa: "symbols st' i = symbols st a" and sb: "symbols st' j = symbols st b"
      using a(3) b(3) by (simp_all add: ent_def)
    have "covers (symbols st a) (st_value (symbols st b))"
      using n le unfolding sa sb covers_def by simp
    moreover have "covers (symbols st b) (st_value (symbols st b))" by (rule start [OF b(1,2)])
    ultimately show False
      using assms(2) a(1,2) b(1,2) \<open>a \<noteq> b\<close> by (cases a b rule: linorder_cases) auto
  qed
  have "no_wrap (symbols st' i)" if "0 \<le> i" "i \<le> ?r" for i
    using old [OF that] assms(1) by auto
  then have "name_search a st' 0 ?r = Some nm \<longleftrightarrow>
      (\<exists>k. 0 \<le> k \<and> k \<le> ?r \<and> covers (symbols st' k) a \<and> sym_names st' k = nm)"
    using sep by (intro name_search_ok)
  also have "\<dots> \<longleftrightarrow> (\<exists>k. 0 \<le> k \<and> k \<le> ?r \<and> covers (symbols st k) a \<and> sym_names st k = nm)"
    using old new by (metis (no_types))
  finally show ?thesis by (simp add: func_name_printer_def q(3) flip: st'_def)
qed

theorem backtrace_name_correct_witness:
  "func_name_printer 0x120 (quickSort 0 1 ex_symtab) = Some [102]"
proof -
  have "func_name_printer 0x120 (quickSort 0 (sym_count ex_symtab - 1) ex_symtab) = Some [102] \<longleftrightarrow>
    (\<exists>k. 0 \<le> k \<and> k < sym_count ex_symtab \<and> covers (symbols ex_symtab k) 0x120 \<and> sym_names ex_symtab k = [102])"
  proof (rule backtrace_name_correct)
    show "\<forall>i. 0 \<le> i \<and> i < sym_count ex_symtab \<longrightarrow>
        no_wrap (symbols ex_symtab i) \<and> 0 < st_size (symbols ex_symtab i)"
      by (auto simp: ex_symtab_def ex_sym_def no_wrap_def)
    show "\<forall>i j a. 0 \<le> i \<and> i < j \<and> j < sym_count ex_symtab \<longrightarrow>
        \<not> (covers (symbols ex_symtab i) a \<and> covers (symbols ex_symtab j) a)"
    proof (intro allI impI)
      fix i j :: int and a :: uint64 assume "0 \<le> i \<and> i < j \<and> j < sym_count ex_symtab"
      then have "i = 0" "j = 1" by (simp_all add: ex_symtab_def)
      then show "\<not> (covers (symbols ex_symtab i) a \<and> covers (symbols ex_symtab j) a)"
        by (auto simp: ex_symtab_def ex_sym_def covers_def word_le_nat_alt word_less_nat_alt)
    qed
  qed
  moreover have "covers (symbols ex_symtab 1) 0x120" "sym_names ex_symtab 1 = [102]" "sym_count ex_symtab = 2"
    by (simp_all add: ex_symtab_def ex_sym_def covers_def)
  ultimately show ?thesis by (auto intro!: exI [of _ 1])
qed

end
