(* ===== verification/Pool.thy ===== *)
theory Pool
  imports Pmm
begin

text \<open>
  The page allocator as the kernel's other components see it. The file system, the hash tables and the
  scheduler allocate one page per object and never share such a page, so that what they observe of
  \<^verbatim>\<open>kernel/pmm.c\<close> is a stack of free page addresses. The theory defines that view and shows that
  the allocator of theory Pmm implements it: every sequence of allocations and releases gives the same
  addresses.
\<close>

section \<open>The stack of free pages\<close>

record pool =
  pool_lo :: uint64
  pool_hi :: uint64
  pages_free :: "addr list"

definition pool_alloc :: "pool \<Rightarrow> addr \<times> pool" where
  "pool_alloc s = (case pages_free s of [] \<Rightarrow> (0, s) | p # ps \<Rightarrow> (p, s\<lparr>pages_free := ps\<rparr>))"

definition pool_free :: "addr \<Rightarrow> pool \<Rightarrow> pool res" where
  "pool_free p s =
     (if p mod PGSIZE \<noteq> 0 \<or> p < pool_lo s \<or> p \<ge> pool_hi s then Inl (Panic ''free_page'')
      else Inr (s\<lparr>pages_free := p # pages_free s\<rparr>))"

datatype page_op = Alloc | Release addr

fun pool_run :: "page_op list \<Rightarrow> pool \<Rightarrow> (addr list \<times> pool) res" where
  "pool_run [] s = Inr ([], s)"
| "pool_run (Alloc # ops) s =
     (let (p, s) = pool_alloc s in bnd (pool_run ops s) (\<lambda>(ps, s). Inr (p # ps, s)))"
| "pool_run (Release p # ops) s = bnd (pool_free p s) (pool_run ops)"

fun pmm_run :: "page_op list \<Rightarrow> pmm \<Rightarrow> (addr list \<times> pmm) res" where
  "pmm_run [] s = Inr ([], s)"
| "pmm_run (Alloc # ops) s =
     bnd (alloc_page s) (\<lambda>(p, s). bnd (pmm_run ops s) (\<lambda>(ps, s). Inr (p # ps, s)))"
| "pmm_run (Release p # ops) s = bnd (free_page p s) (pmm_run ops)"

text \<open>
  A client's sequence is proper from the set \<open>U\<close> of pages it holds: it never allocates when nothing is
  free and releases only pages it holds, each once.
\<close>

fun proper :: "page_op list \<Rightarrow> addr list \<Rightarrow> addr set \<Rightarrow> bool" where
  "proper [] ps U = True"
| "proper (Alloc # ops) ps U = (case ps of [] \<Rightarrow> False | p # ps \<Rightarrow> proper ops ps (insert p U))"
| "proper (Release p # ops) ps U = (p \<in> U \<and> proper ops (p # ps) (U - {p}))"

section \<open>Simulation\<close>

definition pool_sim :: "addr \<Rightarrow> pmm \<Rightarrow> pool \<Rightarrow> addr set \<Rightarrow> bool" where
  "pool_sim pin s pl U \<longleftrightarrow> booted pin s (pages_free pl) \<and> free_mem_start_addr s = pool_lo pl \<and>
     free_mem_end_addr s = pool_hi pl \<and> pin \<notin> U \<and> (\<forall>p \<in> U. p \<noteq> 0 \<and> ref_count s p = 1)"

lemma table_room_mono:
  assumes "booted pin s ps" "booted pin s' ps'" "ref_count s' = (ref_count s)(p := 0)"
  shows "table_room s \<le> table_room s'"
proof -
  have t: "table_ok s" "table_ok s'" using assms(1,2) by (simp_all add: booted_def pmm_inv_def)
  have "set (ref_pas s') \<subseteq> set (ref_pas s)"
  proof
    fix q assume "q \<in> set (ref_pas s')"
    then have "ref_count s' q \<noteq> 0" using ref_count_0_iff [OF t(2)] by simp
    then have "ref_count s q \<noteq> 0" using assms(3) by (auto split: if_splits)
    then show "q \<in> set (ref_pas s)" using ref_count_0_iff [OF t(1)] by simp
  qed
  then have "card (set (ref_pas s')) \<le> card (set (ref_pas s))" by (rule card_mono [rotated]) simp
  then have "nat (ref_total s') \<le> nat (ref_total s)"
    using table_distinct [OF t(1)] table_distinct [OF t(2)] by (simp add: distinct_card)
  moreover have "0 \<le> ref_total s" "0 \<le> ref_total s'" using t by (auto simp: table_ok_def)
  ultimately show ?thesis by (simp add: table_room_def)
qed

lemma pool_sim_alloc:
  assumes "pool_sim pin s pl U" "pages_free pl = p # ps" "0 < table_room s"
  shows "\<exists>s'. alloc_page s = Inr (p, s') \<and> pool_sim pin s' (pl\<lparr>pages_free := ps\<rparr>) (insert p U) \<and>
    table_room s = Suc (table_room s')"
proof -
  have b: "booted pin s (p # ps)" using assms(1,2) by (simp add: pool_sim_def)
  then obtain s' where s': "alloc_page s = Inr (p, s')" "booted pin s' ps" "ref_count s' = (ref_count s)(p := 1)"
    "table_room s = Suc (table_room s')" "same_bounds s s'"
    using booted_alloc [OF b assms(3)] by blast
  have "p \<noteq> 0 \<and> p \<noteq> pin" using pa.inv_unused [OF b, of p] by simp
  then show ?thesis using s' assms(1) by (auto simp: pool_sim_def same_bounds_def)
qed

lemma pool_sim_free:
  assumes "pool_sim pin s pl U" "p \<in> U"
  shows "\<exists>s'. free_page p s = Inr s' \<and> pool_free p pl = Inr (pl\<lparr>pages_free := p # pages_free pl\<rparr>) \<and>
    pool_sim pin s' (pl\<lparr>pages_free := p # pages_free pl\<rparr>) (U - {p}) \<and> table_room s \<le> table_room s'"
proof -
  have b: "booted pin s (pages_free pl)" "ref_count s p = 1" "p \<noteq> 0" "p \<noteq> pin"
    using assms by (auto simp: pool_sim_def)
  obtain s' where s': "free_page p s = Inr s'" "booted pin s' (p # pages_free pl)"
    "ref_count s' = (ref_count s)(p := 0)" "same_bounds s s'"
    using booted_free_last [OF b] by blast
  have "managed s p" using booted_managed [OF b(1), of p] b(2,3) by simp
  then have "pool_free p pl = Inr (pl\<lparr>pages_free := p # pages_free pl\<rparr>)"
    using assms(1) by (simp add: pool_free_def pool_sim_def managed_def page_aligned_def not_less not_le)
  then show ?thesis
    using s' assms(1) table_room_mono [OF b(1) s'(2,3)] by (auto simp: pool_sim_def same_bounds_def)
qed

section \<open>Properties\<close>

text \<open>
  C20. The allocator implements the stack of free pages: for every proper sequence of allocations and
  releases of a client, \<^verbatim>\<open>alloc_page\<close> and \<^verbatim>\<open>free_page\<close> never fail and return the same addresses as
  the stack, and the two states stay related. The reference table must have room for the allocations.
\<close>

theorem pmm_refines_pool:
  assumes "pool_sim pin s pl U" "proper ops (pages_free pl) U" "count_list ops Alloc \<le> table_room s"
  shows "\<exists>ps s' pl' U'. pmm_run ops s = Inr (ps, s') \<and> pool_run ops pl = Inr (ps, pl') \<and> pool_sim pin s' pl' U'"
  using assms
proof (induction ops arbitrary: s pl U)
  case (Cons opn ops)
  show ?case
  proof (cases opn)
    case Alloc
    then obtain p ps where pl: "pages_free pl = p # ps" using Cons.prems(2) by (auto split: list.splits)
    obtain s1 where s1: "alloc_page s = Inr (p, s1)" "pool_sim pin s1 (pl\<lparr>pages_free := ps\<rparr>) (insert p U)"
      "table_room s = Suc (table_room s1)"
      using pool_sim_alloc [OF Cons.prems(1) pl] Cons.prems(3) Alloc by auto
    show ?thesis using Cons.IH [OF s1(2)] Cons.prems s1(1,3) pl Alloc by (fastforce simp: pool_alloc_def)
  next
    case (Release p)
    then have "p \<in> U" using Cons.prems(2) by simp
    then obtain s1 where s1: "free_page p s = Inr s1" "pool_free p pl = Inr (pl\<lparr>pages_free := p # pages_free pl\<rparr>)"
      "pool_sim pin s1 (pl\<lparr>pages_free := p # pages_free pl\<rparr>) (U - {p})" "table_room s \<le> table_room s1"
      using pool_sim_free [OF Cons.prems(1)] by blast
    show ?thesis using Cons.IH [OF s1(3)] Cons.prems s1(1,2,4) Release by fastforce
  qed
qed auto

theorem pmm_refines_pool_witness:
  "\<exists>s'. pmm_run [Alloc, Alloc, Release 0x80101000, Alloc] ex_pmm = Inr ([0x80101000, 0x80100000, 0x80101000], s')"
proof -
  let ?pl = "\<lparr>pool_lo = 0x80100000, pool_hi = 0x80103000, pages_free = [0x80101000, 0x80100000]\<rparr>"
  have "pool_sim 0x80102000 ex_pmm ?pl {}"
    using ex_pmm_booted by (simp add: pool_sim_def) (simp add: ex_pmm_def)
  moreover have "proper [Alloc, Alloc, Release 0x80101000, Alloc] (pages_free ?pl) {}" by simp
  moreover have "count_list [Alloc, Alloc, Release 0x80101000, Alloc] Alloc \<le> table_room ex_pmm"
    by (simp add: table_room_def ex_pmm_def)
  ultimately obtain ps s' pl' where "pmm_run [Alloc, Alloc, Release 0x80101000, Alloc] ex_pmm = Inr (ps, s')"
    "pool_run [Alloc, Alloc, Release 0x80101000, Alloc] ?pl = Inr (ps, pl')"
    using pmm_refines_pool by blast
  then show ?thesis by (auto simp: pool_alloc_def pool_free_def)
qed

end
