(* ===== verification/Hash_Table.thy ===== *)
theory Hash_Table
  imports Pool
begin

text \<open>
  The generic hash table of \<^verbatim>\<open>util/hash_table.c\<close>: 128 singly linked buckets whose nodes are pages
  of their own. The equality and the hash function are the parameters \<open>eq\<close> and \<open>hf\<close>, as the code takes them
  as function pointers; keys are values of any type and values are pointers. The table is shown to
  implement a finite map, and the map is the interface the file system uses.
\<close>

section \<open>Data\<close>

abbreviation (input) HASH_TABLE_SIZE :: nat where "HASH_TABLE_SIZE \<equiv> 128"

record 'k hash_node =
  hn_next :: addr
  hn_key :: 'k
  hn_value :: addr

record 'k hash_table =
  ht_head :: "nat \<Rightarrow> addr"
  ht_nodes :: "addr \<Rightarrow> 'k hash_node"

section \<open>Operations\<close>

text \<open>\<^verbatim>\<open>hash_table_init\<close> with a hash function: every bucket becomes empty.\<close>

definition hash_table_init :: "'k hash_table \<Rightarrow> 'k hash_table" where
  "hash_table_init T = T\<lparr>ht_head := (\<lambda>i. if i < HASH_TABLE_SIZE then 0 else ht_head T i)\<rparr>"

text \<open>The loop of \<^verbatim>\<open>defalut_get\<close>.\<close>

partial_function (option) get_loop :: "('k \<Rightarrow> 'k \<Rightarrow> bool) \<Rightarrow> 'k hash_table \<Rightarrow> addr \<Rightarrow> 'k \<Rightarrow> addr option" where
  "get_loop eq T node key =
     (if node \<noteq> 0
      then (if eq (hn_key (ht_nodes T node)) key then Some (hn_value (ht_nodes T node))
            else get_loop eq T (hn_next (ht_nodes T node)) key)
      else Some 0)"

definition defalut_get :: "('k \<Rightarrow> 'k \<Rightarrow> bool) \<Rightarrow> ('k \<Rightarrow> nat) \<Rightarrow> 'k hash_table \<Rightarrow> 'k \<Rightarrow> addr res" where
  "defalut_get eq hf T key = of_loop (get_loop eq T (ht_head T (hf key)) key)"

text \<open>
  \<^verbatim>\<open>default_put\<close> allocates the node before it looks for the key, and keeps the page when the key
  is already present.
\<close>

definition default_put ::
  "('k \<Rightarrow> 'k \<Rightarrow> bool) \<Rightarrow> ('k \<Rightarrow> nat) \<Rightarrow> 'k \<Rightarrow> addr \<Rightarrow> 'k hash_table \<times> pool \<Rightarrow> (int \<times> 'k hash_table \<times> pool) res"
where
  "default_put eq hf key v = (\<lambda>(T, pl).
     let (node, pl) = pool_alloc pl
     in bnd (defalut_get eq hf T key) (\<lambda>r.
        if r \<noteq> 0 then Inr (- 1, T, pl)
        else if node = 0 then Inl (Fault 0)
        else (let index = hf key
              in Inr (0, T\<lparr>ht_nodes := (ht_nodes T)(node := \<lparr>hn_next = ht_head T index, hn_key = key, hn_value = v\<rparr>),
                            ht_head := (ht_head T)(index := node)\<rparr>, pl))))"

text \<open>A cell that holds a link: a bucket head or a node.\<close>

datatype hloc = Bucket nat | Node addr

fun next_at :: "'k hash_table \<Rightarrow> hloc \<Rightarrow> addr" where
  "next_at T (Bucket i) = ht_head T i"
| "next_at T (Node p) = hn_next (ht_nodes T p)"

fun set_next :: "hloc \<Rightarrow> addr \<Rightarrow> 'k hash_table \<Rightarrow> 'k hash_table" where
  "set_next (Bucket i) q T = T\<lparr>ht_head := (ht_head T)(i := q)\<rparr>"
| "set_next (Node p) q T = T\<lparr>ht_nodes := (ht_nodes T)(p := (ht_nodes T p)\<lparr>hn_next := q\<rparr>)\<rparr>"

partial_function (option) find_prev :: "('k \<Rightarrow> 'k \<Rightarrow> bool) \<Rightarrow> 'k hash_table \<Rightarrow> hloc \<Rightarrow> 'k \<Rightarrow> hloc option" where
  "find_prev eq T head key =
     (if next_at T head \<noteq> 0 \<and> \<not> eq (hn_key (ht_nodes T (next_at T head))) key
      then find_prev eq T (Node (next_at T head)) key
      else Some head)"

definition default_erase ::
  "('k \<Rightarrow> 'k \<Rightarrow> bool) \<Rightarrow> ('k \<Rightarrow> nat) \<Rightarrow> 'k \<Rightarrow> 'k hash_table \<times> pool \<Rightarrow> (int \<times> 'k hash_table \<times> pool) res"
where
  "default_erase eq hf key = (\<lambda>(T, pl).
     bnd (of_loop (find_prev eq T (Bucket (hf key)) key)) (\<lambda>head.
       let node = next_at T head
       in if node \<noteq> 0
          then bnd (pool_free node pl) (\<lambda>pl. Inr (0, set_next head (hn_next (ht_nodes T node)) T, pl))
          else Inr (- 1, T, pl)))"

section \<open>Chains\<close>

fun chain :: "(addr \<Rightarrow> 'k hash_node) \<Rightarrow> addr \<Rightarrow> addr list \<Rightarrow> bool" where
  "chain N p [] \<longleftrightarrow> p = 0"
| "chain N p (q # qs) \<longleftrightarrow> p = q \<and> p \<noteq> 0 \<and> chain N (hn_next (N p)) qs"

lemma chain_cong: "(\<And>q. q \<in> set qs \<Longrightarrow> hn_next (N q) = hn_next (M q)) \<Longrightarrow> chain N p qs \<longleftrightarrow> chain M p qs"
  by (induction qs arbitrary: p) auto

text \<open>The entries of a chain, as an association list.\<close>

definition entries :: "(addr \<Rightarrow> 'k hash_node) \<Rightarrow> addr list \<Rightarrow> ('k \<times> addr) list" where
  "entries N qs = map (\<lambda>q. (hn_key (N q), hn_value (N q))) qs"

lemma entries_simps [simp]:
  "entries N [] = []" "entries N (q # qs) = (hn_key (N q), hn_value (N q)) # entries N qs"
  "entries N (qs @ rs) = entries N qs @ entries N rs"
  by (simp_all add: entries_def)

lemma entries_cong:
  "(\<And>q. q \<in> set qs \<Longrightarrow> hn_key (N q) = hn_key (M q) \<and> hn_value (N q) = hn_value (M q)) \<Longrightarrow> entries N qs = entries M qs"
  by (simp add: entries_def)

definition to_ptr :: "addr option \<Rightarrow> addr" where
  "to_ptr v = (case v of None \<Rightarrow> 0 | Some p \<Rightarrow> p)"

lemma to_ptr_simps [simp]: "to_ptr None = 0" "to_ptr (Some p) = p"
  by (simp_all add: to_ptr_def)

lemma get_loop_chain:
  "chain (ht_nodes T) p qs \<Longrightarrow> get_loop (=) T p k = Some (to_ptr (map_of (entries (ht_nodes T) qs) k))"
proof (induction qs arbitrary: p)
  case Nil
  then show ?case by (subst get_loop.simps) simp
next
  case (Cons q qs)
  then have "get_loop (=) T (hn_next (ht_nodes T q)) k = Some (to_ptr (map_of (entries (ht_nodes T) qs) k))" by auto
  with Cons.prems show ?case by (subst get_loop.simps) auto
qed

text \<open>
  \<open>find_prev\<close> stops at the end of the chain when the key is absent, and otherwise at the cell whose
  link leads to the node with the key.
\<close>

lemma find_prev_absent:
  "chain (ht_nodes T) (next_at T l) qs \<Longrightarrow> k \<notin> fst ` set (entries (ht_nodes T) qs) \<Longrightarrow>
   \<exists>l'. find_prev (=) T l k = Some l' \<and> next_at T l' = 0"
proof (induction qs arbitrary: l)
  case Nil
  then show ?case by (subst find_prev.simps) simp
next
  case (Cons q qs)
  then have "\<exists>l'. find_prev (=) T (Node q) k = Some l' \<and> next_at T l' = 0" by (intro Cons.IH) auto
  with Cons.prems show ?case by (subst find_prev.simps) auto
qed

lemma find_prev_present:
  assumes "chain (ht_nodes T) (next_at T l) (qs @ p # rs)" "k \<notin> fst ` set (entries (ht_nodes T) qs)"
    "hn_key (ht_nodes T p) = k"
  shows "find_prev (=) T l k = Some (if qs = [] then l else Node (last qs))"
    "next_at T (if qs = [] then l else Node (last qs)) = p"
proof -
  have "find_prev (=) T l k = Some (if qs = [] then l else Node (last qs)) \<and>
    next_at T (if qs = [] then l else Node (last qs)) = p"
    using assms
  proof (induction qs arbitrary: l)
    case Nil
    then show ?case by (subst find_prev.simps) simp
  next
    case (Cons q qs)
    then have "find_prev (=) T (Node q) k = Some (if qs = [] then Node q else Node (last qs)) \<and>
        next_at T (if qs = [] then Node q else Node (last qs)) = p" by (intro Cons.IH) auto
    with Cons.prems show ?case by (subst find_prev.simps) auto
  qed
  then show "find_prev (=) T l k = Some (if qs = [] then l else Node (last qs))"
    "next_at T (if qs = [] then l else Node (last qs)) = p" by blast+
qed

section \<open>Runs of operations\<close>

datatype 'k hash_op = Put 'k addr | Get 'k | Erase 'k

text \<open>The results of a sequence of operations on the table, and on a map.\<close>

fun hash_run :: "('k \<Rightarrow> 'k \<Rightarrow> bool) \<Rightarrow> ('k \<Rightarrow> nat) \<Rightarrow> 'k hash_op list \<Rightarrow> 'k hash_table \<times> pool \<Rightarrow> (addr + int) list res" where
  "hash_run eq hf [] s = Inr []"
| "hash_run eq hf (Put k v # ops) s =
     bnd (default_put eq hf k v s) (\<lambda>(r, s). bnd (hash_run eq hf ops s) (\<lambda>rs. Inr (Inr r # rs)))"
| "hash_run eq hf (Get k # ops) s =
     bnd (defalut_get eq hf (fst s) k) (\<lambda>r. bnd (hash_run eq hf ops s) (\<lambda>rs. Inr (Inl r # rs)))"
| "hash_run eq hf (Erase k # ops) s =
     bnd (default_erase eq hf k s) (\<lambda>(r, s). bnd (hash_run eq hf ops s) (\<lambda>rs. Inr (Inr r # rs)))"

fun map_run :: "'k hash_op list \<Rightarrow> ('k \<rightharpoonup> addr) \<Rightarrow> (addr + int) list" where
  "map_run [] m = []"
| "map_run (Put k v # ops) m =
     (if m k = None then Inr 0 # map_run ops (m(k \<mapsto> v)) else Inr (- 1) # map_run ops m)"
| "map_run (Get k # ops) m = Inl (case m k of None \<Rightarrow> 0 | Some v \<Rightarrow> v) # map_run ops m"
| "map_run (Erase k # ops) m =
     (if m k = None then Inr (- 1) # map_run ops m else Inr 0 # map_run ops (m(k := None)))"

text \<open>Sequences that insert no null pointer.\<close>

fun no_null :: "'k hash_op list \<Rightarrow> bool" where
  "no_null [] \<longleftrightarrow> True"
| "no_null (Put k v # ops) \<longleftrightarrow> v \<noteq> 0 \<and> no_null ops"
| "no_null (_ # ops) \<longleftrightarrow> no_null ops"

section \<open>The table represents a map\<close>

definition ht_chains ::
  "('k \<Rightarrow> nat) \<Rightarrow> 'k hash_table \<Rightarrow> ('k \<rightharpoonup> addr) \<Rightarrow> addr set \<Rightarrow> (nat \<Rightarrow> addr list) \<Rightarrow> bool"
where
  "ht_chains hf T m U ch \<longleftrightarrow>
     (\<forall>i < HASH_TABLE_SIZE. chain (ht_nodes T) (ht_head T i) (ch i)) \<and>
     (\<forall>i < HASH_TABLE_SIZE. \<forall>q \<in> set (ch i). hf (hn_key (ht_nodes T q)) = i) \<and>
     (\<forall>i < HASH_TABLE_SIZE. distinct (map (\<lambda>q. hn_key (ht_nodes T q)) (ch i))) \<and>
     (\<forall>k. m k = map_of (entries (ht_nodes T) (ch (hf k))) k) \<and>
     U = (\<Union>i < HASH_TABLE_SIZE. set (ch i))"

definition ht_rep :: "('k \<Rightarrow> nat) \<Rightarrow> 'k hash_table \<Rightarrow> ('k \<rightharpoonup> addr) \<Rightarrow> addr set \<Rightarrow> bool" where
  "ht_rep hf T m U \<longleftrightarrow> (\<exists>ch. ht_chains hf T m U ch)"

lemma map_of_entries_None: "map_of (entries N qs) k = None \<longleftrightarrow> k \<notin> hn_key ` N ` set qs"
  by (force simp: entries_def map_of_eq_None_iff)

lemma map_of_entries_app: "map_of (entries N (qs @ rs)) k = (case map_of (entries N qs) k of None \<Rightarrow> map_of (entries N rs) k | Some v \<Rightarrow> Some v)"
  by (simp add: map_add_def split: option.splits)

lemma chain_nonzero: "chain N a (qs @ p # rs) \<Longrightarrow> p \<noteq> 0"
  by (induction qs arbitrary: a) auto

lemma chain_unlink:
  assumes "M x = (N x)\<lparr>hn_next := hn_next (N p)\<rparr>" "\<And>q. q \<noteq> x \<Longrightarrow> M q = N q"
  shows "chain N a (xs @ x # p # rs) \<Longrightarrow> x \<notin> set xs \<Longrightarrow> x \<notin> set rs \<Longrightarrow> chain M a (xs @ x # rs)"
proof (induction xs arbitrary: a)
  case Nil
  have "chain M (hn_next (N p)) rs \<longleftrightarrow> chain N (hn_next (N p)) rs"
    using Nil(3) assms(2) by (intro chain_cong) metis
  then show ?case using Nil assms(1) by auto
next
  case (Cons q xs)
  then show ?case using assms(2) [of q] by auto
qed

text \<open>The contract of a hash function, with what it gives for the four operations.\<close>

locale hashing =
  fixes hf :: "'k \<Rightarrow> nat"
  assumes hf_range: "hf k < HASH_TABLE_SIZE"
begin

lemma rep_init: "ht_rep hf (hash_table_init T) (\<lambda>_. None) {}"
  unfolding ht_rep_def by (rule exI [of _ "\<lambda>_. []"]) (simp add: ht_chains_def hash_table_init_def)

lemma rep_get:
  assumes "ht_rep hf T m U"
  shows "defalut_get (=) hf T k = Inr (to_ptr (m k))"
proof -
  obtain ch where "ht_chains hf T m U ch" using assms by (auto simp: ht_rep_def)
  then have "chain (ht_nodes T) (ht_head T (hf k)) (ch (hf k))" "m k = map_of (entries (ht_nodes T) (ch (hf k))) k"
    using hf_range [of k] by (simp_all add: ht_chains_def)
  then show ?thesis by (simp add: defalut_get_def get_loop_chain)
qed

lemma rep_put_dup:
  assumes "ht_rep hf T m U" "m k = Some v'" "v' \<noteq> 0"
  shows "default_put (=) hf k v (T, pl) = Inr (- 1, T, snd (pool_alloc pl))"
  using rep_get [OF assms(1), of k] assms(2,3) by (simp add: default_put_def split: prod.splits)

lemma rep_put_new:
  assumes r: "ht_rep hf T m U" and k: "m k = None" and p: "pages_free pl = p # ps" "p \<noteq> 0" "p \<notin> U"
  shows "\<exists>T'. default_put (=) hf k v (T, pl) = Inr (0, T', pl\<lparr>pages_free := ps\<rparr>) \<and>
    ht_rep hf T' (m(k \<mapsto> v)) (insert p U)"
proof -
  obtain ch where c: "ht_chains hf T m U ch" using r by (auto simp: ht_rep_def)
  then have U: "U = (\<Union>i < HASH_TABLE_SIZE. set (ch i))" by (simp add: ht_chains_def)
  define nd where "nd = \<lparr>hn_next = ht_head T (hf k), hn_key = k, hn_value = v\<rparr>"
  define T' where "T' = T\<lparr>ht_nodes := (ht_nodes T)(p := nd), ht_head := (ht_head T)(hf k := p)\<rparr>"
  define ch' where "ch' = ch(hf k := p # ch (hf k))"
  have same: "ht_nodes T' q = ht_nodes T q" if "q \<in> set (ch i)" "i < HASH_TABLE_SIZE" for q i
    using p(3) that by (auto simp: T'_def U)
  have pn: "ht_nodes T' p = nd" by (simp add: T'_def)
  have run: "default_put (=) hf k v (T, pl) = Inr (0, T', pl\<lparr>pages_free := ps\<rparr>)"
    using rep_get [OF r, of k] k p by (simp add: default_put_def pool_alloc_def T'_def nd_def Let_def)
  have ent: "entries (ht_nodes T') (ch (hf k')) = entries (ht_nodes T) (ch (hf k'))" for k'
    using same [OF _ hf_range] by (intro entries_cong) auto
  have "k \<notin> hn_key ` ht_nodes T ` set (ch (hf k))"
    using k c by (simp add: ht_chains_def map_of_entries_None)
  then have nk: "k \<notin> (\<lambda>q. hn_key (ht_nodes T q)) ` set (ch (hf k))" by auto
  have "ht_chains hf T' (m(k \<mapsto> v)) (insert p U) ch'"
    unfolding ht_chains_def
  proof (intro conjI allI impI ballI)
    fix i :: nat assume i: "i < HASH_TABLE_SIZE"
    have "chain (ht_nodes T') (ht_head T i) (ch i)"
      using c chain_cong [of "ch i" "ht_nodes T'" "ht_nodes T"] same i by (auto simp: ht_chains_def)
    then show "chain (ht_nodes T') (ht_head T' i) (ch' i)"
      using p(2) pn by (auto simp: T'_def ch'_def nd_def)
    have h: "hf (hn_key (ht_nodes T q)) = i" if "q \<in> set (ch i)" for q using c i that by (auto simp: ht_chains_def)
    show "hf (hn_key (ht_nodes T' q)) = i" if "q \<in> set (ch' i)" for q
    proof (cases "q \<in> set (ch i)")
      case True
      then show ?thesis using h same [OF True i] by simp
    next
      case False
      then have "q = p" "i = hf k" using that by (auto simp: ch'_def split: if_splits)
      then show ?thesis by (simp add: pn nd_def)
    qed
    have d: "distinct (map (\<lambda>q. hn_key (ht_nodes T q)) (ch i))" using c i by (simp add: ht_chains_def)
    have e: "map (\<lambda>q. hn_key (ht_nodes T' q)) (ch i) = map (\<lambda>q. hn_key (ht_nodes T q)) (ch i)"
      using same [OF _ i] by simp
    show "distinct (map (\<lambda>q. hn_key (ht_nodes T' q)) (ch' i))"
    proof (cases "i = hf k")
      case True
      then have "ch' i = p # ch i" by (simp add: ch'_def)
      then have "map (\<lambda>q. hn_key (ht_nodes T' q)) (ch' i) = k # map (\<lambda>q. hn_key (ht_nodes T q)) (ch i)"
        using e pn by (simp only: list.map nd_def hash_node.simps)
      then show ?thesis using d nk True by (simp only: distinct.simps set_map) simp
    next
      case False
      then have "ch' i = ch i" by (simp add: ch'_def)
      then show ?thesis using d e by (simp only:)
    qed
  next
    fix k' have "m k' = map_of (entries (ht_nodes T) (ch (hf k'))) k'" using c by (simp add: ht_chains_def)
    then show "(m(k \<mapsto> v)) k' = map_of (entries (ht_nodes T') (ch' (hf k'))) k'"
      using ent [of k'] ent [of k] pn by (auto simp: ch'_def nd_def)
  next
    show "insert p U = (\<Union>i < HASH_TABLE_SIZE. set (ch' i))"
      using hf_range [of k] by (auto simp: U ch'_def split: if_splits)
  qed
  then show ?thesis using run by (auto simp: ht_rep_def)
qed

lemma rep_erase_absent:
  assumes "ht_rep hf T m U" "m k = None"
  shows "default_erase (=) hf k (T, pl) = Inr (- 1, T, pl)"
proof -
  obtain ch where "ht_chains hf T m U ch" using assms(1) by (auto simp: ht_rep_def)
  then have "chain (ht_nodes T) (next_at T (Bucket (hf k))) (ch (hf k))" "m k = map_of (entries (ht_nodes T) (ch (hf k))) k"
    using hf_range [of k] by (simp_all add: ht_chains_def)
  moreover from this(2) have "k \<notin> fst ` set (entries (ht_nodes T) (ch (hf k)))"
    using assms(2) by (metis map_of_eq_None_iff)
  ultimately obtain l where "find_prev (=) T (Bucket (hf k)) k = Some l" "next_at T l = 0"
    using find_prev_absent [of T "Bucket (hf k)" "ch (hf k)" k] by auto
  then show ?thesis by (simp add: default_erase_def)
qed

lemma rep_erase:
  assumes r: "ht_rep hf T m U" and k: "m k = Some v"
    and fr: "\<And>q. q \<in> U \<Longrightarrow> pool_free q pl = Inr (pl\<lparr>pages_free := q # pages_free pl\<rparr>)"
  shows "\<exists>T' p. default_erase (=) hf k (T, pl) = Inr (0, T', pl\<lparr>pages_free := p # pages_free pl\<rparr>) \<and>
    p \<in> U \<and> ht_rep hf T' (m(k := None)) (U - {p})"
proof -
  obtain ch where c: "ht_chains hf T m U ch" using r by (auto simp: ht_rep_def)
  let ?N = "ht_nodes T" and ?b = "hf k"
  have U: "U = (\<Union>i < HASH_TABLE_SIZE. set (ch i))" and m: "\<And>k. m k = map_of (entries ?N (ch (hf k))) k"
    using c by (simp_all add: ht_chains_def)
  have hk: "hf (hn_key (?N q)) = i" if "i < HASH_TABLE_SIZE" "q \<in> set (ch i)" for i q
    using c that by (auto simp: ht_chains_def)
  have "map_of (entries ?N (ch ?b)) k \<noteq> None" using k m [of k] by simp
  then obtain p where "p \<in> set (ch ?b)" "hn_key (?N p) = k" by (auto simp: map_of_entries_None)
  then obtain qs rs where sp: "ch ?b = qs @ p # rs" "hn_key (?N p) = k" by (meson split_list)
  have b: "chain ?N (ht_head T ?b) (qs @ p # rs)" "distinct (map (\<lambda>q. hn_key (?N q)) (qs @ p # rs))"
    using c hf_range [of k] by (auto simp: ht_chains_def simp flip: sp(1))
  have nk: "k \<notin> fst ` set (entries ?N qs)" "k \<notin> fst ` set (entries ?N rs)"
    using b(2) sp(2) by (force simp: entries_def)+
  have dist: "distinct (qs @ p # rs)" using b(2) by (simp only: distinct_map)
  define l where "l = (if qs = [] then Bucket ?b else Node (last qs))"
  have fp: "find_prev (=) T (Bucket ?b) k = Some l" "next_at T l = p"
    using find_prev_present [of T "Bucket ?b" qs p rs k] b(1) nk(1) sp(2) by (simp_all add: l_def)
  have pU: "p \<in> U" using sp(1) U hf_range [of k] by (auto intro: bexI [of _ ?b])
  have p0: "p \<noteq> 0" by (rule chain_nonzero [OF b(1)])
  define T' where "T' = set_next l (hn_next (?N p)) T"
  define ch' where "ch' = ch(?b := qs @ rs)"
  have run: "default_erase (=) hf k (T, pl) = Inr (0, T', pl\<lparr>pages_free := p # pages_free pl\<rparr>)"
    using fp fr [OF pU] p0 by (simp add: default_erase_def T'_def)
  have key: "hn_key (ht_nodes T' q) = hn_key (?N q)" "hn_value (ht_nodes T' q) = hn_value (?N q)" for q
    by (simp_all add: T'_def l_def)
  have ent: "entries (ht_nodes T') xs = entries ?N xs" for xs by (rule entries_cong) (simp add: key)
  have sub: "set (ch' i) \<subseteq> set (ch i)" for i by (auto simp: ch'_def sp(1))
  have "ht_chains hf T' (m(k := None)) (U - {p}) ch'"
    unfolding ht_chains_def
  proof (intro conjI allI impI ballI)
    fix i :: nat assume i: "i < HASH_TABLE_SIZE"
    show "hf (hn_key (ht_nodes T' q)) = i" if "q \<in> set (ch' i)" for q
      using hk [OF i] that sub [of i] by (auto simp: key)
    have "distinct (map (\<lambda>q. hn_key (?N q)) (ch i))" using c i by (simp add: ht_chains_def)
    then show "distinct (map (\<lambda>q. hn_key (ht_nodes T' q)) (ch' i))"
      using b(2) by (simp add: key ch'_def)
    show "chain (ht_nodes T') (ht_head T' i) (ch' i)"
    proof (cases "i = ?b")
      case True
      show ?thesis
      proof (cases qs rule: rev_cases)
        case Nil
        then show ?thesis using b(1) True by (auto simp: T'_def l_def ch'_def)
      next
        case (snoc xs x)
        have "chain (?N(x := (?N x)\<lparr>hn_next := hn_next (?N p)\<rparr>)) (ht_head T ?b) (xs @ x # rs)"
        proof (rule chain_unlink [of _ x ?N p])
          show "chain ?N (ht_head T ?b) (xs @ x # p # rs)" using b(1) snoc by simp
          show "x \<notin> set xs" "x \<notin> set rs" using dist snoc by simp_all
        qed simp_all
        then show ?thesis using snoc True by (simp add: T'_def l_def ch'_def)
      qed
    next
      case False
      have "last qs \<notin> set (ch i)" if "qs \<noteq> []"
      proof
        assume "last qs \<in> set (ch i)"
        moreover have "last qs \<in> set (ch ?b)" using that sp(1) by simp
        ultimately show False using hk [OF i] hk [OF hf_range] False by blast
      qed
      then have "\<And>q. q \<in> set (ch i) \<Longrightarrow> hn_next (?N q) = hn_next (ht_nodes T' q)"
        by (auto simp: T'_def l_def)
      moreover have "ht_head T' i = ht_head T i" using False by (simp add: T'_def l_def)
      moreover have "chain ?N (ht_head T i) (ch i)" using c i by (simp add: ht_chains_def)
      ultimately show ?thesis using False chain_cong [of "ch i" ?N "ht_nodes T'"] by (simp add: ch'_def)
    qed
  next
    fix k' show "(m(k := None)) k' = map_of (entries (ht_nodes T') (ch' (hf k'))) k'"
    proof (cases "k' = k")
      case True
      have "map_of (entries ?N (qs @ rs)) k = None" using nk by (simp add: map_of_eq_None_iff image_Un del: map_of_append)
      then show ?thesis using True by (simp add: ent ch'_def del: entries_simps(3))
    next
      case False
      then show ?thesis
        using m [of k'] sp by (cases "hf k' = ?b") (simp_all add: ent ch'_def map_of_entries_app split: option.split del: entries_simps(3))
    qed
  next
    show "U - {p} = (\<Union>i < HASH_TABLE_SIZE. set (ch' i))"
    proof (intro set_eqI iffI)
      fix q assume "q \<in> U - {p}"
      then obtain i where "i < HASH_TABLE_SIZE" "q \<in> set (ch i)" "q \<noteq> p" by (auto simp: U)
      then have "q \<in> set (ch' i)" using sp(1) by (auto simp: ch'_def)
      then show "q \<in> (\<Union>i < HASH_TABLE_SIZE. set (ch' i))" using \<open>i < HASH_TABLE_SIZE\<close> by blast
    next
      fix q assume "q \<in> (\<Union>i < HASH_TABLE_SIZE. set (ch' i))"
      then obtain i where i: "i < HASH_TABLE_SIZE" "q \<in> set (ch' i)" by blast
      then have "q \<in> set (ch i)" using sub by blast
      moreover have "q \<noteq> p"
      proof
        assume "q = p"
        then have "i = ?b" using hk [OF i(1) \<open>q \<in> set (ch i)\<close>] sp(2) by simp
        then show False using i(2) dist \<open>q = p\<close> by (simp add: ch'_def)
      qed
      ultimately show "q \<in> U - {p}" using i(1) by (auto simp: U)
    qed
  qed
  then show ?thesis using run pU by (auto simp: ht_rep_def)
qed

text \<open>Pages the table may use: every node and every free page can be released and is not null.\<close>

lemma run_refines:
  assumes "ht_rep hf T m U" "no_null ops" "\<And>k. m k \<noteq> Some 0"
    "length ops \<le> length (pages_free pl)" "distinct (pages_free pl)" "U \<inter> set (pages_free pl) = {}"
    "\<And>q. q \<in> U \<union> set (pages_free pl) \<Longrightarrow> q \<noteq> 0 \<and> q mod PGSIZE = 0 \<and> pool_lo pl \<le> q \<and> q < pool_hi pl"
  shows "hash_run (=) hf ops (T, pl) = Inr (map_run ops m)"
  using assms
proof (induction ops arbitrary: T m U pl)
  case (Cons opn ops)
  have fr: "\<And>q. q \<in> U \<Longrightarrow> pool_free q pl = Inr (pl\<lparr>pages_free := q # pages_free pl\<rparr>)"
    using Cons.prems(7) by (auto simp: pool_free_def not_less not_le)
  obtain p ps where pl: "pages_free pl = p # ps" using Cons.prems(4) by (cases "pages_free pl") auto
  show ?case
  proof (cases opn)
    case (Put k v)
    show ?thesis
    proof (cases "m k")
      case None
      obtain T' where T': "default_put (=) hf k v (T, pl) = Inr (0, T', pl\<lparr>pages_free := ps\<rparr>)"
        "ht_rep hf T' (m(k \<mapsto> v)) (insert p U)"
        using rep_put_new [OF Cons.prems(1) None pl, of v] Cons.prems(6,7) pl by auto
      have "hash_run (=) hf ops (T', pl\<lparr>pages_free := ps\<rparr>) = Inr (map_run ops (m(k \<mapsto> v)))"
        using Cons.prems pl Put by (intro Cons.IH [OF T'(2)]) auto
      then show ?thesis using T'(1) None Put by simp
    next
      case (Some v')
      have e: "default_put (=) hf k v (T, pl) = Inr (- 1, T, pl\<lparr>pages_free := ps\<rparr>)"
        using rep_put_dup [OF Cons.prems(1) Some, of v pl] Cons.prems(3) [of k] Some pl by (simp add: pool_alloc_def)
      have "hash_run (=) hf ops (T, pl\<lparr>pages_free := ps\<rparr>) = Inr (map_run ops m)"
        using Cons.prems pl Put by (intro Cons.IH [OF Cons.prems(1)]) auto
      then show ?thesis using e Some Put by simp
    qed
  next
    case (Get k)
    have "hash_run (=) hf ops (T, pl) = Inr (map_run ops m)"
      using Cons.prems Get by (intro Cons.IH [OF Cons.prems(1)]) auto
    then show ?thesis using rep_get [OF Cons.prems(1), of k] Get by (simp add: to_ptr_def)
  next
    case (Erase k)
    show ?thesis
    proof (cases "m k")
      case None
      have "hash_run (=) hf ops (T, pl) = Inr (map_run ops m)"
        using Cons.prems Erase by (intro Cons.IH [OF Cons.prems(1)]) auto
      then show ?thesis using rep_erase_absent [OF Cons.prems(1) None] None Erase by simp
    next
      case (Some v)
      obtain T' q where T': "default_erase (=) hf k (T, pl) = Inr (0, T', pl\<lparr>pages_free := q # pages_free pl\<rparr>)"
        "q \<in> U" "ht_rep hf T' (m(k := None)) (U - {q})"
        using rep_erase [OF Cons.prems(1) Some fr] by blast
      have "hash_run (=) hf ops (T', pl\<lparr>pages_free := q # pages_free pl\<rparr>) = Inr (map_run ops (m(k := None)))"
        using Cons.prems T'(2) Erase by (intro Cons.IH [OF T'(3)]) auto
      then show ?thesis using T'(1) Some Erase by simp
    qed
  qed
qed simp

end

end
