(* ===== verification/Fs_Types.thy ===== *)
theory Fs_Types
  imports Hash_Table Symbol "HOL-Library.Signed_Division"
begin

text \<open>
  The data of the file system: \<^verbatim>\<open>kernel/vfs.h\<close>, \<^verbatim>\<open>kernel/rfs.h\<close>, \<^verbatim>\<open>kernel/ramdev.h\<close>. Every
  structure that the code puts in a page of its own has a store from page addresses to values, so that
  pointers are addresses and sharing is visible; a disk block and the I/O buffer are functions from
  offsets to bytes, because the code reads and writes structures in them through casts. Names are the
  bytes of C strings without the terminator. A C \<^verbatim>\<open>int\<close> is an integer that is wrapped when it is stored in
  a block. \<open>'h\<close> is the state of the host that the Spike front end gives access to.
\<close>

section \<open>Blocks\<close>

type_synonym block = "nat \<Rightarrow> uint8"

abbreviation (input) RFS_BLKSIZE :: int where "RFS_BLKSIZE \<equiv> 4096"
abbreviation (input) BLK :: nat where "BLK \<equiv> 4096"

definition get_bytes :: "block \<Rightarrow> nat \<Rightarrow> nat \<Rightarrow> uint8 list" where
  "get_bytes b off n = map b [off..<off + n]"

definition put_bytes :: "nat \<Rightarrow> uint8 list \<Rightarrow> block \<Rightarrow> block" where
  "put_bytes off bs b = (\<lambda>i. if off \<le> i \<and> i < off + length bs then bs ! (i - off) else b i)"

text \<open>A little-endian 32-bit \<^verbatim>\<open>int\<close> at an offset.\<close>

definition enc32 :: "int \<Rightarrow> uint8 list" where
  "enc32 v = (let w = word_of_int v :: uint32
              in [ucast w, ucast (drop_bit 8 w), ucast (drop_bit 16 w), ucast (drop_bit 24 w)])"

definition dec32 :: "uint8 list \<Rightarrow> int" where
  "dec32 bs = sint ((ucast (bs ! 0) :: uint32) OR push_bit 8 (ucast (bs ! 1)) OR push_bit 16 (ucast (bs ! 2))
                    OR push_bit 24 (ucast (bs ! 3)))"

definition get32 :: "block \<Rightarrow> nat \<Rightarrow> int" where
  "get32 b off = dec32 (get_bytes b off 4)"

definition put32 :: "nat \<Rightarrow> int \<Rightarrow> block \<Rightarrow> block" where
  "put32 off v = put_bytes off (enc32 v)"

definition int32 :: "int \<Rightarrow> bool" where
  "int32 v \<longleftrightarrow> - (2 ^ 31) \<le> v \<and> v < 2 ^ 31"

lemma length_enc32 [simp]: "length (enc32 v) = 4"
  by (simp add: enc32_def Let_def)

lemma bytes_word32:
  "((ucast (ucast w :: uint8) :: uint32) OR push_bit 8 (ucast (ucast (drop_bit 8 w) :: uint8))
    OR push_bit 16 (ucast (ucast (drop_bit 16 w) :: uint8)) OR push_bit 24 (ucast (ucast (drop_bit 24 w) :: uint8))) = w"
proof (rule bit_word_eqI)
  fix n assume "n < LENGTH(32)"
  then consider "n < 8" | "8 \<le> n" "n < 16" | "16 \<le> n" "n < 24" | "24 \<le> n" "n < 32" by fastforce
  then show "bit ((ucast (ucast w :: uint8) :: uint32) OR push_bit 8 (ucast (ucast (drop_bit 8 w) :: uint8))
    OR push_bit 16 (ucast (ucast (drop_bit 16 w) :: uint8)) OR push_bit 24 (ucast (ucast (drop_bit 24 w) :: uint8))) n
    \<longleftrightarrow> bit w n"
    by cases (auto simp: bit_simps)
qed

lemma dec32_enc32 [simp]: "int32 v \<Longrightarrow> dec32 (enc32 v) = v"
  unfolding dec32_def enc32_def Let_def
  by (simp add: bytes_word32 int32_def signed_of_int signed_take_bit_int_eq_self)

lemma length_get_bytes [simp]: "length (get_bytes b off n) = n"
  by (simp add: get_bytes_def)

lemma get_bytes_nth [simp]: "i < n \<Longrightarrow> get_bytes b off n ! i = b (off + i)"
  by (simp add: get_bytes_def)

lemma get_bytes_cong: "(\<And>i. off \<le> i \<Longrightarrow> i < off + n \<Longrightarrow> b i = c i) \<Longrightarrow> get_bytes b off n = get_bytes c off n"
  by (simp add: get_bytes_def)

lemma put_bytes_in: "i < length bs \<Longrightarrow> put_bytes off bs b (off + i) = bs ! i"
  by (simp add: put_bytes_def)

lemma put_bytes_out: "i < off \<or> off + length bs \<le> i \<Longrightarrow> put_bytes off bs b i = b i"
  by (auto simp: put_bytes_def)

lemma get_put_same: "n = length bs \<Longrightarrow> get_bytes (put_bytes off bs b) off n = bs"
  by (rule nth_equalityI) (auto simp: put_bytes_in)

lemma get_put_other:
  "off' + n \<le> off \<or> off + length bs \<le> off' \<Longrightarrow> get_bytes (put_bytes off bs b) off' n = get_bytes b off' n"
  by (rule get_bytes_cong) (auto simp: put_bytes_out)

lemma get32_put32 [simp]: "int32 v \<Longrightarrow> get32 (put32 off v b) off = v"
  by (simp add: get32_def put32_def get_put_same)

lemma get32_put32_other: "off' + 4 \<le> off \<or> off + 4 \<le> off' \<Longrightarrow> get32 (put32 off v b) off' = get32 b off'"
  by (simp add: get32_def put32_def get_put_other)

lemma get_bytes_put32_other: "off' + n \<le> off \<or> off + 4 \<le> off' \<Longrightarrow> get_bytes (put32 off v b) off' n = get_bytes b off' n"
  by (simp add: put32_def get_put_other)

section \<open>Structures\<close>

abbreviation (input) DIRECT_BLKNUM :: nat where "DIRECT_BLKNUM \<equiv> 10"
abbreviation (input) FILE_I :: int where "FILE_I \<equiv> 0"
abbreviation (input) DIR_I :: int where "DIR_I \<equiv> 1"
abbreviation (input) R_FREE :: int where "R_FREE \<equiv> 2"

record rfs_dinode =
  di_size :: int
  di_type :: int
  di_nlinks :: int
  di_blocks :: int
  di_addrs :: "int list"

datatype vinode_ops = Rfs_i_ops | Hostfs_i_ops

record vinode =
  vi_inum :: int
  vi_ref :: int
  vi_size :: int
  vi_type :: int
  vi_nlinks :: int
  vi_blocks :: int
  vi_addrs :: "int list"
  vi_fs_info :: addr
  vi_sb :: addr
  vi_ops :: vinode_ops

record dentry =
  d_name :: cname
  d_ref :: int
  d_inode :: addr
  d_parent :: addr

record super_block =
  sb_magic :: int
  sb_size :: int
  sb_nblocks :: int
  sb_ninodes :: int
  s_root :: addr
  s_dev :: addr
  s_fs_info :: addr

datatype get_superblock = Rfs_get_superblock | Hostfs_get_superblock

record file_system_type =
  type_num :: int
  fst_get_superblock :: get_superblock

record device =
  dev_name :: cname
  dev_id :: int
  dev_fs_type :: addr

record rfs_device =
  d_disk :: "int \<Rightarrow> block"
  d_blocks :: int
  d_blocksize :: int
  iobuffer :: block

record rfs_dir_cache =
  block_count :: int
  dir_base_addr :: addr

record vfile =
  f_status :: int
  f_readable :: int
  f_writable :: int
  f_offset :: int
  f_dentry :: addr

record istat =
  st_inum :: int
  ist_size :: int
  st_type :: int
  st_nlinks :: int
  st_blocks :: int

record dentry_key =
  dk_parent :: addr
  dk_name :: cname

record vinode_key =
  vk_inum :: nat
  vk_sb :: addr

record 'h fs =
  fs_pool :: pool
  vinodes :: "addr \<Rightarrow> vinode"
  dentries :: "addr \<Rightarrow> dentry"
  sbs :: "addr \<Rightarrow> super_block"
  devs :: "addr \<Rightarrow> device"
  fs_types :: "addr \<Rightarrow> file_system_type"
  dinodes :: "addr \<Rightarrow> rfs_dinode"
  freemaps :: "addr \<Rightarrow> int \<Rightarrow> int"
  dir_caches :: "addr \<Rightarrow> rfs_dir_cache"
  raw_pages :: "addr \<Rightarrow> block"
  rdevs :: "addr \<Rightarrow> rfs_device"
  vfiles :: "addr \<Rightarrow> vfile"
  rfs_device_list :: "addr list"
  fs_list :: "addr list"
  vfs_dev_list :: "addr list"
  vfs_sb_list :: "addr list"
  vfs_root_dentry :: addr
  dentry_hash_table :: "dentry_key hash_table"
  vinode_hash_table :: "vinode_key hash_table"
  fs_host :: 'h

section \<open>Objects in pages\<close>

text \<open>
  An \<^verbatim>\<open>alloc_page\<close> whose result is dereferenced at once: when no page is free the null pointer is
  written through and the kernel faults.
\<close>

definition new_page :: "'h fs \<Rightarrow> (addr \<times> 'h fs) res" where
  "new_page s = (let (p, pl) = pool_alloc (fs_pool s)
                 in if p = 0 then Inl (Fault 0) else Inr (p, s\<lparr>fs_pool := pl\<rparr>))"

definition drop_page :: "addr \<Rightarrow> 'h fs \<Rightarrow> 'h fs res" where
  "drop_page p s = bnd (pool_free p (fs_pool s)) (\<lambda>pl. Inr (s\<lparr>fs_pool := pl\<rparr>))"

text \<open>\<^verbatim>\<open>strcpy\<close> of a name into an array of \<open>n\<close> characters; a longer name overruns the array.\<close>

definition copy_name :: "nat \<Rightarrow> cname \<Rightarrow> cname res" where
  "copy_name n nm = (if length nm < n then Inr nm else Inl (Undefined ''strcpy overruns its destination''))"

lemma sdiv_nonneg: "0 \<le> a \<Longrightarrow> 0 < b \<Longrightarrow> a sdiv b = a div (b :: int)"
  by (cases "a = 0") (simp_all add: signed_divide_int_def sgn_if)

lemma smod_nonneg: "0 \<le> a \<Longrightarrow> 0 < b \<Longrightarrow> a smod b = a mod (b :: int)"
  by (cases "a = 0") (simp_all add: signed_modulo_int_def sgn_if)

lemma new_page_Cons [simp]:
  "pages_free (fs_pool s) = p # ps \<Longrightarrow> p \<noteq> 0 \<Longrightarrow>
   new_page s = Inr (p, s\<lparr>fs_pool := (fs_pool s)\<lparr>pages_free := ps\<rparr>\<rparr>)"
  by (simp add: new_page_def pool_alloc_def)

text \<open>The pages an object can live in: the addresses the allocator manages, released and held.\<close>

definition page_in :: "pool \<Rightarrow> addr \<Rightarrow> bool" where
  "page_in pl p \<longleftrightarrow> p \<noteq> 0 \<and> p mod PGSIZE = 0 \<and> pool_lo pl \<le> p \<and> p < pool_hi pl"

lemma drop_page_ok [simp]:
  "page_in (fs_pool s) p \<Longrightarrow>
   drop_page p s = Inr (s\<lparr>fs_pool := (fs_pool s)\<lparr>pages_free := p # pages_free (fs_pool s)\<rparr>\<rparr>)"
  by (simp add: drop_page_def pool_free_def page_in_def not_less not_le)

end
