(* ===== verification/Vfs_Objects.thy ===== *)
theory Vfs_Objects
  imports Fs_Types
begin

text \<open>
  The objects of the virtual file system, second half of \<^verbatim>\<open>kernel/vfs.c\<close>: constructors of files,
  directory entries and inodes, and the two hash tables that cache them. The keys of the tables are held
  by value: a name never changes while its entry is in the table, and an inode number in a key is never
  negative because the callers test it. The page of a key is allocated and, when the insertion fails,
  released, as in the code. Names are compared with \<^verbatim>\<open>strcmp\<close>, which is 0 exactly for equal
  names (theory Cstring, \<open>strcmp_l_eq_0\<close>).
\<close>

section \<open>Hash functions\<close>

definition dentry_hash_equal :: "dentry_key \<Rightarrow> dentry_key \<Rightarrow> bool" where
  "dentry_hash_equal k1 k2 \<longleftrightarrow> dk_name k1 = dk_name k2 \<and> dk_parent k1 = dk_parent k2"

definition dentry_hash_func :: "dentry_key \<Rightarrow> nat" where
  "dentry_hash_func key =
     (let hash = fold (\<lambda>c h. (push_bit 5 h + h) + ucast c) (dk_name key) (5381 :: uint64);
          hash = (push_bit 5 hash + hash) + dk_parent key
      in unat (hash mod 128))"

definition vinode_hash_equal :: "vinode_key \<Rightarrow> vinode_key \<Rightarrow> bool" where
  "vinode_hash_equal k1 k2 \<longleftrightarrow> vk_inum k1 = vk_inum k2 \<and> vk_sb k1 = vk_sb k2"

definition vinode_hash_func :: "vinode_key \<Rightarrow> nat" where
  "vinode_hash_func key = vk_inum key mod 128"

lemma dentry_hash_equal_eq: "dentry_hash_equal = (=)"
  by (auto simp: dentry_hash_equal_def fun_eq_iff)

lemma vinode_hash_equal_eq: "vinode_hash_equal = (=)"
  by (auto simp: vinode_hash_equal_def fun_eq_iff)

interpretation dh: hashing dentry_hash_func
  by unfold_locales (simp add: dentry_hash_func_def Let_def unat_mod)

interpretation vh: hashing vinode_hash_func
  by unfold_locales (simp add: vinode_hash_func_def)

section \<open>The caches\<close>

definition vfs_init :: "'h fs \<Rightarrow> int \<times> 'h fs" where
  "vfs_init s = (0, s\<lparr>dentry_hash_table := hash_table_init (dentry_hash_table s),
                      vinode_hash_table := hash_table_init (vinode_hash_table s)\<rparr>)"

definition hash_get_dentry :: "addr \<Rightarrow> cname \<Rightarrow> 'h fs \<Rightarrow> addr res" where
  "hash_get_dentry parent name s =
     defalut_get dentry_hash_equal dentry_hash_func (dentry_hash_table s) \<lparr>dk_parent = parent, dk_name = name\<rparr>"

definition hash_put_dentry :: "addr \<Rightarrow> 'h fs \<Rightarrow> (int \<times> 'h fs) res" where
  "hash_put_dentry dentry s =
     bnd (new_page s) (\<lambda>(key, s).
     let k = \<lparr>dk_parent = d_parent (dentries s dentry), dk_name = d_name (dentries s dentry)\<rparr>
     in bnd (default_put dentry_hash_equal dentry_hash_func k dentry (dentry_hash_table s, fs_pool s)) (\<lambda>(ret, T, pl).
        let s = s\<lparr>dentry_hash_table := T, fs_pool := pl\<rparr>
        in if ret \<noteq> 0 then bnd (drop_page key s) (\<lambda>s. Inr (ret, s)) else Inr (ret, s)))"

definition hash_erase_dentry :: "addr \<Rightarrow> 'h fs \<Rightarrow> (int \<times> 'h fs) res" where
  "hash_erase_dentry dentry s =
     (let k = \<lparr>dk_parent = d_parent (dentries s dentry), dk_name = d_name (dentries s dentry)\<rparr>
      in bnd (default_erase dentry_hash_equal dentry_hash_func k (dentry_hash_table s, fs_pool s)) (\<lambda>(ret, T, pl).
         Inr (ret, s\<lparr>dentry_hash_table := T, fs_pool := pl\<rparr>)))"

definition hash_get_vinode :: "addr \<Rightarrow> int \<Rightarrow> 'h fs \<Rightarrow> addr res" where
  "hash_get_vinode sb inum s =
     (if inum < 0 then Inr 0
      else defalut_get vinode_hash_equal vinode_hash_func (vinode_hash_table s) \<lparr>vk_inum = nat inum, vk_sb = sb\<rparr>)"

definition hash_put_vinode :: "addr \<Rightarrow> 'h fs \<Rightarrow> (int \<times> 'h fs) res" where
  "hash_put_vinode vinode s =
     (if vi_inum (vinodes s vinode) < 0 then Inr (- 1, s)
      else bnd (new_page s) (\<lambda>(key, s).
        let k = \<lparr>vk_inum = nat (vi_inum (vinodes s vinode)), vk_sb = vi_sb (vinodes s vinode)\<rparr>
        in bnd (default_put vinode_hash_equal vinode_hash_func k vinode (vinode_hash_table s, fs_pool s)) (\<lambda>(ret, T, pl).
           let s = s\<lparr>vinode_hash_table := T, fs_pool := pl\<rparr>
           in if ret \<noteq> 0 then bnd (drop_page key s) (\<lambda>s. Inr (ret, s)) else Inr (ret, s))))"

definition hash_erase_vinode :: "addr \<Rightarrow> 'h fs \<Rightarrow> (int \<times> 'h fs) res" where
  "hash_erase_vinode vinode s =
     (if vi_inum (vinodes s vinode) < 0 then Inr (- 1, s)
      else (let k = \<lparr>vk_inum = nat (vi_inum (vinodes s vinode)), vk_sb = vi_sb (vinodes s vinode)\<rparr>
            in bnd (default_erase vinode_hash_equal vinode_hash_func k (vinode_hash_table s, fs_pool s)) (\<lambda>(ret, T, pl).
               Inr (ret, s\<lparr>vinode_hash_table := T, fs_pool := pl\<rparr>))))"

section \<open>Constructors and destructors\<close>

abbreviation (input) MAX_DENTRY_NAME_LEN :: nat where "MAX_DENTRY_NAME_LEN \<equiv> 30"
abbreviation (input) FD_NONE :: int where "FD_NONE \<equiv> 0"
abbreviation (input) FD_OPENED :: int where "FD_OPENED \<equiv> 1"

text \<open>The argument \<^verbatim>\<open>offset\<close> is not used: a new file always starts at 0.\<close>

definition alloc_vfs_file :: "addr \<Rightarrow> int \<Rightarrow> int \<Rightarrow> int \<Rightarrow> 'h fs \<Rightarrow> (addr \<times> 'h fs) res" where
  "alloc_vfs_file file_dentry readable writable offset s =
     bnd (new_page s) (\<lambda>(file, s).
     let d = dentries s file_dentry;
         s = s\<lparr>dentries := (dentries s)(file_dentry := d\<lparr>d_ref := d_ref d + 1\<rparr>)\<rparr>
     in Inr (file, s\<lparr>vfiles := (vfiles s)(file :=
          \<lparr>f_status = FD_OPENED, f_readable = readable, f_writable = writable, f_offset = 0, f_dentry = file_dentry\<rparr>)\<rparr>))"

definition alloc_vfs_dentry :: "cname \<Rightarrow> addr \<Rightarrow> addr \<Rightarrow> 'h fs \<Rightarrow> (addr \<times> 'h fs) res" where
  "alloc_vfs_dentry name inode parent s =
     bnd (new_page s) (\<lambda>(dentry, s).
     bnd (copy_name MAX_DENTRY_NAME_LEN name) (\<lambda>nm.
     let s = (if inode \<noteq> 0
              then s\<lparr>vinodes := (vinodes s)(inode := (vinodes s inode)\<lparr>vi_ref := vi_ref (vinodes s inode) + 1\<rparr>)\<rparr>
              else s)
     in Inr (dentry, s\<lparr>dentries := (dentries s)(dentry :=
          \<lparr>d_name = nm, d_ref = 0, d_inode = inode, d_parent = parent\<rparr>)\<rparr>)))"

definition free_vfs_dentry :: "addr \<Rightarrow> 'h fs \<Rightarrow> (int \<times> 'h fs) res" where
  "free_vfs_dentry dentry s =
     (if d_ref (dentries s dentry) > 0 then Inr (- 1, s)
      else bnd (drop_page dentry s) (\<lambda>s. Inr (0, s)))"

text \<open>The fields that are not assigned keep what the page held.\<close>

definition default_alloc_vinode :: "addr \<Rightarrow> 'h fs \<Rightarrow> (addr \<times> 'h fs) res" where
  "default_alloc_vinode sb s =
     bnd (new_page s) (\<lambda>(vinode, s).
     Inr (vinode, s\<lparr>vinodes := (vinodes s)(vinode :=
       (vinodes s vinode)\<lparr>vi_blocks := 0, vi_inum := 0, vi_nlinks := 0, vi_ref := 0, vi_sb := sb, vi_size := 0\<rparr>)\<rparr>))"

section \<open>Properties\<close>

text \<open>
  C19. The directory-entry cache is a map: for every sequence of insertions, lookups and removals on the
  table that \<^verbatim>\<open>vfs_init\<close> sets up, the hash table with \<^verbatim>\<open>dentry_hash_func\<close> gives the results of a
  finite map from pairs of a parent and a name. Every chain is searched to its end in finitely many
  steps. The pool has a page for every operation, and no null pointer is inserted.
\<close>

theorem dentry_cache_refines_map:
  assumes "no_null ops" "length ops \<le> length (pages_free pl)" "distinct (pages_free pl)"
    "\<forall>q \<in> set (pages_free pl). page_in pl q"
  shows "hash_run dentry_hash_equal dentry_hash_func ops (dentry_hash_table (snd (vfs_init s)), pl) =
    Inr (map_run ops (\<lambda>_. None))"
proof -
  have e: "dentry_hash_table (snd (vfs_init s)) = hash_table_init (dentry_hash_table s)" by (simp add: vfs_init_def)
  show ?thesis unfolding dentry_hash_equal_eq e
    by (rule dh.run_refines [OF dh.rep_init]) (use assms in \<open>auto simp: page_in_def\<close>)
qed

theorem dentry_cache_refines_map_witness:
  "\<forall>s :: unit fs.
     hash_run dentry_hash_equal dentry_hash_func
       [Put \<lparr>dk_parent = 0x80001000, dk_name = [97]\<rparr> 0x80002000, Get \<lparr>dk_parent = 0x80001000, dk_name = [97]\<rparr>,
        Put \<lparr>dk_parent = 0x80001000, dk_name = [97]\<rparr> 0x80003000]
       (dentry_hash_table (snd (vfs_init s)),
        \<lparr>pool_lo = 0x80000000, pool_hi = 0x88000000, pages_free = [0x80005000, 0x80006000, 0x80007000]\<rparr>)
     = Inr [Inr 0, Inl 0x80002000, Inr (- 1)]"
  by (rule allI, subst dentry_cache_refines_map) (simp_all add: page_in_def)

end
