(* ===== verification/Ramdev.thy ===== *)
theory Ramdev
  imports Vfs_Objects
begin

text \<open>
  The RAM disk, \<^verbatim>\<open>kernel/ramdev.c\<close>. A device holds 128 blocks and an I/O buffer through which every
  transfer goes; both transfers copy a whole block, so that \<^verbatim>\<open>memcpy\<close> between the two disjoint pages
  is an assignment of blocks. The blocks of the disk and the buffer are part of the device in the model;
  a missing page for the buffer faults when the device is set up instead of at its first use.
\<close>

section \<open>Operations\<close>

abbreviation (input) RAMDISK_BLOCK_COUNT :: int where "RAMDISK_BLOCK_COUNT \<equiv> 128"
abbreviation (input) RAMDISK_BLOCK_SIZE :: int where "RAMDISK_BLOCK_SIZE \<equiv> 4096"
abbreviation (input) RFS_TYPE :: int where "RFS_TYPE \<equiv> 0"
abbreviation (input) HOSTFS_TYPE :: int where "HOSTFS_TYPE \<equiv> 1"
abbreviation (input) MAX_DEVICE_NAME_LEN :: nat where "MAX_DEVICE_NAME_LEN \<equiv> 30"

definition ramdisk_write :: "rfs_device \<Rightarrow> int \<Rightarrow> (int \<times> rfs_device) res" where
  "ramdisk_write rdev blkno =
     (if blkno < 0 \<or> blkno \<ge> RAMDISK_BLOCK_COUNT then Inl (Panic ''ramdisk_write: write block No out of range!'')
      else Inr (0, rdev\<lparr>d_disk := (d_disk rdev)(blkno := iobuffer rdev)\<rparr>))"

definition ramdisk_read :: "rfs_device \<Rightarrow> int \<Rightarrow> (int \<times> rfs_device) res" where
  "ramdisk_read rdev blkno =
     (if blkno < 0 \<or> blkno \<ge> RAMDISK_BLOCK_COUNT then Inl (Panic ''ramdisk_read: read block No out of range!'')
      else Inr (0, rdev\<lparr>iobuffer := d_disk rdev blkno\<rparr>))"

text \<open>The loop that takes the pages of the disk; they must come in descending order without a gap.\<close>

fun alloc_disk :: "nat \<Rightarrow> addr \<Rightarrow> pool \<Rightarrow> (addr \<times> pool) res" where
  "alloc_disk 0 curr_addr pl = Inr (curr_addr, pl)"
| "alloc_disk (Suc n) curr_addr pl =
     (let last_addr = curr_addr; (curr_addr, pl) = pool_alloc pl
      in if last_addr \<noteq> 0 \<and> last_addr - curr_addr \<noteq> PGSIZE
         then Inl (Panic ''RAM Disk0: address is discontinuous!'')
         else alloc_disk n curr_addr pl)"

definition init_rfs_device :: "cname \<Rightarrow> 'h fs \<Rightarrow> (addr \<times> 'h fs) res" where
  "init_rfs_device name s =
     (case find_slot (\<lambda>p. p \<noteq> 0 \<and> type_num (fs_types s p) = RFS_TYPE) (fs_list s) of
        None \<Rightarrow> Inl (Panic ''No RFS file system found!'')
      | Some t \<Rightarrow>
          bnd (alloc_disk (nat RAMDISK_BLOCK_COUNT) 0 (fs_pool s)) (\<lambda>(ramdisk_addr, pl).
          let s = s\<lparr>fs_pool := pl\<rparr>
          in case find_slot (\<lambda>p. p = 0) (rfs_device_list s) of
               None \<Rightarrow> Inl (Panic ''RAM Disk0: no free device!'')
             | Some device_id \<Rightarrow>
                 bnd (new_page s) (\<lambda>(rd, s).
                 bnd (new_page s) (\<lambda>(iobuf, s).
                 let s = s\<lparr>rfs_device_list := (rfs_device_list s)[device_id := rd],
                           rdevs := (rdevs s)(rd := \<lparr>d_disk = (\<lambda>b. raw_pages s (ramdisk_addr + of_int b * PGSIZE)),
                             d_blocks = RAMDISK_BLOCK_COUNT, d_blocksize = RAMDISK_BLOCK_SIZE,
                             iobuffer = raw_pages s iobuf\<rparr>)\<rparr>
                 in bnd (new_page s) (\<lambda>(device, s).
                    bnd (copy_name MAX_DEVICE_NAME_LEN name) (\<lambda>nm.
                    let s = s\<lparr>devs := (devs s)(device :=
                          \<lparr>dev_name = nm, dev_id = int device_id, dev_fs_type = fs_list s ! t\<rparr>)\<rparr>
                    in Inr (device,
                         case find_slot (\<lambda>p. p = 0) (vfs_dev_list s) of
                           None \<Rightarrow> s
                         | Some i \<Rightarrow> s\<lparr>vfs_dev_list := (vfs_dev_list s)[i := device]\<rparr>)))))))"

section \<open>Lemmas\<close>

definition blk_ok :: "int \<Rightarrow> bool" where
  "blk_ok b \<longleftrightarrow> 0 \<le> b \<and> b < RAMDISK_BLOCK_COUNT"

lemma ramdisk_write_ok [simp]:
  "blk_ok b \<Longrightarrow> ramdisk_write rdev b = Inr (0, rdev\<lparr>d_disk := (d_disk rdev)(b := iobuffer rdev)\<rparr>)"
  by (simp add: ramdisk_write_def blk_ok_def)

lemma ramdisk_read_ok [simp]: "blk_ok b \<Longrightarrow> ramdisk_read rdev b = Inr (0, rdev\<lparr>iobuffer := d_disk rdev b\<rparr>)"
  by (simp add: ramdisk_read_def blk_ok_def)

end
