(* ===== verification/Rfs.thy ===== *)
theory Rfs
  imports Ramdev
begin

text \<open>
  The RAM-disk file system, \<^verbatim>\<open>kernel/rfs.c\<close>, operation by operation. Disk inodes take 128 bytes and
  directory entries 32 bytes of a block; the code reads and writes them through the I/O buffer of the
  device. Sizes and offsets are mathematical integers: the files have at most ten blocks.
\<close>

section \<open>Structures on disk\<close>

abbreviation (input) RFS_MAGIC :: int where "RFS_MAGIC \<equiv> 0xBEAF"
abbreviation (input) RFS_INODESIZE :: nat where "RFS_INODESIZE \<equiv> 128"
abbreviation (input) INODES_PER_BLK :: int where "INODES_PER_BLK \<equiv> 32"
abbreviation (input) RFS_MAX_INODE_BLKNUM :: int where "RFS_MAX_INODE_BLKNUM \<equiv> 10"
abbreviation (input) RFS_BLK_OFFSET_SUPER :: int where "RFS_BLK_OFFSET_SUPER \<equiv> 0"
abbreviation (input) RFS_BLK_OFFSET_INODE :: int where "RFS_BLK_OFFSET_INODE \<equiv> 1"
abbreviation (input) RFS_BLK_OFFSET_BITMAP :: int where "RFS_BLK_OFFSET_BITMAP \<equiv> 11"
abbreviation (input) RFS_BLK_OFFSET_FREE :: int where "RFS_BLK_OFFSET_FREE \<equiv> 12"
abbreviation (input) DIRENTRY_SIZE :: nat where "DIRENTRY_SIZE \<equiv> 32"

text \<open>\<^verbatim>\<open>memcpy\<close> of a \<^verbatim>\<open>struct rfs_dinode\<close> (56 bytes) from and to a block.\<close>

definition load_dinode :: "block \<Rightarrow> nat \<Rightarrow> rfs_dinode" where
  "load_dinode b off =
     \<lparr>di_size = get32 b off, di_type = get32 b (off + 4), di_nlinks = get32 b (off + 8),
      di_blocks = get32 b (off + 12), di_addrs = map (\<lambda>i. get32 b (off + 16 + 4 * i)) [0..<DIRECT_BLKNUM]\<rparr>"

definition dinode_bytes :: "rfs_dinode \<Rightarrow> uint8 list" where
  "dinode_bytes d = enc32 (di_size d) @ enc32 (di_type d) @ enc32 (di_nlinks d) @ enc32 (di_blocks d)
     @ concat (map enc32 (di_addrs d))"

definition store_dinode :: "nat \<Rightarrow> rfs_dinode \<Rightarrow> block \<Rightarrow> block" where
  "store_dinode off d = put_bytes off (dinode_bytes d)"

text \<open>\<^verbatim>\<open>strcmp(p_direntry->name, name) == 0\<close> for the entry at an offset.\<close>

definition name_at :: "block \<Rightarrow> nat \<Rightarrow> cname \<Rightarrow> bool" where
  "name_at b off nm \<longleftrightarrow> get_bytes b (off + 4) (length nm + 1) = nm @ [0]"

text \<open>The C string at an offset of a block.\<close>

definition str_at :: "block \<Rightarrow> nat \<Rightarrow> cname" where
  "str_at b off = takeWhile (\<lambda>c. c \<noteq> 0) (get_bytes b off (BLK - off))"

section \<open>Device access\<close>

definition rfs_r1block :: "addr \<Rightarrow> int \<Rightarrow> 'h fs \<Rightarrow> (int \<times> 'h fs) res" where
  "rfs_r1block rd n_block s =
     bnd (ramdisk_read (rdevs s rd) n_block) (\<lambda>(r, d). Inr (r, s\<lparr>rdevs := (rdevs s)(rd := d)\<rparr>))"

definition rfs_w1block :: "addr \<Rightarrow> int \<Rightarrow> 'h fs \<Rightarrow> (int \<times> 'h fs) res" where
  "rfs_w1block rd n_block s =
     bnd (ramdisk_write (rdevs s rd) n_block) (\<lambda>(r, d). Inr (r, s\<lparr>rdevs := (rdevs s)(rd := d)\<rparr>))"

definition set_iobuffer :: "addr \<Rightarrow> block \<Rightarrow> 'h fs \<Rightarrow> 'h fs" where
  "set_iobuffer rd b s = s\<lparr>rdevs := (rdevs s)(rd := (rdevs s rd)\<lparr>iobuffer := b\<rparr>)\<rparr>"

text \<open>\<^verbatim>\<open>rfs_device_list[sb->s_dev->dev_id]\<close>\<close>

definition rdev_of :: "addr \<Rightarrow> 'h fs \<Rightarrow> addr res" where
  "rdev_of sb s = arr_get (rfs_device_list s) (dev_id (devs s (s_dev (sbs s sb))))"

definition rfs_read_dinode :: "addr \<Rightarrow> int \<Rightarrow> 'h fs \<Rightarrow> (addr \<times> 'h fs) res" where
  "rfs_read_dinode rd n_inode s =
     (let n_block = n_inode sdiv INODES_PER_BLK + RFS_BLK_OFFSET_INODE;
          offset = n_inode smod INODES_PER_BLK
      in bnd (rfs_r1block rd n_block s) (\<lambda>(r, s).
         if r \<noteq> 0 then Inr (0, s)
         else bnd (new_page s) (\<lambda>(dinode, s).
           Inr (dinode, s\<lparr>dinodes := (dinodes s)(dinode :=
                  load_dinode (iobuffer (rdevs s rd)) (nat offset * RFS_INODESIZE))\<rparr>))))"

definition rfs_write_dinode :: "addr \<Rightarrow> rfs_dinode \<Rightarrow> int \<Rightarrow> 'h fs \<Rightarrow> (int \<times> 'h fs) res" where
  "rfs_write_dinode rd dinode n_inode s =
     (let n_block = n_inode sdiv INODES_PER_BLK + RFS_BLK_OFFSET_INODE;
          offset = n_inode smod INODES_PER_BLK
      in bnd (rfs_r1block rd n_block s) (\<lambda>(_, s).
         let s = set_iobuffer rd (store_dinode (nat offset * RFS_INODESIZE) dinode (iobuffer (rdevs s rd))) s
         in rfs_w1block rd n_block s))"

section \<open>Blocks\<close>

text \<open>The loop of \<^verbatim>\<open>rfs_alloc_block\<close>: the first free entry of the bitmap from \<open>block\<close> on, or \<open>-1\<close>.\<close>

function find_free :: "(int \<Rightarrow> int) \<Rightarrow> int \<Rightarrow> int \<Rightarrow> int" where
  "find_free freemap block nblocks =
     (if block < nblocks then (if freemap block = 0 then block else find_free freemap (block + 1) nblocks) else - 1)"
  by pat_completeness auto
termination by (relation "measure (\<lambda>(f, b, n). nat (n - b))") auto

declare find_free.simps [simp del]

definition rfs_alloc_block :: "addr \<Rightarrow> 'h fs \<Rightarrow> (int \<times> 'h fs) res" where
  "rfs_alloc_block sb s =
     (let fm = s_fs_info (sbs s sb);
          block = find_free (freemaps s fm) 0 (sb_nblocks (sbs s sb))
      in if block = - 1 then Inl (Panic ''rfs_alloc_block: no more free block!'')
         else Inr (RFS_BLK_OFFSET_FREE + block, s\<lparr>freemaps := (freemaps s)(fm := (freemaps s fm)(block := 1))\<rparr>))"

text \<open>The bitmap is a page of 1024 integers.\<close>

definition rfs_free_block :: "addr \<Rightarrow> int \<Rightarrow> 'h fs \<Rightarrow> (int \<times> 'h fs) res" where
  "rfs_free_block sb block_num s =
     (let fm = s_fs_info (sbs s sb); i = block_num - RFS_BLK_OFFSET_FREE
      in if 0 \<le> i \<and> i < 1024
         then Inr (0, s\<lparr>freemaps := (freemaps s)(fm := (freemaps s fm)(i := 0))\<rparr>)
         else Inl (Undefined ''freemap index''))"

section \<open>Inodes\<close>

definition rfs_alloc_vinode :: "addr \<Rightarrow> 'h fs \<Rightarrow> (addr \<times> 'h fs) res" where
  "rfs_alloc_vinode sb s =
     bnd (default_alloc_vinode sb s) (\<lambda>(vinode, s).
     Inr (vinode, s\<lparr>vinodes := (vinodes s)(vinode := (vinodes s vinode)\<lparr>vi_ops := Rfs_i_ops\<rparr>)\<rparr>))"

definition rfs_write_back_vinode :: "addr \<Rightarrow> 'h fs \<Rightarrow> (int \<times> 'h fs) res" where
  "rfs_write_back_vinode vinode s =
     (let v = vinodes s vinode;
          dinode = \<lparr>di_size = vi_size v, di_type = vi_type v, di_nlinks = vi_nlinks v, di_blocks = vi_blocks v,
                    di_addrs = vi_addrs v\<rparr>
      in bnd (rdev_of (vi_sb v) s) (\<lambda>rd.
         bnd (rfs_write_dinode rd dinode (vi_inum v) s) (\<lambda>(r, s).
         if r \<noteq> 0 then Inr (- 1, s) else Inr (0, s))))"

definition rfs_update_vinode :: "addr \<Rightarrow> 'h fs \<Rightarrow> (int \<times> 'h fs) res" where
  "rfs_update_vinode vinode s =
     bnd (rdev_of (vi_sb (vinodes s vinode)) s) (\<lambda>rd.
     bnd (rfs_read_dinode rd (vi_inum (vinodes s vinode)) s) (\<lambda>(dinode, s).
     if dinode = 0 then Inr (- 1, s)
     else (let d = dinodes s dinode;
               s = s\<lparr>vinodes := (vinodes s)(vinode := (vinodes s vinode)\<lparr>vi_size := di_size d, vi_nlinks := di_nlinks d,
                     vi_blocks := di_blocks d, vi_type := di_type d, vi_addrs := di_addrs d\<rparr>)\<rparr>
           in bnd (drop_page dinode s) (\<lambda>s. Inr (0, s)))))"

definition rfs_add_direntry :: "addr \<Rightarrow> cname \<Rightarrow> int \<Rightarrow> 'h fs \<Rightarrow> (int \<times> 'h fs) res" where
  "rfs_add_direntry dir name inum s =
     (if vi_type (vinodes s dir) \<noteq> DIR_I then Inr (- 1, s)
      else bnd (rdev_of (vi_sb (vinodes s dir)) s) (\<lambda>rd.
        bnd (arr_get (vi_addrs (vinodes s dir)) (vi_size (vinodes s dir) sdiv RFS_BLKSIZE)) (\<lambda>n_block.
        bnd (rfs_r1block rd n_block s) (\<lambda>(r, s).
        if r \<noteq> 0 then Inr (- 1, s)
        else (let off = nat (vi_size (vinodes s dir) smod RFS_BLKSIZE)
              in if off + 4 + length name + 1 > BLK then Inl (Undefined ''strcpy overruns iobuffer'')
                 else (let s = set_iobuffer rd (put_bytes (off + 4) (name @ [0])
                                 (put32 off inum (iobuffer (rdevs s rd)))) s
                       in bnd (rfs_w1block rd n_block s) (\<lambda>(r, s).
                          if r \<noteq> 0 then Inr (- 1, s)
                          else (let s = s\<lparr>vinodes := (vinodes s)(dir :=
                                       (vinodes s dir)\<lparr>vi_size := vi_size (vinodes s dir) + int DIRENTRY_SIZE\<rparr>)\<rparr>
                                in bnd (rfs_write_back_vinode dir s) (\<lambda>(r, s).
                                   if r \<noteq> 0 then Inr (- 1, s) else Inr (0, s))))))))))"

section \<open>Reading and writing files\<close>

text \<open>The loop over the complete blocks of \<^verbatim>\<open>rfs_read\<close>; the bytes go to the local buffer.\<close>

primrec read_blocks :: "nat \<Rightarrow> addr \<Rightarrow> addr \<Rightarrow> int \<Rightarrow> 'h fs \<Rightarrow> (uint8 list \<times> 'h fs) res" where
  "read_blocks 0 rd f_inode block_offset s = Inr ([], s)"
| "read_blocks (Suc n) rd f_inode block_offset s =
     bnd (arr_get (vi_addrs (vinodes s f_inode)) block_offset) (\<lambda>b.
     bnd (rfs_r1block rd b s) (\<lambda>(_, s).
     let bs = get_bytes (iobuffer (rdevs s rd)) 0 BLK
     in bnd (read_blocks n rd f_inode (block_offset + 1) s) (\<lambda>(cs, s). Inr (bs @ cs, s))))"

text \<open>What is read after the first block: \<open>readtimes\<close> complete blocks and \<open>remain\<close> bytes of one more.\<close>

definition read_tail :: "addr \<Rightarrow> addr \<Rightarrow> int \<Rightarrow> int \<Rightarrow> int \<Rightarrow> 'h fs \<Rightarrow> (uint8 list \<times> 'h fs) res" where
  "read_tail rd f_inode readtimes remain block_offset s =
     (if readtimes \<ge> 0
      then bnd (read_blocks (nat readtimes) rd f_inode block_offset s) (\<lambda>(bs, s).
           if remain > 0
           then bnd (arr_get (vi_addrs (vinodes s f_inode)) (block_offset + readtimes)) (\<lambda>b.
                bnd (rfs_r1block rd b s) (\<lambda>(_, s).
                Inr (bs @ get_bytes (iobuffer (rdevs s rd)) 0 (nat remain), s)))
           else Inr (bs, s))
      else Inr ([], s))"

text \<open>
  \<^verbatim>\<open>rfs_read\<close> returns the length, the bytes that its final \<^verbatim>\<open>strcpy\<close> stores at
  \<^verbatim>\<open>r_buf\<close> (up to the first zero byte, then the terminator) and the new offset. A negative length of the
  local array is undefined.
\<close>

definition rfs_read :: "addr \<Rightarrow> int \<Rightarrow> int \<Rightarrow> 'h fs \<Rightarrow> ((int \<times> uint8 list \<times> int) \<times> 'h fs) res" where
  "rfs_read f_inode len offset s =
     (let sz = vi_size (vinodes s f_inode)
      in if sz < offset then Inl (Panic ''rfs_read:offset should less than file size!'')
         else (let len = (if sz < offset + len then sz - offset else len);
                   align = offset smod RFS_BLKSIZE;
                   block_offset = offset sdiv RFS_BLKSIZE;
                   readtimes = (align + len) sdiv RFS_BLKSIZE;
                   remain = (align + len) smod RFS_BLKSIZE
               in if len < 0 \<or> align < 0 then Inl (Undefined ''rfs_read buffer'')
                  else bnd (rdev_of (vi_sb (vinodes s f_inode)) s) (\<lambda>rd.
                    bnd (arr_get (vi_addrs (vinodes s f_inode)) block_offset) (\<lambda>b.
                    bnd (rfs_r1block rd b s) (\<lambda>(_, s).
                    let first_block_len = (if readtimes = 0 then len else RFS_BLKSIZE - align);
                        buffer = get_bytes (iobuffer (rdevs s rd)) (nat align) (nat first_block_len)
                    in bnd (read_tail rd f_inode (readtimes - 1) remain (block_offset + 1) s) (\<lambda>(rest, s).
                       Inr ((len, takeWhile (\<lambda>c. c \<noteq> 0) (buffer @ rest) @ [0], offset + len), s)))))))"

text \<open>A new block for the file when the write reaches its end.\<close>

definition grow_file :: "addr \<Rightarrow> int \<Rightarrow> 'h fs \<Rightarrow> 'h fs res" where
  "grow_file f_inode block_offset s =
     (if block_offset = vi_blocks (vinodes s f_inode)
      then bnd (rfs_alloc_block (vi_sb (vinodes s f_inode)) s) (\<lambda>(b, s).
           bnd (arr_set block_offset b (vi_addrs (vinodes s f_inode))) (\<lambda>as.
           Inr (s\<lparr>vinodes := (vinodes s)(f_inode :=
                (vinodes s f_inode)\<lparr>vi_addrs := as, vi_blocks := vi_blocks (vinodes s f_inode) + 1\<rparr>)\<rparr>)))
      else Inr s)"

text \<open>\<^verbatim>\<open>memcpy\<close> of \<open>n\<close> bytes of the caller's buffer to the start of the I/O buffer and out to a block.\<close>

definition write_block :: "addr \<Rightarrow> addr \<Rightarrow> block \<Rightarrow> nat \<Rightarrow> nat \<Rightarrow> int \<Rightarrow> 'h fs \<Rightarrow> 'h fs res" where
  "write_block rd f_inode w_buf buf_offset n block_offset s =
     (let s = set_iobuffer rd (put_bytes 0 (get_bytes w_buf buf_offset n) (iobuffer (rdevs s rd))) s
      in bnd (arr_get (vi_addrs (vinodes s f_inode)) block_offset) (\<lambda>b.
         bnd (rfs_w1block rd b s) (\<lambda>(_, s). Inr s)))"

primrec write_blocks :: "nat \<Rightarrow> addr \<Rightarrow> addr \<Rightarrow> block \<Rightarrow> nat \<Rightarrow> int \<Rightarrow> 'h fs \<Rightarrow> 'h fs res" where
  "write_blocks 0 rd f_inode w_buf buf_offset block_offset s = Inr s"
| "write_blocks (Suc n) rd f_inode w_buf buf_offset block_offset s =
     bnd (grow_file f_inode block_offset s) (\<lambda>s.
     bnd (write_block rd f_inode w_buf buf_offset BLK block_offset s) (\<lambda>s.
     write_blocks n rd f_inode w_buf (buf_offset + BLK) (block_offset + 1) s))"

text \<open>What is written after the first block: \<open>writetimes\<close> complete blocks and \<open>remain\<close> bytes of one more.\<close>

definition write_tail :: "addr \<Rightarrow> addr \<Rightarrow> block \<Rightarrow> int \<Rightarrow> int \<Rightarrow> nat \<Rightarrow> int \<Rightarrow> 'h fs \<Rightarrow> 'h fs res" where
  "write_tail rd f_inode w_buf writetimes remain buf_offset block_offset s =
     (if writetimes \<ge> 0
      then bnd (write_blocks (nat writetimes) rd f_inode w_buf buf_offset block_offset s) (\<lambda>s.
           if remain > 0
           then bnd (grow_file f_inode (block_offset + writetimes) s)
                  (write_block rd f_inode w_buf (buf_offset + nat writetimes * BLK) (nat remain) (block_offset + writetimes))
           else Inr s)
      else Inr s)"

text \<open>The first block of a write that starts inside a block.\<close>

definition write_head :: "addr \<Rightarrow> addr \<Rightarrow> block \<Rightarrow> int \<Rightarrow> int \<Rightarrow> int \<Rightarrow> 'h fs \<Rightarrow> 'h fs res" where
  "write_head rd f_inode w_buf align first_block_len block_offset s =
     bnd (arr_get (vi_addrs (vinodes s f_inode)) block_offset) (\<lambda>b.
     bnd (rfs_r1block rd b s) (\<lambda>(_, s).
     if first_block_len < 0 \<or> align < 0 then Inl (Undefined ''rfs_write memcpy'')
     else (let s = set_iobuffer rd (put_bytes (nat align) (get_bytes w_buf 0 (nat first_block_len))
                     (iobuffer (rdevs s rd))) s
           in bnd (rfs_w1block rd b s) (\<lambda>(_, s). Inr s))))"

text \<open>\<open>w_buf\<close> is the memory from the caller's pointer on.\<close>

definition rfs_write :: "addr \<Rightarrow> block \<Rightarrow> int \<Rightarrow> int \<Rightarrow> 'h fs \<Rightarrow> ((int \<times> int) \<times> 'h fs) res" where
  "rfs_write f_inode w_buf len offset s =
     (if vi_size (vinodes s f_inode) < offset then Inl (Panic ''rfs_write:offset should less than file size!'')
      else (let align = offset smod RFS_BLKSIZE;
                writetimes = (len + align) sdiv RFS_BLKSIZE;
                remain = (len + align) smod RFS_BLKSIZE;
                block_offset = offset sdiv RFS_BLKSIZE;
                first_block_len = (if writetimes = 0 then len else RFS_BLKSIZE - align)
            in bnd (rdev_of (vi_sb (vinodes s f_inode)) s) (\<lambda>rd.
               bnd (if align \<noteq> 0
                    then bnd (write_head rd f_inode w_buf align first_block_len block_offset s)
                           (write_tail rd f_inode w_buf (writetimes - 1) remain (nat first_block_len) (block_offset + 1))
                    else write_tail rd f_inode w_buf writetimes remain 0 block_offset s) (\<lambda>s.
               let v = vinodes s f_inode
               in Inr ((len, offset + len),
                    s\<lparr>vinodes := (vinodes s)(f_inode :=
                       v\<lparr>vi_size := (if vi_size v < offset + len then offset + len else vi_size v)\<rparr>)\<rparr>)))))"

section \<open>Directories\<close>

text \<open>\<^verbatim>\<open>size / sizeof(struct rfs_direntry)\<close>: an unsigned 64-bit division whose result is an \<^verbatim>\<open>int\<close>.\<close>

definition total_direntrys :: "int \<Rightarrow> int" where
  "total_direntrys sz = sint (word_of_int ((sz mod 2 ^ 64) div 32) :: uint32)"

abbreviation (input) one_block_direntrys :: int where "one_block_direntrys \<equiv> 128"

text \<open>
  The search loop of \<^verbatim>\<open>rfs_lookup\<close> and \<^verbatim>\<open>rfs_unlink\<close> from entry \<open>i\<close> on: the index of the first entry
  with the name, or the number of entries.
\<close>

function dir_search :: "addr \<Rightarrow> addr \<Rightarrow> cname \<Rightarrow> int \<Rightarrow> int \<Rightarrow> 'h fs \<Rightarrow> (int \<times> 'h fs) res" where
  "dir_search rd parent name i ntot s =
     (if i < ntot
      then bnd (if i smod one_block_direntrys = 0
                then bnd (arr_get (vi_addrs (vinodes s parent)) (i sdiv one_block_direntrys)) (\<lambda>b.
                     bnd (rfs_r1block rd b s) (\<lambda>(_, s). Inr s))
                else Inr s) (\<lambda>s.
           if name_at (iobuffer (rdevs s rd)) (nat (i smod one_block_direntrys) * DIRENTRY_SIZE) name then Inr (i, s)
           else dir_search rd parent name (i + 1) ntot s)
      else Inr (ntot, s))"
  by pat_completeness auto
termination by (relation "measure (\<lambda>(rd, p, n, i, t, s). nat (t - i))") auto

declare dir_search.simps [simp del]

definition rfs_lookup :: "addr \<Rightarrow> addr \<Rightarrow> 'h fs \<Rightarrow> (addr \<times> 'h fs) res" where
  "rfs_lookup parent sub_dentry s =
     (let ntot = total_direntrys (vi_size (vinodes s parent))
      in bnd (rdev_of (vi_sb (vinodes s parent)) s) (\<lambda>rd.
         bnd (dir_search rd parent (d_name (dentries s sub_dentry)) 0 ntot s) (\<lambda>(i, s).
         if i < ntot
         then bnd (rfs_alloc_vinode (vi_sb (vinodes s parent)) s) (\<lambda>(child_vinode, s).
              let inum = get32 (iobuffer (rdevs s rd)) (nat (i smod one_block_direntrys) * DIRENTRY_SIZE);
                  s = s\<lparr>vinodes := (vinodes s)(child_vinode := (vinodes s child_vinode)\<lparr>vi_inum := inum\<rparr>)\<rparr>
              in bnd (rfs_update_vinode child_vinode s) (\<lambda>(r, s).
                 if r \<noteq> 0 then Inl (Panic ''rfs_lookup: read inode failed!'') else Inr (child_vinode, s)))
         else Inr (0, s))))"

text \<open>
  The loop of \<^verbatim>\<open>rfs_create\<close> and \<^verbatim>\<open>rfs_mkdir\<close> over the 320 disk inodes: the page of the first free one
  and its number. When none is free the last page remains in the variable, released, and the number stays 0.
\<close>

function find_dinode :: "addr \<Rightarrow> int \<Rightarrow> addr \<Rightarrow> 'h fs \<Rightarrow> ((addr \<times> int) \<times> 'h fs) res" where
  "find_dinode rd i free_dinode s =
     (if i < INODES_PER_BLK * RFS_MAX_INODE_BLKNUM
      then bnd (rfs_read_dinode rd i s) (\<lambda>(free_dinode, s).
           if di_type (dinodes s free_dinode) = R_FREE then Inr ((free_dinode, i), s)
           else bnd (drop_page free_dinode s) (\<lambda>s. find_dinode rd (i + 1) free_dinode s))
      else Inr ((free_dinode, 0), s))"
  by pat_completeness auto
termination by (relation "measure (\<lambda>(rd, i, d, s). nat (320 - i))") auto

declare find_dinode.simps [simp del]

text \<open>
  \<^verbatim>\<open>rfs_create\<close> and \<^verbatim>\<open>rfs_mkdir\<close> share the part that claims a disk inode of the given type with one
  data block and writes it.
\<close>

definition claim_dinode :: "string \<Rightarrow> int \<Rightarrow> addr \<Rightarrow> addr \<Rightarrow> 'h fs \<Rightarrow> (int \<times> 'h fs) res" where
  "claim_dinode msg ty rd sb s =
     bnd (find_dinode rd 0 0 s) (\<lambda>((free_dinode, free_inum), s).
     if free_dinode = 0 then Inl (Panic msg)
     else (let s = s\<lparr>dinodes := (dinodes s)(free_dinode :=
                 (dinodes s free_dinode)\<lparr>di_size := 0, di_type := ty, di_nlinks := 1, di_blocks := 1\<rparr>)\<rparr>
           in bnd (rfs_alloc_block sb s) (\<lambda>(b, s).
              let s = s\<lparr>dinodes := (dinodes s)(free_dinode :=
                    (dinodes s free_dinode)\<lparr>di_addrs := (di_addrs (dinodes s free_dinode))[0 := b]\<rparr>)\<rparr>
              in bnd (rfs_write_dinode rd (dinodes s free_dinode) free_inum s) (\<lambda>(_, s).
                 bnd (drop_page free_dinode s) (\<lambda>s. Inr (free_inum, s))))))"

text \<open>A new vinode for the disk inode \<open>inum\<close>, filled from disk.\<close>

definition build_vinode :: "addr \<Rightarrow> int \<Rightarrow> 'h fs \<Rightarrow> (addr \<times> 'h fs) res" where
  "build_vinode sb inum s =
     bnd (rfs_alloc_vinode sb s) (\<lambda>(v, s).
     let s = s\<lparr>vinodes := (vinodes s)(v := (vinodes s v)\<lparr>vi_inum := inum\<rparr>)\<rparr>
     in bnd (rfs_update_vinode v s) (\<lambda>(_, s). Inr (v, s)))"

definition rfs_create :: "addr \<Rightarrow> addr \<Rightarrow> 'h fs \<Rightarrow> (addr \<times> 'h fs) res" where
  "rfs_create parent sub_dentry s =
     (let sb = vi_sb (vinodes s parent)
      in bnd (rdev_of sb s) (\<lambda>rd.
         bnd (claim_dinode ''rfs_create: no more free disk inode, we cannot create file.'' FILE_I rd sb s) (\<lambda>(free_inum, s).
         bnd (build_vinode sb free_inum s) (\<lambda>(new_vinode, s).
         bnd (rfs_add_direntry parent (d_name (dentries s sub_dentry)) free_inum s) (\<lambda>(r, s).
         if r = - 1 then Inr (0, s) else Inr (new_vinode, s))))))"

definition rfs_mkdir :: "addr \<Rightarrow> addr \<Rightarrow> 'h fs \<Rightarrow> (addr \<times> 'h fs) res" where
  "rfs_mkdir parent sub_dentry s =
     (let sb = vi_sb (vinodes s parent)
      in bnd (rdev_of sb s) (\<lambda>rd.
         bnd (claim_dinode ''rfs_mkdir: no more free disk inode, we cannot create directory.'' DIR_I rd sb s) (\<lambda>(free_inum, s).
         bnd (rfs_add_direntry parent (d_name (dentries s sub_dentry)) free_inum s) (\<lambda>(r, s).
         if r = - 1 then Inr (0, s) else build_vinode sb free_inum s))))"

abbreviation (input) LSEEK_SET :: int where "LSEEK_SET \<equiv> 0"
abbreviation (input) LSEEK_CUR :: int where "LSEEK_CUR \<equiv> 1"

text \<open>The result is the return value and the new offset.\<close>

definition rfs_lseek :: "addr \<Rightarrow> int \<Rightarrow> int \<Rightarrow> int \<Rightarrow> 'h fs \<Rightarrow> int \<times> int" where
  "rfs_lseek f_inode new_offset whence offset s =
     (let file_size = vi_size (vinodes s f_inode)
      in if whence = LSEEK_SET
         then (if new_offset < 0 \<or> new_offset > file_size then (- 1, offset) else (0, new_offset))
         else if whence = LSEEK_CUR
         then (if offset + new_offset < 0 \<or> offset + new_offset > file_size then (- 1, offset)
               else (0, offset + new_offset))
         else (- 1, offset))"

definition rfs_disk_stat :: "addr \<Rightarrow> istat \<Rightarrow> 'h fs \<Rightarrow> ((int \<times> istat) \<times> 'h fs) res" where
  "rfs_disk_stat vinode istat s =
     bnd (rdev_of (vi_sb (vinodes s vinode)) s) (\<lambda>rd.
     bnd (rfs_read_dinode rd (vi_inum (vinodes s vinode)) s) (\<lambda>(dinode, s).
     if dinode = 0 then Inr ((- 1, istat), s)
     else (let d = dinodes s dinode;
               st = \<lparr>st_inum = vi_inum (vinodes s vinode), ist_size = di_size d, st_type = di_type d,
                     st_nlinks = di_nlinks d, st_blocks = di_blocks d\<rparr>
           in bnd (drop_page dinode s) (\<lambda>s. Inr ((0, st), s)))))"

definition rfs_link :: "addr \<Rightarrow> addr \<Rightarrow> addr \<Rightarrow> 'h fs \<Rightarrow> (int \<times> 'h fs) res" where
  "rfs_link parent sub_dentry link_node s =
     (let s = s\<lparr>vinodes := (vinodes s)(link_node :=
            (vinodes s link_node)\<lparr>vi_nlinks := vi_nlinks (vinodes s link_node) + 1\<rparr>)\<rparr>
      in bnd (rfs_add_direntry parent (d_name (dentries s sub_dentry)) (vi_inum (vinodes s link_node)) s) (\<lambda>(_, s).
         bnd (rfs_write_back_vinode link_node s) (\<lambda>(_, s). Inr (0, s))))"

section \<open>Removing a directory entry\<close>

definition move_bytes :: "nat \<Rightarrow> nat \<Rightarrow> nat \<Rightarrow> block \<Rightarrow> block" where
  "move_bytes dst src n b = put_bytes dst (get_bytes b src n) b"

text \<open>The blocks of a removed file, from index \<open>i\<close> on, go back to the bitmap.\<close>

primrec free_blocks :: "nat \<Rightarrow> int \<Rightarrow> addr \<Rightarrow> int list \<Rightarrow> 'h fs \<Rightarrow> 'h fs res" where
  "free_blocks 0 i sb as s = Inr s"
| "free_blocks (Suc n) i sb as s =
     bnd (arr_get as i) (\<lambda>b. bnd (rfs_free_block sb b s) (\<lambda>(_, s). free_blocks n (i + 1) sb as s))"

text \<open>
  The loop of \<^verbatim>\<open>rfs_unlink\<close> over the blocks behind the one with the removed entry: the first entry of
  each block moves to the end of the block before.
\<close>

primrec shift_blocks :: "nat \<Rightarrow> int \<Rightarrow> addr \<Rightarrow> addr \<Rightarrow> addr \<Rightarrow> 'h fs \<Rightarrow> (addr \<times> 'h fs) res" where
  "shift_blocks 0 i rd parent previous_block s = Inr (previous_block, s)"
| "shift_blocks (Suc n) i rd parent previous_block s =
     bnd (arr_get (vi_addrs (vinodes s parent)) i) (\<lambda>b.
     bnd (rfs_r1block rd b s) (\<lambda>(_, s).
     bnd (new_page s) (\<lambda>(this_block, s).
     let io = iobuffer (rdevs s rd);
         prev = put_bytes (127 * DIRENTRY_SIZE) (get_bytes io 0 DIRENTRY_SIZE) (raw_pages s previous_block);
         s = s\<lparr>raw_pages := (raw_pages s)(this_block := move_bytes 0 DIRENTRY_SIZE (127 * DIRENTRY_SIZE) io,
                                          previous_block := prev)\<rparr>;
         s = set_iobuffer rd prev s
     in bnd (arr_get (vi_addrs (vinodes s parent)) (i - 1)) (\<lambda>b.
        bnd (rfs_w1block rd b s) (\<lambda>(_, s).
        bnd (drop_page previous_block s) (\<lambda>s.
        shift_blocks n (i + 1) rd parent this_block s))))))"

text \<open>
  The end of \<^verbatim>\<open>rfs_unlink\<close>: a last block that has become empty is freed, and the inode of the directory,
  which holds \<open>ntot\<close> entries now, is written back.
\<close>

definition shrink_dir :: "addr \<Rightarrow> int \<Rightarrow> 'h fs \<Rightarrow> (int \<times> 'h fs) res" where
  "shrink_dir parent ntot s =
     bnd (if ntot smod one_block_direntrys = 0 \<and> vi_blocks (vinodes s parent) > 1
          then bnd (arr_get (vi_addrs (vinodes s parent)) (vi_blocks (vinodes s parent) - 1)) (\<lambda>b.
               bnd (rfs_free_block (vi_sb (vinodes s parent)) b s) (\<lambda>(_, s).
               Inr (s\<lparr>vinodes := (vinodes s)(parent :=
                    (vinodes s parent)\<lparr>vi_blocks := vi_blocks (vinodes s parent) - 1\<rparr>)\<rparr>)))
          else Inr s) (\<lambda>s.
     let s = s\<lparr>vinodes := (vinodes s)(parent :=
           (vinodes s parent)\<lparr>vi_size := vi_size (vinodes s parent) - int DIRENTRY_SIZE\<rparr>)\<rparr>
     in bnd (rfs_write_back_vinode parent s) (\<lambda>(r, s).
        if r \<noteq> 0 then Inr (- 1, s) else Inr (0, s)))"

text \<open>The second half of \<^verbatim>\<open>rfs_unlink\<close>: entry \<open>delete_index\<close> leaves the directory file.\<close>

definition remove_direntry :: "addr \<Rightarrow> addr \<Rightarrow> int \<Rightarrow> int \<Rightarrow> 'h fs \<Rightarrow> (int \<times> 'h fs) res" where
  "remove_direntry rd parent delete_index ntot s =
     (let delete_block_index = delete_index sdiv one_block_direntrys;
          offset = nat (delete_index smod one_block_direntrys)
      in bnd (arr_get (vi_addrs (vinodes s parent)) delete_block_index) (\<lambda>b.
         bnd (rfs_r1block rd b s) (\<lambda>(_, s).
         let s = set_iobuffer rd (move_bytes (offset * DIRENTRY_SIZE) ((offset + 1) * DIRENTRY_SIZE)
                   ((127 - offset) * DIRENTRY_SIZE) (iobuffer (rdevs s rd))) s
         in bnd (new_page s) (\<lambda>(previous_block, s).
            let s = s\<lparr>raw_pages := (raw_pages s)(previous_block := iobuffer (rdevs s rd))\<rparr>
            in bnd (shift_blocks (nat (vi_blocks (vinodes s parent) - (delete_block_index + 1))) (delete_block_index + 1)
                      rd parent previous_block s) (\<lambda>(previous_block, s).
               let s = set_iobuffer rd (raw_pages s previous_block) s
               in bnd (arr_get (vi_addrs (vinodes s parent)) (vi_blocks (vinodes s parent) - 1)) (\<lambda>b.
                  bnd (rfs_w1block rd b s) (\<lambda>(_, s).
                  bnd (drop_page previous_block s) (\<lambda>s.
                  shrink_dir parent (ntot - 1) s))))))))"

text \<open>
  When the directory is empty the code reads the inode number through the null pointer before it finds out
  that the name is missing.
\<close>

definition rfs_unlink :: "addr \<Rightarrow> addr \<Rightarrow> addr \<Rightarrow> 'h fs \<Rightarrow> (int \<times> 'h fs) res" where
  "rfs_unlink parent sub_dentry unlink_vinode s =
     (let sb = vi_sb (vinodes s parent); ntot = total_direntrys (vi_size (vinodes s parent))
      in bnd (rdev_of sb s) (\<lambda>rd.
         bnd (dir_search rd parent (d_name (dentries s sub_dentry)) 0 ntot s) (\<lambda>(delete_index, s).
         if ntot \<le> 0 then Inl (Fault 0)
         else if delete_index = ntot then Inr (- 1, s)
         else (let inum = get32 (iobuffer (rdevs s rd)) (nat (delete_index smod one_block_direntrys) * DIRENTRY_SIZE)
               in bnd (rfs_read_dinode rd inum s) (\<lambda>(unlink_dinode, s).
                  if unlink_dinode = 0 then Inl (Fault 0)
                  else if vi_nlinks (vinodes s unlink_vinode) \<noteq> di_nlinks (dinodes s unlink_dinode)
                  then Inl (Assert_Fail ''unlink_vinode->nlinks == unlink_dinode->nlinks'')
                  else (let n = vi_nlinks (vinodes s unlink_vinode) - 1;
                            s = s\<lparr>vinodes := (vinodes s)(unlink_vinode := (vinodes s unlink_vinode)\<lparr>vi_nlinks := n\<rparr>),
                                  dinodes := (dinodes s)(unlink_dinode := (dinodes s unlink_dinode)\<lparr>di_nlinks := n\<rparr>)\<rparr>
                        in bnd (if n = 0
                                then bnd (free_blocks (nat (di_blocks (dinodes s unlink_dinode))) 0 sb
                                           (di_addrs (dinodes s unlink_dinode)) s) (\<lambda>s.
                                     Inr (s\<lparr>dinodes := (dinodes s)(unlink_dinode :=
                                          (dinodes s unlink_dinode)\<lparr>di_type := R_FREE\<rparr>)\<rparr>))
                                else Inr s) (\<lambda>s.
                           bnd (rfs_write_dinode rd (dinodes s unlink_dinode) inum s) (\<lambda>(_, s).
                           bnd (drop_page unlink_dinode s) (\<lambda>s.
                           remove_direntry rd parent delete_index ntot s)))))))))"

section \<open>Directory caches\<close>

primrec read_dir_blocks :: "nat \<Rightarrow> addr \<Rightarrow> addr \<Rightarrow> addr \<Rightarrow> 'h fs \<Rightarrow> (addr \<times> 'h fs) res" where
  "read_dir_blocks 0 rd dir_vinode pdire s = Inr (pdire, s)"
| "read_dir_blocks (Suc i) rd dir_vinode pdire s =
     (let previous = pdire; (pdire, pl) = pool_alloc (fs_pool s); s = s\<lparr>fs_pool := pl\<rparr>
      in if previous \<noteq> 0 \<and> previous - pdire \<noteq> PGSIZE then Inl (Panic ''rfs_hook_opendir: memory discontinuity'')
         else bnd (arr_get (vi_addrs (vinodes s dir_vinode)) (int i)) (\<lambda>b.
              bnd (rfs_r1block rd b s) (\<lambda>(_, s).
              if pdire = 0 then Inl (Fault 0)
              else read_dir_blocks i rd dir_vinode pdire
                     (s\<lparr>raw_pages := (raw_pages s)(pdire := iobuffer (rdevs s rd))\<rparr>))))"

definition rfs_hook_opendir :: "addr \<Rightarrow> 'h fs \<Rightarrow> (int \<times> 'h fs) res" where
  "rfs_hook_opendir dir_vinode s =
     bnd (rdev_of (vi_sb (vinodes s dir_vinode)) s) (\<lambda>rd.
     bnd (read_dir_blocks (nat (vi_blocks (vinodes s dir_vinode))) rd dir_vinode 0 s) (\<lambda>(pdire, s).
     bnd (new_page s) (\<lambda>(dir_cache, s).
     Inr (0, s\<lparr>dir_caches := (dir_caches s)(dir_cache :=
                  \<lparr>block_count = vi_blocks (vinodes s dir_vinode), dir_base_addr = pdire\<rparr>),
               vinodes := (vinodes s)(dir_vinode := (vinodes s dir_vinode)\<lparr>vi_fs_info := dir_cache\<rparr>)\<rparr>))))"

primrec drop_dir_blocks :: "nat \<Rightarrow> addr \<Rightarrow> 'h fs \<Rightarrow> 'h fs res" where
  "drop_dir_blocks 0 p s = Inr s"
| "drop_dir_blocks (Suc n) p s = bnd (drop_page p s) (drop_dir_blocks n (p + PGSIZE))"

definition rfs_hook_closedir :: "addr \<Rightarrow> 'h fs \<Rightarrow> (int \<times> 'h fs) res" where
  "rfs_hook_closedir dir_vinode s =
     (let c = vi_fs_info (vinodes s dir_vinode)
      in if c = 0 then Inl (Fault 0)
         else bnd (drop_dir_blocks (nat (block_count (dir_caches s c))) (dir_base_addr (dir_caches s c)) s) (\<lambda>s.
              Inr (0, s)))"

text \<open>The result is the return value, the entry stored in \<^verbatim>\<open>dir\<close> (its name and number), and the new offset.\<close>

definition rfs_readdir :: "addr \<Rightarrow> cname \<times> int \<Rightarrow> int \<Rightarrow> 'h fs \<Rightarrow> (int \<times> (cname \<times> int) \<times> int) res" where
  "rfs_readdir dir_vinode dir offset s =
     (if offset \<ge> total_direntrys (vi_size (vinodes s dir_vinode)) then Inr (- 1, dir, offset)
      else (let c = vi_fs_info (vinodes s dir_vinode)
            in if c = 0 \<or> offset < 0 then Inl (Fault 0)
               else (let b = raw_pages s (dir_base_addr (dir_caches s c) + of_int (offset div one_block_direntrys) * PGSIZE);
                         off = nat (offset mod one_block_direntrys) * DIRENTRY_SIZE
                     in bnd (copy_name 32 (str_at b (off + 4))) (\<lambda>nm. Inr (0, (nm, get32 b off), offset + 1)))))"

section \<open>Formatting and mounting\<close>

definition register_rfs :: "'h fs \<Rightarrow> (int \<times> 'h fs) res" where
  "register_rfs s =
     bnd (new_page s) (\<lambda>(fs_type, s).
     let s = s\<lparr>fs_types := (fs_types s)(fs_type := \<lparr>type_num = RFS_TYPE, fst_get_superblock = Rfs_get_superblock\<rparr>)\<rparr>
     in case find_slot (\<lambda>p. p = 0) (fs_list s) of
          None \<Rightarrow> Inr (- 1, s)
        | Some i \<Rightarrow> Inr (0, s\<lparr>fs_list := (fs_list s)[i := fs_type]\<rparr>))"

text \<open>The empty disk inodes of one block.\<close>

primrec empty_inodes :: "nat \<Rightarrow> block \<Rightarrow> block" where
  "empty_inodes 0 b = b"
| "empty_inodes (Suc i) b =
     (let b = empty_inodes i b; off = i * RFS_INODESIZE
      in put32 (off + 12) 0 (put32 (off + 8) 0 (put32 (off + 4) R_FREE (put32 off 0 b))))"

primrec write_inode_blocks :: "nat \<Rightarrow> int \<Rightarrow> addr \<Rightarrow> 'h fs \<Rightarrow> 'h fs res" where
  "write_inode_blocks 0 n rd s = Inr s"
| "write_inode_blocks (Suc k) n rd s =
     bnd (rfs_w1block rd n s) (\<lambda>(r, s).
       if r \<noteq> 0 then Inl (Panic ''RFS: failed to initialize empty inodes!'') else write_inode_blocks k (n + 1) rd s)"

text \<open>\<open>junk\<close> is what the uninitialised elements 1 to 9 of the local \<^verbatim>\<open>root_dinode.addrs\<close> hold.\<close>

definition rfs_format_dev :: "int list \<Rightarrow> addr \<Rightarrow> 'h fs \<Rightarrow> (int \<times> 'h fs) res" where
  "rfs_format_dev junk dev s =
     bnd (arr_get (rfs_device_list s) (dev_id (devs s dev))) (\<lambda>rd.
     let super = put32 12 320 (put32 8 100 (put32 4 112 (put32 0 RFS_MAGIC (iobuffer (rdevs s rd)))))
     in bnd (rfs_w1block rd RFS_BLK_OFFSET_SUPER (set_iobuffer rd super s)) (\<lambda>(r, s).
        if r \<noteq> 0 then Inl (Panic ''RFS: failed to write superblock!'')
        else bnd (write_inode_blocks 10 RFS_BLK_OFFSET_INODE rd
                   (set_iobuffer rd (empty_inodes 32 (iobuffer (rdevs s rd))) s)) (\<lambda>s.
             let root_dinode = \<lparr>di_size = 0, di_type = DIR_I, di_nlinks = 1, di_blocks = 1,
                                di_addrs = RFS_BLK_OFFSET_FREE # junk\<rparr>
             in bnd (rfs_write_dinode rd root_dinode 0 s) (\<lambda>(r, s).
                if r \<noteq> 0 then Inr (- 1, s)
                else bnd (rfs_w1block rd RFS_BLK_OFFSET_BITMAP (set_iobuffer rd (put32 0 1 (\<lambda>_. 0)) s)) (\<lambda>(r, s).
                     if r \<noteq> 0 then Inr (- 1, s) else Inr (0, s))))))"

definition rfs_get_superblock :: "addr \<Rightarrow> 'h fs \<Rightarrow> (addr \<times> 'h fs) res" where
  "rfs_get_superblock dev s =
     bnd (arr_get (rfs_device_list s) (dev_id (devs s dev))) (\<lambda>rd.
     bnd (rfs_r1block rd RFS_BLK_OFFSET_SUPER s) (\<lambda>(r, s).
     if r \<noteq> 0 then Inl (Panic ''RFS: failed to read superblock!'')
     else (let io = iobuffer (rdevs s rd)
           in bnd (new_page s) (\<lambda>(sb, s).
              let s = s\<lparr>sbs := (sbs s)(sb := (sbs s sb)\<lparr>sb_magic := get32 io 0, sb_size := get32 io 4,
                         sb_nblocks := get32 io 8, sb_ninodes := get32 io 12, s_dev := dev\<rparr>)\<rparr>
              in if sb_magic (sbs s sb) \<noteq> RFS_MAGIC then Inl (Panic ''rfs_get_superblock: wrong ramdisk device!'')
                 else bnd (build_vinode sb 0 s) (\<lambda>(root_inode, s).
                   bnd (alloc_vfs_dentry [47] root_inode 0 s) (\<lambda>(root_dentry, s).
                   let s = s\<lparr>sbs := (sbs s)(sb := (sbs s sb)\<lparr>s_root := root_dentry\<rparr>)\<rparr>
                   in bnd (rfs_r1block rd RFS_BLK_OFFSET_BITMAP s) (\<lambda>(r, s).
                      if r \<noteq> 0 then Inl (Panic ''RFS: failed to read bitmap!'')
                      else (let io = iobuffer (rdevs s rd)
                            in bnd (new_page s) (\<lambda>(bitmap, s).
                               Inr (sb, s\<lparr>freemaps := (freemaps s)(bitmap := (\<lambda>i. get32 io (4 * nat i))),
                                          sbs := (sbs s)(sb := (sbs s sb)\<lparr>s_fs_info := bitmap\<rparr>)\<rparr>))))))))))"

end
