(* ===== verification/Rfs_Files.thy ===== *)
theory Rfs_Files
  imports Rfs
begin

text \<open>
  Correctness of the file operations of \<^verbatim>\<open>kernel/rfs.c\<close>: disk inodes, the block bitmap, reading and
  writing. A file is abstracted to the sequence of its bytes; the lemmas state how every operation changes
  that sequence and what it leaves alone.
\<close>

section \<open>Device transfers\<close>

definition disk :: "'h fs \<Rightarrow> addr \<Rightarrow> int \<Rightarrow> block" where
  "disk s rd = d_disk (rdevs s rd)"

definition set_disk :: "addr \<Rightarrow> int \<Rightarrow> block \<Rightarrow> 'h fs \<Rightarrow> 'h fs" where
  "set_disk rd n b s = s\<lparr>rdevs := (rdevs s)(rd := (rdevs s rd)\<lparr>d_disk := (d_disk (rdevs s rd))(n := b)\<rparr>)\<rparr>"

lemma r1block_ok: "blk_ok n \<Longrightarrow> rfs_r1block rd n s = Inr (0, set_iobuffer rd (disk s rd n) s)"
  by (simp add: rfs_r1block_def set_iobuffer_def disk_def)

lemma w1block_ok: "blk_ok n \<Longrightarrow> rfs_w1block rd n s = Inr (0, set_disk rd n (iobuffer (rdevs s rd)) s)"
  by (simp add: rfs_w1block_def set_disk_def)

lemma set_iobuffer_sel [simp]:
  "iobuffer (rdevs (set_iobuffer rd b s) rd) = b" "disk (set_iobuffer rd b s) rd' = disk s rd'"
  "vinodes (set_iobuffer rd b s) = vinodes s" "dentries (set_iobuffer rd b s) = dentries s"
  "sbs (set_iobuffer rd b s) = sbs s" "freemaps (set_iobuffer rd b s) = freemaps s"
  "fs_pool (set_iobuffer rd b s) = fs_pool s" "dinodes (set_iobuffer rd b s) = dinodes s"
  "raw_pages (set_iobuffer rd b s) = raw_pages s" "rdev_of sb (set_iobuffer rd b s) = rdev_of sb s"
  "set_iobuffer rd c (set_iobuffer rd b s) = set_iobuffer rd c s"
  by (simp_all add: set_iobuffer_def disk_def rdev_of_def)

lemma set_disk_sel [simp]:
  "iobuffer (rdevs (set_disk rd n b s) rd') = iobuffer (rdevs s rd')" "disk (set_disk rd n b s) rd = (disk s rd)(n := b)"
  "vinodes (set_disk rd n b s) = vinodes s" "dentries (set_disk rd n b s) = dentries s"
  "sbs (set_disk rd n b s) = sbs s" "freemaps (set_disk rd n b s) = freemaps s"
  "fs_pool (set_disk rd n b s) = fs_pool s" "dinodes (set_disk rd n b s) = dinodes s"
  "raw_pages (set_disk rd n b s) = raw_pages s" "rdev_of sb (set_disk rd n b s) = rdev_of sb s"
  by (simp_all add: set_disk_def disk_def rdev_of_def)

lemma disk_frame [simp]:
  "disk (s\<lparr>vinodes := V\<rparr>) rd = disk s rd" "disk (s\<lparr>fs_pool := P\<rparr>) rd = disk s rd" "disk (s\<lparr>dinodes := D\<rparr>) rd = disk s rd"
  "disk (s\<lparr>freemaps := F\<rparr>) rd = disk s rd" "disk (s\<lparr>raw_pages := R\<rparr>) rd = disk s rd"
  "disk (s\<lparr>dentries := E\<rparr>) rd = disk s rd"
  by (simp_all add: disk_def)

lemma rdev_of_frame [simp]:
  "rdev_of sb (s\<lparr>vinodes := V\<rparr>) = rdev_of sb s" "rdev_of sb (s\<lparr>fs_pool := P\<rparr>) = rdev_of sb s"
  "rdev_of sb (s\<lparr>dinodes := D\<rparr>) = rdev_of sb s" "rdev_of sb (s\<lparr>freemaps := F\<rparr>) = rdev_of sb s"
  "rdev_of sb (s\<lparr>raw_pages := R\<rparr>) = rdev_of sb s" "rdev_of sb (s\<lparr>dentries := E\<rparr>) = rdev_of sb s"
  by (simp_all add: rdev_of_def)

section \<open>Disk inodes\<close>

definition dinode_ok :: "rfs_dinode \<Rightarrow> bool" where
  "dinode_ok d \<longleftrightarrow> int32 (di_size d) \<and> int32 (di_type d) \<and> int32 (di_nlinks d) \<and> int32 (di_blocks d) \<and>
     length (di_addrs d) = DIRECT_BLKNUM \<and> (\<forall>a \<in> set (di_addrs d). int32 a)"

definition inum_ok :: "int \<Rightarrow> bool" where
  "inum_ok n \<longleftrightarrow> 0 \<le> n \<and> n < 320"

text \<open>The disk inode number \<open>n\<close> as it stands on the disk.\<close>

definition dinode_on :: "(int \<Rightarrow> block) \<Rightarrow> int \<Rightarrow> rfs_dinode" where
  "dinode_on dk n = load_dinode (dk (n div 32 + 1)) (nat (n mod 32) * RFS_INODESIZE)"

lemma length_dinode_bytes: "length (di_addrs d) = DIRECT_BLKNUM \<Longrightarrow> length (dinode_bytes d) = 56"
proof -
  assume "length (di_addrs d) = DIRECT_BLKNUM"
  moreover have "length (concat (map enc32 xs)) = 4 * length xs" for xs by (induction xs) auto
  ultimately show ?thesis by (simp add: dinode_bytes_def)
qed

lemma concat_enc32_nth:
  "i < length xs \<Longrightarrow> k < 4 \<Longrightarrow> concat (map enc32 xs) ! (4 * i + k) = enc32 (xs ! i) ! k"
proof (induction xs arbitrary: i)
  case (Cons x xs)
  then show ?case
  proof (cases i)
    case (Suc j)
    then show ?thesis using Cons by (simp add: nth_append)
  qed (simp add: nth_append)
qed simp

lemma load_store_dinode:
  assumes "dinode_ok d"
  shows "load_dinode (store_dinode off d b) off = d"
proof -
  let ?c = "store_dinode off d b" and ?bs = "dinode_bytes d"
  have len: "length ?bs = 56" using assms by (simp add: dinode_ok_def length_dinode_bytes)
  have g: "get_bytes ?c (off + k) 4 = map (\<lambda>i. ?bs ! (k + i)) [0..<4]" if "k + 4 \<le> 56" for k
    using that len by (intro nth_equalityI) (auto simp: store_dinode_def put_bytes_def add.assoc)
  have l4: "enc32 v = map (\<lambda>i. enc32 v ! i) [0..<4]" for v by (rule nth_equalityI) simp_all
  have "map (\<lambda>i. ?bs ! (0 + i)) [0..<4] = enc32 (di_size d)" "map (\<lambda>i. ?bs ! (4 + i)) [0..<4] = enc32 (di_type d)"
    "map (\<lambda>i. ?bs ! (8 + i)) [0..<4] = enc32 (di_nlinks d)" "map (\<lambda>i. ?bs ! (12 + i)) [0..<4] = enc32 (di_blocks d)"
    by (rule nth_equalityI; simp add: dinode_bytes_def nth_append)+
  then have f: "get32 ?c off = di_size d" "get32 ?c (off + 4) = di_type d" "get32 ?c (off + 8) = di_nlinks d"
    "get32 ?c (off + 12) = di_blocks d"
    using g [of 0] g [of 4] g [of 8] g [of 12] assms by (simp_all add: get32_def dinode_ok_def del: upt_rec)
  have a: "get32 ?c (off + 16 + 4 * i) = di_addrs d ! i" if i: "i < 10" for i
  proof -
    have n: "i < length (di_addrs d)" using i assms by (simp add: dinode_ok_def)
    have "map (\<lambda>k. ?bs ! (16 + 4 * i + k)) [0..<4] = enc32 (di_addrs d ! i)"
      by (rule nth_equalityI) (simp_all add: dinode_bytes_def nth_append concat_enc32_nth [OF n])
    then have "get_bytes ?c (off + (16 + 4 * i)) 4 = enc32 (di_addrs d ! i)" using g [of "16 + 4 * i"] i by simp
    moreover have "int32 (di_addrs d ! i)" using assms n by (simp add: dinode_ok_def)
    ultimately show ?thesis by (simp add: get32_def add.assoc)
  qed
  have "map (\<lambda>i. get32 ?c (off + 16 + 4 * i)) [0..<DIRECT_BLKNUM] = di_addrs d"
    using a assms by (intro nth_equalityI) (simp_all add: dinode_ok_def)
  then show ?thesis using f by (simp add: load_dinode_def)
qed

lemma load_dinode_cong:
  assumes "\<And>i. off \<le> i \<Longrightarrow> i < off + 56 \<Longrightarrow> b i = c i"
  shows "load_dinode b off = load_dinode c off"
proof -
  have "get32 b (off + k) = get32 c (off + k)" if "k + 4 \<le> 56" for k
    using assms that by (auto simp: get32_def intro!: arg_cong [of _ _ dec32] get_bytes_cong)
  from this [of 0] this [of 4] this [of 8] this [of 12] this [of "16 + 4 * _"] show ?thesis
    by (simp add: load_dinode_def add.assoc)
qed

lemma inum_blk_ok: "inum_ok n \<Longrightarrow> blk_ok (n div 32 + 1)"
  by (auto simp: inum_ok_def blk_ok_def)

lemma inum_sdiv: "inum_ok n \<Longrightarrow> n sdiv 32 = n div 32 \<and> n smod 32 = n mod 32"
  by (simp add: inum_ok_def sdiv_nonneg smod_nonneg)

lemma read_dinode_ok:
  assumes "inum_ok n" "pages_free (fs_pool s) = p # ps" "p \<noteq> 0"
  shows "\<exists>io. rfs_read_dinode rd n s =
    Inr (p, set_iobuffer rd io (s\<lparr>fs_pool := (fs_pool s)\<lparr>pages_free := ps\<rparr>,
       dinodes := (dinodes s)(p := dinode_on (disk s rd) n)\<rparr>))"
  using assms inum_blk_ok [OF assms(1)] inum_sdiv [OF assms(1)]
  by (intro exI [of _ "disk s rd (n div 32 + 1)"])
    (simp add: rfs_read_dinode_def r1block_ok dinode_on_def set_iobuffer_def disk_def)

lemma write_dinode_ok:
  assumes "inum_ok n" "dinode_ok d"
  shows "\<exists>io b. rfs_write_dinode rd d n s = Inr (0, set_disk rd (n div 32 + 1) b (set_iobuffer rd io s)) \<and>
    dinode_on ((disk s rd)(n div 32 + 1 := b)) = (dinode_on (disk s rd))(n := d)"
proof -
  define k where "k = n div 32 + 1"
  define off where "off = nat (n mod 32) * RFS_INODESIZE"
  define b where "b = store_dinode off d (disk s rd k)"
  have run: "rfs_write_dinode rd d n s = Inr (0, set_disk rd k b (set_iobuffer rd b s))"
    using inum_blk_ok [OF assms(1)] inum_sdiv [OF assms(1)]
    by (simp add: rfs_write_dinode_def r1block_ok w1block_ok b_def off_def flip: k_def)
  have "dinode_on ((disk s rd)(k := b)) m = ((dinode_on (disk s rd))(n := d)) m" for m
  proof (cases "m = n")
    case True
    then show ?thesis using load_store_dinode [OF assms(2)] by (simp add: dinode_on_def k_def b_def off_def)
  next
    case False
    show ?thesis
    proof (cases "m div 32 + 1 = k")
      case True
      then have "m mod 32 \<noteq> n mod 32" using False by (metis add_right_imp_eq k_def mult_div_mod_eq)
      then have ne: "nat (m mod 32) \<noteq> nat (n mod 32)" by (simp add: nat_eq_iff2)
      have "load_dinode b (nat (m mod 32) * RFS_INODESIZE) = load_dinode (disk s rd k) (nat (m mod 32) * RFS_INODESIZE)"
      proof (rule load_dinode_cong)
        fix i assume i: "nat (m mod 32) * RFS_INODESIZE \<le> i" "i < nat (m mod 32) * RFS_INODESIZE + 56"
        have "length (dinode_bytes d) = 56" using assms(2) by (simp add: dinode_ok_def length_dinode_bytes)
        moreover have "i < off \<or> off + 56 \<le> i"
          using i ne unfolding off_def by (cases "nat (m mod 32) < nat (n mod 32)") linarith+
        ultimately show "b i = disk s rd k i" by (simp add: b_def store_dinode_def put_bytes_out)
      qed
      then show ?thesis using True False by (simp add: dinode_on_def)
    next
      case False
      then show ?thesis using \<open>m \<noteq> n\<close> by (simp add: dinode_on_def)
    qed
  qed
  then show ?thesis using run by (intro exI [of _ b] conjI) (auto simp: k_def)
qed

text \<open>What a disk inode update leaves alone: every block outside the inode area.\<close>

lemma inode_block_area: "inum_ok n \<Longrightarrow> 1 \<le> n div 32 + 1 \<and> n div 32 + 1 < 11"
  by (auto simp: inum_ok_def)

section \<open>The bitmap\<close>

definition fmap :: "'h fs \<Rightarrow> addr \<Rightarrow> int \<Rightarrow> int" where
  "fmap s sb = freemaps s (s_fs_info (sbs s sb))"

definition set_fmap :: "addr \<Rightarrow> int \<Rightarrow> int \<Rightarrow> 'h fs \<Rightarrow> 'h fs" where
  "set_fmap sb i v s = s\<lparr>freemaps := (freemaps s)(s_fs_info (sbs s sb) := (fmap s sb)(i := v))\<rparr>"

lemma set_fmap_sel [simp]:
  "fmap (set_fmap sb i v s) sb = (fmap s sb)(i := v)" "disk (set_fmap sb i v s) rd = disk s rd"
  "vinodes (set_fmap sb i v s) = vinodes s" "sbs (set_fmap sb i v s) = sbs s" "rdevs (set_fmap sb i v s) = rdevs s"
  "fs_pool (set_fmap sb i v s) = fs_pool s" "dinodes (set_fmap sb i v s) = dinodes s"
  "rdev_of sb' (set_fmap sb i v s) = rdev_of sb' s" "dentries (set_fmap sb i v s) = dentries s"
  "raw_pages (set_fmap sb i v s) = raw_pages s"
  by (simp_all add: set_fmap_def fmap_def disk_def rdev_of_def)

lemma fmap_frame [simp]:
  "fmap (s\<lparr>vinodes := V\<rparr>) sb = fmap s sb" "fmap (s\<lparr>fs_pool := P\<rparr>) sb = fmap s sb" "fmap (s\<lparr>dinodes := D\<rparr>) sb = fmap s sb"
  "fmap (s\<lparr>raw_pages := R\<rparr>) sb = fmap s sb" "fmap (s\<lparr>dentries := E\<rparr>) sb = fmap s sb"
  "fmap (set_iobuffer rd b s) sb = fmap s sb" "fmap (set_disk rd n b s) sb = fmap s sb"
  by (simp_all add: fmap_def)

lemma find_free_some:
  assumes "b \<le> i" "i < n" "f i = 0"
  shows "b \<le> find_free f b n \<and> find_free f b n < n \<and> f (find_free f b n) = 0"
  using assms
proof (induction f b n rule: find_free.induct)
  case (1 f b n)
  show ?case
  proof (cases "f b = 0")
    case True
    then have "find_free f b n = b" using 1(2,3) by (subst find_free.simps) simp
    then show ?thesis using True 1(2,3) by simp
  next
    case False
    then have "b + 1 \<le> i" using 1(2,4) by (cases "b = i") auto
    moreover have "find_free f b n = find_free f (b + 1) n" using False 1(2,3) by (subst find_free.simps) simp
    ultimately show ?thesis using 1(1) [OF _ False] 1(2-) by simp
  qed
qed

lemma find_free_none: "(\<And>i. b \<le> i \<Longrightarrow> i < n \<Longrightarrow> f i \<noteq> 0) \<Longrightarrow> find_free f b n = - 1"
proof (induction f b n rule: find_free.induct)
  case (1 f b n)
  show ?case
  proof (cases "b < n")
    case True
    then have "f b \<noteq> 0" using 1(2) by simp
    then show ?thesis using 1 True by (subst find_free.simps) simp
  qed (subst find_free.simps, simp)
qed

abbreviation NBLOCKS :: int where "NBLOCKS \<equiv> 100"

definition free_blks :: "'h fs \<Rightarrow> addr \<Rightarrow> int set" where
  "free_blks s sb = {i. 0 \<le> i \<and> i < NBLOCKS \<and> fmap s sb i = 0}"

lemma finite_free_blks [simp]: "finite (free_blks s sb)"
  by (rule finite_subset [of _ "{0..<NBLOCKS}"]) (auto simp: free_blks_def)

lemma alloc_block_ok:
  assumes "sb_nblocks (sbs s sb) = NBLOCKS" "free_blks s sb \<noteq> {}"
  shows "\<exists>i \<in> free_blks s sb. rfs_alloc_block sb s = Inr (12 + i, set_fmap sb i 1 s)"
proof -
  obtain i where "0 \<le> i" "i < NBLOCKS" "fmap s sb i = 0" using assms(2) by (auto simp: free_blks_def)
  then have f: "find_free (fmap s sb) 0 NBLOCKS \<in> free_blks s sb"
    using find_free_some [of 0 i NBLOCKS "fmap s sb"] by (simp add: free_blks_def)
  then have "find_free (fmap s sb) 0 NBLOCKS \<noteq> - 1" by (auto simp: free_blks_def)
  then show ?thesis
    using f assms(1) by (intro bexI [of _ "find_free (fmap s sb) 0 NBLOCKS"])
      (simp_all add: rfs_alloc_block_def fmap_def set_fmap_def Let_def)
qed

lemma alloc_block_full:
  assumes "sb_nblocks (sbs s sb) = NBLOCKS" "free_blks s sb = {}"
  shows "rfs_alloc_block sb s = Inl (Panic ''rfs_alloc_block: no more free block!'')"
proof -
  have "find_free (fmap s sb) 0 NBLOCKS = - 1"
    using assms(2) by (intro find_free_none) (auto simp: free_blks_def)
  then show ?thesis using assms(1) by (simp add: rfs_alloc_block_def fmap_def)
qed

section \<open>Files\<close>

definition file_blocks :: "'h fs \<Rightarrow> addr \<Rightarrow> int list" where
  "file_blocks s f = take (nat (vi_blocks (vinodes s f))) (vi_addrs (vinodes s f))"

definition file_ok :: "'h fs \<Rightarrow> addr \<Rightarrow> addr \<Rightarrow> addr \<Rightarrow> bool" where
  "file_ok s sb rd f \<longleftrightarrow> vi_sb (vinodes s f) = sb \<and> rdev_of sb s = Inr rd \<and> sb_nblocks (sbs s sb) = NBLOCKS \<and>
     length (vi_addrs (vinodes s f)) = DIRECT_BLKNUM \<and> 0 \<le> vi_blocks (vinodes s f) \<and> vi_blocks (vinodes s f) \<le> 10 \<and>
     0 \<le> vi_size (vinodes s f) \<and> vi_size (vinodes s f) \<le> 4096 * vi_blocks (vinodes s f) \<and>
     distinct (file_blocks s f) \<and> (\<forall>b \<in> set (file_blocks s f). 12 \<le> b \<and> b < 112 \<and> fmap s sb (b - 12) \<noteq> 0)"

definition file_byte :: "'h fs \<Rightarrow> addr \<Rightarrow> addr \<Rightarrow> nat \<Rightarrow> uint8" where
  "file_byte s rd f i = disk s rd (vi_addrs (vinodes s f) ! (i div 4096)) (i mod 4096)"

text \<open>The contents of a file.\<close>

definition file_data :: "'h fs \<Rightarrow> addr \<Rightarrow> addr \<Rightarrow> uint8 list" where
  "file_data s rd f = map (file_byte s rd f) [0..<nat (vi_size (vinodes s f))]"

lemma file_block_nth:
  assumes "file_ok s sb rd f" "int j < vi_blocks (vinodes s f)"
  shows "vi_addrs (vinodes s f) ! j \<in> set (file_blocks s f)" "file_blocks s f ! j = vi_addrs (vinodes s f) ! j"
    "j < length (file_blocks s f)" "j < 10" "blk_ok (vi_addrs (vinodes s f) ! j)"
proof -
  show l: "j < length (file_blocks s f)" "j < 10" and e: "file_blocks s f ! j = vi_addrs (vinodes s f) ! j"
    using assms by (auto simp: file_ok_def file_blocks_def)
  show m: "vi_addrs (vinodes s f) ! j \<in> set (file_blocks s f)" using l(1) e nth_mem by metis
  then show "blk_ok (vi_addrs (vinodes s f) ! j)" using assms(1) by (auto simp: file_ok_def blk_ok_def)
qed

lemma block_bytes:
  assumes "a + n \<le> 4096"
  shows "get_bytes (disk s rd (vi_addrs (vinodes s f) ! j)) a n = map (file_byte s rd f) [4096 * j + a..<4096 * j + a + n]"
  using assms by (intro nth_equalityI) (simp_all add: file_byte_def add.assoc)

subsection \<open>Reading\<close>

lemma read_blocks_ok:
  assumes "file_ok s sb rd f" "j + n \<le> nat (vi_blocks (vinodes s f))"
  shows "\<exists>io. read_blocks n rd f (int j) (set_iobuffer rd io0 s) =
    Inr (map (file_byte s rd f) [4096 * j..<4096 * (j + n)], set_iobuffer rd io s)"
  using assms(2)
proof (induction n arbitrary: j io0)
  case (Suc n)
  then have j: "int j < vi_blocks (vinodes s f)" using assms(1) by (simp add: file_ok_def)
  note fb = file_block_nth [OF assms(1) j]
  have len: "length (vi_addrs (vinodes s f)) = 10" using assms(1) by (simp add: file_ok_def)
  let ?b = "vi_addrs (vinodes s f) ! j"
  obtain io where io: "read_blocks n rd f (int (Suc j)) (set_iobuffer rd (disk s rd ?b) s) =
      Inr (map (file_byte s rd f) [4096 * Suc j..<4096 * (Suc j + n)], set_iobuffer rd io s)"
    using Suc.IH [of "Suc j" "disk s rd ?b"] Suc.prems by auto
  have "get_bytes (disk s rd ?b) 0 BLK = map (file_byte s rd f) [4096 * j..<4096 * Suc j]"
    using block_bytes [of 0 BLK s rd f j] by (simp add: add.commute)
  moreover have "[4096 * j..<4096 * Suc j] @ [4096 * Suc j..<4096 * (Suc j + n)] = [4096 * j..<4096 * (j + Suc n)]"
    using upt_add_eq_append [of "4096 * j" "4096 * Suc j" "4096 * n"] by (simp add: algebra_simps)
  ultimately have "get_bytes (disk s rd ?b) 0 BLK @ map (file_byte s rd f) [4096 * Suc j..<4096 * (Suc j + n)] =
      map (file_byte s rd f) [4096 * j..<4096 * (j + Suc n)]"
    by (metis map_append)
  then show ?case
    using io fb len by (intro exI [of _ io]) (simp add: r1block_ok Let_def add.commute)
qed auto

lemma map_upt_app: "i \<le> j \<Longrightarrow> j \<le> k \<Longrightarrow> map g [i..<j] @ map g [j..<k] = map g [i..<k]"
  using upt_add_eq_append [of i j "k - j"] by (simp flip: map_append)

lemma read_tail_ok:
  assumes ok: "file_ok s sb rd f" and t: "j + t \<le> nat (vi_blocks (vinodes s f))"
    and r: "r < 4096" "0 < r \<Longrightarrow> j + t < nat (vi_blocks (vinodes s f))"
  shows "\<exists>io. read_tail rd f (int t) (int r) (int j) (set_iobuffer rd io0 s) =
    Inr (map (file_byte s rd f) [4096 * j..<4096 * (j + t) + r], set_iobuffer rd io s)"
proof -
  obtain io where io: "read_blocks t rd f (int j) (set_iobuffer rd io0 s) =
      Inr (map (file_byte s rd f) [4096 * j..<4096 * (j + t)], set_iobuffer rd io s)"
    using read_blocks_ok [OF ok t, of io0] by blast
  show ?thesis
  proof (cases "r = 0")
    case True
    then show ?thesis using io by (intro exI [of _ io]) (simp add: read_tail_def)
  next
    case False
    let ?b = "vi_addrs (vinodes s f) ! (j + t)"
    have jt: "int (j + t) < vi_blocks (vinodes s f)" using r(2) False by simp
    note fb = file_block_nth [OF ok jt]
    have len: "length (vi_addrs (vinodes s f)) = 10" using ok by (simp add: file_ok_def)
    have "get_bytes (disk s rd ?b) 0 r = map (file_byte s rd f) [4096 * (j + t)..<4096 * (j + t) + r]"
      using block_bytes [of 0 r s rd f "j + t"] r(1) by simp
    moreover have "map (file_byte s rd f) [4096 * j..<4096 * (j + t)] @ map (file_byte s rd f) [4096 * (j + t)..<4096 * (j + t) + r]
        = map (file_byte s rd f) [4096 * j..<4096 * (j + t) + r]"
      by (rule map_upt_app) auto
    moreover have "arr_get (vi_addrs (vinodes s f)) (int j + int t) = Inr ?b"
      using fb(4) len by (simp add: nat_add_distrib)
    ultimately show ?thesis
      using io fb(5) False by (intro exI [of _ "disk s rd ?b"]) (simp add: read_tail_def r1block_ok)
  qed
qed

text \<open>The offset and the length of a transfer, split into blocks.\<close>

lemma split_transfer:
  fixes off n :: int
  assumes "0 \<le> off" "0 \<le> n"
  obtains q a t r :: nat where "off = int (4096 * q + a)" "a < 4096" "int a + n = int (4096 * t + r)" "r < 4096"
    "off smod 4096 = int a" "off sdiv 4096 = int q" "(int a + n) sdiv 4096 = int t" "(int a + n) smod 4096 = int r"
proof
  let ?o = "nat off" and ?m = "nat off mod 4096 + nat n"
  have o: "off = int ?o" and m: "int (nat off mod 4096) + n = int ?m" using assms by simp_all
  show "off = int (4096 * (?o div 4096) + ?o mod 4096)" using assms by simp
  show "int (nat off mod 4096) + n = int (4096 * (?m div 4096) + ?m mod 4096)" using m by simp
  show "off smod 4096 = int (?o mod 4096)" "off sdiv 4096 = int (?o div 4096)"
    using assms by (simp_all add: sdiv_nonneg smod_nonneg zdiv_int zmod_int)
  show "(int (nat off mod 4096) + n) sdiv 4096 = int (?m div 4096)" "(int (nat off mod 4096) + n) smod 4096 = int (?m mod 4096)"
    unfolding m by (simp_all add: sdiv_nonneg smod_nonneg zdiv_int zmod_int)
qed simp_all

lemma rfs_read_eq:
  assumes ok: "file_ok s sb rd f" and o: "0 \<le> off" "off \<le> vi_size (vinodes s f)" "off < 4096 * vi_blocks (vinodes s f)"
    and l: "0 \<le> len"
  defines "n \<equiv> min len (vi_size (vinodes s f) - off)"
  shows "\<exists>io. rfs_read f len off s =
    Inr ((n, takeWhile (\<lambda>c. c \<noteq> 0) (map (file_byte s rd f) [nat off..<nat (off + n)]) @ [0], off + n),
         set_iobuffer rd io s)"
proof -
  let ?B = "nat (vi_blocks (vinodes s f))" and ?A = "vi_addrs (vinodes s f)" and ?g = "file_byte s rd f"
  have n0: "0 \<le> n" "off + n \<le> vi_size (vinodes s f)" using o l by (auto simp: n_def)
  obtain q a t r where sp: "off = int (4096 * q + a)" "a < 4096" "int a + n = int (4096 * t + r)" "r < 4096"
    "off smod 4096 = int a" "off sdiv 4096 = int q" "(int a + n) sdiv 4096 = int t" "(int a + n) smod 4096 = int r"
    by (rule split_transfer [OF o(1) n0(1)])
  have B: "vi_blocks (vinodes s f) = int ?B" "length ?A = 10" "vi_sb (vinodes s f) = sb" "rdev_of sb s = Inr rd"
    "vi_size (vinodes s f) \<le> 4096 * int ?B" using ok by (simp_all add: file_ok_def)
  have qB: "q < ?B" using o(3) sp(1) B(1) by linarith
  have onr: "off + n = int (4096 * (q + t) + r)" using sp(1,3) by simp
  have "int (4096 * (q + t) + r) \<le> int (4096 * ?B)" using n0(2) B(5) unfolding onr by simp
  then have qt: "4096 * (q + t) + r \<le> 4096 * ?B" by (simp only: of_nat_le_iff)
  have len: "(if vi_size (vinodes s f) < off + len then vi_size (vinodes s f) - off else len) = n" by (auto simp: n_def)
  have fb: "arr_get ?A (int q) = Inr (?A ! q)" "blk_ok (?A ! q)" using file_block_nth [OF ok, of q] qB B by auto
  have e: "nat (off + n) = 4096 * (q + t) + r" "nat off = 4096 * q + a"
    using arg_cong [OF onr, of nat] arg_cong [OF sp(1), of nat] by (simp_all only: nat_int)
  let ?m = "nat (if int t = 0 then n else 4096 - int a)" and ?io = "disk s rd (?A ! q)"
  have "\<exists>io. bnd (read_tail rd f (int t - 1) (int r) (int q + 1) (set_iobuffer rd ?io s)) (\<lambda>(rest, s).
      Inr (get_bytes ?io a ?m @ rest, s)) = Inr (map ?g [nat off..<nat (off + n)], set_iobuffer rd io s)"
  proof (cases t)
    case 0
    then have r: "r = a + nat n" "?m = nat n" using sp(3) n0(1) by auto
    then have "nat off + ?m = nat (off + n)" "a + ?m \<le> 4096" using sp(4) e 0 by simp_all
    then show ?thesis using 0 block_bytes [of a ?m s rd f q] e r
      by (intro exI [of _ ?io]) (simp add: read_tail_def add.assoc)
  next
    case (Suc k)
    have m: "?m = 4096 - a" using Suc sp(2) by (simp add: nat_diff_distrib')
    have "\<exists>io. read_tail rd f (int k) (int r) (int (Suc q)) (set_iobuffer rd ?io s) =
        Inr (map ?g [4096 * Suc q..<4096 * (Suc q + k) + r], set_iobuffer rd io s)"
    proof (rule read_tail_ok [OF ok])
      show "Suc q + k \<le> ?B" "0 < r \<Longrightarrow> Suc q + k < ?B" using qt Suc by auto
    qed (rule sp(4))
    then obtain io where "read_tail rd f (int t - 1) (int r) (int q + 1) (set_iobuffer rd ?io s) =
        Inr (map ?g [4096 * Suc q..<nat (off + n)], set_iobuffer rd io s)"
      using Suc e by (auto simp: add.commute)
    moreover have "get_bytes ?io a ?m = map ?g [nat off..<4096 * Suc q]"
      using block_bytes [of a "4096 - a" s rd f q] sp(2) e m by (simp add: add.commute)
    moreover have "map ?g [nat off..<4096 * Suc q] @ map ?g [4096 * Suc q..<nat (off + n)] = map ?g [nat off..<nat (off + n)]"
      using e sp(2) Suc by (intro map_upt_app) auto
    ultimately show ?thesis by (intro exI [of _ io]) simp
  qed
  then obtain io where io: "bnd (read_tail rd f (int t - 1) (int r) (int q + 1) (set_iobuffer rd ?io s)) (\<lambda>(rest, s).
      Inr (get_bytes ?io a ?m @ rest, s)) = Inr (map ?g [nat off..<nat (off + n)], set_iobuffer rd io s)" by blast
  then obtain rest where "read_tail rd f (int t - 1) (int r) (int q + 1) (set_iobuffer rd ?io s) = Inr (rest, set_iobuffer rd io s)"
    "get_bytes ?io a ?m @ rest = map ?g [nat off..<nat (off + n)]"
    by (auto simp: bnd_eq_Inr)
  then show ?thesis
    using fb o(2) B(3,4) n0(1) by (intro exI [of _ io]) (simp add: rfs_read_def Let_def len sp(5-8) r1block_ok)
qed

subsection \<open>Writing\<close>

text \<open>
  Blocks that a write to the file \<open>f\<close> must not touch: those outside the data area and the data blocks
  in use by other files.
\<close>

definition kept :: "'h fs \<Rightarrow> addr \<Rightarrow> addr \<Rightarrow> int \<Rightarrow> bool" where
  "kept s sb f b \<longleftrightarrow> b < 12 \<or> 112 \<le> b \<or> (fmap s sb (b - 12) \<noteq> 0 \<and> b \<notin> set (file_blocks s f))"

definition file_frame :: "'h fs \<Rightarrow> 'h fs \<Rightarrow> addr \<Rightarrow> addr \<Rightarrow> addr \<Rightarrow> bool" where
  "file_frame s s' sb rd f \<longleftrightarrow>
     (\<exists>R F V. s' = s\<lparr>rdevs := R, freemaps := F, vinodes := V\<rparr>) \<and> (\<forall>g. g \<noteq> f \<longrightarrow> vinodes s' g = vinodes s g) \<and>
     (\<exists>A B Z. vinodes s' f = (vinodes s f)\<lparr>vi_addrs := A, vi_blocks := B, vi_size := Z\<rparr>) \<and>
     (\<forall>b. kept s sb f b \<longrightarrow> disk s' rd b = disk s rd b \<and> kept s' sb f b)"

lemma file_frame_refl: "file_frame s s sb rd f"
  unfolding file_frame_def
proof (intro conjI)
  show "\<exists>R F V. s = s\<lparr>rdevs := R, freemaps := F, vinodes := V\<rparr>"
    by (rule exI [of _ "rdevs s"], rule exI [of _ "freemaps s"], rule exI [of _ "vinodes s"]) simp
  show "\<exists>A B Z. vinodes s f = (vinodes s f)\<lparr>vi_addrs := A, vi_blocks := B, vi_size := Z\<rparr>"
    by (rule exI [of _ "vi_addrs (vinodes s f)"], rule exI [of _ "vi_blocks (vinodes s f)"],
      rule exI [of _ "vi_size (vinodes s f)"]) simp
qed simp_all

lemma file_frame_trans: "file_frame s t sb rd f \<Longrightarrow> file_frame t u sb rd f \<Longrightarrow> file_frame s u sb rd f"
  unfolding file_frame_def by (elim conjE exE) (intro conjI; force)

lemma grow_file_ok:
  assumes ok: "file_ok s sb rd f" and j: "int j \<le> vi_blocks (vinodes s f)" "j < 10"
    and fr: "int j = vi_blocks (vinodes s f) \<Longrightarrow> free_blks s sb \<noteq> {}"
  shows "\<exists>s'. grow_file f (int j) s = Inr s' \<and> file_ok s' sb rd f \<and> file_frame s s' sb rd f \<and>
    disk s' = disk s \<and> rdevs s' = rdevs s \<and> vi_size (vinodes s' f) = vi_size (vinodes s f) \<and>
    vi_blocks (vinodes s' f) = max (vi_blocks (vinodes s f)) (int j + 1) \<and>
    (\<forall>i < nat (vi_blocks (vinodes s f)). vi_addrs (vinodes s' f) ! i = vi_addrs (vinodes s f) ! i) \<and>
    card (free_blks s sb) \<le> card (free_blks s' sb) + (if int j = vi_blocks (vinodes s f) then 1 else 0)"
proof (cases "int j = vi_blocks (vinodes s f)")
  case False
  then show ?thesis using ok j by (intro exI [of _ s]) (auto simp: grow_file_def file_frame_refl)
next
  case True
  have v: "sb_nblocks (sbs s sb) = NBLOCKS" "vi_sb (vinodes s f) = sb" "length (vi_addrs (vinodes s f)) = 10"
    "nat (vi_blocks (vinodes s f)) = j" "distinct (take j (vi_addrs (vinodes s f)))"
    "\<forall>b \<in> set (take j (vi_addrs (vinodes s f))). 12 \<le> b \<and> b < 112 \<and> fmap s sb (b - 12) \<noteq> 0"
    using ok by (simp_all add: file_ok_def file_blocks_def flip: True)
  obtain i where i: "i \<in> free_blks s sb" "rfs_alloc_block sb s = Inr (12 + i, set_fmap sb i 1 s)"
    using alloc_block_ok [OF v(1) fr [OF True]] by blast
  define A where "A = (vi_addrs (vinodes s f))[j := 12 + i]"
  define t where "t = set_fmap sb i 1 s"
  define s' where "s' = t\<lparr>vinodes := (vinodes t)(f := (vinodes t f)\<lparr>vi_addrs := A, vi_blocks := vi_blocks (vinodes t f) + 1\<rparr>)\<rparr>"
  have run: "grow_file f (int j) s = Inr s'"
    using True v(2,3,4) i(2) j(2) by (simp add: grow_file_def s'_def A_def t_def)
  have ib: "0 \<le> i" "i < 100" "fmap s sb i = 0" using i(1) by (auto simp: free_blks_def)
  have vs: "vinodes s' f = (vinodes s f)\<lparr>vi_addrs := A, vi_blocks := int j + 1\<rparr>"
    "\<And>g. g \<noteq> f \<Longrightarrow> vinodes s' g = vinodes s g" "fmap s' sb = (fmap s sb)(i := 1)" "disk s' = disk s" "rdevs s' = rdevs s"
    "sbs s' = sbs s" "rdev_of sb s' = rdev_of sb s"
    using True by (simp_all add: s'_def t_def fun_eq_iff)
  have fb: "file_blocks s' f = file_blocks s f @ [12 + i]" "file_blocks s f = take j (vi_addrs (vinodes s f))"
    using v(3,4) j(2) vs(1) by (simp_all add: file_blocks_def A_def take_Suc_conv_app_nth nat_add_distrib take_update_cancel)
  have new: "12 + i \<notin> set (file_blocks s f)" using v(6) ib(3) fb(2) by auto
  have ok': "file_ok s' sb rd f"
    using ok j(2) True new ib v(6) by (auto simp: file_ok_def vs fb A_def)
  have "file_frame s s' sb rd f"
    unfolding file_frame_def
  proof (intro conjI)
    show "\<exists>R F V. s' = s\<lparr>rdevs := R, freemaps := F, vinodes := V\<rparr>"
      by (rule exI [of _ "rdevs s"], rule exI [of _ "freemaps s'"], rule exI [of _ "vinodes s'"])
        (simp add: s'_def t_def set_fmap_def)
    show "\<forall>g. g \<noteq> f \<longrightarrow> vinodes s' g = vinodes s g" using vs(2) by simp
    show "\<exists>Y B Z. vinodes s' f = (vinodes s f)\<lparr>vi_addrs := Y, vi_blocks := B, vi_size := Z\<rparr>"
      by (rule exI [of _ A], rule exI [of _ "int j + 1"], rule exI [of _ "vi_size (vinodes s f)"]) (simp add: vs(1))
    show "\<forall>b. kept s sb f b \<longrightarrow> disk s' rd b = disk s rd b \<and> kept s' sb f b"
      using ib(3) by (auto simp: kept_def vs(3,4) fb(1))
  qed
  moreover have "free_blks s sb = insert i (free_blks s' sb)" "i \<notin> free_blks s' sb"
    using ib by (auto simp: free_blks_def vs(3))
  ultimately show ?thesis
    using run ok' True v(4) by (intro exI [of _ s']) (simp add: vs(1,4,5) A_def)
qed

text \<open>One block of the file is replaced.\<close>

lemma put_block_ok:
  fixes io io' :: block
  assumes ok: "file_ok s sb rd f" and j: "int j < vi_blocks (vinodes s f)"
  defines "s' \<equiv> set_disk rd (vi_addrs (vinodes s f) ! j) io (set_iobuffer rd io' s)"
  shows "file_ok s' sb rd f" "file_frame s s' sb rd f" "vinodes s' = vinodes s" "fmap s' sb = fmap s sb"
    "\<And>i. i div 4096 \<noteq> j \<Longrightarrow> i < 4096 * nat (vi_blocks (vinodes s f)) \<Longrightarrow> file_byte s' rd f i = file_byte s rd f i"
    "\<And>k. k < 4096 \<Longrightarrow> file_byte s' rd f (4096 * j + k) = io k"
proof -
  let ?A = "vi_addrs (vinodes s f)"
  note fb = file_block_nth [OF ok j]
  have sel: "vinodes s' = vinodes s" "fmap s' sb = fmap s sb" "disk s' rd = (disk s rd)(?A ! j := io)"
    "sbs s' = sbs s" "rdev_of sb s' = rdev_of sb s" "file_blocks s' f = file_blocks s f"
    by (simp_all add: s'_def file_blocks_def)
  show "vinodes s' = vinodes s" "fmap s' sb = fmap s sb" by (rule sel)+
  show "file_ok s' sb rd f" using ok by (simp add: file_ok_def sel)
  show "file_frame s s' sb rd f"
    unfolding file_frame_def
  proof (intro conjI)
    show "\<exists>R F V. s' = s\<lparr>rdevs := R, freemaps := F, vinodes := V\<rparr>"
      by (rule exI [of _ "rdevs s'"], rule exI [of _ "freemaps s"], rule exI [of _ "vinodes s"])
        (simp add: s'_def set_disk_def set_iobuffer_def)
    show "\<exists>A B Z. vinodes s' f = (vinodes s f)\<lparr>vi_addrs := A, vi_blocks := B, vi_size := Z\<rparr>"
      by (rule exI [of _ ?A], rule exI [of _ "vi_blocks (vinodes s f)"], rule exI [of _ "vi_size (vinodes s f)"])
        (simp add: sel)
    have "\<not> kept s sb f (?A ! j)" using fb(1) ok by (auto simp: kept_def file_ok_def)
    then show "\<forall>b. kept s sb f b \<longrightarrow> disk s' rd b = disk s rd b \<and> kept s' sb f b" by (auto simp: sel kept_def)
  qed (simp add: sel)
  show "file_byte s' rd f i = file_byte s rd f i" if i: "i div 4096 \<noteq> j" "i < 4096 * nat (vi_blocks (vinodes s f))" for i
  proof -
    have i': "int (i div 4096) < vi_blocks (vinodes s f)" using i(2) ok by (auto simp: file_ok_def less_mult_imp_div_less)
    have "?A ! (i div 4096) \<noteq> ?A ! j"
      using ok i(1) nth_eq_iff_index_eq [of "file_blocks s f" "i div 4096" j] fb(2,3) file_block_nth [OF ok i']
      by (auto simp: file_ok_def)
    then show ?thesis by (simp add: file_byte_def sel)
  qed
  show "file_byte s' rd f (4096 * j + k) = io k" if "k < 4096" for k
    using that by (simp add: file_byte_def sel)
qed

lemma write_block_ok:
  assumes ok: "file_ok s sb rd f" and j: "int j < vi_blocks (vinodes s f)" and n: "n \<le> 4096"
  shows "\<exists>s'. write_block rd f w bo n (int j) s = Inr s' \<and> file_ok s' sb rd f \<and> file_frame s s' sb rd f \<and>
    vinodes s' = vinodes s \<and> fmap s' sb = fmap s sb \<and>
    (\<forall>i. i div 4096 \<noteq> j \<longrightarrow> i < 4096 * nat (vi_blocks (vinodes s f)) \<longrightarrow> file_byte s' rd f i = file_byte s rd f i) \<and>
    (\<forall>k < n. file_byte s' rd f (4096 * j + k) = w (bo + k))"
proof -
  let ?A = "vi_addrs (vinodes s f)"
  define io where "io = put_bytes 0 (get_bytes w bo n) (iobuffer (rdevs s rd))"
  have "length ?A = 10" using ok by (simp add: file_ok_def)
  then have run: "write_block rd f w bo n (int j) s = Inr (set_disk rd (?A ! j) io (set_iobuffer rd io s))"
    using file_block_nth(4,5) [OF ok j] by (simp add: write_block_def w1block_ok flip: io_def)
  have "io k = w (bo + k)" if "k < n" for k using that by (simp add: io_def put_bytes_def)
  then show ?thesis using run put_block_ok [OF ok j, where io = io and io' = io] n by auto
qed

text \<open>
  \<open>wrote s s' \<dots> g lo hi\<close>: the bytes of the file from \<open>lo\<close> to \<open>hi\<close> have been set to \<open>g\<close>, those before
  \<open>lo\<close> are as they were, and the file has grown to the blocks this needs.
\<close>

definition wrote :: "'h fs \<Rightarrow> 'h fs \<Rightarrow> addr \<Rightarrow> addr \<Rightarrow> addr \<Rightarrow> block \<Rightarrow> nat \<Rightarrow> nat \<Rightarrow> bool" where
  "wrote s s' sb rd f g lo hi \<longleftrightarrow> file_ok s' sb rd f \<and> file_frame s s' sb rd f \<and>
     vi_size (vinodes s' f) = vi_size (vinodes s f) \<and>
     vi_blocks (vinodes s' f) = max (vi_blocks (vinodes s f)) (int ((hi + 4095) div 4096)) \<and>
     vi_blocks (vinodes s f) + int (card (free_blks s sb)) \<le> vi_blocks (vinodes s' f) + int (card (free_blks s' sb)) \<and>
     (\<forall>i < lo. file_byte s' rd f i = file_byte s rd f i) \<and> (\<forall>i. lo \<le> i \<and> i < hi \<longrightarrow> file_byte s' rd f i = g i)"

text \<open>The disk has room for the file to reach \<open>hi\<close> bytes.\<close>

definition has_room :: "'h fs \<Rightarrow> addr \<Rightarrow> addr \<Rightarrow> nat \<Rightarrow> bool" where
  "has_room s sb f hi \<longleftrightarrow> hi \<le> 40960 \<and> int ((hi + 4095) div 4096) \<le> vi_blocks (vinodes s f) + int (card (free_blks s sb))"

lemma has_room_mono: "has_room s sb f hi \<Longrightarrow> m \<le> hi \<Longrightarrow> has_room s sb f m"
  unfolding has_room_def using div_le_mono [of "m + 4095" "hi + 4095" 4096] by linarith

lemma wrote_room: "wrote s t sb rd f g lo m \<Longrightarrow> has_room s sb f hi \<Longrightarrow> has_room t sb f hi"
  by (auto simp: wrote_def has_room_def)

lemma wrote_trans:
  assumes "wrote s t sb rd f g lo m" "wrote t u sb rd f g m hi" "lo \<le> m" "m \<le> hi"
  shows "wrote s u sb rd f g lo hi"
proof -
  have "(m + 4095) div 4096 \<le> (hi + 4095) div 4096" using assms(4) by (intro div_le_mono) simp
  then have "max (max b (int ((m + 4095) div 4096))) (int ((hi + 4095) div 4096)) = max b (int ((hi + 4095) div 4096))" for b
    by linarith
  moreover have "file_frame s u sb rd f"
    by (rule file_frame_trans [of s t]) (use assms(1,2) in \<open>simp_all add: wrote_def\<close>)
  moreover have st: "\<And>i. i < lo \<Longrightarrow> file_byte t rd f i = file_byte s rd f i" "\<And>i. lo \<le> i \<Longrightarrow> i < m \<Longrightarrow> file_byte t rd f i = g i"
    using assms(1) by (simp_all add: wrote_def)
  moreover have tu: "\<And>i. i < m \<Longrightarrow> file_byte u rd f i = file_byte t rd f i" "\<And>i. m \<le> i \<Longrightarrow> i < hi \<Longrightarrow> file_byte u rd f i = g i"
    using assms(2) by (simp_all add: wrote_def)
  moreover have "file_byte u rd f i = g i" if "lo \<le> i" "i < hi" for i
    using st(2) tu(1,2) that by (metis not_less)
  moreover have "file_byte u rd f i = file_byte s rd f i" if "i < lo" for i
    using st(1) tu(1) [of i] assms(3) that by simp
  ultimately show ?thesis using assms(1,2) by (simp add: wrote_def)
qed

lemma wrote_refl:
  assumes "file_ok s sb rd f" "int j \<le> vi_blocks (vinodes s f)"
  shows "wrote s s sb rd f g (4096 * j) (4096 * j)"
proof -
  have "(4096 * j + 4095) div 4096 = j" by simp
  then show ?thesis using assms by (auto simp: wrote_def file_frame_refl)
qed

lemma write_step_ok:
  assumes ok: "file_ok s sb rd f" and j: "int j \<le> vi_blocks (vinodes s f)" and n: "0 < n" "n \<le> 4096"
    and room: "has_room s sb f (4096 * j + n)" and g: "\<And>k. k < n \<Longrightarrow> g (4096 * j + k) = w (bo + k)"
  shows "\<exists>s'. bnd (grow_file f (int j) s) (write_block rd f w bo n (int j)) = Inr s' \<and>
    wrote s s' sb rd f g (4096 * j) (4096 * j + n)"
proof -
  have c: "(4096 * j + n + 4095) div 4096 = Suc j" using n by (intro div_nat_eqI) auto
  have j10: "j < 10" using room n(1) by (simp add: has_room_def)
  have "free_blks s sb \<noteq> {}" if "int j = vi_blocks (vinodes s f)"
    using room c that by (auto simp: has_room_def)
  then obtain t where t: "grow_file f (int j) s = Inr t" "file_ok t sb rd f" "file_frame s t sb rd f" "disk t = disk s"
    "vi_size (vinodes t f) = vi_size (vinodes s f)" "vi_blocks (vinodes t f) = max (vi_blocks (vinodes s f)) (int j + 1)"
    "\<forall>i < nat (vi_blocks (vinodes s f)). vi_addrs (vinodes t f) ! i = vi_addrs (vinodes s f) ! i"
    "card (free_blks s sb) \<le> card (free_blks t sb) + (if int j = vi_blocks (vinodes s f) then 1 else 0)"
    using grow_file_ok [OF ok j j10] by blast
  have jt: "int j < vi_blocks (vinodes t f)" using t(6) by simp
  obtain u where u: "write_block rd f w bo n (int j) t = Inr u" "file_ok u sb rd f" "file_frame t u sb rd f"
    "vinodes u = vinodes t" "fmap u sb = fmap t sb"
    "\<forall>i. i div 4096 \<noteq> j \<longrightarrow> i < 4096 * nat (vi_blocks (vinodes t f)) \<longrightarrow> file_byte u rd f i = file_byte t rd f i"
    "\<forall>k < n. file_byte u rd f (4096 * j + k) = w (bo + k)"
    using write_block_ok [OF t(2) jt n(2), of w bo] by blast
  have fr: "free_blks u sb = free_blks t sb" using u(5) by (simp add: free_blks_def)
  have low: "file_byte u rd f i = file_byte s rd f i" if i: "i < 4096 * j" for i
  proof -
    have "i div 4096 < j" using i by (simp add: less_mult_imp_div_less)
    moreover from this have "i div 4096 < nat (vi_blocks (vinodes s f))" using j by linarith
    moreover have "j < nat (vi_blocks (vinodes t f))" using jt by linarith
    ultimately show ?thesis using u(6) i t(4,7) by (simp add: file_byte_def)
  qed
  have "file_byte u rd f i = g i" if "4096 * j \<le> i" "i < 4096 * j + n" for i
    using u(7) g [of "i - 4096 * j"] that by (metis add_diff_inverse_nat leD nat_add_left_cancel_less)
  then have "wrote s u sb rd f g (4096 * j) (4096 * j + n)"
    using low u(2,4) t(5,6,8) j file_frame_trans [OF t(3) u(3)] by (auto simp: wrote_def fr c split: if_splits)
  then show ?thesis using t(1) u(1) by simp
qed

lemma write_blocks_ok:
  assumes "file_ok s sb rd f" "int j \<le> vi_blocks (vinodes s f)" "has_room s sb f (4096 * (j + t))"
    "\<And>k. k < 4096 * t \<Longrightarrow> g (4096 * j + k) = w (bo + k)"
  shows "\<exists>s'. write_blocks t rd f w bo (int j) s = Inr s' \<and> wrote s s' sb rd f g (4096 * j) (4096 * (j + t))"
  using assms
proof (induction t arbitrary: s j bo)
  case 0
  then show ?case using wrote_refl by simp
next
  case (Suc t)
  obtain u where u: "bnd (grow_file f (int j) s) (write_block rd f w bo BLK (int j)) = Inr u"
    "wrote s u sb rd f g (4096 * j) (4096 * j + BLK)"
    using write_step_ok [OF Suc.prems(1,2), of BLK g w bo] has_room_mono [OF Suc.prems(3), of "4096 * j + BLK"]
      Suc.prems(4) by auto
  have uo: "file_ok u sb rd f" "int (Suc j) \<le> vi_blocks (vinodes u f)" "has_room u sb f (4096 * (Suc j + t))"
    using u(2) wrote_room [OF u(2) Suc.prems(3)] by (auto simp: wrote_def)
  obtain v where v: "write_blocks t rd f w (bo + BLK) (int (Suc j)) u = Inr v"
    "wrote u v sb rd f g (4096 * Suc j) (4096 * (Suc j + t))"
    using Suc.IH [OF uo, of "bo + BLK"] Suc.prems(4) [of "BLK + _"] by (auto simp: algebra_simps)
  have "wrote s v sb rd f g (4096 * j) (4096 * (j + Suc t))"
    using wrote_trans [OF u(2), of v "4096 * (Suc j + t)"] v(2) by (simp add: algebra_simps)
  moreover have "write_blocks (Suc t) rd f w bo (int j) s = Inr v"
    using u(1) v(1) by (cases "grow_file f (int j) s") (auto simp: add.commute)
  ultimately show ?case by blast
qed

lemma write_tail_ok:
  assumes "file_ok s sb rd f" "int j \<le> vi_blocks (vinodes s f)" "has_room s sb f (4096 * (j + t) + r)" "r < 4096"
    "\<And>k. k < 4096 * t + r \<Longrightarrow> g (4096 * j + k) = w (bo + k)"
  shows "\<exists>s'. write_tail rd f w (int t) (int r) bo (int j) s = Inr s' \<and>
    wrote s s' sb rd f g (4096 * j) (4096 * (j + t) + r)"
proof -
  obtain u where u: "write_blocks t rd f w bo (int j) s = Inr u" "wrote s u sb rd f g (4096 * j) (4096 * (j + t))"
    using write_blocks_ok [OF assms(1,2) has_room_mono [OF assms(3)], of t g w bo] assms(5) by auto
  show ?thesis
  proof (cases "r = 0")
    case True
    then show ?thesis using u by (auto simp: write_tail_def)
  next
    case False
    have uo: "file_ok u sb rd f" "int (j + t) \<le> vi_blocks (vinodes u f)" "has_room u sb f (4096 * (j + t) + r)"
      using u(2) wrote_room [OF u(2) assms(3)] by (auto simp: wrote_def)
    obtain v where v: "bnd (grow_file f (int (j + t)) u) (write_block rd f w (bo + t * BLK) r (int (j + t))) = Inr v"
      "wrote u v sb rd f g (4096 * (j + t)) (4096 * (j + t) + r)"
      using write_step_ok [OF uo(1,2) _ _ uo(3), of g w "bo + t * BLK"] False assms(4) assms(5) [of "4096 * t + _"]
      by (auto simp: algebra_simps)
    have "wrote s v sb rd f g (4096 * j) (4096 * (j + t) + r)" by (rule wrote_trans [OF u(2) v(2)]) auto
    then show ?thesis using u(1) v(1) False by (auto simp: write_tail_def)
  qed
qed

lemma write_head_ok:
  assumes ok: "file_ok s sb rd f" and q: "int q < vi_blocks (vinodes s f)" and a: "a + m \<le> 4096"
    and g: "\<And>k. k < m \<Longrightarrow> g (4096 * q + a + k) = w k"
  shows "\<exists>s'. write_head rd f w (int a) (int m) (int q) s = Inr s' \<and>
    wrote s s' sb rd f g (4096 * q + a) (4096 * q + a + m)"
proof -
  let ?A = "vi_addrs (vinodes s f)"
  define io where "io = put_bytes a (get_bytes w 0 m) (disk s rd (?A ! q))"
  define s' where "s' = set_disk rd (?A ! q) io (set_iobuffer rd io s)"
  have "length ?A = 10" using ok by (simp add: file_ok_def)
  then have run: "write_head rd f w (int a) (int m) (int q) s = Inr s'"
    using file_block_nth(4,5) [OF ok q] by (simp add: write_head_def r1block_ok w1block_ok io_def s'_def)
  note pb = put_block_ok [OF ok q, where io = io and io' = io, folded s'_def]
  have c: "int ((4096 * q + a + m + 4095) div 4096) \<le> vi_blocks (vinodes s f)"
  proof -
    have "(4096 * q + a + m + 4095) div 4096 \<le> Suc q" using a by (simp add: less_Suc_eq_le [symmetric] div_less_iff_less_mult)
    then show ?thesis using q by linarith
  qed
  have ioa: "io k = (if a \<le> k \<and> k < a + m then w (k - a) else disk s rd (?A ! q) k)" for k
    by (auto simp: io_def put_bytes_def)
  have lo: "file_byte s' rd f i = file_byte s rd f i" if i: "i < 4096 * q + a" for i
  proof (cases "i div 4096 = q")
    case True
    then have "i = 4096 * q + i mod 4096" by (metis mult_div_mod_eq)
    then show ?thesis using pb(6) [of "i mod 4096"] i True by (simp add: ioa file_byte_def)
  next
    case False
    have "i < 4096 * Suc q" using i a by simp
    also have "\<dots> \<le> 4096 * nat (vi_blocks (vinodes s f))" using q by (intro mult_le_mono2) linarith
    finally show ?thesis by (rule pb(5) [OF False])
  qed
  have hi: "file_byte s' rd f i = g i" if i: "4096 * q + a \<le> i" "i < 4096 * q + a + m" for i
  proof -
    obtain k where k: "i = 4096 * q + a + k" "k < m" using i by (metis add_less_cancel_left le_Suc_ex)
    then show ?thesis using pb(6) [of "a + k"] a g [of k] by (simp add: ioa add.assoc)
  qed
  have "wrote s s' sb rd f g (4096 * q + a) (4096 * q + a + m)"
    unfolding wrote_def using pb(1-3) lo hi c by (simp add: free_blks_def pb(4))
  then show ?thesis using run by blast
qed

lemma rfs_write_ok:
  assumes ok: "file_ok s sb rd f" and o: "0 \<le> off" "off \<le> vi_size (vinodes s f)" and l: "0 \<le> len"
    and room: "has_room s sb f (nat (off + len))"
  shows "\<exists>t. rfs_write f w len off s = Inr ((len, off + len),
      t\<lparr>vinodes := (vinodes t)(f := (vinodes t f)\<lparr>vi_size := max (vi_size (vinodes s f)) (off + len)\<rparr>)\<rparr>) \<and>
    wrote s t sb rd f (\<lambda>i. w (i - nat off)) (nat off) (nat (off + len))"
proof -
  obtain q a t r where sp: "off = int (4096 * q + a)" "a < 4096" "int a + len = int (4096 * t + r)" "r < 4096"
    "off smod 4096 = int a" "off sdiv 4096 = int q" "(int a + len) sdiv 4096 = int t" "(int a + len) smod 4096 = int r"
    by (rule split_transfer [OF o(1) l])
  let ?g = "\<lambda>i. w (i - nat off)" and ?m = "if int t = 0 then len else 4096 - int a"
  have onr: "off + len = int (4096 * (q + t) + r)" using sp(1,3) by simp
  have e: "nat (off + len) = 4096 * (q + t) + r" "nat off = 4096 * q + a"
    using arg_cong [OF onr, of nat] arg_cong [OF sp(1), of nat] by (simp_all only: nat_int)
  have v: "vi_sb (vinodes s f) = sb" "rdev_of sb s = Inr rd" "vi_size (vinodes s f) \<le> 4096 * vi_blocks (vinodes s f)"
    using ok by (simp_all add: file_ok_def)
  have qB: "int q \<le> vi_blocks (vinodes s f)" "0 < a \<Longrightarrow> int q < vi_blocks (vinodes s f)"
    using o(2) v(3) sp(1) by linarith+
  have "\<exists>u. (if int a \<noteq> 0 then bnd (write_head rd f w (int a) ?m (int q) s)
                (write_tail rd f w (int t - 1) (int r) (nat ?m) (int q + 1))
          else write_tail rd f w (int t) (int r) 0 (int q) s) = Inr u \<and>
      wrote s u sb rd f ?g (nat off) (nat (off + len))"
  proof (cases "a = 0")
    case True
    then show ?thesis
      using write_tail_ok [OF ok qB(1), of t r ?g w 0] room sp(4) e by (auto simp: algebra_simps)
  next
    case a: False
    show ?thesis
    proof (cases t)
      case 0
      then have m: "?m = int (r - a)" "a \<le> r" using sp(3) l by auto
      obtain u where u: "write_head rd f w (int a) (int (r - a)) (int q) s = Inr u"
        "wrote s u sb rd f ?g (4096 * q + a) (4096 * q + a + (r - a))"
        using write_head_ok [OF ok qB(2), of a "r - a" ?g w] a sp(4) m(2) e(2) by auto
      then show ?thesis using 0 a m e by (intro exI [of _ u]) (simp add: write_tail_def)
    next
      case (Suc k)
      then have m: "?m = int (4096 - a)" using sp(2) by simp
      obtain u where u: "write_head rd f w (int a) (int (4096 - a)) (int q) s = Inr u"
        "wrote s u sb rd f ?g (4096 * q + a) (4096 * q + a + (4096 - a))"
        using write_head_ok [OF ok qB(2), of a "4096 - a" ?g w] a sp(2) e(2) by auto
      have wu: "wrote s u sb rd f ?g (nat off) (4096 * Suc q)" using u(2) e(2) sp(2) by (simp add: add.commute)
      have uo: "file_ok u sb rd f" "int (Suc q) \<le> vi_blocks (vinodes u f)" "has_room u sb f (4096 * (Suc q + k) + r)"
        using wu wrote_room [OF wu room] e(1) Suc by (auto simp: wrote_def)
      obtain x where x: "write_tail rd f w (int k) (int r) (4096 - a) (int (Suc q)) u = Inr x"
        "wrote u x sb rd f ?g (4096 * Suc q) (4096 * (Suc q + k) + r)"
      proof -
        have "\<exists>x. write_tail rd f w (int k) (int r) (4096 - a) (int (Suc q)) u = Inr x \<and>
            wrote u x sb rd f ?g (4096 * Suc q) (4096 * (Suc q + k) + r)"
          by (rule write_tail_ok [OF uo sp(4)]) (use e(2) sp(2) in simp)
        then show ?thesis using that by blast
      qed
      have "wrote s x sb rd f ?g (nat off) (4096 * (Suc q + k) + r)"
        using e(2) sp(2) by (intro wrote_trans [OF wu x(2)]) auto
      moreover have "nat (off + len) = 4096 * (Suc q + k) + r" using e(1) Suc by simp
      moreover have "int t - 1 = int k" "int q + 1 = int (Suc q)" "int a \<noteq> 0" using Suc a by simp_all
      ultimately show ?thesis using u(1) x(1) by (intro exI [of _ x]) (simp only: m nat_int bnd_simps if_True simp_thms)
    qed
  qed
  then obtain u where u: "(if int a \<noteq> 0 then bnd (write_head rd f w (int a) ?m (int q) s)
                (write_tail rd f w (int t - 1) (int r) (nat ?m) (int q + 1))
          else write_tail rd f w (int t) (int r) 0 (int q) s) = Inr u"
    "wrote s u sb rd f ?g (nat off) (nat (off + len))" by blast
  then have "vi_size (vinodes u f) = vi_size (vinodes s f)" by (simp add: wrote_def)
  then have "rfs_write f w len off s = Inr ((len, off + len),
      u\<lparr>vinodes := (vinodes u)(f := (vinodes u f)\<lparr>vi_size := max (vi_size (vinodes s f)) (off + len)\<rparr>)\<rparr>)"
    using o(2) v(1,2) u(1) sp(5-8)
    by (simp add: rfs_write_def Let_def add.commute [of len] max_def del: of_nat_eq_0_iff) auto
  then show ?thesis using u(2) by blast
qed

lemma rfs_write_bytes:
  assumes "file_ok s sb rd f" "0 \<le> off" "off \<le> vi_size (vinodes s f)" "0 < len" "has_room s sb f (nat (off + len))"
  shows "\<exists>s'. rfs_write f w len off s = Inr ((len, off + len), s') \<and> file_ok s' sb rd f \<and>
    (\<exists>R F V. s' = s\<lparr>rdevs := R, freemaps := F, vinodes := V\<rparr>) \<and>
    (\<exists>A B. vinodes s' f = (vinodes s f)\<lparr>vi_addrs := A, vi_blocks := B, vi_size := max (vi_size (vinodes s f)) (off + len)\<rparr>) \<and>
    off + len \<le> 4096 * vi_blocks (vinodes s' f) \<and>
    map (file_byte s' rd f) [nat off..<nat (off + len)] = get_bytes w 0 (nat len)"
proof -
  obtain t where t: "rfs_write f w len off s = Inr ((len, off + len),
      t\<lparr>vinodes := (vinodes t)(f := (vinodes t f)\<lparr>vi_size := max (vi_size (vinodes s f)) (off + len)\<rparr>)\<rparr>)"
    and wr: "wrote s t sb rd f (\<lambda>i. w (i - nat off)) (nat off) (nat (off + len))"
    using rfs_write_ok [OF assms(1-3) _ assms(5)] assms(4) by auto
  define s' where "s' = t\<lparr>vinodes := (vinodes t)(f := (vinodes t f)\<lparr>vi_size := max (vi_size (vinodes s f)) (off + len)\<rparr>)\<rparr>"
  have tb: "file_ok t sb rd f" "vi_size (vinodes t f) = vi_size (vinodes s f)"
    "int ((nat (off + len) + 4095) div 4096) \<le> vi_blocks (vinodes t f)"
    using wr by (auto simp: wrote_def)
  obtain R F V A B Z where fr: "t = s\<lparr>rdevs := R, freemaps := F, vinodes := V\<rparr>"
    "vinodes t f = (vinodes s f)\<lparr>vi_addrs := A, vi_blocks := B, vi_size := Z\<rparr>"
    using wr unfolding wrote_def file_frame_def by blast
  have "nat (off + len) \<le> 4096 * ((nat (off + len) + 4095) div 4096)" by linarith
  then have lim: "off + len \<le> 4096 * vi_blocks (vinodes t f)" using tb(3) by linarith
  then have ok: "file_ok s' sb rd f" using tb(1,2) by (auto simp: file_ok_def file_blocks_def s'_def)
  have "s' = s\<lparr>rdevs := R, freemaps := F, vinodes := vinodes s'\<rparr>" using fr(1) by (simp add: s'_def)
  moreover have "vinodes s' f = (vinodes s f)\<lparr>vi_addrs := A, vi_blocks := B, vi_size := max (vi_size (vinodes s f)) (off + len)\<rparr>"
    using fr(2) by (simp add: s'_def)
  moreover have "map (file_byte s' rd f) [nat off..<nat (off + len)] = get_bytes w 0 (nat len)"
    using wr assms(2,4) by (intro nth_equalityI) (simp_all add: wrote_def nat_add_distrib s'_def file_byte_def)
  moreover have "off + len \<le> 4096 * vi_blocks (vinodes s' f)" using lim by (simp add: s'_def)
  ultimately show ?thesis using t ok unfolding s'_def [symmetric] by blast
qed

section \<open>Properties\<close>

text \<open>A mounted disk with one file of five bytes, for the witnesses.\<close>

definition ex_vinode :: vinode where
  "ex_vinode = \<lparr>vi_inum = 1, vi_ref = 1, vi_size = 5, vi_type = FILE_I, vi_nlinks = 1, vi_blocks = 1,
     vi_addrs = [13, 0, 0, 0, 0, 0, 0, 0, 0, 0], vi_fs_info = 0, vi_sb = 0x80003000, vi_ops = Rfs_i_ops\<rparr>"

definition ex_fs :: "unit fs" where
  "ex_fs = \<lparr>fs_pool = \<lparr>pool_lo = 0x80000000, pool_hi = 0x88000000, pages_free = [0x80009000, 0x80008000, 0x80007000]\<rparr>,
     vinodes = (\<lambda>_. ex_vinode), dentries = (\<lambda>_. \<lparr>d_name = [97], d_ref = 0, d_inode = 0, d_parent = 0\<rparr>),
     sbs = (\<lambda>_. \<lparr>sb_magic = 0xBEAF, sb_size = 112, sb_nblocks = 100, sb_ninodes = 320, s_root = 0, s_dev = 0x80004000,
       s_fs_info = 0x80005000\<rparr>),
     devs = (\<lambda>_. \<lparr>dev_name = [82], dev_id = 0, dev_fs_type = 0\<rparr>),
     fs_types = (\<lambda>_. \<lparr>type_num = 0, fst_get_superblock = Rfs_get_superblock\<rparr>),
     dinodes = (\<lambda>_. \<lparr>di_size = 0, di_type = 2, di_nlinks = 0, di_blocks = 0, di_addrs = replicate 10 0\<rparr>),
     freemaps = (\<lambda>_ i. if i = 0 \<or> i = 1 then 1 else 0), dir_caches = (\<lambda>_. \<lparr>block_count = 0, dir_base_addr = 0\<rparr>),
     raw_pages = (\<lambda>_ _. 0),
     rdevs = (\<lambda>_. \<lparr>d_disk = (\<lambda>b i. if b = 13 \<and> i < 5 then of_nat i + 1 else 0), d_blocks = 128, d_blocksize = 4096,
       iobuffer = (\<lambda>_. 0)\<rparr>),
     vfiles = (\<lambda>_. \<lparr>f_status = 0, f_readable = 0, f_writable = 0, f_offset = 0, f_dentry = 0\<rparr>),
     rfs_device_list = [0x80001000, 0, 0, 0, 0, 0, 0, 0, 0, 0], fs_list = replicate 10 0, vfs_dev_list = replicate 10 0,
     vfs_sb_list = replicate 10 0, vfs_root_dentry = 0,
     dentry_hash_table = \<lparr>ht_head = (\<lambda>_. 0), ht_nodes = (\<lambda>_. \<lparr>hn_next = 0, hn_key = \<lparr>dk_parent = 0, dk_name = []\<rparr>, hn_value = 0\<rparr>)\<rparr>,
     vinode_hash_table = \<lparr>ht_head = (\<lambda>_. 0), ht_nodes = (\<lambda>_. \<lparr>hn_next = 0, hn_key = \<lparr>vk_inum = 0, vk_sb = 0\<rparr>, hn_value = 0\<rparr>)\<rparr>,
     fs_host = ()\<rparr>"

lemma ex_fs_file: "file_ok ex_fs 0x80003000 0x80001000 f"
  by (simp add: file_ok_def file_blocks_def rdev_of_def fmap_def ex_fs_def ex_vinode_def)

lemma ex_fs_data: "file_data ex_fs 0x80001000 f = [1, 2, 3, 4, 5]"
  by (simp add: file_data_def file_byte_def disk_def ex_fs_def ex_vinode_def upt_rec)

text \<open>
  C16. \<^verbatim>\<open>rfs_write\<close> at an offset within the file stores the caller's bytes there: the file keeps what it
  had before the offset, then holds the written bytes, and its size becomes the larger of the old size and
  the end of the write. It allocates the blocks that are missing, fails on no path while the disk has room,
  and changes no block of another file, no metadata block and no other inode. Every number of complete blocks
  and every misalignment of the offset is covered.
\<close>

theorem rfs_write_correct:
  assumes "file_ok s sb rd f" "0 \<le> off" "off \<le> vi_size (vinodes s f)" "0 \<le> len" "has_room s sb f (nat (off + len))"
  shows "\<exists>s'. rfs_write f w len off s = Inr ((len, off + len), s') \<and> file_ok s' sb rd f \<and>
    vi_size (vinodes s' f) = max (vi_size (vinodes s f)) (off + len) \<and>
    take (nat (off + len)) (file_data s' rd f) = take (nat off) (file_data s rd f) @ get_bytes w 0 (nat len) \<and>
    (\<forall>b. kept s sb f b \<longrightarrow> disk s' rd b = disk s rd b) \<and> (\<forall>g. g \<noteq> f \<longrightarrow> vinodes s' g = vinodes s g)"
proof -
  obtain t where t: "rfs_write f w len off s = Inr ((len, off + len),
      t\<lparr>vinodes := (vinodes t)(f := (vinodes t f)\<lparr>vi_size := max (vi_size (vinodes s f)) (off + len)\<rparr>)\<rparr>)"
    and wr: "wrote s t sb rd f (\<lambda>i. w (i - nat off)) (nat off) (nat (off + len))"
    using rfs_write_ok [OF assms] by blast
  define s' where "s' = t\<lparr>vinodes := (vinodes t)(f := (vinodes t f)\<lparr>vi_size := max (vi_size (vinodes s f)) (off + len)\<rparr>)\<rparr>"
  let ?z = "max (vi_size (vinodes s f)) (off + len)"
  have tb: "file_ok t sb rd f" "vi_size (vinodes t f) = vi_size (vinodes s f)"
    "int ((nat (off + len) + 4095) div 4096) \<le> vi_blocks (vinodes t f)" "file_frame s t sb rd f"
    using wr by (auto simp: wrote_def)
  have byte: "file_byte s' rd f i = file_byte t rd f i" for i by (simp add: s'_def file_byte_def)
  have "nat (off + len) \<le> 4096 * ((nat (off + len) + 4095) div 4096)" by linarith
  then have "off + len \<le> 4096 * vi_blocks (vinodes t f)" using tb(3) by linarith
  then have ok: "file_ok s' sb rd f" using tb(1,2) by (auto simp: file_ok_def file_blocks_def s'_def)
  have "take (nat (off + len)) (file_data s' rd f) = map (file_byte t rd f) [0..<nat (off + len)]"
    by (simp add: file_data_def s'_def byte [unfolded s'_def] take_map min_def)
  also have "\<dots> = map (file_byte t rd f) [0..<nat off] @ map (file_byte t rd f) [nat off..<nat (off + len)]"
    using assms(2,4) by (intro map_upt_app [symmetric]) simp_all
  also have "map (file_byte t rd f) [0..<nat off] = take (nat off) (file_data s rd f)"
    using wr assms(3) by (simp add: file_data_def take_map wrote_def min_def)
  also have "map (file_byte t rd f) [nat off..<nat (off + len)] = get_bytes w 0 (nat len)"
    using wr assms(2,4) by (intro nth_equalityI) (simp_all add: wrote_def nat_add_distrib)
  finally have "take (nat (off + len)) (file_data s' rd f) = take (nat off) (file_data s rd f) @ get_bytes w 0 (nat len)" .
  then show ?thesis using t ok tb(4) by (intro exI [of _ s']) (simp add: file_frame_def s'_def)
qed

theorem rfs_write_correct_witness:
  "\<exists>s'. rfs_write 0x80002000 (\<lambda>i. 9) 4 3 ex_fs = Inr ((4, 7), s') \<and>
     take 7 (file_data s' 0x80001000 0x80002000) = [1, 2, 3, 9, 9, 9, 9]"
proof -
  have "has_room ex_fs 0x80003000 0x80002000 (nat (3 + 4))" by (simp add: has_room_def) (simp add: ex_fs_def ex_vinode_def)
  moreover have "(3 :: int) \<le> vi_size (vinodes ex_fs 0x80002000)" by (simp add: ex_fs_def ex_vinode_def)
  ultimately obtain s' where "rfs_write 0x80002000 (\<lambda>i. 9) 4 3 ex_fs = Inr ((4, 3 + 4), s')"
    "take (nat (3 + 4)) (file_data s' 0x80001000 0x80002000) =
     take (nat 3) (file_data ex_fs 0x80001000 0x80002000) @ get_bytes (\<lambda>i. 9) 0 (nat 4)"
    using rfs_write_correct [OF ex_fs_file, of 3 "0x80002000" 4 "\<lambda>i. 9"] by auto
  then show ?thesis by (intro exI [of _ s']) (simp add: ex_fs_data get_bytes_def upt_rec)
qed



text \<open>
  What was written is read back: after \<^verbatim>\<open>rfs_write\<close> of bytes without a zero byte at some offset of
  the file, \<^verbatim>\<open>rfs_read\<close> of the same length at the same offset returns the same bytes.
\<close>

theorem rfs_write_read_roundtrip:
  assumes "file_ok s sb rd f" "0 \<le> off" "off \<le> vi_size (vinodes s f)" "0 < len" "has_room s sb f (nat (off + len))"
    "0 \<notin> set (get_bytes w 0 (nat len))"
  shows "\<exists>s' s''. rfs_write f w len off s = Inr ((len, off + len), s') \<and>
    rfs_read f len off s' = Inr ((len, get_bytes w 0 (nat len) @ [0], off + len), s'')"
proof -
  obtain s' A B where w: "rfs_write f w len off s = Inr ((len, off + len), s')" "file_ok s' sb rd f"
    "vinodes s' f = (vinodes s f)\<lparr>vi_addrs := A, vi_blocks := B, vi_size := max (vi_size (vinodes s f)) (off + len)\<rparr>"
    "off + len \<le> 4096 * vi_blocks (vinodes s' f)" "map (file_byte s' rd f) [nat off..<nat (off + len)] = get_bytes w 0 (nat len)"
    using rfs_write_bytes [OF assms(1-5)] by blast
  have v: "vi_size (vinodes s' f) = max (vi_size (vinodes s f)) (off + len)" using w(3) by simp
  then have m: "min len (vi_size (vinodes s' f) - off) = len" by simp
  have "\<exists>io. rfs_read f len off s' = Inr ((len, takeWhile (\<lambda>c. c \<noteq> 0) (get_bytes w 0 (nat len)) @ [0], off + len),
      set_iobuffer rd io s')"
    using rfs_read_eq [OF w(2) assms(2), of len] assms(3,4) w(4,5) unfolding m v by auto
  moreover have "takeWhile (\<lambda>c. c \<noteq> 0) (get_bytes w 0 (nat len)) = get_bytes w 0 (nat len)"
    using assms(6) by (auto simp: takeWhile_eq_all_conv)
  ultimately show ?thesis using w(1) by auto
qed

theorem rfs_write_read_roundtrip_witness:
  "\<exists>s' s''. rfs_write 0x80002000 (\<lambda>i. 7) 2 5 ex_fs = Inr ((2, 7), s') \<and>
     rfs_read 0x80002000 2 5 s' = Inr ((2, [7, 7, 0], 7), s'')"
proof -
  have "has_room ex_fs 0x80003000 0x80002000 (nat (5 + 2))" by (simp add: has_room_def) (simp add: ex_fs_def ex_vinode_def)
  moreover have "(5 :: int) \<le> vi_size (vinodes ex_fs 0x80002000)" by (simp add: ex_fs_def ex_vinode_def)
  ultimately have "\<exists>s' s''. rfs_write 0x80002000 (\<lambda>i. 7) 2 5 ex_fs = Inr ((2, 5 + 2), s') \<and>
      rfs_read 0x80002000 2 5 s' = Inr ((2, get_bytes (\<lambda>i. 7) 0 (nat 2) @ [0], 5 + 2), s'')"
    by (intro rfs_write_read_roundtrip [OF ex_fs_file]) (simp_all add: get_bytes_def)
  then show ?thesis by (simp add: get_bytes_def upt_rec)
qed



text \<open>
  A disk inode that is written is read back unchanged, every other disk inode and every block outside the
  inode area keeps its contents.
\<close>

theorem dinode_roundtrip:
  assumes "inum_ok n" "dinode_ok d" "pages_free (fs_pool s) = p # ps" "p \<noteq> 0"
  shows "\<exists>s' s''. rfs_write_dinode rd d n s = Inr (0, s') \<and> rfs_read_dinode rd n s' = Inr (p, s'') \<and>
    dinodes s'' p = d \<and> (\<forall>m. m \<noteq> n \<longrightarrow> dinode_on (disk s' rd) m = dinode_on (disk s rd) m) \<and>
    (\<forall>b. b < 1 \<or> 11 \<le> b \<longrightarrow> disk s' rd b = disk s rd b)"
proof -
  obtain io b where w: "rfs_write_dinode rd d n s = Inr (0, set_disk rd (n div 32 + 1) b (set_iobuffer rd io s))"
    "dinode_on ((disk s rd)(n div 32 + 1 := b)) = (dinode_on (disk s rd))(n := d)"
    using write_dinode_ok [OF assms(1,2)] by blast
  let ?t = "set_disk rd (n div 32 + 1) b (set_iobuffer rd io s)"
  have "pages_free (fs_pool ?t) = p # ps" using assms(3) by simp
  then obtain io' where "rfs_read_dinode rd n ?t = Inr (p, set_iobuffer rd io' (?t\<lparr>fs_pool := (fs_pool ?t)\<lparr>pages_free := ps\<rparr>,
      dinodes := (dinodes ?t)(p := dinode_on (disk ?t rd) n)\<rparr>))"
    using read_dinode_ok [OF assms(1) _ assms(4)] by blast
  then show ?thesis using w inode_block_area [OF assms(1)] by auto
qed

theorem dinode_roundtrip_witness:
  "\<exists>s' s''. rfs_write_dinode 0x80001000 \<lparr>di_size = 5, di_type = 0, di_nlinks = 1, di_blocks = 1, di_addrs = replicate 10 13\<rparr> 33 ex_fs
      = Inr (0, s') \<and> rfs_read_dinode 0x80001000 33 s' = Inr (0x80009000, s'') \<and> di_size (dinodes s'' 0x80009000) = 5"
proof -
  let ?d = "\<lparr>di_size = 5, di_type = 0, di_nlinks = 1, di_blocks = 1, di_addrs = replicate 10 13\<rparr>"
  have "inum_ok 33" "dinode_ok ?d" "pages_free (fs_pool ex_fs) = 0x80009000 # [0x80008000, 0x80007000]"
    by (simp_all add: inum_ok_def dinode_ok_def int32_def ex_fs_def)
  then obtain s' s'' where "rfs_write_dinode 0x80001000 ?d 33 ex_fs = Inr (0, s')"
    "rfs_read_dinode 0x80001000 33 s' = Inr (0x80009000, s'')" "dinodes s'' 0x80009000 = ?d"
    using dinode_roundtrip [of 33 ?d ex_fs "0x80009000" _ "0x80001000"] by auto
  then show ?thesis by (intro exI [of _ s'] exI [of _ s'']) simp
qed

text \<open>
  \<^verbatim>\<open>rfs_alloc_block\<close> returns a data block that was free and marks it used, leaving every other mark;
  releasing it with \<^verbatim>\<open>rfs_free_block\<close> restores the bitmap. It panics exactly when all 100 blocks are in use.
\<close>

theorem rfs_block_roundtrip:
  assumes "sb_nblocks (sbs s sb) = NBLOCKS"
  shows "(if free_blks s sb = {} then rfs_alloc_block sb s = Inl (Panic ''rfs_alloc_block: no more free block!'')
     else \<exists>b s' s''. rfs_alloc_block sb s = Inr (b, s') \<and> 12 \<le> b \<and> b < 112 \<and> fmap s sb (b - 12) = 0 \<and>
       fmap s' sb = (fmap s sb)(b - 12 := 1) \<and> rfs_free_block sb b s' = Inr (0, s'') \<and> fmap s'' sb = fmap s sb)"
proof (cases "free_blks s sb = {}")
  case True
  then show ?thesis using alloc_block_full [OF assms True] by simp
next
  case False
  obtain i where i: "i \<in> free_blks s sb" "rfs_alloc_block sb s = Inr (12 + i, set_fmap sb i 1 s)"
    using alloc_block_ok [OF assms False] by blast
  have ib: "0 \<le> i" "i < 100" "fmap s sb i = 0" using i(1) by (auto simp: free_blks_def)
  then have "rfs_free_block sb (12 + i) (set_fmap sb i 1 s) = Inr (0, set_fmap sb i 0 (set_fmap sb i 1 s))"
    by (simp add: rfs_free_block_def Let_def set_fmap_def fmap_def)
  moreover have "(fmap s sb)(i := 0) = fmap s sb" using ib(3) by auto
  ultimately show ?thesis using False i(2) ib by auto
qed

theorem rfs_block_roundtrip_witness:
  "\<exists>b s'. rfs_alloc_block 0x80003000 ex_fs = Inr (b, s') \<and> fmap ex_fs 0x80003000 (b - 12) = 0"
proof -
  have n: "sb_nblocks (sbs ex_fs 0x80003000) = NBLOCKS" by (simp add: ex_fs_def)
  have "2 \<in> free_blks ex_fs 0x80003000" by (simp add: free_blks_def fmap_def ex_fs_def)
  then have "free_blks ex_fs 0x80003000 \<noteq> {}" by blast
  then show ?thesis using rfs_block_roundtrip [OF n] by auto
qed

end
