(* ===== verification/Rfs_Dirs.thy ===== *)
theory Rfs_Dirs
  imports Rfs_Files
begin

text \<open>
  Correctness of the directory operations of \<^verbatim>\<open>kernel/rfs.c\<close>. A directory is a file of 32-byte entries;
  it is abstracted to the list of its entries, pairs of a name and an inode number. Lookup is shown to be
  lookup in that list, adding an entry appends to it, and removing one deletes it.
\<close>

section \<open>The entries of a directory\<close>

abbreviation (input) ent_off :: "nat \<Rightarrow> nat" where "ent_off i \<equiv> (i mod 128) * DIRENTRY_SIZE"

definition ent_blk :: "'h fs \<Rightarrow> addr \<Rightarrow> addr \<Rightarrow> nat \<Rightarrow> block" where
  "ent_blk s rd d i = disk s rd (vi_addrs (vinodes s d) ! (i div 128))"

definition dir_entry :: "'h fs \<Rightarrow> addr \<Rightarrow> addr \<Rightarrow> nat \<Rightarrow> cname \<times> int" where
  "dir_entry s rd d i = (str_at (ent_blk s rd d i) (ent_off i + 4), get32 (ent_blk s rd d i) (ent_off i))"

definition dir_count :: "'h fs \<Rightarrow> addr \<Rightarrow> nat" where
  "dir_count s d = nat (vi_size (vinodes s d)) div 32"

definition dir_list :: "'h fs \<Rightarrow> addr \<Rightarrow> addr \<Rightarrow> (cname \<times> int) list" where
  "dir_list s rd d = map (dir_entry s rd d) [0..<dir_count s d]"

text \<open>The name field of every entry is terminated.\<close>

definition ent_ok :: "block \<Rightarrow> nat \<Rightarrow> bool" where
  "ent_ok b off \<longleftrightarrow> (\<exists>k < 28. b (off + 4 + k) = 0)"

definition dir_ok :: "'h fs \<Rightarrow> addr \<Rightarrow> addr \<Rightarrow> addr \<Rightarrow> bool" where
  "dir_ok s sb rd d \<longleftrightarrow> file_ok s sb rd d \<and> vi_type (vinodes s d) = DIR_I \<and> vi_size (vinodes s d) mod 32 = 0 \<and>
     (\<forall>i < dir_count s d. ent_ok (ent_blk s rd d i) (ent_off i))"

lemma ent_off_bound: "ent_off i + 32 \<le> 4096"
proof -
  have "i mod 128 < 128" by simp
  then show ?thesis by linarith
qed

lemma total_direntrys_eq:
  assumes "0 \<le> sz" "sz \<le> 40960"
  shows "total_direntrys sz = sz div 32"
proof -
  have "sz div 32 \<le> 1280" using assms(2) by linarith
  moreover have "0 \<le> sz div 32" using assms(1) by simp
  ultimately show ?thesis using assms
    by (simp add: total_direntrys_def signed_of_int signed_take_bit_int_eq_self)
qed

lemma take_get_bytes: "m \<le> n \<Longrightarrow> take m (get_bytes b off n) = get_bytes b off m"
  by (simp add: get_bytes_def take_map)

lemma takeWhile_zero: "0 \<notin> set nm \<Longrightarrow> takeWhile (\<lambda>c. c \<noteq> (0 :: uint8)) (nm @ 0 # ys) = nm"
  by (subst takeWhile_append2) auto

lemma split_at_zero:
  assumes "(0 :: uint8) \<in> set xs"
  obtains ys where "xs = takeWhile (\<lambda>c. c \<noteq> 0) xs @ 0 # ys"
proof -
  have "dropWhile (\<lambda>c. c \<noteq> 0) xs \<noteq> []" using assms by auto
  then obtain y ys where y: "dropWhile (\<lambda>c. c \<noteq> 0) xs = y # ys" by (cases "dropWhile (\<lambda>c. c \<noteq> 0) xs") auto
  then have "y = 0" using hd_dropWhile [of "\<lambda>c. c \<noteq> 0" xs] by auto
  then have "xs = takeWhile (\<lambda>c. c \<noteq> 0) xs @ 0 # ys" using y takeWhile_dropWhile_id [of "\<lambda>c. c \<noteq> 0" xs] by simp
  then show ?thesis by (rule that)
qed

lemma str_at_name:
  assumes "ent_ok b off" "off + 32 \<le> 4096" "0 \<notin> set nm"
  shows "name_at b off nm \<longleftrightarrow> str_at b (off + 4) = nm"
proof -
  let ?n = "4096 - (off + 4)"
  let ?xs = "get_bytes b (off + 4) ?n"
  obtain k where k: "k < 28" "b (off + 4 + k) = 0" using assms(1) by (auto simp: ent_ok_def)
  have kn: "k < ?n" using k(1) assms(2) by linarith
  show ?thesis
  proof
    assume n: "name_at b off nm"
    have lt: "length nm + 1 \<le> ?n"
    proof (rule ccontr)
      assume "\<not> length nm + 1 \<le> ?n"
      then have kl: "k < length nm" using kn by linarith
      then have "(nm @ [0]) ! k = 0" using n k(2) unfolding name_at_def by (metis get_bytes_nth less_SucI Suc_eq_plus1)
      then show False using assms(3) kl nth_mem [of k nm] by (simp add: nth_append)
    qed
    then have "take (length nm + 1) ?xs = nm @ [0]" using n by (simp add: take_get_bytes name_at_def)
    then have "?xs = nm @ 0 # drop (length nm + 1) ?xs" by (metis append.assoc append_Cons append_Nil append_take_drop_id)
    then show "str_at b (off + 4) = nm" unfolding str_at_def by (metis takeWhile_zero [OF assms(3)])
  next
    assume nm: "str_at b (off + 4) = nm"
    have "0 \<in> set ?xs" using kn k(2) nth_mem [of k ?xs] by (metis get_bytes_nth length_get_bytes)
    then obtain ys where ys: "?xs = nm @ 0 # ys" using split_at_zero [of ?xs] nm by (auto simp: str_at_def)
    then have "length nm + 1 \<le> length ?xs" using arg_cong [OF ys, of length] by simp
    then have "get_bytes b (off + 4) (length nm + 1) = take (length nm + 1) ?xs" by (simp add: take_get_bytes)
    also have "\<dots> = nm @ [0]" unfolding ys by simp
    finally show "name_at b off nm" by (simp add: name_at_def)
  qed
qed

section \<open>Searching\<close>

lemma dir_sizes:
  assumes "dir_ok s sb rd d"
  shows "total_direntrys (vi_size (vinodes s d)) = int (dir_count s d)"
    "i < dir_count s d \<Longrightarrow> int (i div 128) < vi_blocks (vinodes s d)" "length (dir_list s rd d) = dir_count s d"
proof -
  have z: "0 \<le> vi_size (vinodes s d)" "vi_size (vinodes s d) \<le> 4096 * vi_blocks (vinodes s d)" "vi_blocks (vinodes s d) \<le> 10"
    using assms by (simp_all add: dir_ok_def file_ok_def)
  then show "total_direntrys (vi_size (vinodes s d)) = int (dir_count s d)"
    by (simp add: total_direntrys_eq dir_count_def zdiv_int)
  show "length (dir_list s rd d) = dir_count s d" by (simp add: dir_list_def)
  show "int (i div 128) < vi_blocks (vinodes s d)" if "i < dir_count s d"
  proof -
    have "32 * i < nat (vi_size (vinodes s d))" using that unfolding dir_count_def by linarith
    then have "int i < 128 * vi_blocks (vinodes s d)" using z by linarith
    then show ?thesis by linarith
  qed
qed

definition dir_index :: "cname \<Rightarrow> (cname \<times> int) list \<Rightarrow> nat" where
  "dir_index nm xs = length (takeWhile (\<lambda>e. fst e \<noteq> nm) xs)"

lemma dir_index_map_of:
  "map_of xs nm = (if dir_index nm xs < length xs then Some (snd (xs ! dir_index nm xs)) else None)"
  by (induction xs) (auto simp: dir_index_def)

lemma dir_search_ok:
  assumes ok: "dir_ok s sb rd d" and nm: "0 \<notin> set nm" and i: "i \<le> dir_count s d"
    and io: "i mod 128 \<noteq> 0 \<Longrightarrow> io0 = ent_blk s rd d i"
  shows "\<exists>io. dir_search rd d nm (int i) (int (dir_count s d)) (set_iobuffer rd io0 s) =
      Inr (int (i + dir_index nm (drop i (dir_list s rd d))), set_iobuffer rd io s) \<and>
    (i + dir_index nm (drop i (dir_list s rd d)) < dir_count s d \<longrightarrow>
      io = ent_blk s rd d (i + dir_index nm (drop i (dir_list s rd d))))"
  using i io
proof (induction "dir_count s d - i" arbitrary: i io0)
  case 0
  then have "dir_search rd d nm (int i) (int (dir_count s d)) (set_iobuffer rd io0 s) = Inr (int i, set_iobuffer rd io0 s)"
    by (simp add: dir_search.simps)
  then show ?case using 0 dir_sizes(3) [OF ok] by (auto simp: dir_index_def)
next
  case (Suc x)
  let ?n = "dir_count s d" and ?b = "ent_blk s rd d i"
  have i: "i < ?n" using Suc by simp
  have fok: "file_ok s sb rd d" using ok by (simp add: dir_ok_def)
  have idx: "int i smod 128 = int (i mod 128)" "int i sdiv 128 = int (i div 128)"
    by (simp_all add: sdiv_nonneg smod_nonneg zdiv_int zmod_int)
  have len: "length (vi_addrs (vinodes s d)) = 10" using fok by (simp add: file_ok_def)
  note fb = file_block_nth [OF fok dir_sizes(2) [OF ok i]]
  have rd: "(if int i smod 128 = 0
       then bnd (arr_get (vi_addrs (vinodes (set_iobuffer rd io0 s) d)) (int i sdiv 128)) (\<lambda>b.
            bnd (rfs_r1block rd b (set_iobuffer rd io0 s)) (\<lambda>(_, s). Inr s))
       else Inr (set_iobuffer rd io0 s)) = Inr (set_iobuffer rd ?b s)"
    using Suc.prems(2) fb(4,5) len unfolding idx by (auto simp: r1block_ok ent_blk_def)
  have name: "name_at ?b (ent_off i) nm \<longleftrightarrow> fst (dir_list s rd d ! i) = nm"
    using ok i str_at_name [OF _ ent_off_bound nm, of ?b i] by (simp add: dir_ok_def dir_list_def dir_entry_def)
  have dr: "drop i (dir_list s rd d) = dir_list s rd d ! i # drop (Suc i) (dir_list s rd d)"
    using i dir_sizes(3) [OF ok] by (simp add: Cons_nth_drop_Suc)
  have step: "dir_search rd d nm (int i) (int ?n) (set_iobuffer rd io0 s) =
      (if fst (dir_list s rd d ! i) = nm then Inr (int i, set_iobuffer rd ?b s)
       else dir_search rd d nm (int (Suc i)) (int ?n) (set_iobuffer rd ?b s))"
    using i by (subst dir_search.simps, unfold rd, simp add: idx name add.commute)
  show ?case
  proof (cases "fst (dir_list s rd d ! i) = nm")
    case True
    then show ?thesis using step by (auto simp: dr dir_index_def)
  next
    case False
    have "?b = ent_blk s rd d (Suc i)" if "Suc i mod 128 \<noteq> 0"
      using that by (auto simp: ent_blk_def mod_Suc div_Suc split: if_splits)
    then have "\<exists>io. dir_search rd d nm (int (Suc i)) (int ?n) (set_iobuffer rd ?b s) =
        Inr (int (Suc i + dir_index nm (drop (Suc i) (dir_list s rd d))), set_iobuffer rd io s) \<and>
        (Suc i + dir_index nm (drop (Suc i) (dir_list s rd d)) < ?n \<longrightarrow>
          io = ent_blk s rd d (Suc i + dir_index nm (drop (Suc i) (dir_list s rd d))))"
      using Suc.hyps i by (intro Suc.hyps(1)) auto
    then show ?thesis using False step by (simp add: dr dir_index_def)
  qed
qed

lemma dir_search_0:
  assumes "dir_ok s sb rd d" "0 \<notin> set nm"
  shows "\<exists>io. dir_search rd d nm 0 (int (dir_count s d)) s =
      Inr (int (dir_index nm (dir_list s rd d)), set_iobuffer rd io s) \<and>
    (dir_index nm (dir_list s rd d) < dir_count s d \<longrightarrow> io = ent_blk s rd d (dir_index nm (dir_list s rd d)))"
proof -
  have "set_iobuffer rd (iobuffer (rdevs s rd)) s = s" by (simp add: set_iobuffer_def)
  then show ?thesis using dir_search_ok [OF assms, of 0 "iobuffer (rdevs s rd)"] by simp
qed

section \<open>Inodes in memory\<close>

text \<open>A vinode filled from a disk inode, and back.\<close>

definition fill_vinode :: "rfs_dinode \<Rightarrow> vinode \<Rightarrow> vinode" where
  "fill_vinode d v = v\<lparr>vi_size := di_size d, vi_nlinks := di_nlinks d, vi_blocks := di_blocks d, vi_type := di_type d,
     vi_addrs := di_addrs d\<rparr>"

definition dinode_of :: "vinode \<Rightarrow> rfs_dinode" where
  "dinode_of v = \<lparr>di_size = vi_size v, di_type = vi_type v, di_nlinks = vi_nlinks v, di_blocks = vi_blocks v, di_addrs = vi_addrs v\<rparr>"

lemma update_vinode_ok:
  assumes "rdev_of (vi_sb (vinodes s v)) s = Inr rd" "inum_ok (vi_inum (vinodes s v))"
    "pages_free (fs_pool s) = q # ps" "page_in (fs_pool s) q"
  defines "dn \<equiv> dinode_on (disk s rd) (vi_inum (vinodes s v))"
  shows "\<exists>io. rfs_update_vinode v s = Inr (0, set_iobuffer rd io
    (s\<lparr>dinodes := (dinodes s)(q := dn), vinodes := (vinodes s)(v := fill_vinode dn (vinodes s v))\<rparr>))"
proof -
  have q: "q \<noteq> 0" using assms(4) by (simp add: page_in_def)
  let ?t = "s\<lparr>fs_pool := (fs_pool s)\<lparr>pages_free := ps\<rparr>, dinodes := (dinodes s)(q := dn)\<rparr>"
  obtain io where "rfs_read_dinode rd (vi_inum (vinodes s v)) s = Inr (q, set_iobuffer rd io ?t)"
    using read_dinode_ok [OF assms(2,3) q] by (auto simp: dn_def)
  moreover have "page_in ((fs_pool s)\<lparr>pages_free := ps\<rparr>) q" using assms(4) by (simp add: page_in_def)
  moreover have "(fs_pool s)\<lparr>pages_free := q # ps\<rparr> = fs_pool s" using assms(3) by (simp flip: assms(3))
  ultimately show ?thesis
    using assms(1) q by (intro exI [of _ io]) (simp add: rfs_update_vinode_def fill_vinode_def set_iobuffer_def Let_def)
qed

lemma write_back_ok:
  assumes "rdev_of (vi_sb (vinodes s v)) s = Inr rd" "inum_ok (vi_inum (vinodes s v))" "dinode_ok (dinode_of (vinodes s v))"
  shows "\<exists>io k b. 1 \<le> k \<and> k < 11 \<and> rfs_write_back_vinode v s = Inr (0, set_disk rd k b (set_iobuffer rd io s)) \<and>
    dinode_on ((disk s rd)(k := b)) = (dinode_on (disk s rd))(vi_inum (vinodes s v) := dinode_of (vinodes s v))"
  using write_dinode_ok [OF assms(2,3), of rd s] assms(1) inode_block_area [OF assms(2)]
  by (fastforce simp: rfs_write_back_vinode_def dinode_of_def Let_def)

lemma alloc_fill_ok:
  assumes "rdev_of sb s = Inr rd" "inum_ok n" "pages_free (fs_pool s) = p # q # ps" "page_in (fs_pool s) p" "page_in (fs_pool s) q"
  shows "\<exists>io V t. rfs_alloc_vinode sb s = Inr (p, t) \<and> iobuffer (rdevs t rd) = iobuffer (rdevs s rd) \<and>
    rfs_update_vinode p (t\<lparr>vinodes := (vinodes t)(p := (vinodes t p)\<lparr>vi_inum := n\<rparr>)\<rparr>) =
      Inr (0, set_iobuffer rd io
        (s\<lparr>fs_pool := (fs_pool s)\<lparr>pages_free := q # ps\<rparr>, dinodes := (dinodes s)(q := dinode_on (disk s rd) n),
           vinodes := (vinodes s)(p := V)\<rparr>)) \<and>
    dinode_of V = dinode_on (disk s rd) n \<and> vi_inum V = n \<and> vi_sb V = sb \<and> vi_ref V = 0 \<and> vi_ops V = Rfs_i_ops"
proof -
  define V0 where "V0 = (vinodes s p)\<lparr>vi_blocks := 0, vi_nlinks := 0, vi_ref := 0, vi_sb := sb, vi_size := 0, vi_ops := Rfs_i_ops, vi_inum := n\<rparr>"
  define t where "t = s\<lparr>fs_pool := (fs_pool s)\<lparr>pages_free := q # ps\<rparr>, vinodes := (vinodes s)(p := V0)\<rparr>"
  have t: "vinodes t p = V0" "rdev_of (vi_sb V0) t = Inr rd" "vi_inum V0 = n" "disk t rd = disk s rd"
    "pages_free (fs_pool t) = q # ps" "page_in (fs_pool t) q"
    using assms(1,5) by (simp_all add: t_def V0_def page_in_def)
  obtain io where io: "rfs_update_vinode p t = Inr (0, set_iobuffer rd io (t\<lparr>dinodes := (dinodes t)(q := dinode_on (disk s rd) n),
      vinodes := (vinodes t)(p := fill_vinode (dinode_on (disk s rd) n) V0)\<rparr>))"
    using update_vinode_ok [of t p rd q ps] t assms(2) by auto
  have p: "p \<noteq> 0" using assms(4) by (simp add: page_in_def)
  define V where "V = fill_vinode (dinode_on (disk s rd) n) V0"
  obtain u where u: "rfs_alloc_vinode sb s = Inr (p, u)" "rdevs u = rdevs s"
    "u\<lparr>vinodes := (vinodes u)(p := (vinodes u p)\<lparr>vi_inum := n\<rparr>)\<rparr> = t"
    using p assms(3) by (simp add: rfs_alloc_vinode_def default_alloc_vinode_def t_def V0_def)
  have "dinode_of V = dinode_on (disk s rd) n" "vi_inum V = n" "vi_sb V = sb" "vi_ref V = 0" "vi_ops V = Rfs_i_ops"
    by (simp_all add: V_def fill_vinode_def V0_def dinode_of_def)
  moreover have "rfs_update_vinode p t = Inr (0, set_iobuffer rd io
        (s\<lparr>fs_pool := (fs_pool s)\<lparr>pages_free := q # ps\<rparr>, dinodes := (dinodes s)(q := dinode_on (disk s rd) n),
           vinodes := (vinodes s)(p := V)\<rparr>))"
    using io by (simp add: t_def V_def)
  ultimately show ?thesis using u by (intro exI [of _ io] exI [of _ V] exI [of _ u]) simp
qed

lemma build_vinode_ok:
  assumes "rdev_of sb s = Inr rd" "inum_ok n" "pages_free (fs_pool s) = p # q # ps" "page_in (fs_pool s) p" "page_in (fs_pool s) q"
  shows "\<exists>io V. build_vinode sb n s = Inr (p, set_iobuffer rd io
      (s\<lparr>fs_pool := (fs_pool s)\<lparr>pages_free := q # ps\<rparr>, dinodes := (dinodes s)(q := dinode_on (disk s rd) n),
         vinodes := (vinodes s)(p := V)\<rparr>)) \<and>
    dinode_of V = dinode_on (disk s rd) n \<and> vi_inum V = n \<and> vi_sb V = sb \<and> vi_ref V = 0 \<and> vi_ops V = Rfs_i_ops"
  using alloc_fill_ok [OF assms] by (fastforce simp: build_vinode_def Let_def)

section \<open>Lookup\<close>

lemma rfs_lookup_ok:
  assumes ok: "dir_ok s sb rd d" and nm: "0 \<notin> set (d_name (dentries s sub))"
    and pg: "pages_free (fs_pool s) = p # q # ps" "page_in (fs_pool s) p" "page_in (fs_pool s) q"
    and inums: "\<forall>e \<in> set (dir_list s rd d). inum_ok (snd e)"
  shows "case map_of (dir_list s rd d) (d_name (dentries s sub)) of
      None \<Rightarrow> \<exists>io. rfs_lookup d sub s = Inr (0, set_iobuffer rd io s)
    | Some n \<Rightarrow> \<exists>io V. rfs_lookup d sub s = Inr (p, set_iobuffer rd io
        (s\<lparr>fs_pool := (fs_pool s)\<lparr>pages_free := q # ps\<rparr>, dinodes := (dinodes s)(q := dinode_on (disk s rd) n),
           vinodes := (vinodes s)(p := V)\<rparr>)) \<and>
        dinode_of V = dinode_on (disk s rd) n \<and> vi_inum V = n \<and> vi_sb V = sb \<and> vi_ref V = 0 \<and> vi_ops V = Rfs_i_ops"
proof -
  let ?nm = "d_name (dentries s sub)" and ?L = "dir_list s rd d"
  let ?i = "dir_index ?nm ?L"
  have v: "vi_sb (vinodes s d) = sb" "rdev_of sb s = Inr rd" using ok by (simp_all add: dir_ok_def file_ok_def)
  note sz = dir_sizes [OF ok]
  obtain io where io: "dir_search rd d ?nm 0 (int (dir_count s d)) s = Inr (int ?i, set_iobuffer rd io s)"
    "?i < dir_count s d \<longrightarrow> io = ent_blk s rd d ?i"
    using dir_search_0 [OF ok nm] by blast
  show ?thesis
  proof (cases "?i < dir_count s d")
    case False
    then have "map_of ?L ?nm = None" by (simp add: dir_index_map_of sz(3))
    moreover have "rfs_lookup d sub s = Inr (0, set_iobuffer rd io s)"
      using False io(1) v sz(1) by (simp add: rfs_lookup_def Let_def)
    ultimately show ?thesis by auto
  next
    case True
    let ?n = "snd (?L ! ?i)"
    have m: "map_of ?L ?nm = Some ?n" using True by (simp add: dir_index_map_of sz(3))
    have n: "?n = get32 io (ent_off ?i)" "inum_ok ?n"
      using True io(2) inums sz(3) nth_mem [of ?i ?L] by (auto simp: dir_list_def dir_entry_def)
    define t where "t = set_iobuffer rd io s"
    have t: "rdev_of sb t = Inr rd" "pages_free (fs_pool t) = p # q # ps" "page_in (fs_pool t) p" "page_in (fs_pool t) q"
      "disk t rd = disk s rd" "fs_pool t = fs_pool s" "dinodes t = dinodes s" "vinodes t = vinodes s"
      using v pg by (simp_all add: t_def)
    obtain io' V u where b: "rfs_alloc_vinode sb t = Inr (p, u)" "iobuffer (rdevs u rd) = io"
      "rfs_update_vinode p (u\<lparr>vinodes := (vinodes u)(p := (vinodes u p)\<lparr>vi_inum := ?n\<rparr>)\<rparr>) =
       Inr (0, set_iobuffer rd io' (t\<lparr>fs_pool := (fs_pool s)\<lparr>pages_free := q # ps\<rparr>,
        dinodes := (dinodes s)(q := dinode_on (disk s rd) ?n), vinodes := (vinodes s)(p := V)\<rparr>))"
      "dinode_of V = dinode_on (disk s rd) ?n" "vi_inum V = ?n" "vi_sb V = sb" "vi_ref V = 0" "vi_ops V = Rfs_i_ops"
      using alloc_fill_ok [OF t(1) n(2) t(2-4)] unfolding t(5-8) by (auto simp: t_def)
    have off: "nat (int ?i smod 128) = ?i mod 128" by (simp add: smod_nonneg nat_mod_distrib)
    have "rfs_lookup d sub s = Inr (p, set_iobuffer rd io' (t\<lparr>fs_pool := (fs_pool s)\<lparr>pages_free := q # ps\<rparr>,
        dinodes := (dinodes s)(q := dinode_on (disk s rd) ?n), vinodes := (vinodes s)(p := V)\<rparr>))"
      using True io(1) v sz(1) b(1-3) t(8) n(1) by (simp add: rfs_lookup_def Let_def off flip: t_def)
    moreover have "set_iobuffer rd io' (t\<lparr>fs_pool := (fs_pool s)\<lparr>pages_free := q # ps\<rparr>,
        dinodes := (dinodes s)(q := dinode_on (disk s rd) ?n), vinodes := (vinodes s)(p := V)\<rparr>) =
      set_iobuffer rd io' (s\<lparr>fs_pool := (fs_pool s)\<lparr>pages_free := q # ps\<rparr>,
        dinodes := (dinodes s)(q := dinode_on (disk s rd) ?n), vinodes := (vinodes s)(p := V)\<rparr>)"
      by (simp add: t_def set_iobuffer_def)
    ultimately have "rfs_lookup d sub s = Inr (p, set_iobuffer rd io' (s\<lparr>fs_pool := (fs_pool s)\<lparr>pages_free := q # ps\<rparr>,
        dinodes := (dinodes s)(q := dinode_on (disk s rd) ?n), vinodes := (vinodes s)(p := V)\<rparr>))" by simp
    then show ?thesis using b m by auto
  qed
qed

section \<open>Entries as bytes of the directory file\<close>

definition ent_dec :: "uint8 list \<Rightarrow> cname \<times> int" where
  "ent_dec xs = (takeWhile (\<lambda>c. c \<noteq> 0) (drop 4 xs), dec32 (take 4 xs))"

definition ent_bytes :: "'h fs \<Rightarrow> addr \<Rightarrow> addr \<Rightarrow> nat \<Rightarrow> uint8 list" where
  "ent_bytes s rd d i = map (file_byte s rd d) [32 * i..<32 * i + 32]"

lemma ent_pos: "32 * i div 4096 = i div 128" "32 * i mod 4096 = ent_off i" "32 * i = 4096 * (i div 128) + ent_off i"
proof -
  have i: "32 * i = ent_off i + 4096 * (i div 128)" using div_mult_mod_eq [of i 128] by linarith
  then show "32 * i = 4096 * (i div 128) + ent_off i" by simp
  show "32 * i div 4096 = i div 128" "32 * i mod 4096 = ent_off i"
    unfolding i using ent_off_bound [of i] by simp_all
qed

lemma ent_bytes_blk: "ent_bytes s rd d i = get_bytes (ent_blk s rd d i) (ent_off i) 32"
  using ent_off_bound [of i] block_bytes [where a="ent_off i" and n=32 and j="i div 128" and s=s and rd=rd and f=d]
  by (simp add: ent_bytes_def ent_blk_def flip: ent_pos(3))

lemma drop_get_bytes: "drop k (get_bytes b off n) = get_bytes b (off + k) (n - k)"
  by (rule nth_equalityI) (simp_all add: add.assoc)

lemma get_bytes_app: "get_bytes b off (m + n) = get_bytes b off m @ get_bytes b (off + m) n"
  by (rule nth_equalityI) (auto simp: nth_append)

lemma ent_ok_bytes: "ent_ok (ent_blk s rd d i) (ent_off i) \<longleftrightarrow> 0 \<in> set (drop 4 (ent_bytes s rd d i))"
  unfolding ent_bytes_blk drop_get_bytes in_set_conv_nth by (auto simp: ent_ok_def)

lemma dir_entry_dec:
  assumes "ent_ok (ent_blk s rd d i) (ent_off i)"
  shows "dir_entry s rd d i = ent_dec (ent_bytes s rd d i)"
proof -
  let ?b = "ent_blk s rd d i" and ?o = "ent_off i"
  let ?xs = "get_bytes ?b (?o + 4) 28"
  have "0 \<in> set ?xs" using assms unfolding ent_ok_bytes by (simp add: ent_bytes_blk drop_get_bytes)
  moreover have "get_bytes ?b (?o + 4) (4096 - (?o + 4)) = ?xs @ get_bytes ?b (?o + 32) (4096 - (?o + 32))"
  proof -
    have "4096 - (?o + 4) = 28 + (4096 - (?o + 32))" using ent_off_bound [of i] by linarith
    moreover have "?o + 4 + 28 = ?o + 32" by simp
    ultimately show ?thesis using get_bytes_app [of ?b "?o + 4" 28 "4096 - (?o + 32)"] by (simp only:)
  qed
  ultimately have "str_at ?b (?o + 4) = takeWhile (\<lambda>c. c \<noteq> 0) ?xs"
    unfolding str_at_def using takeWhile_append1 [of 0 ?xs "\<lambda>c. c \<noteq> 0"] by simp
  then show ?thesis by (simp add: dir_entry_def ent_dec_def ent_bytes_blk drop_get_bytes take_get_bytes get32_def)
qed

lemma dir_list_dec: "dir_ok s sb rd d \<Longrightarrow> dir_list s rd d = map (\<lambda>i. ent_dec (ent_bytes s rd d i)) [0..<dir_count s d]"
  by (auto simp: dir_list_def dir_ok_def intro!: dir_entry_dec)

lemma dir_okI:
  assumes "file_ok s sb rd d" "vi_type (vinodes s d) = DIR_I" "vi_size (vinodes s d) = 32 * int n"
    "\<And>i. i < n \<Longrightarrow> 0 \<in> set (drop 4 (ent_bytes s rd d i))"
  shows "dir_ok s sb rd d" "dir_count s d = n"
proof -
  show "dir_count s d = n" using assms(3) by (simp add: dir_count_def)
  then show "dir_ok s sb rd d" using assms by (simp add: dir_ok_def ent_ok_bytes)
qed

lemma dir_okD:
  assumes "dir_ok s sb rd d"
  shows "file_ok s sb rd d" "vi_type (vinodes s d) = DIR_I" "vi_size (vinodes s d) = 32 * int (dir_count s d)"
    "i < dir_count s d \<Longrightarrow> 0 \<in> set (drop 4 (ent_bytes s rd d i))"
proof -
  show "file_ok s sb rd d" "vi_type (vinodes s d) = DIR_I" using assms by (simp_all add: dir_ok_def)
  show "i < dir_count s d \<Longrightarrow> 0 \<in> set (drop 4 (ent_bytes s rd d i))" using assms by (simp add: dir_ok_def ent_ok_bytes)
  have "0 \<le> vi_size (vinodes s d)" "vi_size (vinodes s d) mod 32 = 0" using assms by (simp_all add: dir_ok_def file_ok_def)
  then show "vi_size (vinodes s d) = 32 * int (dir_count s d)" unfolding dir_count_def by (auto simp: zdiv_int)
qed

section \<open>Adding an entry\<close>

text \<open>A directory after the entry \<open>(nm, n)\<close> has been put behind its last one.\<close>

definition ent_enc :: "cname \<Rightarrow> int \<Rightarrow> uint8 list" where
  "ent_enc nm n = enc32 n @ nm @ [0]"

lemma ent_dec_enc:
  assumes "int32 n" "0 \<notin> set nm"
  shows "ent_dec (ent_enc nm n @ ys) = (nm, n)" "0 \<in> set (drop 4 (ent_enc nm n @ ys))"
  using assms takeWhile_zero [OF assms(2)] by (simp_all add: ent_dec_def ent_enc_def)

lemma get_put_prefix:
  assumes "length bs \<le> n"
  shows "\<exists>ys. get_bytes (put_bytes off bs b) off n = bs @ ys"
proof -
  obtain r where "n = length bs + r" using assms le_Suc_ex by blast
  then show ?thesis by (simp add: get_bytes_app get_put_same)
qed

lemma put_entry: "put_bytes (off + 4) (nm @ [0]) (put32 off n b) = put_bytes off (ent_enc nm n) b"
  by (rule ext) (auto simp: put_bytes_def put32_def ent_enc_def nth_append)

lemma file_ok_resize:
  assumes "file_ok s sb rd f" "vinodes s' f = (vinodes s f)\<lparr>vi_size := z\<rparr>" "0 \<le> z" "z \<le> 4096 * vi_blocks (vinodes s f)"
    "rdev_of sb s' = rdev_of sb s" "sbs s' = sbs s" "fmap s' sb = fmap s sb"
  shows "file_ok s' sb rd f"
  using assms by (simp add: file_ok_def file_blocks_def)

lemma rest_entry:
  assumes "dir_ok s sb rd d" "vi_size (vinodes s d) < 4096 * vi_blocks (vinodes s d)"
  shows "int (dir_count s d div 128) < vi_blocks (vinodes s d)"
  using dir_okD(3) [OF assms(1)] assms(2) by linarith

lemma file_byte_upd:
  assumes ok: "file_ok s sb rd f" and j: "int j < vi_blocks (vinodes s f)" and x: "int x < 4096 * vi_blocks (vinodes s f)"
    and t: "vi_addrs (vinodes t f) = vi_addrs (vinodes s f)"
      "\<And>b. b \<in> set (file_blocks s f) \<Longrightarrow> disk t rd b = ((disk s rd)(vi_addrs (vinodes s f) ! j := B)) b"
  shows "file_byte t rd f x = (if x div 4096 = j then B (x mod 4096) else file_byte s rd f x)"
proof -
  have q: "int (x div 4096) < vi_blocks (vinodes s f)" using x by linarith
  note fj = file_block_nth [OF ok j] and fx = file_block_nth [OF ok q]
  have "distinct (file_blocks s f)" using ok by (simp add: file_ok_def)
  then have "vi_addrs (vinodes s f) ! (x div 4096) = vi_addrs (vinodes s f) ! j \<longleftrightarrow> x div 4096 = j"
    using fx(2,3) fj(2,3) nth_eq_iff_index_eq by metis
  then show ?thesis using t(2) [OF fx(1)] by (simp add: file_byte_def t(1))
qed

lemma add_direntry_ok:
  assumes ok: "dir_ok s sb rd d" and room: "vi_size (vinodes s d) < 4096 * vi_blocks (vinodes s d)"
    and nm: "length nm < 28" "0 \<notin> set nm" and n: "int32 n"
    and ino: "inum_ok (vi_inum (vinodes s d))" "dinode_ok (dinode_of (vinodes s d))"
  shows "\<exists>s' R. s' = s\<lparr>rdevs := R, vinodes := (vinodes s)(d := (vinodes s d)\<lparr>vi_size := vi_size (vinodes s d) + 32\<rparr>)\<rparr> \<and>
      rfs_add_direntry d nm n s = Inr (0, s') \<and> dir_ok s' sb rd d \<and> dir_list s' rd d = dir_list s rd d @ [(nm, n)] \<and>
      rdev_of sb s' = Inr rd \<and>
      (\<forall>m. inum_ok m \<longrightarrow> dinode_on (disk s' rd) m =
        (if m = vi_inum (vinodes s d) then dinode_of (vinodes s' d) else dinode_on (disk s rd) m)) \<and>
      (\<forall>b. (b < 1 \<or> 11 \<le> b) \<and> b \<notin> set (file_blocks s d) \<longrightarrow> disk s' rd b = disk s rd b)"
proof -
  let ?i = "dir_count s d"
  let ?j = "?i div 128" and ?off = "ent_off ?i"
  let ?a = "vi_addrs (vinodes s d) ! ?j"
  define B where "B = put_bytes ?off (ent_enc nm n) (disk s rd ?a)"
  define t where "t = set_disk rd ?a B (set_iobuffer rd B s)"
  define V where "V = (vinodes s d)\<lparr>vi_size := vi_size (vinodes s d) + 32\<rparr>"
  define u where "u = t\<lparr>vinodes := (vinodes t)(d := V)\<rparr>"
  note D = dir_okD [OF ok]
  note j = rest_entry [OF ok room]
  note fb = file_block_nth [OF D(1) j]
  note T = put_block_ok [where io=B and io'=B, OF D(1) j, folded t_def]
  have v: "vi_sb (vinodes s d) = sb" "rdev_of sb s = Inr rd" "length (vi_addrs (vinodes s d)) = 10"
    using D(1) by (simp_all add: file_ok_def)
  have e: "vi_size (vinodes s d) sdiv 4096 = int ?j" "nat (vi_size (vinodes s d) smod 4096) = ?off"
    using ent_pos(1,2) [of ?i] unfolding D(3)
    by (simp_all add: sdiv_nonneg smod_nonneg nat_mod_distrib nat_mult_distrib)
  have u: "rdev_of (vi_sb (vinodes u d)) u = Inr rd" "inum_ok (vi_inum (vinodes u d))" "dinode_ok (dinode_of (vinodes u d))"
  proof -
    have "0 \<le> vi_size (vinodes s d)" "vi_size (vinodes s d) \<le> 40960" using D(1) by (simp_all add: file_ok_def)
    then show "dinode_ok (dinode_of (vinodes u d))"
      using ino(2) by (simp add: u_def V_def dinode_ok_def dinode_of_def int32_def)
  qed (use v ino in \<open>simp_all add: u_def V_def t_def\<close>)
  obtain io k b where w: "1 \<le> k" "k < 11" "rfs_write_back_vinode d u = Inr (0, set_disk rd k b (set_iobuffer rd io u))"
    "dinode_on ((disk u rd)(k := b)) = (dinode_on (disk u rd))(vi_inum (vinodes u d) := dinode_of (vinodes u d))"
    using write_back_ok [OF u] by blast
  define s' where "s' = set_disk rd k b (set_iobuffer rd io u)"
  have run: "rfs_add_direntry d nm n s = Inr (0, s')"
    using D(2) v fb(4,5) nm ent_off_bound [of ?i] w(3)
    by (simp add: rfs_add_direntry_def e r1block_ok w1block_ok put_entry Let_def s'_def u_def V_def t_def B_def)
  have vs: "vinodes s' = (vinodes s)(d := V)" "disk s' rd = (disk s rd)(?a := B, k := b)"
    "file_blocks s' d = file_blocks s d" "vi_addrs V = vi_addrs (vinodes s d)"
    by (simp_all add: s'_def u_def t_def V_def file_blocks_def)
  have ak: "x \<noteq> k" if "x \<in> set (file_blocks s d)" for x using D(1) w(2) that by (auto simp: file_ok_def)
  have byte: "file_byte s' rd d x = file_byte s rd d x" if x: "x < 32 * ?i" for x
  proof -
    have "int x < 4096 * vi_blocks (vinodes s d)" using x D(3) room by linarith
    then have "file_byte s' rd d x = (if x div 4096 = ?j then B (x mod 4096) else file_byte s rd d x)"
      using ak by (intro file_byte_upd [OF D(1) j]) (simp_all add: vs)
    moreover have "B (x mod 4096) = file_byte s rd d x" if "x div 4096 = ?j"
    proof -
      have "x mod 4096 < ?off" using that x ent_pos(3) [of ?i] div_mult_mod_eq [of x 4096] by linarith
      then show ?thesis by (simp add: B_def put_bytes_out file_byte_def that)
    qed
    ultimately show ?thesis by simp
  qed
  have old: "ent_bytes s' rd d x = ent_bytes s rd d x" if "x < ?i" for x
    unfolding ent_bytes_def using that by (intro map_cong refl byte) auto
  have "\<exists>ys. ent_bytes s' rd d ?i = ent_enc nm n @ ys"
  proof -
    have "length (ent_enc nm n) \<le> 32" using nm(1) by (simp add: ent_enc_def)
    then show ?thesis unfolding ent_bytes_blk using ak [OF fb(1)] get_put_prefix [of "ent_enc nm n" 32 ?off]
      by (simp add: ent_blk_def vs B_def)
  qed
  then obtain ys where new: "ent_bytes s' rd d ?i = ent_enc nm n @ ys" by blast
  have "vi_size V \<le> 4096 * vi_blocks V" using room D(3) by (simp add: V_def)
  then have fok: "file_ok s' sb rd d" using D(3)
    by (intro file_ok_resize [OF D(1), of s' "vi_size V"]) (simp_all add: vs(1) V_def s'_def u_def t_def)
  have ents: "0 \<in> set (drop 4 (ent_bytes s' rd d x))" if "x < Suc ?i" for x
    using that old D(4) new ent_dec_enc(2) [OF n nm(2)] by (cases "x = ?i") auto
  have sz: "vi_type (vinodes s' d) = DIR_I" "vi_size (vinodes s' d) = 32 * int (Suc ?i)"
    using D(2,3) by (simp_all add: vs V_def)
  have D': "dir_ok s' sb rd d" "dir_count s' d = Suc ?i" using dir_okI [OF fok sz] ents by blast+
  have "dir_list s' rd d = dir_list s rd d @ [(nm, n)]"
    unfolding dir_list_dec [OF ok] dir_list_dec [OF D'(1)] D'(2)
    using old new ent_dec_enc(1) [OF n nm(2)] by simp
  moreover have "dinode_on (disk s' rd) m = (if m = vi_inum (vinodes s d) then dinode_of (vinodes s' d) else dinode_on (disk s rd) m)"
    if "inum_ok m" for m
  proof -
    have "?a \<noteq> m div 32 + 1" using inode_block_area [OF that] fb(1) D(1) by (auto simp: file_ok_def)
    then have "dinode_on (disk u rd) m = dinode_on (disk s rd) m" by (simp add: dinode_on_def u_def t_def)
    then show ?thesis using fun_cong [OF w(4), of m] by (simp add: vs u_def t_def V_def)
  qed
  moreover have "disk s' rd x = disk s rd x" if "x < 1 \<or> 11 \<le> x" "x \<notin> set (file_blocks s d)" for x
    using that w(1,2) fb(1) by (auto simp: vs)
  moreover have "s' = s\<lparr>rdevs := rdevs s', vinodes := (vinodes s)(d := V)\<rparr>"
    by (simp add: s'_def u_def t_def set_disk_def set_iobuffer_def)
  ultimately show ?thesis using run D'(1) fok unfolding V_def
    by (intro exI [of _ s'] exI [of _ "rdevs s'"]) (simp add: file_ok_def)
qed

section \<open>Creating a file\<close>

lemma dir_ok_frame:
  assumes ok: "dir_ok s sb rd d" and v: "vinodes s' d = vinodes s d" "rdev_of sb s' = rdev_of sb s" "sbs s' = sbs s"
    and b: "\<And>b. b \<in> set (file_blocks s d) \<Longrightarrow> disk s' rd b = disk s rd b \<and> fmap s' sb (b - 12) \<noteq> 0"
  shows "dir_ok s' sb rd d" "dir_list s' rd d = dir_list s rd d"
proof -
  have bl: "file_blocks s' d = file_blocks s d" and c: "dir_count s' d = dir_count s d"
    using v(1) by (simp_all add: file_blocks_def dir_count_def)
  have f: "file_ok s sb rd d" "file_ok s' sb rd d" using ok v b by (simp_all add: dir_ok_def file_ok_def bl)
  have e: "ent_blk s' rd d i = ent_blk s rd d i" if "i < dir_count s d" for i
    using b [OF file_block_nth(1) [OF f(1) dir_sizes(2) [OF ok that]]] by (simp add: ent_blk_def v(1))
  show "dir_ok s' sb rd d" using ok f(2) by (simp add: dir_ok_def c v(1) e)
  show "dir_list s' rd d = dir_list s rd d" by (simp add: dir_list_def c dir_entry_def e)
qed

lemma int32_dec32: "int32 (dec32 bs)"
  using sint_greater_eq [of "(ucast (bs ! 0) :: uint32) OR push_bit 8 (ucast (bs ! 1)) OR push_bit 16 (ucast (bs ! 2))
     OR push_bit 24 (ucast (bs ! 3))"] sint_less [of "(ucast (bs ! 0) :: uint32) OR push_bit 8 (ucast (bs ! 1)) OR push_bit 16 (ucast (bs ! 2))
     OR push_bit 24 (ucast (bs ! 3))"] by (simp add: int32_def dec32_def)

lemma dinode_on_ok: "dinode_ok (dinode_on dk n)"
  by (auto simp: dinode_ok_def dinode_on_def load_dinode_def get32_def int32_dec32)

definition free_inode :: "'h fs \<Rightarrow> addr \<Rightarrow> int \<Rightarrow> bool" where
  "free_inode s rd n \<longleftrightarrow> inum_ok n \<and> di_type (dinode_on (disk s rd) n) = R_FREE \<and>
     (\<forall>m. 0 \<le> m \<and> m < n \<longrightarrow> di_type (dinode_on (disk s rd) m) \<noteq> R_FREE)"

lemma find_dinode_ok:
  assumes "free_inode s rd n" "pages_free (fs_pool s) = q # ps" "page_in (fs_pool s) q" "0 \<le> i" "i \<le> n"
  shows "\<exists>io. find_dinode rd i x s = Inr ((q, n), set_iobuffer rd io
    (s\<lparr>fs_pool := (fs_pool s)\<lparr>pages_free := ps\<rparr>, dinodes := (dinodes s)(q := dinode_on (disk s rd) n)\<rparr>))"
  using assms
proof (induction "nat (n - i)" arbitrary: i x s)
  case 0
  then have i: "i = n" "inum_ok i" "i < 320" "q \<noteq> 0" by (auto simp: free_inode_def inum_ok_def page_in_def)
  obtain io where "rfs_read_dinode rd i s = Inr (q, set_iobuffer rd io
      (s\<lparr>fs_pool := (fs_pool s)\<lparr>pages_free := ps\<rparr>, dinodes := (dinodes s)(q := dinode_on (disk s rd) i)\<rparr>))"
    using read_dinode_ok [OF i(2) 0(3) i(4)] by blast
  then show ?case using 0(2) i by (intro exI [of _ io], subst find_dinode.simps) (simp add: free_inode_def)
next
  case (Suc k)
  then have i: "i < n" "inum_ok i" "i < 320" "q \<noteq> 0" "di_type (dinode_on (disk s rd) i) \<noteq> R_FREE"
    by (auto simp: free_inode_def inum_ok_def page_in_def)
  obtain io where r: "rfs_read_dinode rd i s = Inr (q, set_iobuffer rd io
      (s\<lparr>fs_pool := (fs_pool s)\<lparr>pages_free := ps\<rparr>, dinodes := (dinodes s)(q := dinode_on (disk s rd) i)\<rparr>))"
    using read_dinode_ok [OF i(2) Suc(4) i(4)] by blast
  define t where "t = set_iobuffer rd io (s\<lparr>dinodes := (dinodes s)(q := dinode_on (disk s rd) i)\<rparr>)"
  have p: "page_in ((fs_pool s)\<lparr>pages_free := ps\<rparr>) q" using Suc(5) by (simp add: page_in_def)
  have pool: "(fs_pool s)\<lparr>pages_free := q # ps\<rparr> = fs_pool s" using Suc(4) by (simp flip: Suc(4))
  have "find_dinode rd i x s = find_dinode rd (i + 1) q t"
    using r i p by (subst find_dinode.simps) (simp add: t_def pool set_iobuffer_def)
  moreover have "\<exists>io'. find_dinode rd (i + 1) q t = Inr ((q, n), set_iobuffer rd io'
      (t\<lparr>fs_pool := (fs_pool t)\<lparr>pages_free := ps\<rparr>, dinodes := (dinodes t)(q := dinode_on (disk t rd) n)\<rparr>))"
    using Suc(2-6) i(1) by (intro Suc(1)) (simp_all add: t_def free_inode_def)
  moreover have "set_iobuffer rd io' (t\<lparr>fs_pool := (fs_pool t)\<lparr>pages_free := ps\<rparr>, dinodes := (dinodes t)(q := dinode_on (disk t rd) n)\<rparr>)
    = set_iobuffer rd io' (s\<lparr>fs_pool := (fs_pool s)\<lparr>pages_free := ps\<rparr>, dinodes := (dinodes s)(q := dinode_on (disk s rd) n)\<rparr>)" for io'
    by (simp add: t_def set_iobuffer_def disk_def)
  ultimately show ?case by auto
qed

definition fresh_dinode :: "int \<Rightarrow> int \<Rightarrow> rfs_dinode \<Rightarrow> rfs_dinode" where
  "fresh_dinode ty b d = d\<lparr>di_size := 0, di_type := ty, di_nlinks := 1, di_blocks := 1, di_addrs := (di_addrs d)[0 := b]\<rparr>"

lemma claim_dinode_ok:
  assumes f: "free_inode s rd n" and pg: "pages_free (fs_pool s) = q # ps" "page_in (fs_pool s) q"
    and blk: "sb_nblocks (sbs s sb) = NBLOCKS" "free_blks s sb \<noteq> {}" and ty: "int32 ty"
  shows "\<exists>i \<in> free_blks s sb. \<exists>k b io D. 1 \<le> k \<and> k < 11 \<and>
    claim_dinode msg ty rd sb s = Inr (n, set_disk rd k b (set_iobuffer rd io (set_fmap sb i 1 (s\<lparr>dinodes := D\<rparr>)))) \<and>
    dinode_on ((disk s rd)(k := b)) = (dinode_on (disk s rd))(n := fresh_dinode ty (12 + i) (dinode_on (disk s rd) n))"
proof -
  have n: "inum_ok n" "q \<noteq> 0" "0 \<le> n" using f pg by (auto simp: free_inode_def page_in_def inum_ok_def)
  define d0 where "d0 = dinode_on (disk s rd) n"
  obtain io where r: "find_dinode rd 0 0 s = Inr ((q, n), set_iobuffer rd io
      (s\<lparr>fs_pool := (fs_pool s)\<lparr>pages_free := ps\<rparr>, dinodes := (dinodes s)(q := d0)\<rparr>))"
    using find_dinode_ok [OF f pg, of 0 0] n(3) by (auto simp: d0_def)
  define t where "t = set_iobuffer rd io (s\<lparr>fs_pool := (fs_pool s)\<lparr>pages_free := ps\<rparr>,
      dinodes := (dinodes s)(q := d0\<lparr>di_size := 0, di_type := ty, di_nlinks := 1, di_blocks := 1\<rparr>)\<rparr>)"
  have "sb_nblocks (sbs t sb) = NBLOCKS" "free_blks t sb = free_blks s sb" using blk by (simp_all add: t_def free_blks_def)
  then obtain i where i: "i \<in> free_blks s sb" "rfs_alloc_block sb t = Inr (12 + i, set_fmap sb i 1 t)"
    using alloc_block_ok [of t sb] blk(2) by auto
  let ?d = "fresh_dinode ty (12 + i) d0"
  define u where "u = (set_fmap sb i 1 t)\<lparr>dinodes := (dinodes s)(q := ?d)\<rparr>"
  have "dinode_ok ?d"
  proof -
    have "int32 (12 + i)" using i(1) by (simp add: free_blks_def int32_def)
    then have "\<forall>a \<in> set ((di_addrs d0)[0 := 12 + i]). int32 a"
      using dinode_on_ok [of "disk s rd" n] set_update_subset_insert [of "di_addrs d0" 0 "12 + i"] by (auto simp: dinode_ok_def d0_def)
    then show ?thesis using dinode_on_ok [of "disk s rd" n] ty by (simp add: dinode_ok_def fresh_dinode_def d0_def int32_def)
  qed
  then obtain io' b where w: "rfs_write_dinode rd ?d n u = Inr (0, set_disk rd (n div 32 + 1) b (set_iobuffer rd io' u))"
    "dinode_on ((disk u rd)(n div 32 + 1 := b)) = (dinode_on (disk u rd))(n := ?d)"
    using write_dinode_ok [OF n(1), of ?d rd u] by blast
  have u: "dinodes u q = ?d" "disk u rd = disk s rd" "page_in (fs_pool u) q" "fs_pool u = (fs_pool s)\<lparr>pages_free := ps\<rparr>"
    using pg(2) by (simp_all add: u_def t_def page_in_def)
  have ut: "u = set_iobuffer rd io (set_fmap sb i 1 (s\<lparr>fs_pool := (fs_pool s)\<lparr>pages_free := ps\<rparr>, dinodes := (dinodes s)(q := ?d)\<rparr>))"
    by (simp add: u_def t_def set_fmap_def set_iobuffer_def fmap_def)
  have pool: "(fs_pool s)\<lparr>pages_free := q # ps\<rparr> = fs_pool s" using pg(1) by (simp flip: pg(1))
  have 1: "set_disk rd k b (set_iobuffer rd io' u)\<lparr>fs_pool := fs_pool s\<rparr> = set_disk rd k b (set_iobuffer rd io' (set_fmap sb i 1 (s\<lparr>dinodes := (dinodes s)(q := ?d)\<rparr>)))" for k
    by (simp add: ut set_fmap_def set_iobuffer_def set_disk_def fmap_def)
  have td: "dinodes t = (dinodes s)(q := d0\<lparr>di_size := 0, di_type := ty, di_nlinks := 1, di_blocks := 1\<rparr>)" by (simp add: t_def)
  have tt: "(set_iobuffer rd io (s\<lparr>fs_pool := (fs_pool s)\<lparr>pages_free := ps\<rparr>, dinodes := (dinodes s)(q := d0)\<rparr>))
      \<lparr>dinodes := (dinodes s)(q := d0\<lparr>di_size := 0, di_type := ty, di_nlinks := 1, di_blocks := 1\<rparr>)\<rparr> = t"
    by (simp add: t_def set_iobuffer_def)
  have "claim_dinode msg ty rd sb s =
      bnd (rfs_alloc_block sb t) (\<lambda>(b, s).
              let s = s\<lparr>dinodes := (dinodes s)(q := (dinodes s q)\<lparr>di_addrs := (di_addrs (dinodes s q))[0 := b]\<rparr>)\<rparr>
              in bnd (rfs_write_dinode rd (dinodes s q) n s) (\<lambda>(_, s).
                 bnd (drop_page q s) (\<lambda>s. Inr (n, s))))"
    using r n(2) by (simp add: claim_dinode_def Let_def tt)
  also have "\<dots> = bnd (rfs_write_dinode rd ?d n u) (\<lambda>(_, s). bnd (drop_page q s) (\<lambda>s. Inr (n, s)))"
    by (simp add: i(2) u_def td fresh_dinode_def)
  also have "\<dots> = Inr (n, (set_disk rd (n div 32 + 1) b (set_iobuffer rd io' u))\<lparr>fs_pool := fs_pool s\<rparr>)"
    using u by (simp add: w(1) pool)
  finally show ?thesis using w(2) inode_block_area [OF n(1)] i(1) unfolding 1 u(2) d0_def by blast
qed

text \<open>The inode in memory agrees with the one on the disk.\<close>

definition synced :: "'h fs \<Rightarrow> addr \<Rightarrow> addr \<Rightarrow> bool" where
  "synced s rd v \<longleftrightarrow> inum_ok (vi_inum (vinodes s v)) \<and> dinode_on (disk s rd) (vi_inum (vinodes s v)) = dinode_of (vinodes s v)"

text \<open>A new empty file or directory with inode number \<open>n\<close> and one data block.\<close>

definition fresh_vinode :: "'h fs \<Rightarrow> addr \<Rightarrow> addr \<Rightarrow> addr \<Rightarrow> int \<Rightarrow> int \<Rightarrow> bool" where
  "fresh_vinode s sb rd v ty n \<longleftrightarrow> file_ok s sb rd v \<and> synced s rd v \<and> vi_inum (vinodes s v) = n \<and> vi_type (vinodes s v) = ty \<and>
     vi_size (vinodes s v) = 0 \<and> vi_nlinks (vinodes s v) = 1 \<and> vi_blocks (vinodes s v) = 1 \<and> vi_ref (vinodes s v) = 0 \<and>
     vi_ops (vinodes s v) = Rfs_i_ops"

lemma vi_of_dinode:
  "vi_size v = di_size (dinode_of v)" "vi_type v = di_type (dinode_of v)" "vi_nlinks v = di_nlinks (dinode_of v)"
  "vi_blocks v = di_blocks (dinode_of v)" "vi_addrs v = di_addrs (dinode_of v)"
  by (simp_all add: dinode_of_def)

lemma fresh_vinodeI:
  assumes d: "dinode_of (vinodes s v) = fresh_dinode ty b d0" "length (di_addrs d0) = 10"
    and s: "dinode_on (disk s rd) n = dinode_of (vinodes s v)" "inum_ok n" "vi_inum (vinodes s v) = n" "vi_sb (vinodes s v) = sb"
      "rdev_of sb s = Inr rd" "sb_nblocks (sbs s sb) = NBLOCKS" "vi_ref (vinodes s v) = 0" "vi_ops (vinodes s v) = Rfs_i_ops"
    and b: "12 \<le> b" "b < 112" "fmap s sb (b - 12) \<noteq> 0"
  shows "fresh_vinode s sb rd v ty n"
proof -
  have "take (Suc 0) ((di_addrs d0)[0 := b]) = [b]" using d(2) by (cases "di_addrs d0") auto
  then have "file_blocks s v = [b]" by (simp add: file_blocks_def vi_of_dinode d(1) fresh_dinode_def)
  then show ?thesis using assms by (simp add: fresh_vinode_def file_ok_def synced_def vi_of_dinode fresh_dinode_def)
qed

lemma fmap_rdevs [simp]: "fmap (s\<lparr>rdevs := R\<rparr>) sb = fmap s sb"
  by (simp add: fmap_def)

lemma length_dinode_on [simp]: "length (di_addrs (dinode_on dk n)) = 10"
  by (simp add: dinode_on_def load_dinode_def)

lemma claim_frame:
  fixes s :: "'h fs"
  assumes ok: "dir_ok s sb rd d" and sy: "synced s rd d" and i: "i \<in> free_blks s sb" and k: "k < 11"
    and f: "free_inode s rd n"
    and dk: "dinode_on ((disk s rd)(k := b)) = (dinode_on (disk s rd))(n := x)"
    and s': "vinodes s' d = vinodes s d" "rdev_of sb s' = rdev_of sb s" "sbs s' = sbs s" "fmap s' sb = (fmap s sb)(i := 1)"
      "disk s' rd = (disk s rd)(k := b)"
  shows "dir_ok s' sb rd d" "dir_list s' rd d = dir_list s rd d" "synced s' rd d" "vi_inum (vinodes s d) \<noteq> n"
    "12 + i \<notin> set (file_blocks s d)"
proof -
  have fok: "file_ok s sb rd d" and ty: "vi_type (vinodes s d) = DIR_I" using ok by (simp_all add: dir_ok_def)
  have bl: "disk s' rd x = disk s rd x \<and> fmap s' sb (x - 12) \<noteq> 0" if "x \<in> set (file_blocks s d)" for x
    using fok k i that by (auto simp: file_ok_def free_blks_def s')
  show "dir_ok s' sb rd d" "dir_list s' rd d = dir_list s rd d" using dir_ok_frame [OF ok s'(1-3) bl] by simp_all
  show "12 + i \<notin> set (file_blocks s d)" using fok i by (auto simp: file_ok_def free_blks_def)
  show n: "vi_inum (vinodes s d) \<noteq> n" using sy f ty by (auto simp: synced_def free_inode_def dinode_of_def)
  show "synced s' rd d" using sy n by (simp add: synced_def s' dk)
qed

lemma rfs_create_ok:
  fixes s :: "'h fs"
  assumes ok: "dir_ok s sb rd d" and sy: "synced s rd d" and room: "vi_size (vinodes s d) < 4096 * vi_blocks (vinodes s d)"
    and nm: "length (d_name (dentries s sub)) < 28" "0 \<notin> set (d_name (dentries s sub))"
    and f: "free_inode s rd n" "free_blks s sb \<noteq> {}"
    and pg: "pages_free (fs_pool s) = p # q # ps" "page_in (fs_pool s) p" "page_in (fs_pool s) q" "d \<noteq> p"
  shows "\<exists>s'. rfs_create d sub s = Inr (p, s') \<and> dir_ok s' sb rd d \<and> synced s' rd d \<and>
    dir_list s' rd d = dir_list s rd d @ [(d_name (dentries s sub), n)] \<and> fresh_vinode s' sb rd p FILE_I n \<and>
    fs_pool s' = (fs_pool s)\<lparr>pages_free := q # ps\<rparr> \<and> dentries s' = dentries s"
proof -
  let ?nm = "d_name (dentries s sub)"
  have fok: "file_ok s sb rd d" "inum_ok n" using ok f(1) by (simp_all add: dir_ok_def free_inode_def)
  have v: "vi_sb (vinodes s d) = sb" "rdev_of sb s = Inr rd" "sb_nblocks (sbs s sb) = NBLOCKS" "int32 FILE_I" "int32 n"
    using fok by (simp_all add: file_ok_def int32_def inum_ok_def)
  define msg where "msg = ''rfs_create: no more free disk inode, we cannot create file.''"
  obtain i k b io D where c: "i \<in> free_blks s sb" "1 \<le> k" "k < 11"
    "claim_dinode msg FILE_I rd sb s = Inr (n, set_disk rd k b (set_iobuffer rd io (set_fmap sb i 1 (s\<lparr>dinodes := D\<rparr>))))"
    "dinode_on ((disk s rd)(k := b)) = (dinode_on (disk s rd))(n := fresh_dinode FILE_I (12 + i) (dinode_on (disk s rd) n))"
    using claim_dinode_ok [OF f(1) pg(1,2) v(3) f(2) v(4), of msg] by blast
  define s1 where "s1 = set_disk rd k b (set_iobuffer rd io (set_fmap sb i 1 (s\<lparr>dinodes := D\<rparr>)))"
  have s1: "vinodes s1 = vinodes s" "rdev_of sb s1 = Inr rd" "sbs s1 = sbs s" "fmap s1 sb = (fmap s sb)(i := 1)"
    "disk s1 rd = (disk s rd)(k := b)" "fs_pool s1 = fs_pool s" "dentries s1 = dentries s"
    using v(2) by (simp_all add: s1_def)
  obtain io2 V where bv: "build_vinode sb n s1 = Inr (p, set_iobuffer rd io2
      (s1\<lparr>fs_pool := (fs_pool s1)\<lparr>pages_free := q # ps\<rparr>, dinodes := (dinodes s1)(q := dinode_on (disk s1 rd) n),
         vinodes := (vinodes s1)(p := V)\<rparr>))"
    "dinode_of V = dinode_on (disk s1 rd) n" "vi_inum V = n" "vi_sb V = sb" "vi_ref V = 0" "vi_ops V = Rfs_i_ops"
    using build_vinode_ok [OF s1(2) fok(2), of p q ps] pg(1-3) unfolding s1(6) by auto
  define s2 where "s2 = set_iobuffer rd io2 (s1\<lparr>fs_pool := (fs_pool s1)\<lparr>pages_free := q # ps\<rparr>,
     dinodes := (dinodes s1)(q := dinode_on (disk s1 rd) n), vinodes := (vinodes s1)(p := V)\<rparr>)"
  have s2: "vinodes s2 = (vinodes s)(p := V)" "rdev_of sb s2 = rdev_of sb s" "sbs s2 = sbs s" "fmap s2 sb = (fmap s sb)(i := 1)"
    "disk s2 rd = (disk s rd)(k := b)" "dentries s2 = dentries s"
    using v(2) by (simp_all add: s2_def s1)
  have vd: "vinodes s2 d = vinodes s d" using pg(4) by (simp add: s2)
  note F = claim_frame [OF ok sy c(1,3) f(1) c(5) vd s2(2-5)]
  have ino: "inum_ok (vi_inum (vinodes s2 d))" "dinode_ok (dinode_of (vinodes s2 d))"
    using F(3) dinode_on_ok by (simp_all add: synced_def) (metis dinode_on_ok)
  obtain s' R where a: "s' = s2\<lparr>rdevs := R, vinodes := (vinodes s2)(d := (vinodes s2 d)\<lparr>vi_size := vi_size (vinodes s2 d) + 32\<rparr>)\<rparr>"
    "rfs_add_direntry d ?nm n s2 = Inr (0, s')" "dir_ok s' sb rd d" "dir_list s' rd d = dir_list s2 rd d @ [(?nm, n)]"
    "rdev_of sb s' = Inr rd"
    "\<forall>m. inum_ok m \<longrightarrow> dinode_on (disk s' rd) m = (if m = vi_inum (vinodes s2 d) then dinode_of (vinodes s' d) else dinode_on (disk s2 rd) m)"
    using add_direntry_ok [OF F(1) _ nm v(5) ino] room unfolding vd by blast
  have "rfs_create d sub s = Inr (p, s')"
    using c(4) bv(1) a(2) v(1,2) by (simp add: rfs_create_def Let_def s2(6) flip: msg_def s1_def s2_def)
  moreover have "synced s' rd d"
    using ino a(6) by (simp add: synced_def a(1))
  moreover have "fresh_vinode s' sb rd p FILE_I n"
  proof (rule fresh_vinodeI [where b="12 + i"])
    show "dinode_of (vinodes s' p) = fresh_dinode FILE_I (12 + i) (dinode_on (disk s rd) n)"
      using bv(2) pg(4) by (simp add: a(1) s2(1) s1(5) c(5))
    then show "dinode_on (disk s' rd) n = dinode_of (vinodes s' p)"
      using a(6) fok(2) F(4) by (simp add: s2(5) c(5) vd)
    show "fmap s' sb (12 + i - 12) \<noteq> 0" by (simp add: a(1) s2(4) fmap_rdevs)
  qed (use bv pg(4) a(5) fok(2) c(1) v(3) in \<open>simp_all add: a(1) s2(1,3) free_blks_def\<close>)
  ultimately show ?thesis using a F(2) by (intro exI [of _ s']) (simp add: s2_def s1)
qed

section \<open>Properties\<close>

definition ex_dir_vinode :: vinode where
  "ex_dir_vinode = \<lparr>vi_inum = 0, vi_ref = 1, vi_size = 32, vi_type = DIR_I, vi_nlinks = 1, vi_blocks = 1,
     vi_addrs = [13, 0, 0, 0, 0, 0, 0, 0, 0, 0], vi_fs_info = 0, vi_sb = 0x80003000, vi_ops = Rfs_i_ops\<rparr>"

text \<open>A disk with a directory in inode 0 that holds the entry \<open>([97], 0)\<close>; inode 1 is free.\<close>

definition ex_inodes :: block where
  "ex_inodes = store_dinode 128 \<lparr>di_size = 0, di_type = R_FREE, di_nlinks = 0, di_blocks = 0, di_addrs = replicate 10 0\<rparr>
     (store_dinode 0 (dinode_of ex_dir_vinode) (\<lambda>_. 0))"

definition ex_dir :: "cname \<Rightarrow> unit fs" where
  "ex_dir nm = ex_fs\<lparr>vinodes := (\<lambda>_. ex_dir_vinode),
     dentries := (\<lambda>_. \<lparr>d_name = nm, d_ref = 0, d_inode = 0, d_parent = 0\<rparr>),
     rdevs := (rdevs ex_fs)(0x80001000 := (rdevs ex_fs 0x80001000)\<lparr>d_disk := (\<lambda>n.
       if n = 1 then ex_inodes else if n = 13 then put_bytes 0 (ent_enc [97] 0) (\<lambda>_. 0) else (\<lambda>_. 0))\<rparr>)\<rparr>"

lemma ex_dir_sel:
  "vinodes (ex_dir nm) = (\<lambda>_. ex_dir_vinode)" "dentries (ex_dir nm) = (\<lambda>_. \<lparr>d_name = nm, d_ref = 0, d_inode = 0, d_parent = 0\<rparr>)"
  "fs_pool (ex_dir nm) = fs_pool ex_fs" "sbs (ex_dir nm) = sbs ex_fs" "rdev_of sb (ex_dir nm) = rdev_of sb ex_fs"
  "fmap (ex_dir nm) sb = fmap ex_fs sb"
  "disk (ex_dir nm) 0x80001000 = (\<lambda>n. if n = 1 then ex_inodes else if n = 13 then put_bytes 0 (ent_enc [97] 0) (\<lambda>_. 0) else (\<lambda>_. 0))"
  by (simp_all add: ex_dir_def rdev_of_def fmap_def disk_def)

lemma ex_dir_ok: "dir_ok (ex_dir nm) 0x80003000 0x80001000 d" "dir_list (ex_dir nm) 0x80001000 d = [([97], 0)]"
proof -
  have f: "file_ok (ex_dir nm) 0x80003000 0x80001000 d"
    by (simp add: file_ok_def file_blocks_def ex_dir_sel) (simp add: ex_fs_def ex_dir_vinode_def rdev_of_def fmap_def)
  have "length (ent_enc [97] 0) \<le> 32" by (simp add: ent_enc_def)
  then obtain ys where e: "ent_bytes (ex_dir nm) 0x80001000 d 0 = ent_enc [97] 0 @ ys"
    using get_put_prefix [of "ent_enc [97] 0" 32 0 "\<lambda>_. 0"] by (auto simp: ent_bytes_blk ent_blk_def ex_dir_sel ex_dir_vinode_def)
  have "0 \<in> set (drop 4 (ent_bytes (ex_dir nm) 0x80001000 d i))" if "i < 1" for i
    using that by (simp add: e ent_enc_def)
  then have o: "dir_ok (ex_dir nm) 0x80003000 0x80001000 d" "dir_count (ex_dir nm) d = 1"
    using dir_okI [OF f, of 1] by (simp_all add: ex_dir_sel ex_dir_vinode_def)
  then show "dir_ok (ex_dir nm) 0x80003000 0x80001000 d" by simp
  show "dir_list (ex_dir nm) 0x80001000 d = [([97], 0)]"
    using o(2) ent_dec_enc(1) [of 0 "[97]"] by (simp add: dir_list_dec [OF o(1)] e int32_def)
qed

lemma ex_dir_dinodes:
  "dinode_on (disk (ex_dir nm) 0x80001000) 0 = dinode_of ex_dir_vinode" "di_type (dinode_on (disk (ex_dir nm) 0x80001000) 1) = R_FREE"
proof -
  have d: "dinode_ok (dinode_of ex_dir_vinode)" by (simp add: dinode_ok_def dinode_of_def ex_dir_vinode_def int32_def)
  have "load_dinode ex_inodes 0 = load_dinode (store_dinode 0 (dinode_of ex_dir_vinode) (\<lambda>_. 0)) 0"
    by (rule load_dinode_cong) (simp add: ex_inodes_def store_dinode_def put_bytes_out)
  then show "dinode_on (disk (ex_dir nm) 0x80001000) 0 = dinode_of ex_dir_vinode"
    using load_store_dinode [OF d] by (simp add: dinode_on_def ex_dir_sel)
  show "di_type (dinode_on (disk (ex_dir nm) 0x80001000) 1) = R_FREE"
    unfolding dinode_on_def ex_dir_sel by (simp add: ex_inodes_def, subst load_store_dinode) (simp_all add: dinode_ok_def int32_def)
qed

lemma ex_dir_synced: "synced (ex_dir nm) 0x80001000 d" "free_inode (ex_dir nm) 0x80001000 1"
proof -
  show "synced (ex_dir nm) 0x80001000 d"
    by (simp add: synced_def ex_dir_sel(1) ex_dir_dinodes(1)) (simp add: ex_dir_vinode_def inum_ok_def ex_dir_dinodes(1) [unfolded ex_dir_vinode_def])
  have "di_type (dinode_on (disk (ex_dir nm) 0x80001000) m) \<noteq> R_FREE" if "0 \<le> m" "m < 1" for m :: int
  proof -
    have "m = 0" using that by simp
    then show ?thesis by (simp add: ex_dir_dinodes(1)) (simp add: dinode_of_def ex_dir_vinode_def)
  qed
  then show "free_inode (ex_dir nm) 0x80001000 1" using ex_dir_dinodes(2) by (simp add: free_inode_def inum_ok_def)
qed

lemma ex_dir_pages:
  "pages_free (fs_pool (ex_dir nm)) = [0x80009000, 0x80008000, 0x80007000]" "page_in (fs_pool (ex_dir nm)) 0x80009000"
  "page_in (fs_pool (ex_dir nm)) 0x80008000" "page_in (fs_pool (ex_dir nm)) 0x80007000"
  by (simp_all add: ex_dir_sel ex_fs_def page_in_def)

text \<open>
  C24. \<^verbatim>\<open>rfs_lookup\<close> finds a name exactly when the directory has an entry for it. It then returns a new vinode
  for the inode number of the first such entry, filled from the disk, and otherwise returns NULL without allocating.
  Neither changes the disk.
\<close>

theorem rfs_lookup_correct:
  assumes "dir_ok s sb rd d" "0 \<notin> set (d_name (dentries s sub))"
    "pages_free (fs_pool s) = p # q # ps" "page_in (fs_pool s) p" "page_in (fs_pool s) q"
    "\<forall>e \<in> set (dir_list s rd d). inum_ok (snd e)"
  shows "case map_of (dir_list s rd d) (d_name (dentries s sub)) of
      None \<Rightarrow> \<exists>io. rfs_lookup d sub s = Inr (0, set_iobuffer rd io s)
    | Some n \<Rightarrow> \<exists>s'. rfs_lookup d sub s = Inr (p, s') \<and> fs_pool s' = (fs_pool s)\<lparr>pages_free := q # ps\<rparr> \<and>
        disk s' rd = disk s rd \<and> vi_inum (vinodes s' p) = n \<and> vi_sb (vinodes s' p) = sb \<and> vi_ref (vinodes s' p) = 0 \<and>
        vi_ops (vinodes s' p) = Rfs_i_ops \<and> dinode_of (vinodes s' p) = dinode_on (disk s rd) n"
proof (cases "map_of (dir_list s rd d) (d_name (dentries s sub))")
  case None
  then show ?thesis using rfs_lookup_ok [OF assms] by simp
next
  case (Some n)
  then obtain io V where "rfs_lookup d sub s = Inr (p, set_iobuffer rd io
        (s\<lparr>fs_pool := (fs_pool s)\<lparr>pages_free := q # ps\<rparr>, dinodes := (dinodes s)(q := dinode_on (disk s rd) n),
           vinodes := (vinodes s)(p := V)\<rparr>))"
    "dinode_of V = dinode_on (disk s rd) n" "vi_inum V = n" "vi_sb V = sb" "vi_ref V = 0" "vi_ops V = Rfs_i_ops"
    using rfs_lookup_ok [OF assms] by auto
  then show ?thesis using Some by simp
qed

theorem rfs_lookup_correct_witness:
  "\<exists>s'. rfs_lookup 0x80002000 0x80006000 (ex_dir [97]) = Inr (0x80009000, s') \<and> vi_inum (vinodes s' 0x80009000) = 0"
proof -
  have "0 \<notin> set (d_name (dentries (ex_dir [97]) 0x80006000))" "\<forall>e \<in> set (dir_list (ex_dir [97]) 0x80001000 0x80002000). inum_ok (snd e)"
    by (simp_all add: ex_dir_sel ex_dir_ok(2) inum_ok_def)
  from rfs_lookup_correct [OF ex_dir_ok(1) this(1) ex_dir_pages(1-3) this(2)] show ?thesis
    by (auto simp: ex_dir_ok(2) ex_dir_sel(2))
qed

text \<open>
  C23. \<^verbatim>\<open>rfs_create\<close> in a directory with room appends an entry for the new name with the first free inode
  number. The vinode it returns is an empty regular file with one block of its own that agrees with its inode on
  the disk, and the directory keeps its well-formedness and its agreement with the disk.
\<close>

theorem rfs_create_correct:
  assumes "dir_ok s sb rd d" "synced s rd d" "vi_size (vinodes s d) < 4096 * vi_blocks (vinodes s d)"
    "length (d_name (dentries s sub)) < 28" "0 \<notin> set (d_name (dentries s sub))"
    "free_inode s rd n" "free_blks s sb \<noteq> {}"
    "pages_free (fs_pool s) = p # q # ps" "page_in (fs_pool s) p" "page_in (fs_pool s) q" "d \<noteq> p"
  shows "\<exists>s'. rfs_create d sub s = Inr (p, s') \<and> dir_ok s' sb rd d \<and> synced s' rd d \<and>
    dir_list s' rd d = dir_list s rd d @ [(d_name (dentries s sub), n)] \<and> fresh_vinode s' sb rd p FILE_I n"
  using rfs_create_ok [OF assms] by blast

theorem rfs_create_correct_witness:
  "\<exists>s'. rfs_create 0x80002000 0x80006000 (ex_dir [98]) = Inr (0x80009000, s') \<and>
     dir_list s' 0x80001000 0x80002000 = [([97], 0), ([98], 1)]"
proof -
  have "vi_size (vinodes (ex_dir [98]) 0x80002000) < 4096 * vi_blocks (vinodes (ex_dir [98]) 0x80002000)"
    "length (d_name (dentries (ex_dir [98]) 0x80006000)) < 28" "0 \<notin> set (d_name (dentries (ex_dir [98]) 0x80006000))"
    by (simp_all add: ex_dir_sel ex_dir_vinode_def)
  moreover have "2 \<in> free_blks (ex_dir [98]) 0x80003000"
    unfolding free_blks_def ex_dir_sel by (simp add: fmap_def ex_fs_def)
  ultimately show ?thesis
    using rfs_create_correct [where s="ex_dir [98]" and d="0x80002000" and sub="0x80006000", OF ex_dir_ok(1) ex_dir_synced(1) _ _ _ ex_dir_synced(2) _ ex_dir_pages(1-3)]
    by (auto simp: ex_dir_ok(2) ex_dir_sel(2))
qed

text \<open>
  A file that \<^verbatim>\<open>rfs_create\<close> has just made under a new name is found by \<^verbatim>\<open>rfs_lookup\<close>: the
  vinode returned has the inode number given to the file and describes the same empty regular file.
\<close>

theorem rfs_create_lookup:
  assumes "dir_ok s sb rd d" "synced s rd d" "vi_size (vinodes s d) < 4096 * vi_blocks (vinodes s d)"
    "length (d_name (dentries s sub)) < 28" "0 \<notin> set (d_name (dentries s sub))"
    "d_name (dentries s sub) \<notin> fst ` set (dir_list s rd d)" "\<forall>e \<in> set (dir_list s rd d). inum_ok (snd e)"
    "free_inode s rd n" "free_blks s sb \<noteq> {}"
    "pages_free (fs_pool s) = p # q # r # ps" "page_in (fs_pool s) p" "page_in (fs_pool s) q" "page_in (fs_pool s) r" "d \<noteq> p"
  shows "\<exists>s' s''. rfs_create d sub s = Inr (p, s') \<and> rfs_lookup d sub s' = Inr (q, s'') \<and>
    vi_inum (vinodes s'' q) = n \<and> dinode_of (vinodes s'' q) = dinode_of (vinodes s' p) \<and> vi_type (vinodes s'' q) = FILE_I"
proof -
  obtain s' where c: "rfs_create d sub s = Inr (p, s')" "dir_ok s' sb rd d"
    "dir_list s' rd d = dir_list s rd d @ [(d_name (dentries s sub), n)]" "fresh_vinode s' sb rd p FILE_I n"
    "fs_pool s' = (fs_pool s)\<lparr>pages_free := q # r # ps\<rparr>" "dentries s' = dentries s"
    using rfs_create_ok [OF assms(1-5,8-12,14)] by blast
  have n: "inum_ok n" "dinode_on (disk s' rd) n = dinode_of (vinodes s' p)" "vi_type (vinodes s' p) = FILE_I"
    using c(4) by (auto simp: fresh_vinode_def synced_def)
  have "map_of (dir_list s' rd d) (d_name (dentries s' sub)) = Some n"
    using assms(6) map_of_eq_None_iff [of "dir_list s rd d" "d_name (dentries s sub)"] by (simp add: c map_add_def)
  then obtain io V where l: "rfs_lookup d sub s' = Inr (q, set_iobuffer rd io
        (s'\<lparr>fs_pool := (fs_pool s')\<lparr>pages_free := r # ps\<rparr>, dinodes := (dinodes s')(r := dinode_on (disk s' rd) n),
           vinodes := (vinodes s')(q := V)\<rparr>))" "dinode_of V = dinode_on (disk s' rd) n" "vi_inum V = n"
    using rfs_lookup_ok [OF c(2), of sub q r ps] assms(5,7,12,13) n(1) by (auto simp: c page_in_def)
  have "vi_type V = FILE_I" using n(2,3) l(2) by (simp add: vi_of_dinode(2))
  then show ?thesis using c(1) l n(2) by auto
qed

theorem rfs_create_lookup_witness:
  "\<exists>s' s''. rfs_create 0x80002000 0x80006000 (ex_dir [98]) = Inr (0x80009000, s') \<and>
     rfs_lookup 0x80002000 0x80006000 s' = Inr (0x80008000, s'') \<and> vi_inum (vinodes s'' 0x80008000) = 1"
proof -
  have "vi_size (vinodes (ex_dir [98]) 0x80002000) < 4096 * vi_blocks (vinodes (ex_dir [98]) 0x80002000)"
    "length (d_name (dentries (ex_dir [98]) 0x80006000)) < 28" "0 \<notin> set (d_name (dentries (ex_dir [98]) 0x80006000))"
    "d_name (dentries (ex_dir [98]) 0x80006000) \<notin> fst ` set (dir_list (ex_dir [98]) 0x80001000 0x80002000)"
    "\<forall>e \<in> set (dir_list (ex_dir [98]) 0x80001000 0x80002000). inum_ok (snd e)"
    by (simp_all add: ex_dir_sel(1,2) ex_dir_ok(2) ex_dir_vinode_def inum_ok_def)
  moreover have "2 \<in> free_blks (ex_dir [98]) 0x80003000"
    unfolding free_blks_def ex_dir_sel by (simp add: fmap_def ex_fs_def)
  ultimately show ?thesis
    using rfs_create_lookup [where s="ex_dir [98]" and d="0x80002000" and sub="0x80006000", OF ex_dir_ok(1) ex_dir_synced(1) _ _ _ _ _ ex_dir_synced(2) _ ex_dir_pages(1-4)]
    by auto
qed

end
