(* ===== verification/Rfs_Unlink.thy ===== *)
theory Rfs_Unlink
  imports Rfs_Dirs
begin

text \<open>
  Removing directory entries in \<^verbatim>\<open>kernel/rfs.c\<close>. The code moves the entries behind the removed one up by
  32 bytes, block by block through two pages; the directory file is shown to lose exactly one entry.
\<close>

section \<open>Shifting the blocks\<close>

text \<open>The contents wanted after the shift: \<open>gap g e\<close> is \<open>g\<close> without the 32 bytes of entry \<open>e\<close>.\<close>

definition gap :: "(nat \<Rightarrow> uint8) \<Rightarrow> nat \<Rightarrow> nat \<Rightarrow> uint8" where
  "gap g e x = (if x < 32 * e then g x else g (x + 32))"

lemma page_in_free [simp]: "page_in (pl\<lparr>pages_free := P\<rparr>) p = page_in pl p"
  by (simp add: page_in_def)

text \<open>Everything but the disk of \<open>rd\<close>, the pages and the page pool is as before.\<close>

definition io_frame :: "'h fs \<Rightarrow> 'h fs \<Rightarrow> bool" where
  "io_frame s s' \<longleftrightarrow> (\<exists>P R W. s' = s\<lparr>fs_pool := (fs_pool s)\<lparr>pages_free := P\<rparr>, rdevs := R, raw_pages := W\<rparr>)"

lemma io_frame_sel:
  assumes "io_frame s s'"
  shows "vinodes s' = vinodes s" "sbs s' = sbs s" "rdev_of sb s' = rdev_of sb s" "fmap s' sb = fmap s sb"
    "page_in (fs_pool s') = page_in (fs_pool s)" "dentries s' = dentries s" "dinodes s' = dinodes s"
    "file_ok s' sb rd f = file_ok s sb rd f" "file_blocks s' f = file_blocks s f"
proof -
  obtain R W P where s': "s' = s\<lparr>fs_pool := (fs_pool s)\<lparr>pages_free := P\<rparr>, rdevs := R, raw_pages := W\<rparr>"
    using assms by (auto simp: io_frame_def)
  show "vinodes s' = vinodes s" "sbs s' = sbs s" "rdev_of sb s' = rdev_of sb s" "fmap s' sb = fmap s sb"
    "page_in (fs_pool s') = page_in (fs_pool s)" "dentries s' = dentries s" "dinodes s' = dinodes s"
    by (simp_all add: s' rdev_of_def fmap_def page_in_def fun_eq_iff)
  then show "file_ok s' sb rd f = file_ok s sb rd f" "file_blocks s' f = file_blocks s f"
    by (simp_all add: file_ok_def file_blocks_def)
qed

lemma io_frameI:
  "s' = s\<lparr>fs_pool := (fs_pool s)\<lparr>pages_free := P\<rparr>, rdevs := R, raw_pages := W\<rparr> \<Longrightarrow> io_frame s s'"
  unfolding io_frame_def by blast

lemma io_frame_trans: "io_frame s t \<Longrightarrow> io_frame t u \<Longrightarrow> io_frame s u"
  unfolding io_frame_def
proof (elim exE)
  fix P P' R R' W W'
  assume t: "t = s\<lparr>fs_pool := (fs_pool s)\<lparr>pages_free := P\<rparr>, rdevs := R, raw_pages := W\<rparr>"
    and u: "u = t\<lparr>fs_pool := (fs_pool t)\<lparr>pages_free := P'\<rparr>, rdevs := R', raw_pages := W'\<rparr>"
  then have "u = s\<lparr>fs_pool := (fs_pool s)\<lparr>pages_free := P'\<rparr>, rdevs := R', raw_pages := W'\<rparr>" by simp
  then show "\<exists>P R W. u = s\<lparr>fs_pool := (fs_pool s)\<lparr>pages_free := P\<rparr>, rdevs := R, raw_pages := W\<rparr>" by blast
qed

lemma io_frame_refl: "io_frame s s"
  by (rule io_frameI [where P="pages_free (fs_pool s)" and R="rdevs s" and W="raw_pages s"]) simp

lemma file_byte_upd':
  assumes "file_ok s sb rd f" "int j < vi_blocks (vinodes s f)" "int x < 4096 * vi_blocks (vinodes s f)" "io_frame s t"
    "disk t rd = (disk s rd)(vi_addrs (vinodes s f) ! j := B)"
  shows "file_byte t rd f x = (if x div 4096 = j then B (x mod 4096) else file_byte s rd f x)"
  using file_byte_upd [OF assms(1-3), of t B] assms(5) io_frame_sel(1) [OF assms(4)] by simp

lemma file_byte_at: "a < 4096 \<Longrightarrow> file_byte s rd f (4096 * j + a) = disk s rd (vi_addrs (vinodes s f) ! j) a"
  by (simp add: file_byte_def)

text \<open>One turn of the loop: the page \<open>r\<close> takes the next block without its first entry.\<close>

lemma shift_step:
  assumes ok: "file_ok s sb rd d" and i: "int (Suc i) < vi_blocks (vinodes s d)"
    and pg: "pages_free (fs_pool s) = r # ps" "page_in (fs_pool s) r" "page_in (fs_pool s) pp" "pp \<noteq> r"
  shows "\<exists>t. shift_blocks (Suc n) (int (Suc i)) rd d pp s = shift_blocks n (int (Suc (Suc i))) rd d r t \<and> io_frame s t \<and>
    pages_free (fs_pool t) = pp # ps \<and> (\<forall>k < 4064. raw_pages t r k = disk s rd (vi_addrs (vinodes s d) ! Suc i) (k + 32)) \<and>
    disk t rd = (disk s rd)(vi_addrs (vinodes s d) ! i :=
      put_bytes 4064 (get_bytes (disk s rd (vi_addrs (vinodes s d) ! Suc i)) 0 32) (raw_pages s pp))"
proof -
  let ?A = "vi_addrs (vinodes s d)"
  have i': "int i < vi_blocks (vinodes s d)" using i by simp
  note b1 = file_block_nth [OF ok i] and b0 = file_block_nth [OF ok i']
  have len: "length ?A = 10" using ok by (simp add: file_ok_def)
  define io where "io = disk s rd (?A ! Suc i)"
  define prev where "prev = put_bytes 4064 (get_bytes io 0 32) (raw_pages s pp)"
  define t where "t = set_disk rd (?A ! i) prev (set_iobuffer rd prev (s\<lparr>fs_pool := (fs_pool s)\<lparr>pages_free := pp # ps\<rparr>,
     raw_pages := (raw_pages s)(r := move_bytes 0 32 4064 io, pp := prev)\<rparr>))"
  have r0: "r \<noteq> 0" using pg(2) by (simp add: page_in_def)
  have pin: "page_in ((fs_pool s)\<lparr>pages_free := ps\<rparr>) pp" using pg(3) by (simp add: page_in_def)
  have e: "(set_disk rd b prev (set_iobuffer rd prev ((set_iobuffer rd io s)\<lparr>fs_pool := Q, raw_pages := W\<rparr>)))\<lparr>fs_pool := P\<rparr> =
      set_disk rd b prev (set_iobuffer rd prev (s\<lparr>fs_pool := P, raw_pages := W\<rparr>))" for b Q W P
    by (simp add: set_iobuffer_def set_disk_def)
  have "shift_blocks (Suc n) (int (Suc i)) rd d pp s = shift_blocks n (int (Suc (Suc i))) rd d r t"
    using b1(4,5) b0(4,5) len r0 pg(1) pin
    by (simp add: r1block_ok w1block_ok Let_def t_def nat_add_distrib e add.commute flip: io_def prev_def)
  moreover have "io_frame s t"
    by (rule io_frameI [where P="pp # ps" and R="rdevs t" and W="raw_pages t"]) (simp add: t_def set_disk_def set_iobuffer_def)
  moreover have "raw_pages t r k = io (k + 32)" if "k < 4064" for k
    using pg(4) that by (simp add: t_def move_bytes_def put_bytes_def add.commute)
  ultimately show ?thesis by (intro exI [of _ t]) (simp add: t_def io_def prev_def)
qed

lemma shift_blocks_ok:
  assumes "file_ok s sb rd d" "int (i + n) < vi_blocks (vinodes s d)"
    "pages_free (fs_pool s) = r # ps" "page_in (fs_pool s) r" "page_in (fs_pool s) pp" "pp \<noteq> r"
    "\<And>k. k < 4064 \<Longrightarrow> raw_pages s pp k = G (4096 * i + k)"
    "\<And>x. 4096 * i + 4064 \<le> x \<Longrightarrow> x < 4096 * (i + n) + 4064 \<Longrightarrow> G x = file_byte s rd d (x + 32)"
  shows "\<exists>pp' r' s'. shift_blocks n (int (Suc i)) rd d pp s = Inr (pp', s') \<and> {pp', r'} = {pp, r} \<and> io_frame s s' \<and>
    pages_free (fs_pool s') = r' # ps \<and> (\<forall>k < 4064. raw_pages s' pp' k = G (4096 * (i + n) + k)) \<and>
    (\<forall>x. int x < 4096 * vi_blocks (vinodes s d) \<longrightarrow>
       file_byte s' rd d x = (if 4096 * i \<le> x \<and> x < 4096 * (i + n) then G x else file_byte s rd d x)) \<and>
    (\<forall>b. b \<notin> set (file_blocks s d) \<longrightarrow> disk s' rd b = disk s rd b)"
  using assms
proof (induction n arbitrary: i pp r s)
  case 0
  have "shift_blocks 0 (int (Suc i)) rd d pp s = Inr (pp, s)" "io_frame s s" by (simp_all add: io_frame_refl)
  then show ?case using 0(3,7) by (intro exI [of _ pp] exI [of _ r] exI [of _ s]) auto
next
  case (Suc n)
  note ok = Suc.prems(1) and G = Suc.prems(7,8)
  let ?A = "vi_addrs (vinodes s d)"
  let ?B = "put_bytes 4064 (get_bytes (disk s rd (?A ! Suc i)) 0 32) (raw_pages s pp)"
  have i: "int (Suc i) < vi_blocks (vinodes s d)" "int i < vi_blocks (vinodes s d)" using Suc.prems(2) by simp_all
  obtain t where t: "shift_blocks (Suc n) (int (Suc i)) rd d pp s = shift_blocks n (int (Suc (Suc i))) rd d r t"
    "io_frame s t" "pages_free (fs_pool t) = pp # ps" "\<And>k. k < 4064 \<Longrightarrow> raw_pages t r k = disk s rd (?A ! Suc i) (k + 32)"
    "disk t rd = (disk s rd)(?A ! i := ?B)"
    using shift_step [OF ok i(1) Suc.prems(3-6)] by blast
  note F = io_frame_sel [OF t(2)]
  have fb: "file_byte t rd d x = (if x div 4096 = i then ?B (x mod 4096) else file_byte s rd d x)"
    if "int x < 4096 * vi_blocks (vinodes s d)" for x by (rule file_byte_upd' [OF ok i(2) that t(2,5)])
  have B: "?B k = G (4096 * i + k)" if "k < 4096" for k
  proof (cases "k < 4064")
    case True
    then show ?thesis using G(1) by (simp add: put_bytes_out)
  next
    case False
    define m where "m = k - 4064"
    have m: "k = 4064 + m" "m < 32" using False that by (simp_all add: m_def)
    have "G (4096 * i + k) = file_byte s rd d (4096 * Suc i + m)" using G(2) [of "4096 * i + k"] m by (simp add: ac_simps)
    then show ?thesis using m file_byte_at [of m s rd d "Suc i"] by (simp add: put_bytes_def)
  qed
  have raw: "raw_pages t r k = G (4096 * Suc i + k)" if "k < 4064" for k
    using that G(2) [of "4096 * Suc i + k"] file_byte_at [of "k + 32" s rd d "Suc i"] by (simp add: t(4) add.assoc)
  have G': "G x = file_byte t rd d (x + 32)" if x: "4096 * Suc i + 4064 \<le> x" "x < 4096 * (Suc i + n) + 4064" for x
  proof -
    have "int (x + 32) < int (4096 * (i + n + 2))" using x(2) by (subst of_nat_less_iff) simp
    then have "int (x + 32) < 4096 * vi_blocks (vinodes s d)" using Suc.prems(2) by simp
    moreover have "Suc i \<le> (x + 32) div 4096" using x(1) by (simp add: less_eq_div_iff_mult_less_eq)
    ultimately show ?thesis using G(2) [of x] x fb [of "x + 32"] by simp
  qed
  obtain pp' r' s' where r: "shift_blocks n (int (Suc (Suc i))) rd d r t = Inr (pp', s')" "{pp', r'} = {r, pp}" "io_frame t s'"
    "pages_free (fs_pool s') = r' # ps" "\<forall>k < 4064. raw_pages s' pp' k = G (4096 * (Suc i + n) + k)"
    "\<forall>x. int x < 4096 * vi_blocks (vinodes t d) \<longrightarrow>
       file_byte s' rd d x = (if 4096 * Suc i \<le> x \<and> x < 4096 * (Suc i + n) then G x else file_byte t rd d x)"
    "\<forall>b. b \<notin> set (file_blocks t d) \<longrightarrow> disk s' rd b = disk t rd b"
    using Suc.IH [of t "Suc i" pp r, OF _ _ t(3) _ _ _ raw G'] Suc.prems(1-6) by (auto simp: F)
  have "file_byte s' rd d x = (if 4096 * i \<le> x \<and> x < 4096 * (i + Suc n) then G x else file_byte s rd d x)"
    if x: "int x < 4096 * vi_blocks (vinodes s d)" for x
  proof (cases "x div 4096 = i")
    case True
    then have "4096 * i \<le> x" "x < 4096 * Suc i" "G (4096 * i + x mod 4096) = G x" using div_mult_mod_eq [of x 4096] by auto
    then show ?thesis using r(6) x fb [OF x] B [of "x mod 4096"] True by (auto simp: F)
  next
    case False
    then have "4096 * Suc i \<le> x \<longleftrightarrow> 4096 * i \<le> x"
      using less_eq_div_iff_mult_less_eq [of 4096 i x] less_eq_div_iff_mult_less_eq [of 4096 "Suc i" x] by (auto simp: mult.commute)
    then show ?thesis using r(6) x fb [OF x] False by (simp add: F)
  qed
  moreover have "disk s' rd b = disk s rd b" if "b \<notin> set (file_blocks s d)" for b
    using r(7) that file_block_nth(1) [OF ok i(2)] by (auto simp: F t(5))
  moreover have "{pp', r'} = {pp, r}" using r(2) by auto
  moreover have "shift_blocks (Suc n) (int (Suc i)) rd d pp s = Inr (pp', s')" using t(1) r(1) by (simp only:)
  ultimately show ?case using r(4,5) io_frame_trans [OF t(2) r(3)]
    by (intro exI [of _ pp'] exI [of _ r'] exI [of _ s']) (simp del: shift_blocks.simps of_nat_Suc)
qed

section \<open>Removing an entry\<close>

lemma gap_first_block:
  assumes "k < 4064" "b = disk s rd (vi_addrs (vinodes s d) ! (e div 128))"
  shows "move_bytes (ent_off e) ((e mod 128 + 1) * 32) ((127 - e mod 128) * 32) b k = gap (file_byte s rd d) e (4096 * (e div 128) + k)"
proof -
  have o: "ent_off e + (127 - e mod 128) * 32 = 4064" by (simp add: less_Suc_eq_le flip: add_mult_distrib)
  have "4096 * (e div 128) + k < 32 * e \<longleftrightarrow> k < ent_off e" using ent_pos(3) [of e] by simp
  then show ?thesis
    using assms(1) o file_byte_at [of k s rd d "e div 128"] file_byte_at [of "k + 32" s rd d "e div 128"]
    by (auto simp: gap_def move_bytes_def put_bytes_def assms(2) add.assoc add.commute [of 32])
qed

lemma remove_shift_ok:
  assumes ok: "file_ok s sb rd d" and e: "int (e div 128) < vi_blocks (vinodes s d)"
    and pg: "pages_free (fs_pool s) = r0 # r1 # ps" "page_in (fs_pool s) r0" "page_in (fs_pool s) r1" "r0 \<noteq> r1"
  shows "\<exists>u y z. remove_direntry rd d (int e) N s = shrink_dir d (N - 1) u \<and> io_frame s u \<and> {y, z} = {r0, r1} \<and>
    pages_free (fs_pool u) = y # z # ps \<and>
    (\<forall>x. int x + 32 < 4096 * vi_blocks (vinodes s d) \<longrightarrow> file_byte u rd d x = gap (file_byte s rd d) e x) \<and>
    (\<forall>b. b \<notin> set (file_blocks s d) \<longrightarrow> disk u rd b = disk s rd b)"
proof -
  let ?A = "vi_addrs (vinodes s d)" and ?j = "e div 128" and ?G = "gap (file_byte s rd d) e"
  define n where "n = nat (vi_blocks (vinodes s d)) - Suc ?j"
  have n: "int (?j + n) = vi_blocks (vinodes s d) - 1" "nat (vi_blocks (vinodes s d) - (int ?j + 1)) = n"
    using e by (simp_all add: n_def)
  have jn: "int (?j + n) < vi_blocks (vinodes s d)" using n(1) by simp
  note b0 = file_block_nth [OF ok e] and b1 = file_block_nth [OF ok jn]
  have len: "length ?A = 10" using ok by (simp add: file_ok_def)
  have r0: "r0 \<noteq> 0" using pg(2) by (simp add: page_in_def)
  define io where "io = move_bytes (ent_off e) ((e mod 128 + 1) * 32) ((127 - e mod 128) * 32) (disk s rd (?A ! ?j))"
  define t where "t = (set_iobuffer rd io s)\<lparr>fs_pool := (fs_pool s)\<lparr>pages_free := r1 # ps\<rparr>, raw_pages := (raw_pages s)(r0 := io)\<rparr>"
  have fr: "io_frame s t"
    by (rule io_frameI [where P="r1 # ps" and R="rdevs t" and W="raw_pages t"]) (simp add: t_def set_iobuffer_def)
  note F = io_frame_sel [OF fr]
  have dk: "disk t rd = disk s rd" by (simp add: t_def)
  have fb: "file_byte t rd d = file_byte s rd d" by (simp add: file_byte_def fun_eq_iff dk F)
  have T: "file_ok t sb rd d" "int (?j + n) < vi_blocks (vinodes t d)" "pages_free (fs_pool t) = r1 # ps"
    "page_in (fs_pool t) r1" "page_in (fs_pool t) r0"
    using ok jn pg(2,3) by (simp_all add: F) (simp add: t_def)
  have raw: "raw_pages t r0 k = ?G (4096 * ?j + k)" if "k < 4064" for k
    using gap_first_block [where s=s and rd=rd and d=d and e=e, OF that refl] by (simp add: t_def io_def)
  have G: "?G x = file_byte t rd d (x + 32)" if "4096 * ?j + 4064 \<le> x" "x < 4096 * (?j + n) + 4064" for x
    using that(1) ent_pos(3) [of e] ent_off_bound [of e] by (simp add: gap_def fb)
  obtain y z v where sh: "shift_blocks n (int (Suc ?j)) rd d r0 t = Inr (y, v)" "{y, z} = {r0, r1}" "io_frame t v"
    "pages_free (fs_pool v) = z # ps" "\<forall>k < 4064. raw_pages v y k = ?G (4096 * (?j + n) + k)"
    "\<forall>x. int x < 4096 * vi_blocks (vinodes t d) \<longrightarrow>
       file_byte v rd d x = (if 4096 * ?j \<le> x \<and> x < 4096 * (?j + n) then ?G x else file_byte t rd d x)"
    "\<forall>b. b \<notin> set (file_blocks t d) \<longrightarrow> disk v rd b = disk t rd b"
    using shift_blocks_ok [OF T pg(4) raw G] by blast
  define u where "u = (set_disk rd (?A ! (?j + n)) (raw_pages v y) (set_iobuffer rd (raw_pages v y) v))
    \<lparr>fs_pool := (fs_pool v)\<lparr>pages_free := y # z # ps\<rparr>\<rparr>"
  have yz: "page_in (fs_pool s) y" using sh(2) pg(2,3) by (auto simp: doubleton_eq_iff)
  note F' = io_frame_sel [OF sh(3)]
  have "io_frame v u" by (rule io_frameI [where P="y # z # ps" and R="rdevs u" and W="raw_pages u"]) (simp add: u_def set_disk_def set_iobuffer_def)
  then have fu: "io_frame v u" "io_frame s u" using fr sh(3) io_frame_trans by blast+
  have du: "disk u rd = (disk v rd)(?A ! (?j + n) := raw_pages v y)" by (simp add: u_def)
  have idx: "int e sdiv 128 = int ?j" "nat (int e smod 128) = e mod 128" "nat (int e mod 128) = e mod 128"
    by (simp_all add: sdiv_nonneg smod_nonneg zdiv_int nat_mod_distrib)
  have j1: "int ?j + 1 = int (Suc ?j)" "nat (vi_blocks (vinodes s d) - 1) = ?j + n" using n by simp_all
  have run: "remove_direntry rd d (int e) N s = shrink_dir d (N - 1) u"
    using b0(4,5) b1(4,5) len r0 pg(1) yz sh(1) [unfolded t_def io_def] sh(4) n
    by (simp add: remove_direntry_def Let_def idx j1 r1block_ok w1block_ok F' F u_def)
  have "file_byte u rd d x = ?G x" if x: "int x + 32 < 4096 * vi_blocks (vinodes s d)" for x
  proof -
    have "int x < int (4096 * (?j + n) + 4064)" using x n(1) by simp
    then have x': "int x < 4096 * vi_blocks (vinodes s d)" "x < 4096 * (?j + n) + 4064" using x by (simp_all only: of_nat_less_iff)
    have "file_byte u rd d x = (if x div 4096 = ?j + n then raw_pages v y (x mod 4096) else file_byte v rd d x)"
      using ok jn x' du by (intro file_byte_upd' [OF _ _ _ fu(1)]) (simp_all add: F F')
    moreover have "file_byte v rd d x = ?G x" if "x < 4096 * (?j + n)"
      using sh(6) x' that ent_pos(3) [of e] by (auto simp: F fb gap_def)
    moreover have "raw_pages v y (x mod 4096) = ?G x" if "x div 4096 = ?j + n"
      using sh(5) x'(2) div_mult_mod_eq [of x 4096] that by (auto simp: mult.commute)
    moreover have "x div 4096 = ?j + n \<or> x < 4096 * (?j + n)"
      using x'(2) by (cases "x < 4096 * (?j + n)") (auto intro: div_nat_eqI)
    ultimately show ?thesis by auto
  qed
  moreover have "disk u rd b = disk s rd b" if "b \<notin> set (file_blocks s d)" for b
    using that sh(7) b1(1) by (auto simp: du F dk)
  ultimately show ?thesis using run fu(2) sh(2) by (intro exI [of _ u] exI [of _ y] exI [of _ z]) (simp add: u_def)
qed

definition shrunk :: "'h fs \<Rightarrow> addr \<Rightarrow> addr \<Rightarrow> addr \<Rightarrow> nat \<Rightarrow> 'h fs \<Rightarrow> bool" where
  "shrunk s sb rd d m t \<longleftrightarrow> file_ok t sb rd d \<and>
     (\<exists>B. vinodes t = (vinodes s)(d := (vinodes s d)\<lparr>vi_blocks := B, vi_size := 32 * int m\<rparr>) \<and> int32 B) \<and> (\<forall>x. fmap t sb x \<noteq> 0 \<longrightarrow> fmap s sb x \<noteq> 0)"

lemma smod_128: "int m smod 128 = 0 \<longleftrightarrow> m mod 128 = 0"
proof -
  have "int m smod 128 = int (m mod 128)" by (simp add: smod_nonneg zmod_int)
  then show ?thesis by (simp only: of_nat_eq_0_iff)
qed

lemma shrink_file:
  assumes ok: "file_ok s sb rd d" and sz: "vi_size (vinodes s d) = 32 * (int m + 1)"
  shows "\<exists>t F. shrink_dir d (int m) s = bnd (rfs_write_back_vinode d t) (\<lambda>(r, s). if r \<noteq> 0 then Inr (- 1, s) else Inr (0, s)) \<and>
    shrunk s sb rd d m t \<and> t = s\<lparr>freemaps := F, vinodes := vinodes t\<rparr>"
proof (cases "m mod 128 = 0 \<and> vi_blocks (vinodes s d) > 1")
  case False
  let ?t = "s\<lparr>vinodes := (vinodes s)(d := (vinodes s d)\<lparr>vi_size := 32 * int m\<rparr>)\<rparr>"
  have "32 * int m \<le> 4096 * vi_blocks (vinodes s d)" using sz ok by (simp add: file_ok_def)
  then have "file_ok ?t sb rd d" by (intro file_ok_resize [where z="32 * int m", OF ok]) simp_all
  moreover have "vi_blocks (vinodes s d) \<le> 10" "0 \<le> vi_blocks (vinodes s d)" using ok by (simp_all add: file_ok_def)
  ultimately have "shrunk s sb rd d m ?t"
    unfolding shrunk_def by (intro conjI exI [of _ "vi_blocks (vinodes s d)"]) (simp_all add: int32_def)
  moreover have "\<not> (int m smod 128 = 0 \<and> 1 < vi_blocks (vinodes s d))" using False unfolding smod_128 .
  ultimately show ?thesis using sz
    by (intro exI [of _ ?t] exI [of _ "freemaps s"]) (auto simp: shrink_dir_def Let_def)
next
  case True
  let ?A = "vi_addrs (vinodes s d)" and ?B = "vi_blocks (vinodes s d)"
  let ?b = "?A ! nat (?B - 1)"
  have B: "?B \<le> 10" "length ?A = 10" "vi_sb (vinodes s d) = sb" "distinct (file_blocks s d)" using ok by (simp_all add: file_ok_def)
  have jb: "int (nat (?B - 1)) < ?B" using True by simp
  note fb = file_block_nth [OF ok jb]
  have b: "12 \<le> ?b" "?b < 112" using ok fb(1) by (auto simp: file_ok_def)
  let ?t = "(set_fmap sb (?b - 12) 0 s)\<lparr>vinodes := (vinodes s)(d := (vinodes s d)\<lparr>vi_blocks := ?B - 1, vi_size := 32 * int m\<rparr>)\<rparr>"
  have split: "file_blocks s d = file_blocks ?t d @ [?b]"
    using B True by (simp add: file_blocks_def nat_diff_distrib take_Suc_conv_app_nth [symmetric] Suc_nat_eq_nat_zadd1)
  have "32 * int m \<le> 4096 * (?B - 1)"
  proof -
    obtain k where k: "m = 128 * k" using True by (auto elim: dvdE simp: mod_eq_0_iff_dvd)
    have "32 * (int m + 1) \<le> 4096 * ?B" using ok sz by (simp add: file_ok_def)
    then have "int k < ?B" unfolding k by simp
    then show ?thesis unfolding k by simp
  qed
  then have "file_ok ?t sb rd d" using ok True B(4) unfolding split by (auto simp: file_ok_def split)
  then have "shrunk s sb rd d m ?t"
    unfolding shrunk_def using B(1) True by (intro conjI exI [of _ "?B - 1"]) (simp_all add: int32_def)
  moreover have "int m smod 128 = 0" using True unfolding smod_128 by blast
  ultimately show ?thesis using sz True B b
    by (intro exI [of _ ?t] exI [of _ "freemaps ?t"])
      (simp add: shrink_dir_def Let_def rfs_free_block_def set_fmap_def fmap_def)
qed

lemma ent_bytes_gap:
  assumes "\<And>x. x < 32 * m \<Longrightarrow> file_byte t rd d x = gap (file_byte s rd d) e x" "i < m"
  shows "ent_bytes t rd d i = ent_bytes s rd d (if i < e then i else Suc i)"
proof (rule nth_equalityI)
  fix k assume k: "k < length (ent_bytes t rd d i)"
  then have "32 * i + k < 32 * m" "32 * i + k < 32 * e \<longleftrightarrow> i < e" using assms(2) by (auto simp: ent_bytes_def)
  then show "ent_bytes t rd d i ! k = ent_bytes s rd d (if i < e then i else Suc i) ! k"
    using k assms(1) [of "32 * i + k"] by (auto simp: ent_bytes_def gap_def ac_simps)
qed (simp add: ent_bytes_def)

lemma map_remove_nth:
  assumes "e \<le> m"
  shows "map (\<lambda>i. f (if i < e then i else Suc i)) [0..<m] = take e (map f [0..<Suc m]) @ drop (Suc e) (map f [0..<Suc m])"
  using assms by (intro nth_equalityI) (auto simp: nth_append simp del: upt_Suc)

lemma remove_direntry_ok:
  assumes ok: "dir_ok s sb rd d" and e: "e < dir_count s d" and sy: "synced s rd d"
    and pg: "pages_free (fs_pool s) = r0 # r1 # ps" "page_in (fs_pool s) r0" "page_in (fs_pool s) r1" "r0 \<noteq> r1"
  shows "\<exists>s'. remove_direntry rd d (int e) (int (dir_count s d)) s = Inr (0, s') \<and> dir_ok s' sb rd d \<and> synced s' rd d \<and>
    dir_list s' rd d = take e (dir_list s rd d) @ drop (Suc e) (dir_list s rd d) \<and>
    (\<forall>n. inum_ok n \<and> n \<noteq> vi_inum (vinodes s d) \<longrightarrow> dinode_on (disk s' rd) n = dinode_on (disk s rd) n) \<and>
    (\<forall>v. v \<noteq> d \<longrightarrow> vinodes s' v = vinodes s v) \<and> set (pages_free (fs_pool s')) = set (pages_free (fs_pool s)) \<and>
    (\<forall>x. fmap s' sb x \<noteq> 0 \<longrightarrow> fmap s sb x \<noteq> 0)"
proof -
  note D = dir_okD [OF ok]
  obtain m where m: "dir_count s d = Suc m" using e by (cases "dir_count s d") auto
  have B: "vi_size (vinodes s d) \<le> 4096 * vi_blocks (vinodes s d)" using D(1) by (simp add: file_ok_def)
  obtain u y z where u: "remove_direntry rd d (int e) (int (Suc m)) s = shrink_dir d (int (Suc m) - 1) u" "io_frame s u" "{y, z} = {r0, r1}"
    "pages_free (fs_pool u) = y # z # ps"
    "\<forall>x. int x + 32 < 4096 * vi_blocks (vinodes s d) \<longrightarrow> file_byte u rd d x = gap (file_byte s rd d) e x"
    "\<forall>b. b \<notin> set (file_blocks s d) \<longrightarrow> disk u rd b = disk s rd b"
    using remove_shift_ok [OF D(1) dir_sizes(2) [OF ok e] pg] by blast
  note F = io_frame_sel [OF u(2)]
  have fu: "file_ok u sb rd d" "vi_size (vinodes u d) = 32 * (int m + 1)" using D(1,3) by (simp_all add: F m)
  obtain t G where t: "shrink_dir d (int m) u = bnd (rfs_write_back_vinode d t) (\<lambda>(r, s). if r \<noteq> 0 then Inr (- 1, s) else Inr (0, s))"
    "shrunk u sb rd d m t" "t = u\<lparr>freemaps := G, vinodes := vinodes t\<rparr>"
    using shrink_file [OF fu] by blast
  obtain nb where nb: "vinodes t = (vinodes s)(d := (vinodes s d)\<lparr>vi_blocks := nb, vi_size := 32 * int m\<rparr>)" "int32 nb"
    using t(2) by (auto simp: shrunk_def F)
  have td: "disk t rd = disk u rd" "fs_pool t = fs_pool u" by (subst t(3), simp add: disk_def)+
  have ft: "file_ok t sb rd d" using t(2) by (simp add: shrunk_def)
  have ino: "inum_ok (vi_inum (vinodes t d))" "rdev_of (vi_sb (vinodes t d)) t = Inr rd"
    using sy ft by (simp_all add: synced_def file_ok_def nb(1))
  have "dinode_ok (dinode_of (vinodes t d))"
  proof -
    have "dinode_ok (dinode_of (vinodes s d))" using sy dinode_on_ok [of "disk s rd"] unfolding synced_def by metis
    moreover have "int32 (32 * int m)" using B D(1,3) m by (simp add: int32_def file_ok_def)
    ultimately show ?thesis using nb by (simp add: dinode_ok_def dinode_of_def)
  qed
  then obtain io k b where w: "1 \<le> k" "k < 11" "rfs_write_back_vinode d t = Inr (0, set_disk rd k b (set_iobuffer rd io t))"
    "dinode_on ((disk t rd)(k := b)) = (dinode_on (disk t rd))(vi_inum (vinodes t d) := dinode_of (vinodes t d))"
    using write_back_ok [OF ino(2,1)] by blast
  define s' where "s' = set_disk rd k b (set_iobuffer rd io t)"
  have run: "remove_direntry rd d (int e) (int (dir_count s d)) s = Inr (0, s')"
    using u(1) t(1) w(3) by (simp add: m s'_def)
  have s': "vinodes s' = vinodes t" "fs_pool s' = fs_pool u" "disk s' rd = (disk u rd)(k := b)" "fmap s' sb = fmap t sb"
    by (simp_all add: s'_def td)
  have fs': "file_ok s' sb rd d" using ft by (simp add: file_ok_def file_blocks_def s'_def)
  have byte: "file_byte s' rd d x = gap (file_byte s rd d) e x" if "x < 32 * m" for x
  proof -
    have "int x + 32 < int (32 * Suc m)" using that by simp
    then have x: "int x + 32 < 4096 * vi_blocks (vinodes s d)" using B D(3) unfolding m by simp
    then have q: "int (x div 4096) < vi_blocks (vinodes s d)" by linarith
    have "vi_addrs (vinodes s d) ! (x div 4096) \<noteq> k" using file_block_nth(1) [OF D(1) q] D(1) w(2) by (auto simp: file_ok_def)
    then have "file_byte s' rd d x = file_byte u rd d x" by (simp add: file_byte_def s' nb(1) F)
    then show ?thesis using u(5) x by simp
  qed
  note ent = ent_bytes_gap [OF byte]
  have ents: "0 \<in> set (drop 4 (ent_bytes s' rd d i))" if "i < m" for i using D(4) that by (auto simp: ent [OF _ that] m)
  have sz: "vi_type (vinodes s' d) = DIR_I" "vi_size (vinodes s' d) = 32 * int m" using D(2) by (simp_all add: s' nb(1))
  have D': "dir_ok s' sb rd d" "dir_count s' d = m" using dir_okI [OF fs' sz] ents by blast+
  have "map (\<lambda>i. ent_dec (ent_bytes s' rd d i)) [0..<m] = map (\<lambda>i. ent_dec (ent_bytes s rd d (if i < e then i else Suc i))) [0..<m]"
    by (rule map_cong) (auto simp: ent)
  then have "dir_list s' rd d = take e (dir_list s rd d) @ drop (Suc e) (dir_list s rd d)"
    using map_remove_nth [of e m "\<lambda>i. ent_dec (ent_bytes s rd d i)"] e
    unfolding dir_list_dec [OF ok] dir_list_dec [OF D'(1)] D'(2) m by simp
  moreover have du: "dinode_on (disk u rd) n = dinode_on (disk s rd) n" if "inum_ok n" for n
  proof -
    have "n div 32 + 1 \<notin> set (file_blocks s d)" using inode_block_area [OF that] D(1) by (auto simp: file_ok_def)
    then show ?thesis using u(6) by (simp add: dinode_on_def)
  qed
  moreover have "dinode_on (disk s' rd) = (dinode_on (disk u rd))(vi_inum (vinodes s d) := dinode_of (vinodes s' d))"
    using w(4) by (simp add: s' td nb(1))
  moreover have "fmap s sb x \<noteq> 0" if "fmap s' sb x \<noteq> 0" for x using t(2) that by (auto simp: shrunk_def s' F)
  moreover have "set (pages_free (fs_pool s')) = set (pages_free (fs_pool s))" using u(3) by (auto simp: s' u(4) pg(1))
  ultimately show ?thesis using run D'(1) ino(1)
    by (intro exI [of _ s']) (simp add: synced_def s'(1) nb(1))
qed

section \<open>Unlinking a name\<close>

lemma free_block_ok: "12 \<le> b \<Longrightarrow> b < 112 \<Longrightarrow> rfs_free_block sb b s = Inr (0, set_fmap sb (b - 12) 0 s)"
  by (simp add: rfs_free_block_def set_fmap_def fmap_def Let_def)

lemma free_blocks_ok:
  assumes "i + k \<le> length as" "\<forall>b \<in> set (take k (drop i as)). 12 \<le> b \<and> b < 112"
  shows "\<exists>F. let t = s\<lparr>freemaps := F\<rparr> in free_blocks k (int i) sb as s = Inr t \<and>
    (\<forall>x. fmap t sb x = (if x + 12 \<in> set (take k (drop i as)) then 0 else fmap s sb x))"
  using assms
proof (induction k arbitrary: i s)
  case 0
  then show ?case by (intro exI [of _ "freemaps s"]) simp
next
  case (Suc k)
  have dr: "take (Suc k) (drop i as) = as ! i # take k (drop (Suc i) as)" using Suc.prems(1) by (simp add: take_Suc_conv_app_nth Cons_nth_drop_Suc [symmetric])
  let ?u = "set_fmap sb (as ! i - 12) 0 s"
  have b: "12 \<le> as ! i" "as ! i < 112" using Suc.prems(2) by (simp_all add: dr)
  have "\<exists>F. let t = ?u\<lparr>freemaps := F\<rparr> in free_blocks k (int (Suc i)) sb as ?u = Inr t \<and>
      (\<forall>x. fmap t sb x = (if x + 12 \<in> set (take k (drop (Suc i) as)) then 0 else fmap ?u sb x))"
    using Suc.prems by (intro Suc.IH) (simp_all add: dr)
  then obtain F where F: "free_blocks k (int (Suc i)) sb as ?u = Inr (?u\<lparr>freemaps := F\<rparr>)"
    "\<And>x. fmap (?u\<lparr>freemaps := F\<rparr>) sb x = (if x + 12 \<in> set (take k (drop (Suc i) as)) then 0 else fmap ?u sb x)"
    by (auto simp: Let_def)
  have e: "?u\<lparr>freemaps := F\<rparr> = s\<lparr>freemaps := F\<rparr>" by (simp add: set_fmap_def)
  have "free_blocks (Suc k) (int i) sb as s = Inr (s\<lparr>freemaps := F\<rparr>)"
    using F(1) Suc.prems(1) b by (simp add: free_block_ok e add.commute)
  moreover have "fmap (s\<lparr>freemaps := F\<rparr>) sb x = (if x + 12 \<in> set (take (Suc k) (drop i as)) then 0 else fmap s sb x)" for x
    using F(2) [of x] unfolding e dr by auto
  ultimately show ?case by (auto simp: Let_def)
qed

text \<open>The disk inode after one of its names is gone.\<close>

definition unlinked_dinode :: "rfs_dinode \<Rightarrow> rfs_dinode" where
  "unlinked_dinode d = (let d = d\<lparr>di_nlinks := di_nlinks d - 1\<rparr> in if di_nlinks d = 0 then d\<lparr>di_type := R_FREE\<rparr> else d)"

lemma unlinked_dinode_ok: "dinode_ok d \<Longrightarrow> 0 < di_nlinks d \<Longrightarrow> dinode_ok (unlinked_dinode d)"
  by (auto simp: dinode_ok_def unlinked_dinode_def int32_def Let_def)

lemma unlink_links:
  assumes "dinodes s q = d\<lparr>di_nlinks := di_nlinks d - 1\<rparr>" "length (di_addrs d) = 10" "di_nlinks d = 1 \<Longrightarrow> di_blocks d \<le> 10"
    "di_nlinks d = 1 \<Longrightarrow> \<forall>b \<in> set (take (nat (di_blocks d)) (di_addrs d)). 12 \<le> b \<and> b < 112"
  shows "\<exists>F t. t = s\<lparr>dinodes := (dinodes s)(q := unlinked_dinode d), freemaps := F\<rparr> \<and>
    (if di_nlinks d - 1 = 0
     then bnd (free_blocks (nat (di_blocks (dinodes s q))) 0 sb (di_addrs (dinodes s q)) s) (\<lambda>s.
          Inr (s\<lparr>dinodes := (dinodes s)(q := (dinodes s q)\<lparr>di_type := R_FREE\<rparr>)\<rparr>))
     else Inr s) = Inr t \<and>
    (\<forall>x. fmap t sb x = (if di_nlinks d = 1 \<and> x + 12 \<in> set (take (nat (di_blocks d)) (di_addrs d)) then 0 else fmap s sb x))"
proof (cases "di_nlinks d = 1")
  case True
  have "nat (di_blocks d) \<le> 10" using assms(3) [OF True] by simp
  then obtain F where "free_blocks (nat (di_blocks d)) 0 sb (di_addrs d) s = Inr (s\<lparr>freemaps := F\<rparr>)"
    "\<And>x. fmap (s\<lparr>freemaps := F\<rparr>) sb x = (if x + 12 \<in> set (take (nat (di_blocks d)) (di_addrs d)) then 0 else fmap s sb x)"
    using free_blocks_ok [of 0 "nat (di_blocks d)" "di_addrs d" s sb] True assms(2-4) by (auto simp: Let_def)
  moreover have "(s\<lparr>freemaps := F\<rparr>)\<lparr>dinodes := W\<rparr> = s\<lparr>dinodes := W, freemaps := F\<rparr>" for W by simp
  moreover have "fmap (s\<lparr>dinodes := W, freemaps := F\<rparr>) sb = fmap (s\<lparr>freemaps := F\<rparr>) sb" for W by (simp add: fmap_def)
  ultimately show ?thesis using True assms(1)
    by (intro exI [of _ F]) (simp add: unlinked_dinode_def Let_def)
next
  case False
  then have "(dinodes s)(q := unlinked_dinode d) = dinodes s" using assms(1) by (simp add: unlinked_dinode_def fun_upd_idem)
  then show ?thesis using False by (intro exI [of _ "freemaps s"]) simp
qed

lemma unlink_inode_ok:
  assumes ok: "dir_ok s sb rd d" and nm: "0 \<notin> set (d_name (dentries s sub))"
    and e: "e = dir_index (d_name (dentries s sub)) (dir_list s rd d)" "e < dir_count s d"
    and n: "n = snd (dir_list s rd d ! e)" "inum_ok n" and D0: "D0 = dinode_on (disk s rd) n"
    and lk: "vi_nlinks (vinodes s f) = di_nlinks D0" "0 < di_nlinks D0"
    and bl: "di_nlinks D0 = 1 \<Longrightarrow> di_blocks D0 \<le> 10"
      "di_nlinks D0 = 1 \<Longrightarrow> \<forall>b \<in> set (take (nat (di_blocks D0)) (di_addrs D0)). 12 \<le> b \<and> b < 112"
    and pg: "pages_free (fs_pool s) = q # ps" "page_in (fs_pool s) q"
  shows "\<exists>t k b. rfs_unlink d sub f s = remove_direntry rd d (int e) (int (dir_count s d)) t \<and> 1 \<le> k \<and> k < 11 \<and>
    vinodes t = (vinodes s)(f := (vinodes s f)\<lparr>vi_nlinks := di_nlinks D0 - 1\<rparr>) \<and> fs_pool t = fs_pool s \<and> sbs t = sbs s \<and>
    (\<forall>sb. rdev_of sb t = rdev_of sb s) \<and> disk t rd = (disk s rd)(k := b) \<and>
    dinode_on (disk t rd) = (dinode_on (disk s rd))(n := unlinked_dinode D0) \<and>
    (\<forall>x. fmap t sb x = (if di_nlinks D0 = 1 \<and> x + 12 \<in> set (take (nat (di_blocks D0)) (di_addrs D0)) then 0 else fmap s sb x))"
proof -
  let ?D1 = "D0\<lparr>di_nlinks := di_nlinks D0 - 1\<rparr>"
  note sz = dir_sizes [OF ok]
  have v: "vi_sb (vinodes s d) = sb" "rdev_of sb s = Inr rd" using ok by (simp_all add: dir_ok_def file_ok_def)
  have q: "q \<noteq> 0" using pg(2) by (simp add: page_in_def)
  obtain io where io: "dir_search rd d (d_name (dentries s sub)) 0 (int (dir_count s d)) s = Inr (int e, set_iobuffer rd io s)"
    "io = ent_blk s rd d e" using dir_search_0 [OF ok nm] e by auto
  have inum: "get32 io (ent_off e) = n" using e(2) n(1) by (simp add: io(2) dir_list_def dir_entry_def)
  obtain io2 where r: "rfs_read_dinode rd n (set_iobuffer rd io s) = Inr (q, set_iobuffer rd io2 ((set_iobuffer rd io s)
      \<lparr>fs_pool := (fs_pool s)\<lparr>pages_free := ps\<rparr>, dinodes := (dinodes s)(q := D0)\<rparr>))"
    using read_dinode_ok [OF n(2), of "set_iobuffer rd io s" q ps rd] pg(1) q by (auto simp: D0)
  define s3 where "s3 = (set_iobuffer rd io2 ((set_iobuffer rd io s)
      \<lparr>fs_pool := (fs_pool s)\<lparr>pages_free := ps\<rparr>, dinodes := (dinodes s)(q := D0)\<rparr>))
      \<lparr>vinodes := (vinodes s)(f := (vinodes s f)\<lparr>vi_nlinks := di_nlinks D0 - 1\<rparr>), dinodes := (dinodes s)(q := ?D1)\<rparr>"
  have s3: "dinodes s3 q = ?D1" "fmap s3 sb = fmap s sb" "disk s3 rd = disk s rd" by (simp_all add: s3_def)
  obtain F s4 where s4: "s4 = s3\<lparr>dinodes := (dinodes s3)(q := unlinked_dinode D0), freemaps := F\<rparr>"
    "(if di_nlinks D0 - 1 = 0
     then bnd (free_blocks (nat (di_blocks (dinodes s3 q))) 0 sb (di_addrs (dinodes s3 q)) s3) (\<lambda>s.
          Inr (s\<lparr>dinodes := (dinodes s)(q := (dinodes s q)\<lparr>di_type := R_FREE\<rparr>)\<rparr>))
     else Inr s3) = Inr s4"
    "\<forall>x. fmap s4 sb x = (if di_nlinks D0 = 1 \<and> x + 12 \<in> set (take (nat (di_blocks D0)) (di_addrs D0)) then 0 else fmap s sb x)"
    using unlink_links [OF s3(1) _ bl, of sb] unfolding s3(2) by (auto simp: D0)
  have ok4: "dinode_ok (unlinked_dinode D0)" using lk(2) dinode_on_ok by (intro unlinked_dinode_ok) (simp_all add: D0)
  obtain io3 b where w: "rfs_write_dinode rd (unlinked_dinode D0) n s4 = Inr (0, set_disk rd (n div 32 + 1) b (set_iobuffer rd io3 s4))"
    "dinode_on ((disk s4 rd)(n div 32 + 1 := b)) = (dinode_on (disk s4 rd))(n := unlinked_dinode D0)"
    using write_dinode_ok [OF n(2) ok4, of rd s4] by blast
  have d4: "dinodes s4 q = unlinked_dinode D0" "disk s4 rd = disk s rd" "fs_pool s4 = (fs_pool s)\<lparr>pages_free := ps\<rparr>"
    "vinodes s4 = (vinodes s)(f := (vinodes s f)\<lparr>vi_nlinks := di_nlinks D0 - 1\<rparr>)" "sbs s4 = sbs s" "\<And>sb. rdev_of sb s4 = rdev_of sb s"
    by (simp_all add: s4(1) s3_def)
  define t where "t = (set_disk rd (n div 32 + 1) b (set_iobuffer rd io3 s4))\<lparr>fs_pool := fs_pool s\<rparr>"
  have pool: "(fs_pool s)\<lparr>pages_free := q # ps\<rparr> = fs_pool s" using pg(1) by (simp flip: pg(1))
  have pin: "page_in ((fs_pool s)\<lparr>pages_free := ps\<rparr>) q" using pg(2) by simp
  have off: "nat (int e smod 128) = e mod 128" by (simp add: smod_nonneg nat_mod_distrib)
  have c: "0 < int (dir_count s d)" "int e \<noteq> int (dir_count s d)" using e(2) by simp_all
  define N where "N = int (dir_count s d)"
  have "rfs_unlink d sub f s = bnd (if di_nlinks D0 - 1 = 0
     then bnd (free_blocks (nat (di_blocks (dinodes s3 q))) 0 sb (di_addrs (dinodes s3 q)) s3) (\<lambda>s.
          Inr (s\<lparr>dinodes := (dinodes s)(q := (dinodes s q)\<lparr>di_type := R_FREE\<rparr>)\<rparr>))
     else Inr s3) (\<lambda>s. bnd (rfs_write_dinode rd (dinodes s q) n s) (\<lambda>(_, s).
     bnd (drop_page q s) (\<lambda>s. remove_direntry rd d (int e) N s)))"
    using io(1) c r q v sz(1) lk(1) by (simp add: rfs_unlink_def Let_def off inum N_def s3_def)
  also have "\<dots> = remove_direntry rd d (int e) N t"
    unfolding s4(2) using w(1) pin by (simp add: d4 t_def pool)
  finally show ?thesis
    using inode_block_area [OF n(2)] w(2) s4(3) unfolding N_def
    by (intro exI [of _ t] exI [of _ "n div 32 + 1"] exI [of _ b]) (simp add: t_def d4)
qed

lemma remove1_dir_index:
  assumes "map_of xs nm = Some n"
  shows "remove1 (nm, n) xs = take (dir_index nm xs) xs @ drop (Suc (dir_index nm xs)) xs"
  using assms by (induction xs) (auto simp: dir_index_def split: if_splits)

lemma rfs_unlink_ok:
  assumes ok: "dir_ok s sb rd d" and sy: "synced s rd d" and nm: "0 \<notin> set (d_name (dentries s sub))"
    and n: "map_of (dir_list s rd d) (d_name (dentries s sub)) = Some n" "inum_ok n" "n \<noteq> vi_inum (vinodes s d)"
    and D0: "D0 = dinode_on (disk s rd) n" and lk: "vi_nlinks (vinodes s f) = di_nlinks D0" "0 < di_nlinks D0" "f \<noteq> d"
    and bl: "di_nlinks D0 = 1 \<Longrightarrow> di_blocks D0 \<le> 10"
      "di_nlinks D0 = 1 \<Longrightarrow> \<forall>b \<in> set (take (nat (di_blocks D0)) (di_addrs D0)). 12 \<le> b \<and> b < 112 \<and> b \<notin> set (file_blocks s d)"
    and pg: "pages_free (fs_pool s) = r0 # r1 # ps" "page_in (fs_pool s) r0" "page_in (fs_pool s) r1" "r0 \<noteq> r1"
  shows "\<exists>s'. rfs_unlink d sub f s = Inr (0, s') \<and> dir_ok s' sb rd d \<and> synced s' rd d \<and>
    dir_list s' rd d = remove1 (d_name (dentries s sub), n) (dir_list s rd d) \<and>
    vi_nlinks (vinodes s' f) = di_nlinks D0 - 1 \<and> dinode_on (disk s' rd) n = unlinked_dinode D0 \<and>
    (di_nlinks D0 = 1 \<longrightarrow> (\<forall>b \<in> set (take (nat (di_blocks D0)) (di_addrs D0)). fmap s' sb (b - 12) = 0))"
proof -
  let ?L = "dir_list s rd d" and ?nm = "d_name (dentries s sub)"
  define e where "e = dir_index ?nm ?L"
  have e: "e < dir_count s d" "n = snd (?L ! e)"
    using n(1) dir_sizes(3) [OF ok] by (auto simp: dir_index_map_of e_def split: if_splits)
  obtain t k b where t: "rfs_unlink d sub f s = remove_direntry rd d (int e) (int (dir_count s d)) t" "1 \<le> k" "k < 11"
    "vinodes t = (vinodes s)(f := (vinodes s f)\<lparr>vi_nlinks := di_nlinks D0 - 1\<rparr>)" "fs_pool t = fs_pool s" "sbs t = sbs s"
    "\<forall>sb. rdev_of sb t = rdev_of sb s" "disk t rd = (disk s rd)(k := b)"
    "dinode_on (disk t rd) = (dinode_on (disk s rd))(n := unlinked_dinode D0)"
    "\<forall>x. fmap t sb x = (if di_nlinks D0 = 1 \<and> x + 12 \<in> set (take (nat (di_blocks D0)) (di_addrs D0)) then 0 else fmap s sb x)"
    using unlink_inode_ok [OF ok nm e_def e n(2) D0 lk(1,2) bl(1) _ pg(1,2)] bl(2) by blast
  have vd: "vinodes t d = vinodes s d" using lk(3) by (simp add: t(4))
  have "disk t rd x = disk s rd x \<and> fmap t sb (x - 12) \<noteq> 0" if "x \<in> set (file_blocks s d)" for x
    using that ok t(3) bl(2) by (auto simp: t(8,10) dir_ok_def file_ok_def)
  note T = dir_ok_frame [OF ok vd _ t(6) this, simplified t(7)]
  have c: "dir_count t d = dir_count s d" by (simp add: dir_count_def vd)
  have "synced t rd d" using sy n(3) by (simp add: synced_def vd t(9))
  then obtain s' where s': "remove_direntry rd d (int e) (int (dir_count s d)) t = Inr (0, s')" "dir_ok s' sb rd d" "synced s' rd d"
    "dir_list s' rd d = take e ?L @ drop (Suc e) ?L"
    "\<forall>n. inum_ok n \<and> n \<noteq> vi_inum (vinodes s d) \<longrightarrow> dinode_on (disk s' rd) n = dinode_on (disk t rd) n"
    "\<forall>v. v \<noteq> d \<longrightarrow> vinodes s' v = vinodes t v" "\<forall>x. fmap s' sb x \<noteq> 0 \<longrightarrow> fmap t sb x \<noteq> 0"
    using remove_direntry_ok [of t sb rd d e r0 r1 ps] T e(1) pg unfolding c vd t(5) by auto
  have "fmap s' sb (b - 12) = 0" if "di_nlinks D0 = 1" "b \<in> set (take (nat (di_blocks D0)) (di_addrs D0))" for b
    using s'(7) t(10) that by fastforce
  then show ?thesis using s' n lk(3) t(4)
    by (intro exI [of _ s']) (simp add: t(1,9) remove1_dir_index [OF n(1)] e_def)
qed

section \<open>Properties\<close>

text \<open>A directory in inode 0 with the entry \<open>([97], 1)\<close>, and inode 1 a regular file with the one block 14.\<close>

definition ex_file_dinode :: rfs_dinode where
  "ex_file_dinode = \<lparr>di_size = 3, di_type = FILE_I, di_nlinks = 1, di_blocks = 1, di_addrs = 14 # replicate 9 0\<rparr>"

definition ex_unl :: "unit fs" where
  "ex_unl = (ex_dir [97])\<lparr>vinodes := (\<lambda>v. if v = 0x80002000 then ex_dir_vinode else ex_dir_vinode\<lparr>vi_inum := 1, vi_type := FILE_I\<rparr>),
     rdevs := (rdevs ex_fs)(0x80001000 := (rdevs ex_fs 0x80001000)\<lparr>d_disk := (\<lambda>n.
       if n = 1 then store_dinode 128 ex_file_dinode (store_dinode 0 (dinode_of ex_dir_vinode) (\<lambda>_. 0))
       else if n = 13 then put_bytes 0 (ent_enc [97] 1) (\<lambda>_. 0) else (\<lambda>_. 0))\<rparr>)\<rparr>"

lemma ex_unl_sel:
  "vinodes ex_unl = (\<lambda>v. if v = 0x80002000 then ex_dir_vinode else ex_dir_vinode\<lparr>vi_inum := 1, vi_type := FILE_I\<rparr>)"
  "dentries ex_unl = dentries (ex_dir [97])" "fs_pool ex_unl = fs_pool ex_fs" "sbs ex_unl = sbs ex_fs"
  "rdev_of sb ex_unl = rdev_of sb ex_fs" "fmap ex_unl sb = fmap ex_fs sb"
  "disk ex_unl 0x80001000 = (\<lambda>n. if n = 1 then store_dinode 128 ex_file_dinode (store_dinode 0 (dinode_of ex_dir_vinode) (\<lambda>_. 0))
       else if n = 13 then put_bytes 0 (ent_enc [97] 1) (\<lambda>_. 0) else (\<lambda>_. 0))"
  by (simp_all add: ex_unl_def disk_def rdev_of_def fmap_def) (simp_all add: ex_dir_def)

lemma ex_unl_ok: "dir_ok ex_unl 0x80003000 0x80001000 0x80002000" "dir_list ex_unl 0x80001000 0x80002000 = [([97], 1)]"
  "file_blocks ex_unl 0x80002000 = [13]"
proof -
  show fb: "file_blocks ex_unl 0x80002000 = [13]" by (simp add: file_blocks_def ex_unl_sel(1) ex_dir_vinode_def)
  have f: "file_ok ex_unl 0x80003000 0x80001000 0x80002000"
    by (simp add: file_ok_def fb ex_unl_sel) (simp add: ex_fs_def ex_dir_vinode_def rdev_of_def fmap_def)
  have "length (ent_enc [97] 1) \<le> 32" by (simp add: ent_enc_def)
  then obtain ys where e: "ent_bytes ex_unl 0x80001000 0x80002000 0 = ent_enc [97] 1 @ ys"
    using get_put_prefix [of "ent_enc [97] 1" 32 0 "\<lambda>_. 0"] by (auto simp: ent_bytes_blk ent_blk_def ex_unl_sel ex_dir_vinode_def)
  have "0 \<in> set (drop 4 (ent_bytes ex_unl 0x80001000 0x80002000 i))" if "i < 1" for i
    using that by (simp add: e ent_enc_def)
  then have o: "dir_ok ex_unl 0x80003000 0x80001000 0x80002000" "dir_count ex_unl 0x80002000 = 1"
    using dir_okI [OF f, of 1] by (simp_all add: ex_unl_sel ex_dir_vinode_def)
  then show "dir_ok ex_unl 0x80003000 0x80001000 0x80002000" by simp
  show "dir_list ex_unl 0x80001000 0x80002000 = [([97], 1)]"
    using o(2) ent_dec_enc(1) [of 1 "[97]"] by (simp add: dir_list_dec [OF o(1)] e int32_def)
qed

lemma ex_unl_dinodes:
  "dinode_on (disk ex_unl 0x80001000) 0 = dinode_of ex_dir_vinode" "dinode_on (disk ex_unl 0x80001000) 1 = ex_file_dinode"
proof -
  have d: "dinode_ok (dinode_of ex_dir_vinode)" "dinode_ok ex_file_dinode"
    by (simp_all add: dinode_ok_def dinode_of_def ex_dir_vinode_def int32_def ex_file_dinode_def)
  let ?b = "store_dinode 0 (dinode_of ex_dir_vinode) (\<lambda>_. 0)"
  have "load_dinode (store_dinode 128 ex_file_dinode ?b) 0 = load_dinode ?b 0"
    by (rule load_dinode_cong) (simp add: store_dinode_def put_bytes_out)
  then show "dinode_on (disk ex_unl 0x80001000) 0 = dinode_of ex_dir_vinode"
    using load_store_dinode [OF d(1)] by (simp add: dinode_on_def ex_unl_sel(7))
  show "dinode_on (disk ex_unl 0x80001000) 1 = ex_file_dinode"
    using load_store_dinode [OF d(2)] by (simp add: dinode_on_def ex_unl_sel(7))
qed

text \<open>
  C22. \<^verbatim>\<open>rfs_unlink\<close> of a name of the directory removes exactly the first entry with that name, whatever
  blocks the entries behind it lie in, and keeps the directory well formed and in agreement with its inode on the
  disk. The link count of the file drops by one in memory and on the disk; when it reaches zero the inode is
  free and so are all its blocks in the bitmap.
\<close>

theorem rfs_unlink_correct:
  assumes "dir_ok s sb rd d" "synced s rd d" "0 \<notin> set (d_name (dentries s sub))"
    "map_of (dir_list s rd d) (d_name (dentries s sub)) = Some n" "inum_ok n" "n \<noteq> vi_inum (vinodes s d)"
    "D0 = dinode_on (disk s rd) n" "vi_nlinks (vinodes s f) = di_nlinks D0" "0 < di_nlinks D0" "f \<noteq> d"
    "di_nlinks D0 = 1 \<Longrightarrow> di_blocks D0 \<le> 10"
    "di_nlinks D0 = 1 \<Longrightarrow> \<forall>b \<in> set (take (nat (di_blocks D0)) (di_addrs D0)). 12 \<le> b \<and> b < 112 \<and> b \<notin> set (file_blocks s d)"
    "pages_free (fs_pool s) = r0 # r1 # ps" "page_in (fs_pool s) r0" "page_in (fs_pool s) r1" "r0 \<noteq> r1"
  shows "\<exists>s'. rfs_unlink d sub f s = Inr (0, s') \<and> dir_ok s' sb rd d \<and> synced s' rd d \<and>
    dir_list s' rd d = remove1 (d_name (dentries s sub), n) (dir_list s rd d) \<and>
    vi_nlinks (vinodes s' f) = di_nlinks D0 - 1 \<and> dinode_on (disk s' rd) n = unlinked_dinode D0 \<and>
    (di_nlinks D0 = 1 \<longrightarrow> (\<forall>b \<in> set (take (nat (di_blocks D0)) (di_addrs D0)). fmap s' sb (b - 12) = 0))"
  by (rule rfs_unlink_ok) (use assms in blast)+

theorem rfs_unlink_correct_witness:
  "\<exists>s'. rfs_unlink 0x80002000 0x80006000 0x80004000 ex_unl = Inr (0, s') \<and> dir_list s' 0x80001000 0x80002000 = [] \<and>
     fmap s' 0x80003000 2 = 0"
proof -
  have n: "d_name (dentries ex_unl 0x80006000) = [97]" by (simp add: ex_unl_sel(2) ex_dir_sel(2))
  have sy: "synced ex_unl 0x80001000 0x80002000"
    using ex_unl_dinodes(1) by (simp add: synced_def ex_unl_sel(1)) (simp add: ex_dir_vinode_def inum_ok_def)
  have v: "vi_inum (vinodes ex_unl 0x80002000) = 0" "vi_nlinks (vinodes ex_unl 0x80004000) = 1"
    by (simp_all add: ex_unl_sel(1) ex_dir_vinode_def)
  have p: "pages_free (fs_pool ex_unl) = [0x80009000, 0x80008000, 0x80007000]" "page_in (fs_pool ex_unl) 0x80009000"
    "page_in (fs_pool ex_unl) 0x80008000" by (simp_all add: ex_unl_sel(3) ex_fs_def page_in_def)
  have D: "di_nlinks ex_file_dinode = 1" "di_blocks ex_file_dinode = 1" "take (Suc 0) (di_addrs ex_file_dinode) = [14]"
    by (simp_all add: ex_file_dinode_def)
  have "\<exists>s'. rfs_unlink 0x80002000 0x80006000 0x80004000 ex_unl = Inr (0, s') \<and> dir_ok s' 0x80003000 0x80001000 0x80002000 \<and>
      synced s' 0x80001000 0x80002000 \<and>
      dir_list s' 0x80001000 0x80002000 = remove1 (d_name (dentries ex_unl 0x80006000), 1) (dir_list ex_unl 0x80001000 0x80002000) \<and>
      vi_nlinks (vinodes s' 0x80004000) = di_nlinks ex_file_dinode - 1 \<and>
      dinode_on (disk s' 0x80001000) 1 = unlinked_dinode ex_file_dinode \<and>
      (di_nlinks ex_file_dinode = 1 \<longrightarrow>
        (\<forall>b \<in> set (take (nat (di_blocks ex_file_dinode)) (di_addrs ex_file_dinode)). fmap s' 0x80003000 (b - 12) = 0))"
    by (rule rfs_unlink_correct [OF ex_unl_ok(1) sy _ _ _ _ _ _ _ _ _ _ p])
      (simp_all add: n v D ex_unl_dinodes ex_unl_ok inum_ok_def)
  then show ?thesis by (auto simp: D n ex_unl_ok)
qed

text \<open>
  C25. \<^verbatim>\<open>rfs_unlink\<close> of a name the directory does not have returns -1 and changes nothing but the buffer,
  except in an empty directory, where the code has read the inode number through a null pointer by then.
\<close>

theorem rfs_unlink_missing:
  assumes "dir_ok s sb rd d" "0 \<notin> set (d_name (dentries s sub))" "d_name (dentries s sub) \<notin> fst ` set (dir_list s rd d)"
  shows "if dir_list s rd d = [] then rfs_unlink d sub f s = Inl (Fault 0)
    else \<exists>io. rfs_unlink d sub f s = Inr (- 1, set_iobuffer rd io s)"
proof -
  let ?L = "dir_list s rd d" and ?nm = "d_name (dentries s sub)"
  have v: "vi_sb (vinodes s d) = sb" "rdev_of sb s = Inr rd" using assms(1) by (simp_all add: dir_ok_def file_ok_def)
  note sz = dir_sizes [OF assms(1)]
  have "map_of ?L ?nm = None" using assms(3) by (simp add: map_of_eq_None_iff)
  then have "dir_index ?nm ?L = dir_count s d"
    using sz(3) length_takeWhile_le [of "\<lambda>e. fst e \<noteq> ?nm" ?L] by (auto simp: dir_index_map_of dir_index_def split: if_splits)
  then obtain io where "dir_search rd d ?nm 0 (int (dir_count s d)) s = Inr (int (dir_count s d), set_iobuffer rd io s)"
    using dir_search_0 [OF assms(1,2)] by auto
  moreover have "?L = [] \<longleftrightarrow> dir_count s d = 0" using sz(3) by auto
  ultimately show ?thesis using v sz(1) by (auto simp: rfs_unlink_def Let_def)
qed

theorem rfs_unlink_missing_witness:
  "\<exists>io. rfs_unlink 0x80002000 0x80006000 0x80004000 (ex_dir [98]) = Inr (- 1, set_iobuffer 0x80001000 io (ex_dir [98]))"
  using rfs_unlink_missing [OF ex_dir_ok(1) [of "[98]" "0x80002000"], of "0x80006000" "0x80004000"] by (simp add: ex_dir_sel(2) ex_dir_ok(2))

end
