(* ===== verification/Spike_File.thy ===== *)
theory Spike_File
  imports Fs_Types
begin

text \<open>
  Files of the host, \<^verbatim>\<open>spike_interface/spike_file.c\<close>. The calls that \<^verbatim>\<open>frontend_syscall\<close> sends to the
  Spike front end are carried out by the host, which is not part of the kernel: they are a parameter, a record
  of one function per call over the state of the host. A \<^verbatim>\<open>spike_file_t *\<close> is the address of an entry of the
  array \<^verbatim>\<open>spike_files\<close>, whose entries are 8 bytes long, or the negative value that
  \<^verbatim>\<open>ERR_PTR\<close> makes of an error number. The reference counts are 32-bit words. The atomic operations are
  executed one after the other (their interleaving is the subject of theory Spinlock).
\<close>

section \<open>The host\<close>

text \<open>The statistics of a file as the front end reports them.\<close>

record frontend_stat =
  fe_dev :: uint64
  fe_ino :: uint64
  fe_mode :: uint32
  fe_nlink :: uint32
  fe_uid :: uint32
  fe_gid :: uint32
  fe_rdev :: uint64
  fe_size :: uint64
  fe_blksize :: uint32
  fe_blocks :: uint64
  fe_atime :: uint64
  fe_mtime :: uint64
  fe_ctime :: uint64

record stat =
  stat_dev :: uint64
  stat_ino :: uint64
  stat_mode :: uint32
  stat_nlink :: uint32
  stat_uid :: uint32
  stat_gid :: uint32
  stat_rdev :: uint64
  stat_size :: uint64
  stat_blksize :: uint32
  stat_blocks :: uint64
  stat_atime :: uint64
  stat_mtime :: uint64
  stat_ctime :: uint64

text \<open>
  The calls of the front end: each returns the value left in \<^verbatim>\<open>magic_mem[0]\<close>, negative for an error, the
  read calls also the bytes they stored, and \<open>fe_fstat\<close> what the buffer holds afterwards.
\<close>

record 'x frontend =
  fe_openat :: "int \<Rightarrow> cname \<Rightarrow> int \<Rightarrow> int \<Rightarrow> 'x \<Rightarrow> int \<times> 'x"
  fe_close :: "int \<Rightarrow> 'x \<Rightarrow> 'x"
  fe_read :: "int \<Rightarrow> nat \<Rightarrow> 'x \<Rightarrow> (int \<times> uint8 list) \<times> 'x"
  fe_pread :: "int \<Rightarrow> nat \<Rightarrow> int \<Rightarrow> 'x \<Rightarrow> (int \<times> uint8 list) \<times> 'x"
  fe_write :: "int \<Rightarrow> uint8 list \<Rightarrow> 'x \<Rightarrow> int \<times> 'x"
  fe_lseek :: "int \<Rightarrow> int \<Rightarrow> int \<Rightarrow> 'x \<Rightarrow> int \<times> 'x"
  fe_fstat :: "int \<Rightarrow> 'x \<Rightarrow> (int \<times> frontend_stat) \<times> 'x"

section \<open>State\<close>

abbreviation (input) MAX_SPIKE_FILES :: nat where "MAX_SPIKE_FILES \<equiv> 128"
abbreviation (input) MAX_FDS :: nat where "MAX_FDS \<equiv> 128"
abbreviation (input) INIT_FILE_REF :: uint32 where "INIT_FILE_REF \<equiv> 3"
abbreviation (input) ENOMEM :: int where "ENOMEM \<equiv> 12"
abbreviation (input) AT_FDCWD :: int where "AT_FDCWD \<equiv> - 100"

record spike_file =
  kfd :: int
  refcnt :: uint32

record 'x spike =
  spike_files :: "spike_file list"
  spike_fds :: "addr list"
  spike_base :: addr
  host :: 'x

definition file_ptr :: "'x spike \<Rightarrow> nat \<Rightarrow> addr" where
  "file_ptr sp i = spike_base sp + 8 * of_nat i"

text \<open>The entry a pointer leads to; any other pointer faults when it is followed.\<close>

definition file_idx :: "'x spike \<Rightarrow> addr \<Rightarrow> nat res" where
  "file_idx sp f =
     (let d = f - spike_base sp
      in if d mod 8 = 0 \<and> unat (d div 8) < length (spike_files sp) then Inr (unat (d div 8)) else Inl (Fault f))"

definition set_file :: "nat \<Rightarrow> spike_file \<Rightarrow> 'x spike \<Rightarrow> 'x spike" where
  "set_file i f sp = sp\<lparr>spike_files := (spike_files sp)[i := f]\<rparr>"

section \<open>Operations\<close>

definition copy_stat :: "frontend_stat \<Rightarrow> stat" where
  "copy_stat src = \<lparr>stat_dev = fe_dev src, stat_ino = fe_ino src, stat_mode = fe_mode src, stat_nlink = fe_nlink src,
     stat_uid = fe_uid src, stat_gid = fe_gid src, stat_rdev = fe_rdev src, stat_size = fe_size src,
     stat_blksize = fe_blksize src, stat_blocks = fe_blocks src, stat_atime = fe_atime src, stat_mtime = fe_mtime src,
     stat_ctime = fe_ctime src\<rparr>"

definition spike_file_stat :: "'x frontend \<Rightarrow> addr \<Rightarrow> 'x spike \<Rightarrow> ((int \<times> stat) \<times> 'x spike) res" where
  "spike_file_stat H f sp =
     bnd (file_idx sp f) (\<lambda>i.
     let ((ret, buf), h) = fe_fstat H (kfd (spike_files sp ! i)) (host sp)
     in Inr ((ret, copy_stat buf), sp\<lparr>host := h\<rparr>))"

definition spike_file_decref :: "'x frontend \<Rightarrow> addr \<Rightarrow> 'x spike \<Rightarrow> 'x spike res" where
  "spike_file_decref H f sp =
     bnd (file_idx sp f) (\<lambda>i.
     let e = spike_files sp ! i; old = refcnt e; sp = set_file i (e\<lparr>refcnt := old - 1\<rparr>) sp
     in if old = 2
        then Inr ((set_file i (e\<lparr>refcnt := 0\<rparr>) sp)\<lparr>host := fe_close H (kfd e) (host sp)\<rparr>)
        else Inr sp)"

definition spike_file_incref :: "addr \<Rightarrow> 'x spike \<Rightarrow> 'x spike res" where
  "spike_file_incref f sp =
     bnd (file_idx sp f) (\<lambda>i.
     let e = spike_files sp ! i; prev = refcnt e; sp = set_file i (e\<lparr>refcnt := prev + 1\<rparr>) sp
     in if prev > 0 then Inr sp else Inl (Assert_Fail ''prev > 0''))"

definition spike_file_close :: "'x frontend \<Rightarrow> addr \<Rightarrow> 'x spike \<Rightarrow> (int \<times> 'x spike) res" where
  "spike_file_close H f sp =
     (if f = 0 then Inr (- 1, sp)
      else bnd (file_idx sp f) (\<lambda>i.
           let fd = kfd (spike_files sp ! i)
           in bnd (arr_get (spike_fds sp) fd) (\<lambda>old.
              let sp = (if old = f then sp\<lparr>spike_fds := (spike_fds sp)[nat fd := 0]\<rparr> else sp)
              in bnd (spike_file_decref H f sp) (\<lambda>sp.
                 if old \<noteq> f then Inr (- 1, sp) else bnd (spike_file_decref H f sp) (\<lambda>sp. Inr (0, sp))))))"

definition spike_file_write :: "'x frontend \<Rightarrow> addr \<Rightarrow> uint8 list \<Rightarrow> 'x spike \<Rightarrow> (int \<times> 'x spike) res" where
  "spike_file_write H f bs sp =
     bnd (file_idx sp f) (\<lambda>i.
     let (r, h) = fe_write H (kfd (spike_files sp ! i)) bs (host sp) in Inr (r, sp\<lparr>host := h\<rparr>))"

definition spike_file_get_free :: "'x spike \<Rightarrow> addr \<times> 'x spike" where
  "spike_file_get_free sp =
     (case find_slot (\<lambda>e. refcnt e = 0) (spike_files sp) of
        None \<Rightarrow> (0, sp)
      | Some i \<Rightarrow> (file_ptr sp i, set_file i ((spike_files sp ! i)\<lparr>refcnt := INIT_FILE_REF\<rparr>) sp))"

definition spike_file_dup :: "addr \<Rightarrow> 'x spike \<Rightarrow> (int \<times> 'x spike) res" where
  "spike_file_dup f sp =
     (case find_slot (\<lambda>p. p = 0) (spike_fds sp) of
        None \<Rightarrow> Inr (- 1, sp)
      | Some i \<Rightarrow> bnd (spike_file_incref f (sp\<lparr>spike_fds := (spike_fds sp)[i := f]\<rparr>)) (\<lambda>sp. Inr (int i, sp)))"

primrec init_std_files :: "nat \<Rightarrow> int \<Rightarrow> 'x spike \<Rightarrow> 'x spike res" where
  "init_std_files 0 i sp = Inr sp"
| "init_std_files (Suc n) i sp =
     (let (f, sp) = spike_file_get_free sp
      in bnd (file_idx sp f) (\<lambda>k.
         bnd (spike_file_dup f (set_file k ((spike_files sp ! k)\<lparr>kfd := i\<rparr>) sp)) (\<lambda>(_, sp).
         init_std_files n (i + 1) sp)))"

definition spike_file_init :: "'x spike \<Rightarrow> 'x spike res" where
  "spike_file_init sp = init_std_files 3 0 sp"

definition spike_file_openat :: "'x frontend \<Rightarrow> int \<Rightarrow> cname \<Rightarrow> int \<Rightarrow> int \<Rightarrow> 'x spike \<Rightarrow> (addr \<times> 'x spike) res" where
  "spike_file_openat H dirfd fn flags mode sp =
     (let (f, sp) = spike_file_get_free sp
      in if f = 0 then Inr (of_int (- ENOMEM), sp)
         else (let (ret, h) = fe_openat H dirfd fn flags mode (host sp); sp = sp\<lparr>host := h\<rparr>
               in if ret \<ge> 0
                  then bnd (file_idx sp f) (\<lambda>i. Inr (f, set_file i ((spike_files sp ! i)\<lparr>kfd := ret\<rparr>) sp))
                  else bnd (spike_file_decref H f sp) (\<lambda>sp. Inr (of_int ret, sp))))"

definition spike_file_open :: "'x frontend \<Rightarrow> cname \<Rightarrow> int \<Rightarrow> int \<Rightarrow> 'x spike \<Rightarrow> (addr \<times> 'x spike) res" where
  "spike_file_open H fn flags mode sp = spike_file_openat H AT_FDCWD fn flags mode sp"

definition spike_file_pread :: "'x frontend \<Rightarrow> addr \<Rightarrow> nat \<Rightarrow> int \<Rightarrow> 'x spike \<Rightarrow> ((int \<times> uint8 list) \<times> 'x spike) res" where
  "spike_file_pread H f n offset sp =
     bnd (file_idx sp f) (\<lambda>i.
     let (r, h) = fe_pread H (kfd (spike_files sp ! i)) n offset (host sp) in Inr (r, sp\<lparr>host := h\<rparr>))"

definition spike_file_read :: "'x frontend \<Rightarrow> addr \<Rightarrow> nat \<Rightarrow> 'x spike \<Rightarrow> ((int \<times> uint8 list) \<times> 'x spike) res" where
  "spike_file_read H f n sp =
     bnd (file_idx sp f) (\<lambda>i.
     let (r, h) = fe_read H (kfd (spike_files sp ! i)) n (host sp) in Inr (r, sp\<lparr>host := h\<rparr>))"

definition spike_file_lseek :: "'x frontend \<Rightarrow> addr \<Rightarrow> int \<Rightarrow> int \<Rightarrow> 'x spike \<Rightarrow> (int \<times> 'x spike) res" where
  "spike_file_lseek H f ptr dir sp =
     bnd (file_idx sp f) (\<lambda>i.
     let (r, h) = fe_lseek H (kfd (spike_files sp ! i)) ptr dir (host sp) in Inr (r, sp\<lparr>host := h\<rparr>))"

text \<open>With one thread the compare-and-swap of the loop succeeds at once.\<close>

definition spike_file_get :: "int \<Rightarrow> 'x spike \<Rightarrow> (addr \<times> 'x spike) res" where
  "spike_file_get fd sp =
     (if fd < 0 \<or> fd \<ge> int MAX_FDS then Inr (0, sp)
      else bnd (arr_get (spike_fds sp) fd) (\<lambda>f.
           if f = 0 then Inr (0, sp)
           else bnd (file_idx sp f) (\<lambda>i.
                let e = spike_files sp ! i
                in if refcnt e = 0 then Inr (0, sp)
                   else Inr (f, set_file i (e\<lparr>refcnt := refcnt e + 1\<rparr>) sp))))"

section \<open>Handles\<close>

text \<open>
  The array lies in kernel memory, no pointer to it is negative or null, and the table of descriptors
  mentions no free entry.
\<close>

definition spike_ok :: "'x spike \<Rightarrow> bool" where
  "spike_ok sp \<longleftrightarrow> length (spike_files sp) = MAX_SPIKE_FILES \<and> length (spike_fds sp) = MAX_FDS \<and>
     spike_base sp \<noteq> 0 \<and> unat (spike_base sp) + 8 * MAX_SPIKE_FILES < 2 ^ 63 \<and>
     (\<forall>i < MAX_SPIKE_FILES. refcnt (spike_files sp ! i) = 0 \<longrightarrow> file_ptr sp i \<notin> set (spike_fds sp))"

lemma spike_sel [simp]:
  "spike_fds (set_file i e sp) = spike_fds sp" "spike_base (set_file i e sp) = spike_base sp" "host (set_file i e sp) = host sp"
  "spike_files (set_file i e sp) = (spike_files sp)[i := e]" "file_ptr (set_file i e sp) = file_ptr sp"
  "file_ptr (sp\<lparr>host := h\<rparr>) = file_ptr sp"
  by (simp_all add: set_file_def file_ptr_def fun_eq_iff)

lemma file_ptr_bound:
  assumes "spike_ok sp" "i < 128"
  shows "unat (file_ptr sp i) = unat (spike_base sp) + 8 * i" "file_ptr sp i \<noteq> 0"
proof -
  have u: "unat (8 * of_nat i :: addr) = 8 * i" using assms(2) by (simp add: unat_word_ariths unat_of_nat)
  then show p: "unat (file_ptr sp i) = unat (spike_base sp) + 8 * i"
    using assms by (simp add: file_ptr_def spike_ok_def unat_word_ariths)
  have "unat (spike_base sp) \<noteq> 0" using assms(1) by (simp add: spike_ok_def unat_eq_0)
  then have "unat (file_ptr sp i) \<noteq> unat (0 :: addr)" unfolding p by simp
  then show "file_ptr sp i \<noteq> 0" by metis
qed

lemma file_idx_ptr:
  assumes "i < length (spike_files sp)" "i < 128"
  shows "file_idx sp (file_ptr sp i) = Inr i"
proof -
  have u: "unat (8 * of_nat i :: addr) = 8 * i" using assms(2) by (simp add: unat_word_ariths unat_of_nat)
  have "unat ((8 * of_nat i :: addr) mod 8) = 0" unfolding unat_mod u by simp
  then have "(8 * of_nat i :: addr) mod 8 = 0" by (simp add: unat_eq_0)
  moreover have "unat ((8 * of_nat i :: addr) div 8) = i" unfolding unat_div u by simp
  ultimately show ?thesis using assms(1) by (simp add: file_idx_def file_ptr_def Let_def)
qed

definition free_slots :: "'x spike \<Rightarrow> nat" where
  "free_slots sp = length (filter (\<lambda>e. refcnt e = 0) (spike_files sp))"

lemma free_slots_take:
  assumes "i < length (spike_files sp)" "refcnt (spike_files sp ! i) = 0" "refcnt e \<noteq> 0"
  shows "free_slots (set_file i e sp) = free_slots sp - 1" "0 < free_slots sp"
proof -
  have "spike_files sp = take i (spike_files sp) @ spike_files sp ! i # drop (Suc i) (spike_files sp)"
    using assms(1) by (rule id_take_nth_drop)
  then obtain xs x ys where x: "spike_files sp = xs @ x # ys" "length xs = i" "spike_files sp ! i = x" using assms(1) by fastforce
  then show "free_slots (set_file i e sp) = free_slots sp - 1" "0 < free_slots sp"
    using assms(2,3) by (simp_all add: free_slots_def list_update_append)
qed

lemma spike_ok_upd:
  assumes "spike_ok sp" "i < 128" "refcnt e \<noteq> 0"
  shows "spike_ok (set_file i e sp)"
  using assms by (auto simp: spike_ok_def nth_list_update)

lemma spike_ok_host: "spike_ok (sp\<lparr>host := h\<rparr>) = spike_ok sp"
  by (simp add: spike_ok_def)

text \<open>Opening a file, whether the host grants it or not, uses up a slot, and closing it does not give it back.\<close>

lemma open_takes_slot:
  assumes ok: "spike_ok sp" and i: "find_slot (\<lambda>e. refcnt e = 0) (spike_files sp) = Some i"
    and h: "fe_openat H AT_FDCWD fn flags mode (host sp) = (ret, h)" "ret < 128"
  shows "\<exists>e. refcnt e = (if 0 \<le> ret then 3 else 2) \<and> (0 \<le> ret \<longrightarrow> kfd e = ret) \<and>
    spike_file_open H fn flags mode sp = Inr (if 0 \<le> ret then file_ptr sp i else of_int ret, (set_file i e sp)\<lparr>host := h\<rparr>)"
proof -
  have i': "i < length (spike_files sp)" "i < 128" using find_slot_Some [OF i] ok by (auto simp: spike_ok_def)
  let ?e = "(spike_files sp ! i)\<lparr>refcnt := 3\<rparr>"
  have idx: "file_idx ((set_file i e sp)\<lparr>host := h\<rparr>) (file_ptr sp i) = Inr i" for e
    using file_idx_ptr [of i "(set_file i e sp)\<lparr>host := h\<rparr>"] i' by simp
  have g: "spike_file_get_free sp = (file_ptr sp i, set_file i ?e sp)" using i by (simp add: spike_file_get_free_def)
  have sc: "set_file i e' ((set_file i e sp)\<lparr>host := h\<rparr>) = (set_file i e' sp)\<lparr>host := h\<rparr>" for e e' by (simp add: set_file_def)
  show ?thesis
  proof (cases "0 \<le> ret")
    case True
    then show ?thesis using g h file_ptr_bound(2) [OF ok i'(2)] i' idx
      by (intro exI [of _ "?e\<lparr>kfd := ret\<rparr>"]) (simp add: spike_file_open_def spike_file_openat_def sc)
  next
    case False
    then show ?thesis using g h file_ptr_bound(2) [OF ok i'(2)] i' idx
      by (intro exI [of _ "?e\<lparr>refcnt := 2\<rparr>"]) (simp add: spike_file_open_def spike_file_openat_def spike_file_decref_def Let_def sc)
  qed
qed

lemma close_keeps_slot:
  assumes ok: "spike_ok sp" and i: "i < 128" "refcnt (spike_files sp ! i) = 3" "0 \<le> kfd (spike_files sp ! i)" "kfd (spike_files sp ! i) < 128"
    and fd: "file_ptr sp i \<notin> set (spike_fds sp)"
  shows "spike_file_close H (file_ptr sp i) sp = Inr (- 1, set_file i ((spike_files sp ! i)\<lparr>refcnt := 2\<rparr>) sp)"
proof -
  have l: "length (spike_files sp) = 128" "length (spike_fds sp) = 128" using ok by (simp_all add: spike_ok_def)
  have idx: "file_idx sp (file_ptr sp i) = Inr i" using file_idx_ptr [of i sp] i(1) l(1) by simp
  have "spike_fds sp ! nat (kfd (spike_files sp ! i)) \<noteq> file_ptr sp i" using fd i(3,4) l(2) nth_mem by (metis nat_less_iff of_nat_numeral)
  then show ?thesis using file_ptr_bound(2) [OF ok i(1)] idx i l
    by (simp add: spike_file_close_def spike_file_decref_def Let_def)
qed

text \<open>A client that opens a file and closes it again, \<open>n\<close> times.\<close>

primrec open_close :: "'x frontend \<Rightarrow> cname \<Rightarrow> int \<Rightarrow> int \<Rightarrow> nat \<Rightarrow> 'x spike \<Rightarrow> 'x spike res" where
  "open_close H fn flags mode 0 sp = Inr sp"
| "open_close H fn flags mode (Suc n) sp =
     bnd (spike_file_open H fn flags mode sp) (\<lambda>(f, sp).
     bnd (if 0 \<le> sint f then bnd (spike_file_close H f sp) (\<lambda>(_, sp). Inr sp) else Inr sp) (open_close H fn flags mode n))"

lemma sint_file_ptr:
  assumes "spike_ok sp" "i < 128"
  shows "0 \<le> sint (file_ptr sp i)"
proof -
  have "unat (file_ptr sp i) < 2 ^ 63" unfolding file_ptr_bound(1) [OF assms] using assms by (simp add: spike_ok_def)
  then have "int (unat (file_ptr sp i)) < int (2 ^ 63)" by (simp only: of_nat_less_iff)
  then have "uint (file_ptr sp i) < 2 ^ 63" by (simp only: uint_nat) simp
  moreover have "- (2 ^ 63) \<le> uint (file_ptr sp i)" by (rule order_trans [of _ 0]) simp_all
  ultimately have "signed_take_bit 63 (uint (file_ptr sp i)) = uint (file_ptr sp i)" by (intro signed_take_bit_int_eq_self)
  then show ?thesis by (simp add: sint_uint)
qed

lemma open_close_step:
  assumes ok: "spike_ok sp" and f: "0 < free_slots sp" and h: "\<And>h. - (2 ^ 63) \<le> fst (fe_openat H AT_FDCWD fn flags mode h)"
    "\<And>h. fst (fe_openat H AT_FDCWD fn flags mode h) < 128"
  shows "\<exists>t. open_close H fn flags mode (Suc n) sp = open_close H fn flags mode n t \<and> spike_ok t \<and> free_slots t = free_slots sp - 1"
proof -
  obtain i where i: "find_slot (\<lambda>e. refcnt e = 0) (spike_files sp) = Some i"
    using f find_slot_None [of "\<lambda>e. refcnt e = 0" "spike_files sp"] by (cases "find_slot (\<lambda>e. refcnt e = 0) (spike_files sp)") (auto simp: free_slots_def)
  have i': "i < length (spike_files sp)" "refcnt (spike_files sp ! i) = 0" using find_slot_Some [OF i] by auto
  have i128: "i < 128" using i'(1) ok by (simp add: spike_ok_def)
  obtain ret h' where r: "fe_openat H AT_FDCWD fn flags mode (host sp) = (ret, h')" by fastforce
  have ret: "- (2 ^ 63) \<le> ret" "ret < 128" using h [of "host sp"] r by simp_all
  obtain e where e: "refcnt e = (if 0 \<le> ret then 3 else 2)" "0 \<le> ret \<longrightarrow> kfd e = ret"
    "spike_file_open H fn flags mode sp = Inr (if 0 \<le> ret then file_ptr sp i else of_int ret, (set_file i e sp)\<lparr>host := h'\<rparr>)"
    using open_takes_slot [OF ok i r ret(2)] by blast
  let ?t = "(set_file i e sp)\<lparr>host := h'\<rparr>"
  have ne: "refcnt e \<noteq> 0" using e(1) by auto
  have T: "spike_ok ?t" "free_slots ?t = free_slots sp - 1"
    using spike_ok_upd [OF ok i128 ne] free_slots_take(1) [OF i' ne] by (simp_all add: spike_ok_host free_slots_def)
  show ?thesis
  proof (cases "0 \<le> ret")
    case False
    then have "sint (of_int ret :: addr) < 0" using ret(1) by (simp add: signed_of_int signed_take_bit_int_eq_self)
    then show ?thesis using T e(3) False by (intro exI [of _ ?t]) simp
  next
    case True
    have fd: "file_ptr sp i \<notin> set (spike_fds sp)" using ok i'(2) i128 by (simp add: spike_ok_def)
    have c: "spike_file_close H (file_ptr ?t i) ?t = Inr (- 1, set_file i ((spike_files ?t ! i)\<lparr>refcnt := 2\<rparr>) ?t)"
      by (rule close_keeps_slot [OF T(1) i128]) (use e(1,2) True ret(2) i' fd in simp_all)
    let ?u = "(set_file i (e\<lparr>refcnt := 2\<rparr>) sp)\<lparr>host := h'\<rparr>"
    have "set_file i ((spike_files ?t ! i)\<lparr>refcnt := 2\<rparr>) ?t = ?u" using i'(1) by (simp add: set_file_def)
    then have "spike_file_close H (file_ptr sp i) ?t = Inr (- 1, ?u)" using c by simp
    moreover have "spike_ok ?u" "free_slots ?u = free_slots sp - 1"
      using spike_ok_upd [OF ok i128, of "e\<lparr>refcnt := 2\<rparr>"] free_slots_take(1) [OF i', of "e\<lparr>refcnt := 2\<rparr>"]
      by (simp_all add: spike_ok_host free_slots_def)
    ultimately show ?thesis using e(3) True sint_file_ptr [OF ok i128] by (intro exI [of _ ?u]) simp
  qed
qed

lemma open_close_ok:
  assumes "spike_ok sp" "n \<le> free_slots sp" "\<And>h. - (2 ^ 63) \<le> fst (fe_openat H AT_FDCWD fn flags mode h)"
    "\<And>h. fst (fe_openat H AT_FDCWD fn flags mode h) < 128"
  shows "\<exists>t. open_close H fn flags mode n sp = Inr t \<and> spike_ok t \<and> free_slots t = free_slots sp - n"
  using assms(1,2)
proof (induction n arbitrary: sp)
  case (Suc n)
  obtain t where t: "open_close H fn flags mode (Suc n) sp = open_close H fn flags mode n t" "spike_ok t" "free_slots t = free_slots sp - 1"
    using open_close_step [OF Suc.prems(1) _ assms(3,4)] Suc.prems(2) by (metis Suc_le_lessD gr_zeroI not_less_zero)
  then show ?case using Suc.IH [OF t(2)] Suc.prems(2) by (metis Suc_le_mono diff_Suc_1 diff_Suc_eq_diff_pred diff_le_mono)
qed simp

section \<open>Properties\<close>

text \<open>
  C31. Host file handles leak. A handle starts with three references and is never put into the descriptor table,
  so \<^verbatim>\<open>spike_file_close\<close> drops only one of them, returns -1 and never closes the file on the host; a failed
  \<^verbatim>\<open>spike_file_open\<close> keeps its slot in the same way. After as many rounds of opening and closing as there
  were free slots, whatever the host answered, every further open fails with \<^verbatim>\<open>ENOMEM\<close>. The host returns a
  descriptor below 128 or a negative error number.
\<close>

theorem spike_handles_leak:
  assumes "spike_ok sp" "\<And>h. - (2 ^ 63) \<le> fst (fe_openat H AT_FDCWD fn flags mode h)"
    "\<And>h. fst (fe_openat H AT_FDCWD fn flags mode h) < 128"
  shows "\<exists>t. open_close H fn flags mode (free_slots sp) sp = Inr t \<and> spike_file_open H fn' flags' mode' t = Inr (- 12, t)"
proof -
  obtain t where t: "open_close H fn flags mode (free_slots sp) sp = Inr t" "free_slots t = 0"
    using open_close_ok [OF assms(1) order_refl assms(2,3)] by auto
  then have "find_slot (\<lambda>e. refcnt e = 0) (spike_files t) = None"
    by (simp add: find_slot_None free_slots_def filter_empty_conv)
  then have "spike_file_open H fn' flags' mode' t = Inr (- 12, t)"
    by (simp add: spike_file_open_def spike_file_openat_def spike_file_get_free_def)
  then show ?thesis using t(1) by blast
qed

definition ex_frontend :: "unit frontend" where
  "ex_frontend = \<lparr>fe_openat = (\<lambda>_ _ _ _ h. (3, h)), fe_close = (\<lambda>_ h. h), fe_read = (\<lambda>_ _ h. ((0, []), h)),
     fe_pread = (\<lambda>_ _ _ h. ((0, []), h)), fe_write = (\<lambda>_ bs h. (int (length bs), h)), fe_lseek = (\<lambda>_ _ _ h. (0, h)),
     fe_fstat = (\<lambda>_ h. ((0, \<lparr>fe_dev = 0, fe_ino = 7, fe_mode = 0x8000, fe_nlink = 1, fe_uid = 0, fe_gid = 0, fe_rdev = 0,
       fe_size = 5, fe_blksize = 0, fe_blocks = 1, fe_atime = 0, fe_mtime = 0, fe_ctime = 0\<rparr>), h))\<rparr>"

definition ex_spike :: "unit spike" where
  "ex_spike = \<lparr>spike_files = replicate 126 \<lparr>kfd = 0, refcnt = 3\<rparr> @ [\<lparr>kfd = - 1, refcnt = 0\<rparr>, \<lparr>kfd = - 1, refcnt = 0\<rparr>],
     spike_fds = replicate 128 0, spike_base = 0x80010000, host = ()\<rparr>"

lemma ex_spike_ok: "spike_ok ex_spike" "free_slots ex_spike = 2"
proof -
  have "file_ptr ex_spike i \<noteq> 0" if "i < 128" for i
  proof -
    have "unat (8 * of_nat i :: addr) = 8 * i" using that by (simp add: unat_word_ariths unat_of_nat)
    then have "unat (file_ptr ex_spike i) = 0x80010000 + 8 * i" using that by (simp add: file_ptr_def ex_spike_def unat_word_ariths)
    then have "unat (file_ptr ex_spike i) \<noteq> 0" by simp
    then show ?thesis by (metis unat_0)
  qed
  then show "spike_ok ex_spike" by (simp add: spike_ok_def ex_spike_def)
  show "free_slots ex_spike = 2" by (simp add: free_slots_def ex_spike_def)
qed

theorem spike_handles_leak_witness:
  "\<exists>t. open_close ex_frontend [97] 2 0 2 ex_spike = Inr t \<and> spike_file_open ex_frontend [98] 2 0 t = Inr (- 12, t)"
  using spike_handles_leak [OF ex_spike_ok(1), of ex_frontend "[97]" 2 0 "[98]" 2 0] by (simp add: ex_spike_ok(2) ex_frontend_def)

end
