(* ===== verification/Hostfs.thy ===== *)
theory Hostfs
  imports Ramdev Spike_File
begin

text \<open>
  The host file system, \<^verbatim>\<open>kernel/hostfs.c\<close>: the files below \<^verbatim>\<open>./hostfs_root\<close> on the host, reached through
  the handles of theory Spike_File. The handle of an open file is kept in \<^verbatim>\<open>i_fs_info\<close> of its inode. The
  calls of the host are the parameter \<open>H\<close> of every operation that needs them.
\<close>

section \<open>Operations\<close>

type_synonym 'x hfs = "'x spike fs"

definition on_host :: "('x spike \<Rightarrow> ('a \<times> 'x spike) res) \<Rightarrow> 'x hfs \<Rightarrow> ('a \<times> 'x hfs) res" where
  "on_host f s = bnd (f (fs_host s)) (\<lambda>(r, sp). Inr (r, s\<lparr>fs_host := sp\<rparr>))"

text \<open>Conversion of an unsigned 64-bit value to \<^verbatim>\<open>int\<close>.\<close>

definition c_int :: "uint64 \<Rightarrow> int" where
  "c_int w = sint (ucast w :: uint32)"

definition register_hostfs :: "'h fs \<Rightarrow> (int \<times> 'h fs) res" where
  "register_hostfs s =
     bnd (new_page s) (\<lambda>(fs_type, s).
     let s = s\<lparr>fs_types := (fs_types s)(fs_type := \<lparr>type_num = HOSTFS_TYPE, fst_get_superblock = Hostfs_get_superblock\<rparr>)\<rparr>
     in case find_slot (\<lambda>p. p = 0) (fs_list s) of
          None \<Rightarrow> Inr (- 1, s)
        | Some i \<Rightarrow> Inr (0, s\<lparr>fs_list := (fs_list s)[i := fs_type]\<rparr>))"

definition init_host_device :: "cname \<Rightarrow> 'h fs \<Rightarrow> (addr \<times> 'h fs) res" where
  "init_host_device name s =
     (case find_slot (\<lambda>p. p \<noteq> 0 \<and> type_num (fs_types s p) = HOSTFS_TYPE) (fs_list s) of
        None \<Rightarrow> Inl (Panic ''init_host_device: No HOSTFS file system found!'')
      | Some t \<Rightarrow>
          bnd (new_page s) (\<lambda>(device, s).
          bnd (copy_name MAX_DEVICE_NAME_LEN name) (\<lambda>nm.
          let s = s\<lparr>devs := (devs s)(device := \<lparr>dev_name = nm, dev_id = 0, dev_fs_type = fs_list s ! t\<rparr>)\<rparr>
          in Inr (device,
               case find_slot (\<lambda>p. p = 0) (vfs_dev_list s) of
                 None \<Rightarrow> s
               | Some i \<Rightarrow> s\<lparr>vfs_dev_list := (vfs_dev_list s)[i := device]\<rparr>))))"

abbreviation (input) MAX_PATH_LEN :: nat where "MAX_PATH_LEN \<equiv> 30"

text \<open>The string \<^verbatim>\<open>./hostfs_root\<close>.\<close>

definition H_ROOT_DIR :: cname where
  "H_ROOT_DIR = [46, 47, 104, 111, 115, 116, 102, 115, 95, 114, 111, 111, 116]"

partial_function (option) path_backtrack :: "'h fs \<Rightarrow> cname \<Rightarrow> addr \<Rightarrow> cname option" where
  "path_backtrack s path dentry =
     (if d_parent (dentries s dentry) = 0 then Some path
      else Option.bind (path_backtrack s path (d_parent (dentries s dentry))) (\<lambda>path.
           Some (path @ [47] @ d_name (dentries s dentry))))"

text \<open>The path is assembled in an array of 30 characters; a longer one overruns it.\<close>

definition get_path_string :: "addr \<Rightarrow> 'h fs \<Rightarrow> cname res" where
  "get_path_string dentry s = bnd (of_loop (path_backtrack s H_ROOT_DIR dentry)) (copy_name MAX_PATH_LEN)"

definition hostfs_alloc_vinode :: "addr \<Rightarrow> 'h fs \<Rightarrow> (addr \<times> 'h fs) res" where
  "hostfs_alloc_vinode sb s =
     bnd (default_alloc_vinode sb s) (\<lambda>(v, s).
     Inr (v, s\<lparr>vinodes := (vinodes s)(v := (vinodes s v)\<lparr>vi_inum := - 1, vi_fs_info := 0, vi_ops := Hostfs_i_ops\<rparr>)\<rparr>))"

definition hostfs_write_back_vinode :: "addr \<Rightarrow> 'h fs \<Rightarrow> (int \<times> 'h fs) res" where
  "hostfs_write_back_vinode vinode s = Inr (0, s)"

definition hostfs_update_vinode :: "'x frontend \<Rightarrow> addr \<Rightarrow> 'x hfs \<Rightarrow> (int \<times> 'x hfs) res" where
  "hostfs_update_vinode H vinode s =
     (let f = vi_fs_info (vinodes s vinode)
      in if sint f < 0
         then Inr (- 1, s\<lparr>vinodes := (vinodes s)(vinode := (vinodes s vinode)\<lparr>vi_type := DIR_I\<rparr>)\<rparr>)
         else bnd (on_host (spike_file_stat H f) s) (\<lambda>((_, st), s).
              let v = (vinodes s vinode)\<lparr>vi_inum := c_int (stat_ino st), vi_size := c_int (stat_size st),
                        vi_nlinks := sint (stat_nlink st), vi_blocks := c_int (stat_blocks st)\<rparr>
              in if stat_mode st AND 0xF000 = 0x4000
                 then Inr (0, s\<lparr>vinodes := (vinodes s)(vinode := v\<lparr>vi_type := DIR_I\<rparr>)\<rparr>)
                 else if stat_mode st AND 0xF000 = 0x8000
                 then Inr (0, s\<lparr>vinodes := (vinodes s)(vinode := v\<lparr>vi_type := FILE_I\<rparr>)\<rparr>)
                 else Inr (- 1, s\<lparr>vinodes := (vinodes s)(vinode := v)\<rparr>)))"

text \<open>
  The test \<^verbatim>\<open>pf < 0\<close> of the code compares pointers and is never true, so a handle that is an error number is
  followed. The result is the return value, the bytes stored in the buffer and the new offset.
\<close>

definition hostfs_read :: "'x frontend \<Rightarrow> addr \<Rightarrow> int \<Rightarrow> int \<Rightarrow> 'x hfs \<Rightarrow> ((int \<times> uint8 list \<times> int) \<times> 'x hfs) res" where
  "hostfs_read H f_inode len offset s =
     (let pf = vi_fs_info (vinodes s f_inode)
      in bnd (on_host (spike_file_read H pf (nat len)) s) (\<lambda>((read_len, bs), s).
         bnd (on_host (spike_file_lseek H pf 0 1) s) (\<lambda>(off, s). Inr ((c_int (of_int read_len), bs, c_int (of_int off)), s))))"

definition hostfs_write :: "'x frontend \<Rightarrow> addr \<Rightarrow> block \<Rightarrow> int \<Rightarrow> int \<Rightarrow> 'x hfs \<Rightarrow> ((int \<times> int) \<times> 'x hfs) res" where
  "hostfs_write H f_inode w_buf len offset s =
     (let pf = vi_fs_info (vinodes s f_inode)
      in bnd (on_host (spike_file_write H pf (get_bytes w_buf 0 (nat len))) s) (\<lambda>(write_len, s).
         bnd (on_host (spike_file_lseek H pf 0 1) s) (\<lambda>(off, s). Inr ((c_int (of_int write_len), c_int (of_int off)), s))))"

abbreviation (input) O_RDONLY :: int where "O_RDONLY \<equiv> 0"
abbreviation (input) O_WRONLY :: int where "O_WRONLY \<equiv> 1"
abbreviation (input) O_RDWR :: int where "O_RDWR \<equiv> 2"
abbreviation (input) O_CREAT :: int where "O_CREAT \<equiv> 64"
abbreviation (input) S_IRUSR_IWUSR :: int where "S_IRUSR_IWUSR \<equiv> 384"

definition hostfs_lookup :: "'x frontend \<Rightarrow> addr \<Rightarrow> addr \<Rightarrow> 'x hfs \<Rightarrow> (addr \<times> 'x hfs) res" where
  "hostfs_lookup H parent sub_dentry s =
     bnd (get_path_string sub_dentry s) (\<lambda>path.
     bnd (on_host (spike_file_open H path O_RDWR 0) s) (\<lambda>(f, s).
     bnd (hostfs_alloc_vinode (vi_sb (vinodes s parent)) s) (\<lambda>(child_inode, s).
     let s = s\<lparr>vinodes := (vinodes s)(child_inode := (vinodes s child_inode)\<lparr>vi_fs_info := f\<rparr>)\<rparr>
     in bnd (hostfs_update_vinode H child_inode s) (\<lambda>(_, s).
        Inr (child_inode, s\<lparr>vinodes := (vinodes s)(child_inode := (vinodes s child_inode)\<lparr>vi_ref := 0\<rparr>)\<rparr>)))))"

definition hostfs_create :: "'x frontend \<Rightarrow> addr \<Rightarrow> addr \<Rightarrow> 'x hfs \<Rightarrow> (addr \<times> 'x hfs) res" where
  "hostfs_create H parent sub_dentry s =
     bnd (get_path_string sub_dentry s) (\<lambda>path.
     bnd (on_host (spike_file_open H path (O_RDWR + O_CREAT) S_IRUSR_IWUSR) s) (\<lambda>(f, s).
     if sint f < 0 then Inr (0, s)
     else bnd (hostfs_alloc_vinode (vi_sb (vinodes s parent)) s) (\<lambda>(new_inode, s).
          let s = s\<lparr>vinodes := (vinodes s)(new_inode := (vinodes s new_inode)\<lparr>vi_fs_info := f\<rparr>)\<rparr>
          in bnd (hostfs_update_vinode H new_inode s) (\<lambda>(r, s).
             if r \<noteq> 0 then Inr (0, s)
             else Inr (new_inode, s\<lparr>vinodes := (vinodes s)(new_inode := (vinodes s new_inode)\<lparr>vi_ref := 0\<rparr>)\<rparr>)))))"

text \<open>The result is the return value and the new offset.\<close>

definition hostfs_lseek :: "'x frontend \<Rightarrow> addr \<Rightarrow> int \<Rightarrow> int \<Rightarrow> int \<Rightarrow> 'x hfs \<Rightarrow> ((int \<times> int) \<times> 'x hfs) res" where
  "hostfs_lseek H f_inode new_offset whence offset s =
     bnd (on_host (spike_file_lseek H (vi_fs_info (vinodes s f_inode)) new_offset whence) s) (\<lambda>(off, s).
     let offset = c_int (of_int off) in Inr ((if offset \<ge> 0 then 0 else - 1, offset), s))"

definition hostfs_link :: "addr \<Rightarrow> addr \<Rightarrow> addr \<Rightarrow> 'h fs \<Rightarrow> (int \<times> 'h fs) res" where
  "hostfs_link parent sub_dentry link_node s = Inl (Panic ''hostfs_link not implemented!'')"

definition hostfs_unlink :: "addr \<Rightarrow> addr \<Rightarrow> addr \<Rightarrow> 'h fs \<Rightarrow> (int \<times> 'h fs) res" where
  "hostfs_unlink parent sub_dentry unlink_node s = Inl (Panic ''hostfs_unlink not implemented!'')"

definition hostfs_readdir :: "addr \<Rightarrow> cname \<times> int \<Rightarrow> int \<Rightarrow> 'h fs \<Rightarrow> (int \<times> (cname \<times> int) \<times> int) res" where
  "hostfs_readdir dir_vinode dir offset s = Inl (Panic ''hostfs_readdir not implemented!'')"

definition hostfs_mkdir :: "addr \<Rightarrow> addr \<Rightarrow> 'h fs \<Rightarrow> (addr \<times> 'h fs) res" where
  "hostfs_mkdir parent sub_dentry s = Inl (Panic ''hostfs_mkdir not implemented!'')"

definition hostfs_hook_open :: "'x frontend \<Rightarrow> addr \<Rightarrow> addr \<Rightarrow> 'x hfs \<Rightarrow> (int \<times> 'x hfs) res" where
  "hostfs_hook_open H f_inode fd_dentry s =
     (if vi_fs_info (vinodes s f_inode) \<noteq> 0 then Inr (0, s)
      else bnd (get_path_string fd_dentry s) (\<lambda>path.
           bnd (on_host (spike_file_open H path O_RDWR 0) s) (\<lambda>(f, s).
           if sint f < 0 then Inr (- 1, s)
           else Inr (0, s\<lparr>vinodes := (vinodes s)(f_inode := (vinodes s f_inode)\<lparr>vi_fs_info := f\<rparr>)\<rparr>))))"

definition hostfs_hook_close :: "'x frontend \<Rightarrow> addr \<Rightarrow> addr \<Rightarrow> 'x hfs \<Rightarrow> (int \<times> 'x hfs) res" where
  "hostfs_hook_close H f_inode dentry s =
     bnd (on_host (spike_file_close H (vi_fs_info (vinodes s f_inode))) s) (\<lambda>(_, s). Inr (0, s))"

definition hostfs_get_superblock :: "addr \<Rightarrow> 'h fs \<Rightarrow> (addr \<times> 'h fs) res" where
  "hostfs_get_superblock dev s =
     bnd (new_page s) (\<lambda>(sb, s).
     let s = s\<lparr>sbs := (sbs s)(sb := (sbs s sb)\<lparr>s_dev := dev\<rparr>)\<rparr>
     in bnd (hostfs_alloc_vinode sb s) (\<lambda>(root_inode, s).
        let s = s\<lparr>vinodes := (vinodes s)(root_inode := (vinodes s root_inode)\<lparr>vi_type := DIR_I\<rparr>)\<rparr>
        in bnd (alloc_vfs_dentry [47] root_inode 0 s) (\<lambda>(root_dentry, s).
           Inr (sb, s\<lparr>sbs := (sbs s)(sb := (sbs s sb)\<lparr>s_root := root_dentry\<rparr>)\<rparr>))))"

end
