(* ===== verification/Vfs.thy ===== *)
theory Vfs
  imports Rfs Hostfs
begin

text \<open>
  The virtual file system, first half of \<^verbatim>\<open>kernel/vfs.c\<close>: mounting, path lookup through the two caches, and the
  operations on open files and directories, which go through the function tables \<^verbatim>\<open>rfs_i_ops\<close> and
  \<^verbatim>\<open>hostfs_i_ops\<close> of the inode. Paths are split with \<open>tokens\<close>, which is what a sequence of calls of
  \<^verbatim>\<open>strtok\<close> returns (theory Cstring). A pointer argument that is written through is part of the result.
\<close>

section \<open>Function tables\<close>

definition viop_read :: "'x frontend \<Rightarrow> addr \<Rightarrow> int \<Rightarrow> int \<Rightarrow> 'x hfs \<Rightarrow> ((int \<times> uint8 list \<times> int) \<times> 'x hfs) res" where
  "viop_read H v len offset s =
     (case vi_ops (vinodes s v) of Rfs_i_ops \<Rightarrow> rfs_read v len offset s | Hostfs_i_ops \<Rightarrow> hostfs_read H v len offset s)"

definition viop_write :: "'x frontend \<Rightarrow> addr \<Rightarrow> block \<Rightarrow> int \<Rightarrow> int \<Rightarrow> 'x hfs \<Rightarrow> ((int \<times> int) \<times> 'x hfs) res" where
  "viop_write H v w_buf len offset s =
     (case vi_ops (vinodes s v) of Rfs_i_ops \<Rightarrow> rfs_write v w_buf len offset s | Hostfs_i_ops \<Rightarrow> hostfs_write H v w_buf len offset s)"

definition viop_create :: "'x frontend \<Rightarrow> addr \<Rightarrow> addr \<Rightarrow> 'x hfs \<Rightarrow> (addr \<times> 'x hfs) res" where
  "viop_create H v sub s =
     (case vi_ops (vinodes s v) of Rfs_i_ops \<Rightarrow> rfs_create v sub s | Hostfs_i_ops \<Rightarrow> hostfs_create H v sub s)"

definition viop_lseek :: "'x frontend \<Rightarrow> addr \<Rightarrow> int \<Rightarrow> int \<Rightarrow> int \<Rightarrow> 'x hfs \<Rightarrow> ((int \<times> int) \<times> 'x hfs) res" where
  "viop_lseek H v new_off whence off s =
     (case vi_ops (vinodes s v) of
        Rfs_i_ops \<Rightarrow> Inr (rfs_lseek v new_off whence off s, s)
      | Hostfs_i_ops \<Rightarrow> hostfs_lseek H v new_off whence off s)"

text \<open>\<^verbatim>\<open>hostfs_i_ops\<close> has no \<^verbatim>\<open>viop_disk_stat\<close>: the call goes to the null pointer.\<close>

definition viop_disk_stat :: "addr \<Rightarrow> istat \<Rightarrow> 'h fs \<Rightarrow> ((int \<times> istat) \<times> 'h fs) res" where
  "viop_disk_stat v istat s =
     (case vi_ops (vinodes s v) of Rfs_i_ops \<Rightarrow> rfs_disk_stat v istat s | Hostfs_i_ops \<Rightarrow> Inl (Fault 0))"

definition viop_link :: "addr \<Rightarrow> addr \<Rightarrow> addr \<Rightarrow> 'h fs \<Rightarrow> (int \<times> 'h fs) res" where
  "viop_link v sub link s =
     (case vi_ops (vinodes s v) of Rfs_i_ops \<Rightarrow> rfs_link v sub link s | Hostfs_i_ops \<Rightarrow> hostfs_link v sub link s)"

definition viop_unlink :: "addr \<Rightarrow> addr \<Rightarrow> addr \<Rightarrow> 'h fs \<Rightarrow> (int \<times> 'h fs) res" where
  "viop_unlink v sub unlinked s =
     (case vi_ops (vinodes s v) of Rfs_i_ops \<Rightarrow> rfs_unlink v sub unlinked s | Hostfs_i_ops \<Rightarrow> hostfs_unlink v sub unlinked s)"

definition viop_lookup :: "'x frontend \<Rightarrow> addr \<Rightarrow> addr \<Rightarrow> 'x hfs \<Rightarrow> (addr \<times> 'x hfs) res" where
  "viop_lookup H v sub s =
     (case vi_ops (vinodes s v) of Rfs_i_ops \<Rightarrow> rfs_lookup v sub s | Hostfs_i_ops \<Rightarrow> hostfs_lookup H v sub s)"

definition viop_readdir :: "addr \<Rightarrow> cname \<times> int \<Rightarrow> int \<Rightarrow> 'h fs \<Rightarrow> (int \<times> (cname \<times> int) \<times> int) res" where
  "viop_readdir v dir offset s =
     (case vi_ops (vinodes s v) of Rfs_i_ops \<Rightarrow> rfs_readdir v dir offset s | Hostfs_i_ops \<Rightarrow> hostfs_readdir v dir offset s)"

definition viop_mkdir :: "addr \<Rightarrow> addr \<Rightarrow> 'h fs \<Rightarrow> (addr \<times> 'h fs) res" where
  "viop_mkdir v sub s =
     (case vi_ops (vinodes s v) of Rfs_i_ops \<Rightarrow> rfs_mkdir v sub s | Hostfs_i_ops \<Rightarrow> hostfs_mkdir v sub s)"

definition viop_write_back_vinode :: "addr \<Rightarrow> 'h fs \<Rightarrow> (int \<times> 'h fs) res" where
  "viop_write_back_vinode v s =
     (case vi_ops (vinodes s v) of Rfs_i_ops \<Rightarrow> rfs_write_back_vinode v s | Hostfs_i_ops \<Rightarrow> hostfs_write_back_vinode v s)"

text \<open>The hooks; a hook that is missing from the table is not called.\<close>

definition viop_hook_open :: "'x frontend \<Rightarrow> addr \<Rightarrow> addr \<Rightarrow> 'x hfs \<Rightarrow> (int \<times> 'x hfs) res" where
  "viop_hook_open H v d s =
     (case vi_ops (vinodes s v) of Rfs_i_ops \<Rightarrow> Inr (0, s) | Hostfs_i_ops \<Rightarrow> hostfs_hook_open H v d s)"

definition viop_hook_close :: "'x frontend \<Rightarrow> addr \<Rightarrow> addr \<Rightarrow> 'x hfs \<Rightarrow> (int \<times> 'x hfs) res" where
  "viop_hook_close H v d s =
     (case vi_ops (vinodes s v) of Rfs_i_ops \<Rightarrow> Inr (0, s) | Hostfs_i_ops \<Rightarrow> hostfs_hook_close H v d s)"

definition viop_hook_opendir :: "addr \<Rightarrow> addr \<Rightarrow> 'h fs \<Rightarrow> (int \<times> 'h fs) res" where
  "viop_hook_opendir v d s =
     (case vi_ops (vinodes s v) of Rfs_i_ops \<Rightarrow> rfs_hook_opendir v s | Hostfs_i_ops \<Rightarrow> Inr (0, s))"

definition viop_hook_closedir :: "addr \<Rightarrow> addr \<Rightarrow> 'h fs \<Rightarrow> (int \<times> 'h fs) res" where
  "viop_hook_closedir v d s =
     (case vi_ops (vinodes s v) of Rfs_i_ops \<Rightarrow> rfs_hook_closedir v s | Hostfs_i_ops \<Rightarrow> Inr (0, s))"

definition get_superblock_of :: "get_superblock \<Rightarrow> addr \<Rightarrow> 'h fs \<Rightarrow> (addr \<times> 'h fs) res" where
  "get_superblock_of g dev s =
     (case g of Rfs_get_superblock \<Rightarrow> rfs_get_superblock dev s | Hostfs_get_superblock \<Rightarrow> hostfs_get_superblock dev s)"

section \<open>Helpers\<close>

definition upd_vinode :: "addr \<Rightarrow> (vinode \<Rightarrow> vinode) \<Rightarrow> 'h fs \<Rightarrow> 'h fs" where
  "upd_vinode v f s = s\<lparr>vinodes := (vinodes s)(v := f (vinodes s v))\<rparr>"

definition upd_dentry :: "addr \<Rightarrow> (dentry \<Rightarrow> dentry) \<Rightarrow> 'h fs \<Rightarrow> 'h fs" where
  "upd_dentry d f s = s\<lparr>dentries := (dentries s)(d := f (dentries s d))\<rparr>"

definition upd_vfile :: "addr \<Rightarrow> (vfile \<Rightarrow> vfile) \<Rightarrow> 'h fs \<Rightarrow> 'h fs" where
  "upd_vfile p f s = s\<lparr>vfiles := (vfiles s)(p := f (vfiles s p))\<rparr>"

text \<open>The inode behind an open file.\<close>

definition file_inode :: "addr \<Rightarrow> 'h fs \<Rightarrow> addr" where
  "file_inode file s = d_inode (dentries s (f_dentry (vfiles s file)))"

text \<open>A pointer that is followed must not be null.\<close>

definition nonnull :: "addr \<Rightarrow> unit res" where
  "nonnull p = (if p = 0 then Inl (Fault 0) else Inr ())"

lemma nonnull_ok [simp]: "p \<noteq> 0 \<Longrightarrow> nonnull p = Inr ()"
  by (simp add: nonnull_def)

section \<open>Mounting\<close>

abbreviation (input) MAX_VFS_DEV :: nat where "MAX_VFS_DEV \<equiv> 10"
abbreviation (input) MOUNT_DEFAULT :: int where "MOUNT_DEFAULT \<equiv> 0"
abbreviation (input) MOUNT_AS_ROOT :: int where "MOUNT_AS_ROOT \<equiv> 1"

text \<open>
  When no device has the name, the loop variable is left at the last entry of the list, and only a null pointer
  there is noticed.
\<close>

definition vfs_mount :: "cname \<Rightarrow> int \<Rightarrow> 'h fs \<Rightarrow> (addr \<times> 'h fs) res" where
  "vfs_mount devname mnt_type s =
     (let p_device = (case find_slot (\<lambda>p. p \<noteq> 0 \<and> dev_name (devs s p) = devname) (vfs_dev_list s) of
                        Some i \<Rightarrow> vfs_dev_list s ! i
                      | None \<Rightarrow> vfs_dev_list s ! (MAX_VFS_DEV - 1))
      in if p_device = 0 then Inl (Panic ''vfs_mount: cannot find the device entry!'')
         else bnd (get_superblock_of (fst_get_superblock (fs_types s (dev_fs_type (devs s p_device)))) p_device s) (\<lambda>(sb, s).
           bnd (hash_put_vinode (d_inode (dentries s (s_root (sbs s sb)))) s) (\<lambda>(_, s).
           case find_slot (\<lambda>p. p = 0) (vfs_sb_list s) of
             None \<Rightarrow> Inl (Panic ''vfs_mount: too many mounts!'')
           | Some i \<Rightarrow>
               (let s = s\<lparr>vfs_sb_list := (vfs_sb_list s)[i := sb]\<rparr>; root = s_root (sbs s sb)
                in if mnt_type = MOUNT_AS_ROOT
                   then bnd (hash_put_dentry root (s\<lparr>vfs_root_dentry := root\<rparr>)) (\<lambda>(_, s). Inr (sb, s))
                   else if mnt_type = MOUNT_DEFAULT
                   then (if vfs_root_dentry s = 0
                         then Inl (Panic ''vfs_mount: root dentry not found, please mount the root device first!'')
                         else bnd (copy_name MAX_DENTRY_NAME_LEN (dev_name (devs s p_device))) (\<lambda>nm.
                              let s = upd_dentry root (\<lambda>d. d\<lparr>d_name := nm, d_parent := vfs_root_dentry s\<rparr>) s
                              in bnd (hash_put_dentry root s) (\<lambda>(_, s). Inr (sb, s))))
                   else Inl (Panic ''vfs_mount: unknown mount type!'')))))"

section \<open>Path lookup\<close>

abbreviation (input) is_slash :: "uint8 \<Rightarrow> bool" where "is_slash \<equiv> (\<lambda>c. c = 47)"

text \<open>
  A component that is not in the cache: a new directory entry is looked up in its parent. The result is null when
  the directory does not have the name.
\<close>

definition lookup_miss :: "'x frontend \<Rightarrow> cname \<Rightarrow> addr \<Rightarrow> 'x hfs \<Rightarrow> (addr \<times> 'x hfs) res" where
  "lookup_miss H token parent s =
     bnd (alloc_vfs_dentry token 0 parent s) (\<lambda>(this, s).
     bnd (nonnull parent) (\<lambda>_.
     bnd (viop_lookup H (d_inode (dentries s parent)) this s) (\<lambda>(found_vinode, s).
     if found_vinode = 0 then bnd (drop_page this s) (\<lambda>s. Inr (0, s))
     else bnd (hash_get_vinode (vi_sb (vinodes s found_vinode)) (vi_inum (vinodes s found_vinode)) s) (\<lambda>same_inode.
          bnd (if same_inode \<noteq> 0
               then drop_page found_vinode (upd_vinode same_inode (\<lambda>v. v\<lparr>vi_ref := vi_ref v + 1\<rparr>)
                      (upd_dentry this (\<lambda>d. d\<lparr>d_inode := same_inode\<rparr>) s))
               else bnd (hash_put_vinode found_vinode (upd_vinode found_vinode (\<lambda>v. v\<lparr>vi_ref := vi_ref v + 1\<rparr>)
                      (upd_dentry this (\<lambda>d. d\<lparr>d_inode := found_vinode\<rparr>) s))) (\<lambda>(_, s). Inr s)) (\<lambda>s.
          bnd (hash_put_dentry this s) (\<lambda>(_, s). Inr (this, s)))))))"

text \<open>
  The loop over the components. The result is the final entry or null, the last \<^verbatim>\<open>*parent\<close>, and the contents of
  \<^verbatim>\<open>miss_name\<close>, which is only set when a component is missing.
\<close>

primrec lookup_loop ::
  "'x frontend \<Rightarrow> cname list \<Rightarrow> addr \<Rightarrow> addr \<Rightarrow> 'x hfs \<Rightarrow> ((addr \<times> addr \<times> cname option) \<times> 'x hfs) res" where
  "lookup_loop H [] this parent s = Inr ((this, parent, None), s)"
| "lookup_loop H (token # toks) this parent s =
     (if token = [46] then lookup_loop H toks this parent s
      else if token = [46, 46]
      then bnd (nonnull this) (\<lambda>_.
           if d_parent (dentries s this) = 0 then Inr ((0, parent, None), s)
           else lookup_loop H toks (d_parent (dentries s this)) parent s)
      else (let parent = this
            in bnd (hash_get_dentry parent token s) (\<lambda>d.
               if d \<noteq> 0 then lookup_loop H toks d parent s
               else bnd (lookup_miss H token parent s) (\<lambda>(d, s).
                    if d = 0 then Inr ((0, parent, Some token), s) else lookup_loop H toks d parent s))))"

definition lookup_final_dentry ::
  "'x frontend \<Rightarrow> cname \<Rightarrow> addr \<Rightarrow> 'x hfs \<Rightarrow> ((addr \<times> addr \<times> cname option) \<times> 'x hfs) res" where
  "lookup_final_dentry H path parent s =
     bnd (copy_name MAX_PATH_LEN path) (\<lambda>path_copy.
     let this = (if path_copy \<noteq> [] \<and> hd path_copy = 47 then vfs_root_dentry s else parent)
     in lookup_loop H (tokens is_slash path_copy) this parent s)"

text \<open>A path without components makes the code copy from the null pointer.\<close>

definition get_base_name :: "cname \<Rightarrow> cname res" where
  "get_base_name path =
     bnd (copy_name MAX_PATH_LEN path) (\<lambda>path_copy.
     let toks = tokens is_slash path_copy in if toks = [] then Inl (Fault 0) else Inr (List.last toks))"

definition miss_name_of :: "cname option \<Rightarrow> cname res" where
  "miss_name_of m = (case m of None \<Rightarrow> Inl (Undefined ''uninitialised miss_name'') | Some nm \<Rightarrow> Inr nm)"

section \<open>Files\<close>

text \<open>The creation of a missing file in \<^verbatim>\<open>vfs_open\<close>; null when a directory of the path is missing.\<close>

definition open_create :: "'x frontend \<Rightarrow> cname \<Rightarrow> addr \<Rightarrow> cname option \<Rightarrow> 'x hfs \<Rightarrow> (addr \<times> 'x hfs) res" where
  "open_create H path parent miss s =
     bnd (get_base_name path) (\<lambda>basename.
     bnd (miss_name_of miss) (\<lambda>miss_name.
     if miss_name \<noteq> basename then Inr (0, s)
     else bnd (alloc_vfs_dentry basename 0 parent s) (\<lambda>(file_dentry, s).
          bnd (nonnull parent) (\<lambda>_.
          bnd (viop_create H (d_inode (dentries s parent)) file_dentry s) (\<lambda>(new_inode, s).
          if new_inode = 0 then Inl (Panic ''vfs_open: cannot create file!'')
          else (let s = upd_vinode new_inode (\<lambda>v. v\<lparr>vi_ref := vi_ref v + 1\<rparr>)
                          (upd_dentry file_dentry (\<lambda>d. d\<lparr>d_inode := new_inode\<rparr>) s)
                in bnd (hash_put_dentry file_dentry s) (\<lambda>(_, s).
                   bnd (hash_put_vinode new_inode s) (\<lambda>(_, s). Inr (file_dentry, s)))))))))"

text \<open>The access that the flags ask for: readable and writable.\<close>

definition open_mode :: "int \<Rightarrow> (int \<times> int) res" where
  "open_mode flags =
     (let m = flags AND 3
      in if m = O_RDONLY then Inr (1, 0) else if m = O_WRONLY then Inr (0, 1) else if m = O_RDWR then Inr (1, 1)
         else Inl (Panic ''fs_open: invalid open flags!''))"

definition vfs_open :: "'x frontend \<Rightarrow> cname \<Rightarrow> int \<Rightarrow> addr \<Rightarrow> 'x hfs \<Rightarrow> (addr \<times> 'x hfs) res" where
  "vfs_open H path flags parent s =
     bnd (lookup_final_dentry H path parent s) (\<lambda>((file_dentry, parent, miss), s).
     bnd (if file_dentry \<noteq> 0 then Inr (file_dentry, s)
          else if flags AND O_CREAT \<noteq> 0 then open_create H path parent miss s
          else Inr (0, s)) (\<lambda>(file_dentry, s).
     if file_dentry = 0 then Inr (0, s)
     else if vi_type (vinodes s (d_inode (dentries s file_dentry))) \<noteq> FILE_I then Inr (0, s)
     else bnd (open_mode flags) (\<lambda>(readable, writable).
          bnd (alloc_vfs_file file_dentry readable writable 0 s) (\<lambda>(file, s).
          bnd (viop_hook_open H (d_inode (dentries s file_dentry)) file_dentry s) (\<lambda>(_, s). Inr (file, s))))))"

text \<open>The result is the return value and the bytes stored in the buffer.\<close>

definition vfs_read :: "'x frontend \<Rightarrow> addr \<Rightarrow> int \<Rightarrow> 'x hfs \<Rightarrow> ((int \<times> uint8 list) \<times> 'x hfs) res" where
  "vfs_read H file cnt s =
     (if f_readable (vfiles s file) = 0 then Inr ((- 1, []), s)
      else if vi_type (vinodes s (file_inode file s)) \<noteq> FILE_I then Inr ((- 1, []), s)
      else bnd (viop_read H (file_inode file s) cnt (f_offset (vfiles s file)) s) (\<lambda>((n, bs, off), s).
           Inr ((n, bs), upd_vfile file (\<lambda>f. f\<lparr>f_offset := off\<rparr>) s)))"

definition vfs_write :: "'x frontend \<Rightarrow> addr \<Rightarrow> block \<Rightarrow> int \<Rightarrow> 'x hfs \<Rightarrow> (int \<times> 'x hfs) res" where
  "vfs_write H file buf cnt s =
     (if f_writable (vfiles s file) = 0 then Inr (- 1, s)
      else if vi_type (vinodes s (file_inode file s)) \<noteq> FILE_I then Inr (- 1, s)
      else bnd (viop_write H (file_inode file s) buf cnt (f_offset (vfiles s file)) s) (\<lambda>((n, off), s).
           Inr (n, upd_vfile file (\<lambda>f. f\<lparr>f_offset := off\<rparr>) s)))"

definition vfs_lseek :: "'x frontend \<Rightarrow> addr \<Rightarrow> int \<Rightarrow> int \<Rightarrow> 'x hfs \<Rightarrow> (int \<times> 'x hfs) res" where
  "vfs_lseek H file offset whence s =
     (if vi_type (vinodes s (file_inode file s)) \<noteq> FILE_I then Inr (- 1, s)
      else bnd (viop_lseek H (file_inode file s) offset whence (f_offset (vfiles s file)) s) (\<lambda>((r, off), s).
           let s = upd_vfile file (\<lambda>f. f\<lparr>f_offset := off\<rparr>) s
           in if r \<noteq> 0 then Inr (- 1, s) else Inr (f_offset (vfiles s file), s)))"

definition vfs_stat :: "addr \<Rightarrow> 'h fs \<Rightarrow> int \<times> istat" where
  "vfs_stat file s =
     (let v = vinodes s (file_inode file s)
      in (0, \<lparr>st_inum = vi_inum v, ist_size = vi_size v, st_type = vi_type v, st_nlinks = vi_nlinks v, st_blocks = vi_blocks v\<rparr>))"

definition vfs_disk_stat :: "addr \<Rightarrow> istat \<Rightarrow> 'h fs \<Rightarrow> ((int \<times> istat) \<times> 'h fs) res" where
  "vfs_disk_stat file istat s = viop_disk_stat (file_inode file s) istat s"

text \<open>The new name is entered in the directory the lookup started from, not in the one it ended in.\<close>

definition vfs_link :: "'x frontend \<Rightarrow> cname \<Rightarrow> cname \<Rightarrow> addr \<Rightarrow> 'x hfs \<Rightarrow> (int \<times> 'x hfs) res" where
  "vfs_link H oldpath newpath parent s =
     bnd (lookup_final_dentry H oldpath parent s) (\<lambda>((old_file_dentry, _, miss), s).
     if old_file_dentry = 0 then Inr (- 1, s)
     else if vi_type (vinodes s (d_inode (dentries s old_file_dentry))) \<noteq> FILE_I then Inr (- 1, s)
     else bnd (lookup_final_dentry H newpath parent s) (\<lambda>((new_file_dentry, _, miss'), s).
          if new_file_dentry \<noteq> 0 then Inr (- 1, s)
          else bnd (get_base_name newpath) (\<lambda>basename.
               bnd (miss_name_of miss') (\<lambda>miss_name.
               if miss_name \<noteq> basename then Inr (- 1, s)
               else bnd (alloc_vfs_dentry basename (d_inode (dentries s old_file_dentry)) parent s) (\<lambda>(new_file_dentry, s).
                    bnd (nonnull parent) (\<lambda>_.
                    bnd (viop_link (d_inode (dentries s parent)) new_file_dentry (d_inode (dentries s old_file_dentry)) s) (\<lambda>(err, s).
                    if err \<noteq> 0 then Inr (- 1, s)
                    else bnd (hash_put_dentry new_file_dentry s) (\<lambda>(_, s). Inr (0, s)))))))))"

text \<open>
  Common steps of \<^verbatim>\<open>vfs_unlink\<close> and \<^verbatim>\<open>vfs_close\<close>: an entry leaves the cache, its page is freed and the inode
  loses a reference; an inode leaves the cache and its page is freed.
\<close>

definition forget_dentry :: "addr \<Rightarrow> 'h fs \<Rightarrow> 'h fs res" where
  "forget_dentry dentry s =
     (let v = d_inode (dentries s dentry)
      in bnd (hash_erase_dentry dentry s) (\<lambda>(_, s).
         bnd (free_vfs_dentry dentry s) (\<lambda>(_, s).
         Inr (upd_vinode v (\<lambda>x. x\<lparr>vi_ref := vi_ref x - 1\<rparr>) s))))"

definition release_vinode :: "addr \<Rightarrow> 'h fs \<Rightarrow> 'h fs res" where
  "release_vinode v s = bnd (hash_erase_vinode v s) (\<lambda>(_, s). drop_page v s)"

definition vfs_unlink :: "'x frontend \<Rightarrow> cname \<Rightarrow> addr \<Rightarrow> 'x hfs \<Rightarrow> (int \<times> 'x hfs) res" where
  "vfs_unlink H path parent s =
     bnd (lookup_final_dentry H path parent s) (\<lambda>((file_dentry, parent, _), s).
     if file_dentry = 0 then Inr (- 1, s)
     else if vi_type (vinodes s (d_inode (dentries s file_dentry))) \<noteq> FILE_I then Inr (- 1, s)
     else if d_ref (dentries s file_dentry) > 0 then Inr (- 1, s)
     else bnd (nonnull parent) (\<lambda>_.
          let unlinked_vinode = d_inode (dentries s file_dentry)
          in bnd (viop_unlink (d_inode (dentries s parent)) file_dentry unlinked_vinode s) (\<lambda>(err, s).
             if err \<noteq> 0 then Inr (- 1, s)
             else bnd (forget_dentry file_dentry s) (\<lambda>s.
                  if vi_nlinks (vinodes s unlinked_vinode) = 0
                  then (if vi_ref (vinodes s unlinked_vinode) = 0
                        then bnd (release_vinode unlinked_vinode s) (\<lambda>s. Inr (0, s))
                        else Inl (Assert_Fail ''unlinked_vinode->ref == 0''))
                  else Inr (0, s)))))"

definition vfs_close :: "'x frontend \<Rightarrow> addr \<Rightarrow> 'x hfs \<Rightarrow> (int \<times> 'x hfs) res" where
  "vfs_close H file s =
     (let dentry = f_dentry (vfiles s file); inode = d_inode (dentries s dentry)
      in if vi_type (vinodes s inode) \<noteq> FILE_I then Inr (- 1, s)
         else bnd (viop_hook_close H inode dentry s) (\<lambda>(_, s).
           let s = upd_dentry dentry (\<lambda>d. d\<lparr>d_ref := d_ref d - 1\<rparr>) s
           in bnd (if d_ref (dentries s dentry) = 0
                   then bnd (forget_dentry dentry s) (\<lambda>s.
                        if vi_ref (vinodes s inode) = 0
                        then bnd (viop_write_back_vinode inode s) (\<lambda>(r, s).
                             if r \<noteq> 0 then Inl (Panic ''vfs_close: free inode failed!'') else release_vinode inode s)
                        else Inr s)
                   else Inr s) (\<lambda>s.
              Inr (0, upd_vfile file (\<lambda>f. f\<lparr>f_status := FD_NONE\<rparr>) s))))"

section \<open>Directories\<close>

definition vfs_opendir :: "'x frontend \<Rightarrow> cname \<Rightarrow> addr \<Rightarrow> 'x hfs \<Rightarrow> (addr \<times> 'x hfs) res" where
  "vfs_opendir H path parent s =
     bnd (lookup_final_dentry H path parent s) (\<lambda>((file_dentry, _, _), s).
     if file_dentry = 0 \<or> vi_type (vinodes s (d_inode (dentries s file_dentry))) \<noteq> DIR_I then Inr (0, s)
     else bnd (alloc_vfs_file file_dentry 1 0 0 s) (\<lambda>(file, s).
          bnd (viop_hook_opendir (d_inode (dentries s file_dentry)) file_dentry s) (\<lambda>(_, s). Inr (file, s))))"

definition vfs_readdir :: "addr \<Rightarrow> cname \<times> int \<Rightarrow> 'h fs \<Rightarrow> ((int \<times> cname \<times> int) \<times> 'h fs) res" where
  "vfs_readdir file dir s =
     (if vi_type (vinodes s (file_inode file s)) \<noteq> DIR_I then Inr ((- 1, dir), s)
      else bnd (viop_readdir (file_inode file s) dir (f_offset (vfiles s file)) s) (\<lambda>(r, dir, off).
           Inr ((r, dir), upd_vfile file (\<lambda>f. f\<lparr>f_offset := off\<rparr>) s)))"

definition vfs_mkdir :: "'x frontend \<Rightarrow> cname \<Rightarrow> addr \<Rightarrow> 'x hfs \<Rightarrow> (int \<times> 'x hfs) res" where
  "vfs_mkdir H path parent s =
     bnd (lookup_final_dentry H path parent s) (\<lambda>((file_dentry, parent, miss), s).
     if file_dentry \<noteq> 0 then Inr (- 1, s)
     else bnd (get_base_name path) (\<lambda>basename.
          bnd (miss_name_of miss) (\<lambda>miss_name.
          if miss_name \<noteq> basename then Inr (- 1, s)
          else bnd (alloc_vfs_dentry basename 0 parent s) (\<lambda>(new_dentry, s).
               bnd (nonnull parent) (\<lambda>_.
               bnd (viop_mkdir (d_inode (dentries s parent)) new_dentry s) (\<lambda>(new_dir_inode, s).
               if new_dir_inode = 0 then bnd (drop_page new_dentry s) (\<lambda>s. Inr (- 1, s))
               else (let s = upd_vinode new_dir_inode (\<lambda>v. v\<lparr>vi_ref := vi_ref v + 1\<rparr>)
                               (upd_dentry new_dentry (\<lambda>d. d\<lparr>d_inode := new_dir_inode\<rparr>) s)
                     in bnd (hash_put_dentry new_dentry s) (\<lambda>(_, s).
                        bnd (hash_put_vinode new_dir_inode s) (\<lambda>(_, s). Inr (0, s))))))))))"

definition vfs_closedir :: "addr \<Rightarrow> 'h fs \<Rightarrow> (int \<times> 'h fs) res" where
  "vfs_closedir file s =
     (let dentry = f_dentry (vfiles s file); inode = d_inode (dentries s dentry)
      in if vi_type (vinodes s inode) \<noteq> DIR_I then Inr (- 1, s)
         else (let s = upd_vfile file (\<lambda>f. f\<lparr>f_status := FD_NONE\<rparr>) (upd_dentry dentry (\<lambda>d. d\<lparr>d_ref := d_ref d - 1\<rparr>) s)
               in bnd (viop_hook_closedir inode dentry s) (\<lambda>(_, s). Inr (0, s))))"

end
