(* ===== verification/Vfs_Paths.thy ===== *)
theory Vfs_Paths
  imports Vfs Rfs_Unlink
begin

text \<open>
  Path lookup of \<^verbatim>\<open>kernel/vfs.c\<close>. The two hash tables are read as maps from keys to directory entries and inodes.
  A path whose components are all cached is resolved in the map without any change of state; a component
  that is not cached is found exactly when the directory on the RAM disk has it, and is then cached. On the
  host file system a missing name is never reported as missing.
\<close>

section \<open>The caches as maps\<close>

abbreviation dkey :: "addr \<Rightarrow> cname \<Rightarrow> dentry_key" where
  "dkey p nm \<equiv> \<lparr>dk_parent = p, dk_name = nm\<rparr>"

abbreviation vkey :: "addr \<Rightarrow> int \<Rightarrow> vinode_key" where
  "vkey sb n \<equiv> \<lparr>vk_inum = nat n, vk_sb = sb\<rparr>"

definition dcache :: "'h fs \<Rightarrow> (dentry_key \<rightharpoonup> addr) \<Rightarrow> addr set \<Rightarrow> bool" where
  "dcache s m U \<longleftrightarrow> ht_rep dentry_hash_func (dentry_hash_table s) m U \<and> 0 \<notin> ran m"

definition vcache :: "'h fs \<Rightarrow> (vinode_key \<rightharpoonup> addr) \<Rightarrow> addr set \<Rightarrow> bool" where
  "vcache s m U \<longleftrightarrow> ht_rep vinode_hash_func (vinode_hash_table s) m U \<and> 0 \<notin> ran m"

lemma get_dentry: "dcache s m U \<Longrightarrow> hash_get_dentry p nm s = Inr (to_ptr (m (dkey p nm)))"
  by (simp add: hash_get_dentry_def dentry_hash_equal_eq dcache_def dh.rep_get [where m=m and U=U])

lemma get_vinode: "vcache s m U \<Longrightarrow> hash_get_vinode sb n s = Inr (if n < 0 then 0 else to_ptr (m (vkey sb n)))"
  by (simp add: hash_get_vinode_def vinode_hash_equal_eq vcache_def vh.rep_get [where m=m and U=U])

lemma ptr_of_cache: "0 \<notin> ran m \<Longrightarrow> to_ptr (m k) = 0 \<longleftrightarrow> m k = None"
  by (cases "m k") (auto simp: ran_def)

lemma ran_upd_nonnull: "0 \<notin> ran m \<Longrightarrow> v \<noteq> 0 \<Longrightarrow> 0 \<notin> ran (m(k \<mapsto> v))"
  by (auto simp: ran_def)

lemma put_dentry:
  assumes c: "dcache s m U" and n: "m (dkey (d_parent (dentries s d)) (d_name (dentries s d))) = None" "d \<noteq> 0"
    and p: "pages_free (fs_pool s) = k # q # ps" "k \<noteq> 0" "q \<noteq> 0" "q \<notin> U"
  shows "\<exists>T. hash_put_dentry d s = Inr (0, s\<lparr>dentry_hash_table := T, fs_pool := (fs_pool s)\<lparr>pages_free := ps\<rparr>\<rparr>) \<and>
    dcache (s\<lparr>dentry_hash_table := T\<rparr>) (m(dkey (d_parent (dentries s d)) (d_name (dentries s d)) \<mapsto> d)) (insert q U)"
proof -
  let ?k = "dkey (d_parent (dentries s d)) (d_name (dentries s d))" and ?pl = "(fs_pool s)\<lparr>pages_free := q # ps\<rparr>"
  obtain T where T: "default_put (=) dentry_hash_func ?k d (dentry_hash_table s, ?pl) = Inr (0, T, ?pl\<lparr>pages_free := ps\<rparr>)"
    "ht_rep dentry_hash_func T (m(?k \<mapsto> d)) (insert q U)"
    using dh.rep_put_new [of "dentry_hash_table s" m U ?k ?pl q ps d] c n p by (auto simp: dcache_def)
  have "hash_put_dentry d s = Inr (0, s\<lparr>dentry_hash_table := T, fs_pool := (fs_pool s)\<lparr>pages_free := ps\<rparr>\<rparr>)"
    using p T(1) by (simp add: hash_put_dentry_def dentry_hash_equal_eq Let_def)
  moreover have "0 \<notin> ran (m(?k \<mapsto> d))" using c n(2) by (intro ran_upd_nonnull) (auto simp: dcache_def)
  ultimately show ?thesis using T(2) unfolding dcache_def by (intro exI [of _ T]) simp
qed

lemma put_vinode:
  assumes c: "vcache s m U" and n: "m (vkey (vi_sb (vinodes s v)) (vi_inum (vinodes s v))) = None" "v \<noteq> 0" "0 \<le> vi_inum (vinodes s v)"
    and p: "pages_free (fs_pool s) = k # q # ps" "k \<noteq> 0" "q \<noteq> 0" "q \<notin> U"
  shows "\<exists>T. hash_put_vinode v s = Inr (0, s\<lparr>vinode_hash_table := T, fs_pool := (fs_pool s)\<lparr>pages_free := ps\<rparr>\<rparr>) \<and>
    vcache (s\<lparr>vinode_hash_table := T\<rparr>) (m(vkey (vi_sb (vinodes s v)) (vi_inum (vinodes s v)) \<mapsto> v)) (insert q U)"
proof -
  let ?k = "vkey (vi_sb (vinodes s v)) (vi_inum (vinodes s v))" and ?pl = "(fs_pool s)\<lparr>pages_free := q # ps\<rparr>"
  obtain T where T: "default_put (=) vinode_hash_func ?k v (vinode_hash_table s, ?pl) = Inr (0, T, ?pl\<lparr>pages_free := ps\<rparr>)"
    "ht_rep vinode_hash_func T (m(?k \<mapsto> v)) (insert q U)"
    using vh.rep_put_new [of "vinode_hash_table s" m U ?k ?pl q ps v] c n p by (auto simp: vcache_def)
  have "hash_put_vinode v s = Inr (0, s\<lparr>vinode_hash_table := T, fs_pool := (fs_pool s)\<lparr>pages_free := ps\<rparr>\<rparr>)"
    using p n(3) T(1) by (simp add: hash_put_vinode_def vinode_hash_equal_eq Let_def)
  moreover have "0 \<notin> ran (m(?k \<mapsto> v))" using c n(2) by (intro ran_upd_nonnull) (auto simp: vcache_def)
  ultimately show ?thesis using T(2) unfolding vcache_def by (intro exI [of _ T]) simp
qed

section \<open>Cached paths\<close>

text \<open>Resolution of a list of components in the map of cached entries.\<close>

primrec resolve :: "(dentry_key \<rightharpoonup> addr) \<Rightarrow> (addr \<Rightarrow> dentry) \<Rightarrow> cname list \<Rightarrow> addr \<Rightarrow> addr option" where
  "resolve m D [] this = Some this"
| "resolve m D (t # ts) this =
     (if t = [46] then resolve m D ts this
      else if t = [46, 46] then (if d_parent (D this) = 0 then None else resolve m D ts (d_parent (D this)))
      else Option.bind (m (dkey this t)) (resolve m D ts))"

lemma lookup_loop_cached:
  assumes "dcache s m U" "resolve m (dentries s) ts this = Some d" "this \<noteq> 0"
  shows "\<exists>q. lookup_loop H ts this parent s = Inr ((d, q, None), s) \<and> d \<noteq> 0"
  using assms(2,3)
proof (induction ts arbitrary: this parent)
  case (Cons t ts)
  show ?case
  proof (cases "t = [46] \<or> t = [46, 46]")
    case True
    then show ?thesis using Cons by (auto split: if_splits)
  next
    case False
    then obtain e where e: "m (dkey this t) = Some e" "resolve m (dentries s) ts e = Some d"
      using Cons.prems(1) by (auto simp: Option.bind_eq_Some_conv)
    then have "e \<noteq> 0" using assms(1) by (auto simp: dcache_def ran_def)
    then show ?thesis using Cons.IH [OF e(2)] False e(1) get_dentry [OF assms(1), of this t] by simp
  qed
qed simp

lemma lookup_cached:
  assumes "dcache s m U" "length path < 30"
    "resolve m (dentries s) (tokens is_slash path) (if path \<noteq> [] \<and> hd path = 47 then vfs_root_dentry s else parent) = Some d"
    "(if path \<noteq> [] \<and> hd path = 47 then vfs_root_dentry s else parent) \<noteq> 0"
  shows "\<exists>q. lookup_final_dentry H path parent s = Inr ((d, q, None), s) \<and> d \<noteq> 0"
  using lookup_loop_cached [OF assms(1,3,4)] assms(2) by (simp add: lookup_final_dentry_def copy_name_def)

section \<open>Components on the RAM disk\<close>

definition new_dentry :: "cname \<Rightarrow> addr \<Rightarrow> dentry" where
  "new_dentry nm parent = \<lparr>d_name = nm, d_ref = 0, d_inode = 0, d_parent = parent\<rparr>"

lemma alloc_dentry_ok:
  assumes "pages_free (fs_pool s) = t # ps" "t \<noteq> 0" "length nm < 30"
  shows "alloc_vfs_dentry nm 0 parent s =
    Inr (t, s\<lparr>fs_pool := (fs_pool s)\<lparr>pages_free := ps\<rparr>, dentries := (dentries s)(t := new_dentry nm parent)\<rparr>)"
  using assms by (simp add: alloc_vfs_dentry_def copy_name_def new_dentry_def)

lemma cache_frame [simp]:
  "dcache (s\<lparr>fs_pool := P\<rparr>) = dcache s" "dcache (s\<lparr>dentries := D\<rparr>) = dcache s" "dcache (s\<lparr>vinodes := V\<rparr>) = dcache s"
  "dcache (s\<lparr>dinodes := I\<rparr>) = dcache s" "dcache (set_iobuffer rd b s) = dcache s" "dcache (s\<lparr>vinode_hash_table := W\<rparr>) = dcache s"
  "vcache (s\<lparr>fs_pool := P\<rparr>) = vcache s" "vcache (s\<lparr>dentries := D\<rparr>) = vcache s" "vcache (s\<lparr>vinodes := V\<rparr>) = vcache s"
  "vcache (s\<lparr>dinodes := I\<rparr>) = vcache s" "vcache (set_iobuffer rd b s) = vcache s" "vcache (s\<lparr>dentry_hash_table := T\<rparr>) = vcache s"
  by (simp_all add: dcache_def vcache_def set_iobuffer_def fun_eq_iff)

text \<open>A directory of the RAM disk behind the entry \<open>par\<close>, with both caches.\<close>

definition ram_dir :: "'x hfs \<Rightarrow> addr \<Rightarrow> addr \<Rightarrow> addr \<Rightarrow> addr \<Rightarrow> bool" where
  "ram_dir s sb rd par d \<longleftrightarrow> par \<noteq> 0 \<and> d_inode (dentries s par) = d \<and> vi_ops (vinodes s d) = Rfs_i_ops \<and> dir_ok s sb rd d \<and>
     (\<forall>e \<in> set (dir_list s rd d). inum_ok (snd e))"

lemma ram_dir_lookup:
  assumes d: "ram_dir s sb rd par d" and nm: "length nm < 30" "0 \<notin> set nm"
    and pg: "pages_free (fs_pool s) = t # p # q # ps" "t \<noteq> par" "page_in (fs_pool s) t" "page_in (fs_pool s) p" "page_in (fs_pool s) q"
  defines "u \<equiv> s\<lparr>fs_pool := (fs_pool s)\<lparr>pages_free := p # q # ps\<rparr>, dentries := (dentries s)(t := new_dentry nm par)\<rparr>"
  shows "alloc_vfs_dentry nm 0 par s = Inr (t, u)" "d_inode (dentries u par) = d"
    "case map_of (dir_list s rd d) nm of
      None \<Rightarrow> \<exists>io. viop_lookup H d t u = Inr (0, set_iobuffer rd io u)
    | Some n \<Rightarrow> \<exists>io V. viop_lookup H d t u = Inr (p, set_iobuffer rd io
        (u\<lparr>fs_pool := (fs_pool s)\<lparr>pages_free := q # ps\<rparr>, dinodes := (dinodes s)(q := dinode_on (disk s rd) n),
           vinodes := (vinodes s)(p := V)\<rparr>)) \<and>
        dinode_of V = dinode_on (disk s rd) n \<and> vi_inum V = n \<and> vi_sb V = sb \<and> vi_ref V = 0 \<and> vi_ops V = Rfs_i_ops"
proof -
  have t0: "t \<noteq> 0" using pg(3) by (simp add: page_in_def)
  show "alloc_vfs_dentry nm 0 par s = Inr (t, u)" unfolding u_def by (rule alloc_dentry_ok [OF pg(1) t0 nm(1)])
  show "d_inode (dentries u par) = d" using d pg(2) by (simp add: u_def ram_dir_def)
  have ok: "dir_ok s sb rd d" "vi_ops (vinodes u d) = Rfs_i_ops" using d by (simp_all add: ram_dir_def u_def)
  have "disk u rd b = disk s rd b \<and> fmap u sb (b - 12) \<noteq> 0" if "b \<in> set (file_blocks s d)" for b
    using ok(1) that by (simp add: u_def dir_ok_def file_ok_def)
  then have u: "dir_ok u sb rd d" "dir_list u rd d = dir_list s rd d"
    using dir_ok_frame [OF ok(1), of u] by (simp_all add: u_def)
  have "d_name (dentries u t) = nm" "pages_free (fs_pool u) = p # q # ps" "page_in (fs_pool u) p" "page_in (fs_pool u) q"
    "disk u rd = disk s rd" "(fs_pool u)\<lparr>pages_free := q # ps\<rparr> = (fs_pool s)\<lparr>pages_free := q # ps\<rparr>" "dinodes u = dinodes s" "vinodes u = vinodes s"
    using pg(4,5) by (simp_all add: u_def new_dentry_def)
  note U = this
  have "\<forall>e \<in> set (dir_list u rd d). inum_ok (snd e)" using d by (simp add: u(2) ram_dir_def)
  moreover have v: "viop_lookup H d t u = rfs_lookup d t u" using ok(2) by (simp add: viop_lookup_def)
  ultimately have all: "\<forall>e \<in> set (dir_list u rd d). inum_ok (snd e)" by blast
  from rfs_lookup_ok [OF u(1) _ U(2-4) all, of t, unfolded U(1,5-8) u(2)] nm(2)
  show "case map_of (dir_list s rd d) nm of
      None \<Rightarrow> \<exists>io. viop_lookup H d t u = Inr (0, set_iobuffer rd io u)
    | Some n \<Rightarrow> \<exists>io V. viop_lookup H d t u = Inr (p, set_iobuffer rd io
        (u\<lparr>fs_pool := (fs_pool s)\<lparr>pages_free := q # ps\<rparr>, dinodes := (dinodes s)(q := dinode_on (disk s rd) n),
           vinodes := (vinodes s)(p := V)\<rparr>)) \<and>
        dinode_of V = dinode_on (disk s rd) n \<and> vi_inum V = n \<and> vi_sb V = sb \<and> vi_ref V = 0 \<and> vi_ops V = Rfs_i_ops"
    unfolding v by simp
qed

text \<open>The cache entry for a component that has just been found: with a new inode, and with one that is cached.\<close>

lemma lookup_miss_none:
  assumes d: "ram_dir s sb rd par d" and nm: "length nm < 30" "0 \<notin> set nm" "map_of (dir_list s rd d) nm = None"
    and pg: "pages_free (fs_pool s) = t # p # q # ps" "t \<noteq> par" "page_in (fs_pool s) t" "page_in (fs_pool s) p" "page_in (fs_pool s) q"
  shows "\<exists>io. lookup_miss H nm par s = Inr (0, set_iobuffer rd io (s\<lparr>dentries := (dentries s)(t := new_dentry nm par)\<rparr>))"
proof -
  define u where "u = s\<lparr>fs_pool := (fs_pool s)\<lparr>pages_free := p # q # ps\<rparr>, dentries := (dentries s)(t := new_dentry nm par)\<rparr>"
  note L = ram_dir_lookup [OF d nm(1,2) pg, folded u_def]
  obtain io where io: "viop_lookup H d t u = Inr (0, set_iobuffer rd io u)" using L(3) [of H] nm(3) by auto
  have "page_in (fs_pool u) t" using pg(3) by (simp add: u_def)
  moreover have "par \<noteq> 0" using d by (simp add: ram_dir_def)
  ultimately have "lookup_miss H nm par s = Inr (0, (set_iobuffer rd io u)\<lparr>fs_pool := (fs_pool u)\<lparr>pages_free := t # p # q # ps\<rparr>\<rparr>)"
    using L(1,2) io by (simp add: lookup_miss_def) (simp add: u_def)
  moreover have "(set_iobuffer rd io u)\<lparr>fs_pool := (fs_pool u)\<lparr>pages_free := t # p # q # ps\<rparr>\<rparr> =
      set_iobuffer rd io (s\<lparr>dentries := (dentries s)(t := new_dentry nm par)\<rparr>)"
    using pg(1) by (simp add: u_def set_iobuffer_def flip: pg(1))
  ultimately show ?thesis by auto
qed

lemma lookup_miss_new:
  assumes d: "ram_dir s sb rd par d" and nm: "length nm < 30" "0 \<notin> set nm" "map_of (dir_list s rd d) nm = Some n"
    and pg: "pages_free (fs_pool s) = t # p # q # r1 # r2 # r3 # ps" "t \<noteq> par" "\<forall>x \<in> {t, p, q, r1, r2, r3}. page_in (fs_pool s) x"
      "r1 \<notin> UV" "r3 \<notin> UD"
    and c: "dcache s dm UD" "dm (dkey par nm) = None" "vcache s vm UV" "vm (vkey sb n) = None"
  shows "\<exists>s'. lookup_miss H nm par s = Inr (t, s') \<and> dentries s' = (dentries s)(t := (new_dentry nm par)\<lparr>d_inode := p\<rparr>) \<and>
    (\<forall>v. v \<noteq> p \<longrightarrow> vinodes s' v = vinodes s v) \<and> vi_inum (vinodes s' p) = n \<and> vi_sb (vinodes s' p) = sb \<and>
    vi_ref (vinodes s' p) = 1 \<and> vi_ops (vinodes s' p) = Rfs_i_ops \<and> dinode_of (vinodes s' p) = dinode_on (disk s rd) n \<and>
    dcache s' (dm(dkey par nm \<mapsto> t)) (insert r3 UD) \<and> vcache s' (vm(vkey sb n \<mapsto> p)) (insert r1 UV) \<and>
    disk s' rd = disk s rd \<and> fs_pool s' = (fs_pool s)\<lparr>pages_free := ps\<rparr>"
proof -
  define u where "u = s\<lparr>fs_pool := (fs_pool s)\<lparr>pages_free := p # q # r1 # r2 # r3 # ps\<rparr>, dentries := (dentries s)(t := new_dentry nm par)\<rparr>"
  have pin: "page_in (fs_pool s) t" "page_in (fs_pool s) p" "page_in (fs_pool s) q" "t \<noteq> 0" "p \<noteq> 0" "q \<noteq> 0" "r1 \<noteq> 0" "r2 \<noteq> 0" "r3 \<noteq> 0"
    using pg(3) by (auto simp: page_in_def)
  note L = ram_dir_lookup [OF d nm(1,2) pg(1,2) pin(1-3), folded u_def]
  obtain io V where L3: "viop_lookup H d t u = Inr (p, set_iobuffer rd io
        (u\<lparr>fs_pool := (fs_pool s)\<lparr>pages_free := q # r1 # r2 # r3 # ps\<rparr>, dinodes := (dinodes s)(q := dinode_on (disk s rd) n),
           vinodes := (vinodes s)(p := V)\<rparr>))" "dinode_of V = dinode_on (disk s rd) n" "vi_inum V = n" "vi_sb V = sb" "vi_ref V = 0"
     "vi_ops V = Rfs_i_ops" using L(3) [of H] nm(3) by auto
  have n: "inum_ok n" using d map_of_SomeD [OF nm(3)] by (force simp: ram_dir_def)
  define w where "w = set_iobuffer rd io (u\<lparr>fs_pool := (fs_pool s)\<lparr>pages_free := q # r1 # r2 # r3 # ps\<rparr>,
     dinodes := (dinodes s)(q := dinode_on (disk s rd) n), vinodes := (vinodes s)(p := V)\<rparr>)"
  have W: "vinodes w = (vinodes s)(p := V)" "dentries w = (dentries s)(t := new_dentry nm par)" "disk w rd = disk s rd"
    "fs_pool w = (fs_pool s)\<lparr>pages_free := q # r1 # r2 # r3 # ps\<rparr>" "dcache w = dcache s" "vcache w = vcache s"
    by (simp_all add: w_def u_def)
  define x where "x = upd_vinode p (\<lambda>v. v\<lparr>vi_ref := vi_ref v + 1\<rparr>) (upd_dentry t (\<lambda>d. d\<lparr>d_inode := p\<rparr>) w)"
  have X: "vinodes x = (vinodes s)(p := V\<lparr>vi_ref := 1\<rparr>)" "dentries x = (dentries s)(t := (new_dentry nm par)\<lparr>d_inode := p\<rparr>)"
    "disk x rd = disk s rd" "fs_pool x = (fs_pool s)\<lparr>pages_free := q # r1 # r2 # r3 # ps\<rparr>" "dcache x = dcache s" "vcache x = vcache s"
    using L3(5) by (simp_all add: x_def upd_vinode_def upd_dentry_def W)
  obtain T1 where T1: "hash_put_vinode p x = Inr (0, x\<lparr>vinode_hash_table := T1, fs_pool := (fs_pool x)\<lparr>pages_free := r2 # r3 # ps\<rparr>\<rparr>)"
    "vcache (x\<lparr>vinode_hash_table := T1\<rparr>) (vm(vkey sb n \<mapsto> p)) (insert r1 UV)"
    using put_vinode [of x vm UV p q r1 "r2 # r3 # ps"] c(3,4) L3(3,4) pin pg(4) n by (auto simp: X inum_ok_def)
  define y where "y = x\<lparr>vinode_hash_table := T1, fs_pool := (fs_pool x)\<lparr>pages_free := r2 # r3 # ps\<rparr>\<rparr>"
  have Y: "vinodes y = vinodes x" "dentries y = dentries x" "disk y rd = disk s rd" "pages_free (fs_pool y) = r2 # r3 # ps" "dcache y = dcache s"
    "(fs_pool y)\<lparr>pages_free := ps\<rparr> = (fs_pool s)\<lparr>pages_free := ps\<rparr>" "vcache y = vcache (x\<lparr>vinode_hash_table := T1\<rparr>)"
    by (simp_all add: y_def X disk_def [symmetric]) (simp add: disk_def X(3) [unfolded disk_def])
  have yt: "d_parent (dentries y t) = par" "d_name (dentries y t) = nm" by (simp_all add: Y X new_dentry_def)
  obtain T2 where T2: "hash_put_dentry t y = Inr (0, y\<lparr>dentry_hash_table := T2, fs_pool := (fs_pool y)\<lparr>pages_free := ps\<rparr>\<rparr>)"
    "dcache (y\<lparr>dentry_hash_table := T2\<rparr>) (dm(dkey par nm \<mapsto> t)) (insert r3 UD)"
    using put_dentry [of y dm UD t r2 r3 ps] c(1,2) pin pg(5) Y(4,5) unfolding yt by auto
  let ?s = "y\<lparr>dentry_hash_table := T2, fs_pool := (fs_pool y)\<lparr>pages_free := ps\<rparr>\<rparr>"
  have g: "hash_get_vinode (vi_sb (vinodes w p)) (vi_inum (vinodes w p)) w = Inr 0"
    using get_vinode [of w vm UV sb n] c(3,4) L3(3,4) by (simp add: W)
  have "lookup_miss H nm par s = Inr (t, ?s)"
    using L(1,2) L3(1) d pin g T1(1) T2(1) by (simp add: lookup_miss_def ram_dir_def flip: w_def x_def y_def)
  moreover have "disk ?s rd = disk s rd" using Y(3) by (simp add: disk_def)
  ultimately show ?thesis using T1(2) T2(2) L3 X Y
    by (intro exI [of _ ?s]) (simp add: dinode_of_def)
qed

lemma lookup_miss_shared:
  assumes d: "ram_dir s sb rd par d" and nm: "length nm < 30" "0 \<notin> set nm" "map_of (dir_list s rd d) nm = Some n"
    and pg: "pages_free (fs_pool s) = t # p # q # r # ps" "t \<noteq> par" "\<forall>x \<in> {t, p, q, r}. page_in (fs_pool s) x" "q \<notin> UD"
    and c: "dcache s dm UD" "dm (dkey par nm) = None" "vcache s vm UV" "vm (vkey sb n) = Some v" "v \<noteq> p"
  shows "\<exists>s'. lookup_miss H nm par s = Inr (t, s') \<and> dentries s' = (dentries s)(t := (new_dentry nm par)\<lparr>d_inode := v\<rparr>) \<and>
    vinodes s' v = (vinodes s v)\<lparr>vi_ref := vi_ref (vinodes s v) + 1\<rparr> \<and> (\<forall>w. w \<noteq> v \<and> w \<noteq> p \<longrightarrow> vinodes s' w = vinodes s w) \<and>
    dcache s' (dm(dkey par nm \<mapsto> t)) (insert q UD) \<and> vcache s' vm UV \<and> disk s' rd = disk s rd \<and>
    fs_pool s' = (fs_pool s)\<lparr>pages_free := r # ps\<rparr>"
proof -
  define u where "u = s\<lparr>fs_pool := (fs_pool s)\<lparr>pages_free := p # q # r # ps\<rparr>, dentries := (dentries s)(t := new_dentry nm par)\<rparr>"
  have pin: "page_in (fs_pool s) t" "page_in (fs_pool s) p" "page_in (fs_pool s) q" "t \<noteq> 0" "p \<noteq> 0" "q \<noteq> 0" "r \<noteq> 0"
    using pg(3) by (auto simp: page_in_def)
  note L = ram_dir_lookup [OF d nm(1,2) pg(1,2) pin(1-3), folded u_def]
  obtain io V where L3: "viop_lookup H d t u = Inr (p, set_iobuffer rd io
        (u\<lparr>fs_pool := (fs_pool s)\<lparr>pages_free := q # r # ps\<rparr>, dinodes := (dinodes s)(q := dinode_on (disk s rd) n),
           vinodes := (vinodes s)(p := V)\<rparr>))" "vi_inum V = n" "vi_sb V = sb" using L(3) [of H] nm(3) by auto
  have n: "inum_ok n" using d map_of_SomeD [OF nm(3)] by (force simp: ram_dir_def)
  define w where "w = set_iobuffer rd io (u\<lparr>fs_pool := (fs_pool s)\<lparr>pages_free := q # r # ps\<rparr>,
     dinodes := (dinodes s)(q := dinode_on (disk s rd) n), vinodes := (vinodes s)(p := V)\<rparr>)"
  have W: "vinodes w = (vinodes s)(p := V)" "dentries w = (dentries s)(t := new_dentry nm par)" "disk w rd = disk s rd"
    "fs_pool w = (fs_pool s)\<lparr>pages_free := q # r # ps\<rparr>" "dcache w = dcache s" "vcache w = vcache s"
    by (simp_all add: w_def u_def)
  define x where "x = upd_vinode v (\<lambda>v. v\<lparr>vi_ref := vi_ref v + 1\<rparr>) (upd_dentry t (\<lambda>d. d\<lparr>d_inode := v\<rparr>) w)"
  define y where "y = x\<lparr>fs_pool := (fs_pool x)\<lparr>pages_free := p # q # r # ps\<rparr>\<rparr>"
  have Y: "vinodes y = (vinodes s)(p := V, v := (vinodes s v)\<lparr>vi_ref := vi_ref (vinodes s v) + 1\<rparr>)"
    "dentries y = (dentries s)(t := (new_dentry nm par)\<lparr>d_inode := v\<rparr>)"
    "disk y rd = disk s rd" "fs_pool y = (fs_pool s)\<lparr>pages_free := p # q # r # ps\<rparr>" "dcache y = dcache s" "vcache y = vcache s"
    using c(5) by (simp_all add: y_def x_def upd_vinode_def upd_dentry_def W)
  have drop: "drop_page p x = Inr y" using pin(2) by (simp add: y_def x_def upd_vinode_def upd_dentry_def W)
  have yt: "d_parent (dentries y t) = par" "d_name (dentries y t) = nm" by (simp_all add: Y new_dentry_def)
  obtain T where T: "hash_put_dentry t y = Inr (0, y\<lparr>dentry_hash_table := T, fs_pool := (fs_pool y)\<lparr>pages_free := r # ps\<rparr>\<rparr>)"
    "dcache (y\<lparr>dentry_hash_table := T\<rparr>) (dm(dkey par nm \<mapsto> t)) (insert q UD)"
    using put_dentry [of y dm UD t p q "r # ps"] c(1,2) pin pg(4) Y(4,5) unfolding yt by auto
  let ?s = "y\<lparr>dentry_hash_table := T, fs_pool := (fs_pool y)\<lparr>pages_free := r # ps\<rparr>\<rparr>"
  have g: "hash_get_vinode (vi_sb (vinodes w p)) (vi_inum (vinodes w p)) w = Inr v"
    using get_vinode [of w vm UV sb n] c(3,4) L3(2,3) n by (simp add: W inum_ok_def)
  have v0: "v \<noteq> 0" using c(3,4) by (auto simp: vcache_def ran_def)
  have "lookup_miss H nm par s = Inr (t, ?s)"
    using L(1,2) L3(1) d pin g v0 drop T(1) by (simp add: lookup_miss_def ram_dir_def flip: w_def x_def)
  moreover have "disk ?s rd = disk s rd" using Y(3) by (simp add: disk_def)
  ultimately show ?thesis using T(2) c(3,5) Y
    by (intro exI [of _ ?s]) simp
qed

section \<open>Properties\<close>

text \<open>A state of the examples of the RAM file system, seen by a kernel that also has the host front end.\<close>

definition hosted :: "'k \<Rightarrow> 'h fs \<Rightarrow> 'k fs" where
  "hosted h s = \<lparr>fs_pool = fs_pool s, vinodes = vinodes s, dentries = dentries s, sbs = sbs s, devs = devs s, fs_types = fs_types s,
     dinodes = dinodes s, freemaps = freemaps s, dir_caches = dir_caches s, raw_pages = raw_pages s, rdevs = rdevs s,
     vfiles = vfiles s, rfs_device_list = rfs_device_list s, fs_list = fs_list s, vfs_dev_list = vfs_dev_list s,
     vfs_sb_list = vfs_sb_list s, vfs_root_dentry = vfs_root_dentry s, dentry_hash_table = dentry_hash_table s,
     vinode_hash_table = vinode_hash_table s, fs_host = h\<rparr>"

lemma hosted_sel [simp]:
  "fs_pool (hosted h s) = fs_pool s" "vinodes (hosted h s) = vinodes s" "dentries (hosted h s) = dentries s"
  "dentry_hash_table (hosted h s) = dentry_hash_table s" "vinode_hash_table (hosted h s) = vinode_hash_table s"
  "disk (hosted h s) rd = disk s rd" "fmap (hosted h s) sb = fmap s sb" "rdev_of sb (hosted h s) = rdev_of sb s"
  "sbs (hosted h s) = sbs s" "vfs_root_dentry (hosted h s) = vfs_root_dentry s"
  by (simp_all add: hosted_def disk_def fmap_def rdev_of_def)

lemma hosted_dir: "dir_ok (hosted h s) sb rd d = dir_ok s sb rd d" "dir_list (hosted h s) rd d = dir_list s rd d"
  by (simp_all add: dir_ok_def file_ok_def file_blocks_def dir_list_def dir_count_def dir_entry_def ent_blk_def)

lemma pool_dir: "dir_ok (s\<lparr>fs_pool := P\<rparr>) sb rd d = dir_ok s sb rd d" "dir_list (s\<lparr>fs_pool := P\<rparr>) rd d = dir_list s rd d"
  by (simp_all add: dir_ok_def file_ok_def file_blocks_def dir_list_def dir_count_def dir_entry_def ent_blk_def rdev_of_def fmap_def)

text \<open>
  C28. A component that is not in the directory entry cache is looked up in the directory on the RAM disk. When
  the directory has no such name, null is returned and both caches, the inodes, the disk and the free pages are as
  before. Otherwise a new entry is returned and cached under its parent and name. Its inode is the cached one when
  the inode number is cached already, with its reference count increased; else it is a new inode
  filled from the disk, with reference count 1, which is then cached.
\<close>

theorem lookup_uncached_correct:
  assumes d: "ram_dir s sb rd par d" and nm: "length nm < 30" "0 \<notin> set nm"
    and pg: "pages_free (fs_pool s) = t # p # q # r1 # r2 # r3 # ps" "t \<noteq> par" "\<forall>x \<in> {t, p, q, r1, r2, r3}. page_in (fs_pool s) x"
      "q \<notin> UD" "r3 \<notin> UD" "r1 \<notin> UV" "p \<notin> ran vm"
    and c: "dcache s dm UD" "dm (dkey par nm) = None" "vcache s vm UV"
  shows "case map_of (dir_list s rd d) nm of
      None \<Rightarrow> \<exists>s'. lookup_miss H nm par s = Inr (0, s') \<and> dcache s' dm UD \<and> vcache s' vm UV \<and> vinodes s' = vinodes s \<and>
        disk s' rd = disk s rd \<and> fs_pool s' = fs_pool s
    | Some n \<Rightarrow> \<exists>s' v UD' UV'. lookup_miss H nm par s = Inr (t, s') \<and>
        dentries s' t = \<lparr>d_name = nm, d_ref = 0, d_inode = v, d_parent = par\<rparr> \<and> disk s' rd = disk s rd \<and>
        dcache s' (dm(dkey par nm \<mapsto> t)) UD' \<and> vcache s' (vm(vkey sb n \<mapsto> v)) UV' \<and>
        (\<forall>w. w \<noteq> v \<and> w \<noteq> p \<longrightarrow> vinodes s' w = vinodes s w) \<and>
        (case vm (vkey sb n) of
           Some w \<Rightarrow> v = w \<and> vinodes s' v = (vinodes s v)\<lparr>vi_ref := vi_ref (vinodes s v) + 1\<rparr>
         | None \<Rightarrow> v = p \<and> vi_ref (vinodes s' v) = 1 \<and> vi_inum (vinodes s' v) = n \<and> vi_sb (vinodes s' v) = sb \<and>
             dinode_of (vinodes s' v) = dinode_on (disk s rd) n)"
proof (cases "map_of (dir_list s rd d) nm")
  case None
  then show ?thesis using lookup_miss_none [OF d nm None pg(1,2), of H] pg(3) c by auto
next
  case n: (Some n)
  show ?thesis
  proof (cases "vm (vkey sb n)")
    case None
    from lookup_miss_new [OF d nm n pg(1-3,6,5) c None, of H]
    obtain s' where "lookup_miss H nm par s = Inr (t, s')" "dentries s' = (dentries s)(t := (new_dentry nm par)\<lparr>d_inode := p\<rparr>)"
     "\<forall>v. v \<noteq> p \<longrightarrow> vinodes s' v = vinodes s v" "vi_inum (vinodes s' p) = n" "vi_sb (vinodes s' p) = sb" "vi_ref (vinodes s' p) = 1"
     "dinode_of (vinodes s' p) = dinode_on (disk s rd) n" "dcache s' (dm(dkey par nm \<mapsto> t)) (insert r3 UD)"
     "vcache s' (vm(vkey sb n \<mapsto> p)) (insert r1 UV)" "disk s' rd = disk s rd" by blast
    then show ?thesis unfolding n option.case None
      by (intro exI [of _ s'] exI [of _ p] exI [of _ "insert r3 UD"] exI [of _ "insert r1 UV"]) (simp add: new_dentry_def)
  next
    case (Some w)
    then have "w \<noteq> p" using pg(7) by (auto simp: ran_def)
    from lookup_miss_shared [OF d nm n pg(1,2) _ pg(4) c Some this, of H] pg(3)
    obtain s' where "lookup_miss H nm par s = Inr (t, s')" "dentries s' = (dentries s)(t := (new_dentry nm par)\<lparr>d_inode := w\<rparr>)"
      "vinodes s' w = (vinodes s w)\<lparr>vi_ref := vi_ref (vinodes s w) + 1\<rparr>" "\<forall>v. v \<noteq> w \<and> v \<noteq> p \<longrightarrow> vinodes s' v = vinodes s v"
      "dcache s' (dm(dkey par nm \<mapsto> t)) (insert q UD)" "vcache s' vm UV" "disk s' rd = disk s rd" by auto
    moreover have "vm(vkey sb n \<mapsto> w) = vm" using Some by auto
    ultimately show ?thesis unfolding n option.case Some
      by (intro exI [of _ s'] exI [of _ w] exI [of _ "insert q UD"] exI [of _ UV]) (simp add: new_dentry_def)
  qed
qed

definition ex_lookup :: "unit hfs" where
  "ex_lookup = (hosted ex_spike (ex_dir [97]))\<lparr>
     fs_pool := \<lparr>pool_lo = 0x80000000, pool_hi = 0x88000000,
       pages_free = [0x80009000, 0x80008000, 0x80007000, 0x8000A000, 0x8000B000, 0x8000C000]\<rparr>\<rparr>"

lemma ex_lookup_ok: "ram_dir ex_lookup 0x80003000 0x80001000 0x80006000 0" "dir_list ex_lookup 0x80001000 d = [([97], 0)]"
  "dcache ex_lookup Map.empty {}" "vcache ex_lookup Map.empty {}"
proof -
  show l: "dir_list ex_lookup 0x80001000 d = [([97], 0)]" for d
    by (simp add: ex_lookup_def pool_dir hosted_dir ex_dir_ok)
  show "ram_dir ex_lookup 0x80003000 0x80001000 0x80006000 0"
    by (simp add: ram_dir_def l inum_ok_def) (simp add: ex_lookup_def pool_dir hosted_dir ex_dir_ok ex_dir_sel, simp add: ex_dir_vinode_def)
  show "dcache ex_lookup Map.empty {}"
    by (simp add: dcache_def ex_lookup_def ex_dir_def ex_fs_def ht_rep_def ht_chains_def, intro exI [of _ "\<lambda>_. []"], simp)
  show "vcache ex_lookup Map.empty {}"
    by (simp add: vcache_def ex_lookup_def ex_dir_def ex_fs_def ht_rep_def ht_chains_def, intro exI [of _ "\<lambda>_. []"], simp)
qed

theorem lookup_uncached_correct_witness:
  "\<exists>s'. lookup_miss ex_frontend [97] 0x80006000 ex_lookup = Inr (0x80009000, s') \<and>
     d_inode (dentries s' 0x80009000) = 0x80008000 \<and> vi_inum (vinodes s' 0x80008000) = 0"
proof -
  note ex_lookup_ok(1)
  moreover have "pages_free (fs_pool ex_lookup) = [0x80009000, 0x80008000, 0x80007000, 0x8000A000, 0x8000B000, 0x8000C000]"
    "\<forall>x \<in> {0x80009000, 0x80008000, 0x80007000, 0x8000A000, 0x8000B000, 0x8000C000}. page_in (fs_pool ex_lookup) x"
    by (simp_all add: ex_lookup_def page_in_def)
  ultimately show ?thesis
    using lookup_uncached_correct [of ex_lookup "0x80003000" "0x80001000" "0x80006000" 0 "[97]" "0x80009000" "0x80008000" "0x80007000"
      "0x8000A000" "0x8000B000" "0x8000C000" "[]" "{}" "{}" Map.empty Map.empty ex_frontend] ex_lookup_ok(2-4)
    by fastforce
qed

text \<open>
  C27. \<^verbatim>\<open>lookup_final_dentry\<close> refines resolution of the path in the map of cached entries: when the components
  of the path, read from the root for an absolute path and from the given directory otherwise, lead in the map to an
  entry, with \<^verbatim>\<open>.\<close> and \<^verbatim>\<open>..\<close> taken into account, that entry is returned and nothing in the state changes.
\<close>

theorem cached_path_refines:
  assumes "dcache s m U" "length path < 30"
    "resolve m (dentries s) (tokens is_slash path) (if path \<noteq> [] \<and> hd path = 47 then vfs_root_dentry s else parent) = Some d"
    "(if path \<noteq> [] \<and> hd path = 47 then vfs_root_dentry s else parent) \<noteq> 0"
  shows "\<exists>q. lookup_final_dentry H path parent s = Inr ((d, q, None), s) \<and> d \<noteq> 0"
  by (rule lookup_cached [OF assms])

lemma ex_cached: "\<exists>s. dcache s [dkey 0x80006000 [97] \<mapsto> 0x80009000] {0x8000C000} \<and>
  dentries s 0x80009000 = \<lparr>d_name = [97], d_ref = 0, d_inode = 0x80008000, d_parent = 0x80006000\<rparr> \<and>
  vi_ops (vinodes s 0x80008000) = Rfs_i_ops \<and> lookup_miss ex_frontend [97] 0x80006000 ex_lookup = Inr (0x80009000, s)"
proof -
  have "pages_free (fs_pool ex_lookup) = [0x80009000, 0x80008000, 0x80007000, 0x8000A000, 0x8000B000, 0x8000C000]"
    "\<forall>x \<in> {0x80009000, 0x80008000, 0x80007000, 0x8000A000, 0x8000B000, 0x8000C000}. page_in (fs_pool ex_lookup) x"
    by (simp_all add: ex_lookup_def page_in_def)
  from lookup_miss_new [OF ex_lookup_ok(1) _ _ _ this(1) _ this(2) _ _ ex_lookup_ok(3) _ ex_lookup_ok(4), of "[97]" 0 ex_frontend]
  show ?thesis by (force simp: ex_lookup_ok(2) new_dentry_def)
qed

theorem cached_path_refines_witness:
  "\<exists>s q. lookup_miss ex_frontend [97] 0x80006000 ex_lookup = Inr (0x80009000, s) \<and>
     lookup_final_dentry ex_frontend [97, 47, 46, 46, 47, 97] 0x80006000 s = Inr ((0x80009000, q, None), s)"
proof -
  obtain s where s: "dcache s [dkey 0x80006000 [97] \<mapsto> 0x80009000] {0x8000C000}"
    "d_parent (dentries s 0x80009000) = 0x80006000" "lookup_miss ex_frontend [97] 0x80006000 ex_lookup = Inr (0x80009000, s)"
    using ex_cached by auto
  have t: "tokens is_slash [97, 47, 46, 46, 47, 97] = [[97], [46, 46], [97]]" by code_simp
  from cached_path_refines [OF s(1), of "[97, 47, 46, 46, 47, 97]" "0x80006000" "0x80009000" ex_frontend] s
  show ?thesis by (simp add: t)
qed

lemma vfs_open_ok:
  assumes c: "dcache s m U" "length path < 30"
    "resolve m (dentries s) (tokens is_slash path) (if path \<noteq> [] \<and> hd path = 47 then vfs_root_dentry s else parent) = Some d"
    "(if path \<noteq> [] \<and> hd path = 47 then vfs_root_dentry s else parent) \<noteq> 0"
    and v: "vi_ops (vinodes s (d_inode (dentries s d))) = Rfs_i_ops"
    and fl: "flags AND 3 \<noteq> 3" and p: "pages_free (fs_pool s) = p # ps" "p \<noteq> 0"
  shows "vfs_open H path flags parent s =
    (if vi_type (vinodes s (d_inode (dentries s d))) \<noteq> FILE_I then Inr (0, s)
     else Inr (p, s\<lparr>fs_pool := (fs_pool s)\<lparr>pages_free := ps\<rparr>,
       dentries := (dentries s)(d := (dentries s d)\<lparr>d_ref := d_ref (dentries s d) + 1\<rparr>),
       vfiles := (vfiles s)(p := \<lparr>f_status = FD_OPENED, f_readable = (if flags AND 3 = O_WRONLY then 0 else 1),
         f_writable = (if flags AND 3 = O_RDONLY then 0 else 1), f_offset = 0, f_dentry = d\<rparr>)\<rparr>))"
proof -
  obtain q where q: "lookup_final_dentry H path parent s = Inr ((d, q, None), s)" "d \<noteq> 0"
    using lookup_cached [OF c] by blast
  have "flags AND 3 = flags mod 4" using take_bit_eq_mask [of 2 flags] by (simp add: take_bit_eq_mod mask_eq_exp_minus_1)
  moreover have "flags mod 4 \<in> {0, 1, 2, 3}" by auto
  ultimately have m: "open_mode flags = Inr (if flags AND 3 = O_WRONLY then 0 else 1, if flags AND 3 = O_RDONLY then 0 else 1)"
    using fl by (auto simp: open_mode_def)
  show ?thesis
    using q m v p by (auto simp: vfs_open_def alloc_vfs_file_def viop_hook_open_def Let_def)
qed

text \<open>
  Opening a regular file of the RAM disk whose path is cached gives a file structure in a new page that points
  to the entry, at offset 0 and readable and writable as the flags ask; the entry gains a reference. No device
  is touched. When the path leads to a directory, null is returned and nothing changes.
\<close>

theorem vfs_open_cached:
  assumes c: "dcache s m U" "length path < 30"
    "resolve m (dentries s) (tokens is_slash path) (if path \<noteq> [] \<and> hd path = 47 then vfs_root_dentry s else parent) = Some d"
    "(if path \<noteq> [] \<and> hd path = 47 then vfs_root_dentry s else parent) \<noteq> 0"
    and v: "vi_ops (vinodes s (d_inode (dentries s d))) = Rfs_i_ops"
    and fl: "flags AND 3 \<noteq> 3" and p: "pages_free (fs_pool s) = p # ps" "p \<noteq> 0"
  shows "vfs_open H path flags parent s =
    (if vi_type (vinodes s (d_inode (dentries s d))) \<noteq> FILE_I then Inr (0, s)
     else Inr (p, s\<lparr>fs_pool := (fs_pool s)\<lparr>pages_free := ps\<rparr>,
       dentries := (dentries s)(d := (dentries s d)\<lparr>d_ref := d_ref (dentries s d) + 1\<rparr>),
       vfiles := (vfiles s)(p := \<lparr>f_status = FD_OPENED, f_readable = (if flags AND 3 = O_WRONLY then 0 else 1),
         f_writable = (if flags AND 3 = O_RDONLY then 0 else 1), f_offset = 0, f_dentry = d\<rparr>)\<rparr>))"
  by (rule vfs_open_ok [OF assms])

theorem vfs_open_cached_witness:
  "\<exists>s'. vfs_open ex_frontend [46] 2 0x80006000 (hosted ex_spike ex_fs) = Inr (0x80009000, s') \<and>
     f_dentry (vfiles s' 0x80009000) = 0x80006000 \<and> f_writable (vfiles s' 0x80009000) = 1"
proof -
  have "dcache (hosted ex_spike ex_fs) Map.empty {}"
    by (simp add: dcache_def ex_fs_def ht_rep_def ht_chains_def, intro exI [of _ "\<lambda>_. []"], simp)
  moreover have "tokens is_slash [46] = [[46]]" by code_simp
  moreover have "vinodes (hosted ex_spike ex_fs) v = ex_vinode"
    "pages_free (fs_pool (hosted ex_spike ex_fs)) = [0x80009000, 0x80008000, 0x80007000]" for v
    by (simp_all add: ex_fs_def)
  ultimately show ?thesis
    using vfs_open_cached [of "hosted ex_spike ex_fs" Map.empty "{}" "[46]" "0x80006000" "0x80006000" 2 "0x80009000" "[0x80008000, 0x80007000]" ex_frontend]
    by (simp add: ex_vinode_def)
qed

end
