(* ===== verification/Proc_File.thy ===== *)
theory Proc_File
  imports Vfs
begin

text \<open>
  The open files of a process, \<^verbatim>\<open>kernel/proc_file.c\<close>. Every process has a page with its working directory, the
  array of 128 open files and a counter; an open file is a \<^verbatim>\<open>struct file\<close> of 24 bytes inside that page, at
  the address \<open>file_slot\<close>. \<open>cur_pfiles\<close> is the page of the process that runs on the hart.
\<close>

section \<open>State\<close>

abbreviation (input) MAX_FILES :: nat where "MAX_FILES \<equiv> 128"

record 'x proc_files =
  pf_fs :: "'x hfs"
  pf_cwd :: "addr \<Rightarrow> addr"
  pf_nfiles :: "addr \<Rightarrow> int"
  cur_pfiles :: addr

definition file_slot :: "addr \<Rightarrow> nat \<Rightarrow> addr" where
  "file_slot pfiles i = pfiles + 8 + 24 * of_nat i"

text \<open>A computation on the file system of the state.\<close>

definition on_fs :: "('x hfs \<Rightarrow> ('a \<times> 'x hfs) res) \<Rightarrow> 'x proc_files \<Rightarrow> ('a \<times> 'x proc_files) res" where
  "on_fs f p = bnd (f (pf_fs p)) (\<lambda>(r, s). Inr (r, p\<lparr>pf_fs := s\<rparr>))"

section \<open>Operations\<close>

text \<open>The names \<^verbatim>\<open>HOSTDEV\<close> and \<^verbatim>\<open>RAMDISK0\<close>.\<close>

definition HOSTDEV :: cname where "HOSTDEV = [72, 79, 83, 84, 68, 69, 86]"
definition RAMDISK0 :: cname where "RAMDISK0 = [82, 65, 77, 68, 73, 83, 75, 48]"

definition fs_init :: "int list \<Rightarrow> 'x hfs \<Rightarrow> 'x hfs res" where
  "fs_init junk s =
     (let (_, s) = vfs_init s
      in bnd (register_hostfs s) (\<lambda>(r, s).
         if r < 0 then Inl (Panic ''fs_init: cannot register hostfs.'')
         else bnd (init_host_device HOSTDEV s) (\<lambda>(_, s).
              bnd (vfs_mount HOSTDEV MOUNT_AS_ROOT s) (\<lambda>(_, s).
              bnd (register_rfs s) (\<lambda>(r, s).
              if r < 0 then Inl (Panic ''fs_init: cannot register rfs.'')
              else bnd (init_rfs_device RAMDISK0 s) (\<lambda>(ramdisk0, s).
                   bnd (rfs_format_dev junk ramdisk0 s) (\<lambda>(_, s).
                   bnd (vfs_mount RAMDISK0 MOUNT_DEFAULT s) (\<lambda>(_, s). Inr s))))))))"

definition init_proc_file_management :: "'x proc_files \<Rightarrow> (addr \<times> 'x proc_files) res" where
  "init_proc_file_management p =
     bnd (new_page (pf_fs p)) (\<lambda>(pfiles, s).
     Inr (pfiles, p\<lparr>pf_fs := fold (\<lambda>i. upd_vfile (file_slot pfiles i) (\<lambda>f. f\<lparr>f_status := FD_NONE\<rparr>)) [0..<MAX_FILES] s,
                    pf_cwd := (pf_cwd p)(pfiles := vfs_root_dentry s), pf_nfiles := (pf_nfiles p)(pfiles := 0)\<rparr>))"

definition reclaim_proc_file_management :: "addr \<Rightarrow> 'x proc_files \<Rightarrow> 'x proc_files res" where
  "reclaim_proc_file_management pfiles p = bnd (drop_page pfiles (pf_fs p)) (\<lambda>s. Inr (p\<lparr>pf_fs := s\<rparr>))"

text \<open>The loop stops at the descriptor, or leaves the pointer at the last entry.\<close>

definition get_opened_file :: "int \<Rightarrow> 'x proc_files \<Rightarrow> addr" where
  "get_opened_file fd p =
     file_slot (cur_pfiles p)
       (case find_slot (\<lambda>i. int i = fd) [0..<MAX_FILES] of Some i \<Rightarrow> i | None \<Rightarrow> MAX_FILES - 1)"

text \<open>The index of the first entry that is not in use.\<close>

definition free_fd :: "'x proc_files \<Rightarrow> nat option" where
  "free_fd p = find_slot (\<lambda>i. f_status (vfiles (pf_fs p) (file_slot (cur_pfiles p) i)) = FD_NONE) [0..<MAX_FILES]"

definition install_file :: "nat \<Rightarrow> addr \<Rightarrow> 'x proc_files \<Rightarrow> 'x proc_files" where
  "install_file i opened_file p =
     p\<lparr>pf_fs := upd_vfile (file_slot (cur_pfiles p) i) (\<lambda>_. vfiles (pf_fs p) opened_file) (pf_fs p),
       pf_nfiles := (pf_nfiles p)(cur_pfiles p := pf_nfiles p (cur_pfiles p) + 1)\<rparr>"

text \<open>When every entry is in use the last one is overwritten and 128 is returned.\<close>

definition do_open :: "'x frontend \<Rightarrow> cname \<Rightarrow> int \<Rightarrow> 'x proc_files \<Rightarrow> (int \<times> 'x proc_files) res" where
  "do_open H pathname flags p =
     bnd (on_fs (vfs_open H pathname flags (pf_cwd p (cur_pfiles p))) p) (\<lambda>(opened_file, p).
     if opened_file = 0 then Inr (- 1, p)
     else if pf_nfiles p (cur_pfiles p) \<ge> int MAX_FILES
     then Inl (Panic ''do_open: no file entry for current process!'')
     else (case free_fd p of
             Some fd \<Rightarrow> Inr (int fd, install_file fd opened_file p)
           | None \<Rightarrow> Inr (int MAX_FILES, install_file (MAX_FILES - 1) opened_file p)))"

text \<open>
  \<open>junk\<close> is what the local array of \<open>cnt + 1\<close> bytes holds at first. The result is the length and the string
  that is copied to the buffer of the caller.
\<close>

definition do_read :: "'x frontend \<Rightarrow> uint8 list \<Rightarrow> int \<Rightarrow> nat \<Rightarrow> 'x proc_files \<Rightarrow> ((int \<times> uint8 list) \<times> 'x proc_files) res" where
  "do_read H junk fd cnt p =
     (let pfile = get_opened_file fd p
      in if f_readable (vfiles (pf_fs p) pfile) = 0 then Inl (Panic ''do_read: no readable file!'')
         else bnd (on_fs (vfs_read H pfile (int cnt)) p) (\<lambda>((len, bs), p).
           if length bs > cnt + 1 then Inl (Undefined ''read overruns its buffer'')
           else (let buffer = (bs @ drop (length bs) junk)[cnt := 0]
                 in Inr ((len, takeWhile (\<lambda>c. c \<noteq> 0) buffer), p))))"

definition do_write :: "'x frontend \<Rightarrow> int \<Rightarrow> block \<Rightarrow> int \<Rightarrow> 'x proc_files \<Rightarrow> (int \<times> 'x proc_files) res" where
  "do_write H fd buf cnt p =
     (let pfile = get_opened_file fd p
      in if f_writable (vfiles (pf_fs p) pfile) = 0 then Inl (Panic ''do_write: cannot write file!'')
         else on_fs (vfs_write H pfile buf cnt) p)"

definition do_lseek :: "'x frontend \<Rightarrow> int \<Rightarrow> int \<Rightarrow> int \<Rightarrow> 'x proc_files \<Rightarrow> (int \<times> 'x proc_files) res" where
  "do_lseek H fd offset whence p = on_fs (vfs_lseek H (get_opened_file fd p) offset whence) p"

definition do_stat :: "int \<Rightarrow> 'x proc_files \<Rightarrow> int \<times> istat" where
  "do_stat fd p = vfs_stat (get_opened_file fd p) (pf_fs p)"

definition do_disk_stat :: "int \<Rightarrow> istat \<Rightarrow> 'x proc_files \<Rightarrow> ((int \<times> istat) \<times> 'x proc_files) res" where
  "do_disk_stat fd istat p = on_fs (vfs_disk_stat (get_opened_file fd p) istat) p"

definition do_close :: "'x frontend \<Rightarrow> int \<Rightarrow> 'x proc_files \<Rightarrow> (int \<times> 'x proc_files) res" where
  "do_close H fd p = on_fs (vfs_close H (get_opened_file fd p)) p"

definition do_opendir :: "'x frontend \<Rightarrow> cname \<Rightarrow> 'x proc_files \<Rightarrow> (int \<times> 'x proc_files) res" where
  "do_opendir H pathname p =
     bnd (on_fs (vfs_opendir H pathname (pf_cwd p (cur_pfiles p))) p) (\<lambda>(opened_file, p).
     if opened_file = 0 then Inr (- 1, p)
     else (case free_fd p of
             Some fd \<Rightarrow> Inr (int fd, install_file fd opened_file p)
           | None \<Rightarrow> Inl (Panic ''do_opendir: no file entry for current process!'')))"

definition do_readdir :: "int \<Rightarrow> cname \<times> int \<Rightarrow> 'x proc_files \<Rightarrow> ((int \<times> cname \<times> int) \<times> 'x proc_files) res" where
  "do_readdir fd dir p = on_fs (vfs_readdir (get_opened_file fd p) dir) p"

definition do_mkdir :: "'x frontend \<Rightarrow> cname \<Rightarrow> 'x proc_files \<Rightarrow> (int \<times> 'x proc_files) res" where
  "do_mkdir H pathname p = on_fs (vfs_mkdir H pathname (pf_cwd p (cur_pfiles p))) p"

definition do_closedir :: "int \<Rightarrow> 'x proc_files \<Rightarrow> (int \<times> 'x proc_files) res" where
  "do_closedir fd p = on_fs (vfs_closedir (get_opened_file fd p)) p"

definition do_link :: "'x frontend \<Rightarrow> cname \<Rightarrow> cname \<Rightarrow> 'x proc_files \<Rightarrow> (int \<times> 'x proc_files) res" where
  "do_link H oldpath newpath p = on_fs (vfs_link H oldpath newpath (pf_cwd p (cur_pfiles p))) p"

definition do_unlink :: "'x frontend \<Rightarrow> cname \<Rightarrow> 'x proc_files \<Rightarrow> (int \<times> 'x proc_files) res" where
  "do_unlink H path p = on_fs (vfs_unlink H path (pf_cwd p (cur_pfiles p))) p"

text \<open>
  The loop of \<^verbatim>\<open>do_read_cwd\<close> up the chain of parents; every turn puts the name of the parent in front of the
  name of the working directory, never in front of what the turn before has built.
\<close>

partial_function (option) cwd_loop :: "'h fs \<Rightarrow> cname \<Rightarrow> addr \<Rightarrow> cname \<Rightarrow> cname res option" where
  "cwd_loop s path parent path_copy =
     (if parent = 0 then Some (Inr path_copy)
      else (case copy_name MAX_PATH_LEN (d_name (dentries s parent) @ path) of
              Inl e \<Rightarrow> Some (Inl e)
            | Inr path_copy \<Rightarrow> cwd_loop s path (d_parent (dentries s parent)) path_copy))"

definition do_read_cwd :: "'x proc_files \<Rightarrow> (int \<times> cname) res" where
  "do_read_cwd p =
     (let s = pf_fs p; cwd = pf_cwd p (cur_pfiles p); path = d_name (dentries s cwd); parent = d_parent (dentries s cwd)
      in if parent = 0 then Inr (0, path)
         else bnd (of_loop (cwd_loop s path parent [])) (\<lambda>r. bnd r (\<lambda>path. Inr (0, path))))"

definition do_change_cwd :: "'x frontend \<Rightarrow> cname \<Rightarrow> 'x proc_files \<Rightarrow> (int \<times> 'x proc_files) res" where
  "do_change_cwd H path p =
     bnd (on_fs (lookup_final_dentry H path (pf_cwd p (cur_pfiles p))) p) (\<lambda>((file_dentry, _, _), p).
     if file_dentry = 0 then Inr (- 1, p)
     else if vi_type (vinodes (pf_fs p) (d_inode (dentries (pf_fs p) file_dentry))) \<noteq> DIR_I then Inr (- 1, p)
     else Inr (0, p\<lparr>pf_cwd := (pf_cwd p)(cur_pfiles p := file_dentry)\<rparr>))"

end
