(* ===== verification/File_Calls.thy ===== *)
theory File_Calls
  imports Proc_File Vfs_Paths
begin

text \<open>
  Properties of the file calls of a process, \<^verbatim>\<open>kernel/proc_file.c\<close>: what a descriptor number denotes, how
  the counter of open files moves, and the string that \<^verbatim>\<open>do_read_cwd\<close> returns.
\<close>

section \<open>Descriptors\<close>

lemma find_slot_upt: "find_slot (\<lambda>i. int i = fd) [0..<n] = (if 0 \<le> fd \<and> fd < int n then Some (nat fd) else None)"
proof (cases "0 \<le> fd \<and> fd < int n")
  case True
  show ?thesis
  proof (cases "find_slot (\<lambda>i. int i = fd) [0..<n]")
    case None
    then have "\<forall>i \<in> set [0..<n]. int i \<noteq> fd" by (simp add: find_slot_None)
    then show ?thesis using True by (auto dest: bspec [where x="nat fd"])
  next
    case (Some i)
    then have "i < n" "int i = fd" using find_slot_Some [OF Some] by auto
    then show ?thesis using Some by auto
  qed
next
  case False
  then have "\<forall>i \<in> set [0..<n]. int i \<noteq> fd" by auto
  then have "find_slot (\<lambda>i. int i = fd) [0..<n] = None" by (simp add: find_slot_None)
  then show ?thesis using False by auto
qed

lemma get_opened_file_eq: "get_opened_file fd p = file_slot (cur_pfiles p) (if 0 \<le> fd \<and> fd < 128 then nat fd else 127)"
  by (simp add: get_opened_file_def find_slot_upt)

text \<open>
  A descriptor from 0 to 127 denotes its own entry of the array of open files. Every other
  value, negative or too large, denotes entry 127: the test for an invalid descriptor never succeeds.
\<close>

theorem get_opened_file_correct:
  "get_opened_file fd p = file_slot (cur_pfiles p) (if 0 \<le> fd \<and> fd < 128 then nat fd else 127)"
  by (rule get_opened_file_eq)

lemma on_fs_frame: "on_fs f p = Inr (r, p') \<Longrightarrow> \<exists>s. p' = p\<lparr>pf_fs := s\<rparr> \<and> f (pf_fs p) = Inr (r, s)"
  by (cases "f (pf_fs p)") (auto simp: on_fs_def)

lemma do_open_counts:
  assumes "do_open H path fl p = Inr (fd, p')" "fd \<noteq> - 1"
  shows "pf_nfiles p (cur_pfiles p) < 128 \<and> cur_pfiles p' = cur_pfiles p \<and> pf_nfiles p' (cur_pfiles p) = pf_nfiles p (cur_pfiles p) + 1"
proof -
  obtain f p1 where "on_fs (vfs_open H path fl (pf_cwd p (cur_pfiles p))) p = Inr (f, p1)"
    using assms(1) by (cases "on_fs (vfs_open H path fl (pf_cwd p (cur_pfiles p))) p") (auto simp: do_open_def)
  then show ?thesis using assms on_fs_frame [of "vfs_open H path fl (pf_cwd p (cur_pfiles p))" p f p1]
    by (auto simp: do_open_def install_file_def split: if_splits option.splits)
qed

text \<open>
  C29. Closing a descriptor does not give back its place in the count of open files: a successful
  \<^verbatim>\<open>do_open\<close> followed by \<^verbatim>\<open>do_close\<close> leaves the count one higher. From a count of 128 on every \<^verbatim>\<open>do_open\<close>
  of a file that can be opened panics, whatever descriptors are free.
\<close>

theorem open_count_leaks:
  assumes "do_open H path fl p = Inr (fd, p1)" "fd \<noteq> - 1" "do_close H fd p1 = Inr (r, p2)"
  shows "pf_nfiles p2 (cur_pfiles p2) = pf_nfiles p (cur_pfiles p) + 1 \<and>
    (\<forall>path' fl' f s. pf_nfiles p2 (cur_pfiles p2) = 128 \<and>
       vfs_open H path' fl' (pf_cwd p2 (cur_pfiles p2)) (pf_fs p2) = Inr (f, s) \<and> f \<noteq> 0 \<longrightarrow>
       do_open H path' fl' p2 = Inl (Panic ''do_open: no file entry for current process!''))"
proof -
  obtain s where "p2 = p1\<lparr>pf_fs := s\<rparr>" using assms(3) on_fs_frame by (fastforce simp: do_close_def)
  then have "pf_nfiles p2 (cur_pfiles p2) = pf_nfiles p (cur_pfiles p) + 1"
    using do_open_counts [OF assms(1,2)] by simp
  moreover have "do_open H path' fl' p2 = Inl (Panic ''do_open: no file entry for current process!'')"
    if "pf_nfiles p2 (cur_pfiles p2) = 128" "vfs_open H path' fl' (pf_cwd p2 (cur_pfiles p2)) (pf_fs p2) = Inr (f, s')" "f \<noteq> 0"
    for path' fl' f s'
    using that by (simp add: do_open_def on_fs_def)
  ultimately show ?thesis by blast
qed

section \<open>The working directory\<close>

text \<open>The entries above a directory entry, up to the root.\<close>

primrec above :: "'h fs \<Rightarrow> addr \<Rightarrow> addr list \<Rightarrow> bool" where
  "above s d [] \<longleftrightarrow> d_parent (dentries s d) = 0"
| "above s d (e # es) \<longleftrightarrow> e \<noteq> 0 \<and> d_parent (dentries s d) = e \<and> above s e es"

lemma cwd_loop_returns:
  assumes "above s d es" "\<forall>e \<in> set es. length (d_name (dentries s e) @ nm) < 30"
  shows "cwd_loop s nm (d_parent (dentries s d)) acc =
    Some (Inr (if es = [] then acc else d_name (dentries s (List.last es)) @ nm))"
  using assms
proof (induction es arbitrary: d acc)
  case Nil
  then show ?case by (subst cwd_loop.simps) simp
next
  case (Cons e es)
  then show ?case by (subst cwd_loop.simps) (auto simp: copy_name_def)
qed

text \<open>
  C30. \<^verbatim>\<open>do_read_cwd\<close> returns for every working directory whose chain of parents ends at the root. Its
  answer has the name of the root followed by the name of the directory itself: with more than one
  directory between the two, the names of those are missing.
\<close>

theorem do_read_cwd_returns:
  assumes "above (pf_fs p) (pf_cwd p (cur_pfiles p)) es"
    "\<forall>e \<in> set es. length (d_name (dentries (pf_fs p) e) @ d_name (dentries (pf_fs p) (pf_cwd p (cur_pfiles p)))) < 30"
  shows "do_read_cwd p =
    Inr (0, (if es = [] then [] else d_name (dentries (pf_fs p) (List.last es))) @ d_name (dentries (pf_fs p) (pf_cwd p (cur_pfiles p))))"
proof (cases es)
  case Nil
  then show ?thesis using assms(1) by (simp add: do_read_cwd_def Let_def)
next
  case (Cons e es')
  then have "d_parent (dentries (pf_fs p) (pf_cwd p (cur_pfiles p))) \<noteq> 0" using assms(1) by simp
  then show ?thesis using cwd_loop_returns [OF assms, of "[]"] Cons by (simp add: do_read_cwd_def Let_def of_loop_def)
qed

section \<open>Witnesses\<close>

text \<open>A process in the directory \<open>/a/b/c\<close>, with the entries at 0x1000, 0x2000 and 0x3000 below the root at 0x4000.\<close>

definition ex_tree :: "addr \<Rightarrow> dentry" where
  "ex_tree d = \<lparr>d_name = (if d = 0x1000 then [99] else if d = 0x2000 then [98] else if d = 0x3000 then [97] else [47]), d_ref = 1, d_inode = 0,
     d_parent = (if d = 0x1000 then 0x2000 else if d = 0x2000 then 0x3000 else if d = 0x3000 then 0x4000 else 0)\<rparr>"

definition ex_proc :: "unit proc_files" where
  "ex_proc = \<lparr>pf_fs = (hosted ex_spike ex_fs)\<lparr>dentries := ex_tree\<rparr>, pf_cwd = (\<lambda>_. 0x1000), pf_nfiles = (\<lambda>_. 127), cur_pfiles = 0x80020000\<rparr>"

theorem do_read_cwd_returns_witness: "do_read_cwd ex_proc = Inr (0, [47, 99])"
  using do_read_cwd_returns [of ex_proc "[0x2000, 0x3000, 0x4000]"] by (simp add: ex_proc_def ex_tree_def)

lemma ex_proc_open:
  assumes "\<And>d. d_inode (D d) = 0"
  shows "vfs_open ex_frontend [46] 2 0x1000 ((hosted ex_spike ex_fs)\<lparr>dentries := D\<rparr>) =
   Inr (0x80009000, (hosted ex_spike ex_fs)\<lparr>fs_pool := (fs_pool ex_fs)\<lparr>pages_free := [0x80008000, 0x80007000]\<rparr>,
     dentries := D(0x1000 := (D 0x1000)\<lparr>d_ref := d_ref (D 0x1000) + 1\<rparr>),
     vfiles := (vfiles ex_fs)(0x80009000 := \<lparr>f_status = FD_OPENED, f_readable = 1, f_writable = 1, f_offset = 0, f_dentry = 0x1000\<rparr>)\<rparr>)"
proof -
  let ?s = "(hosted ex_spike ex_fs)\<lparr>dentries := D\<rparr>"
  have "dcache ?s Map.empty {}"
    by (simp add: dcache_def ex_fs_def ht_rep_def ht_chains_def, intro exI [of _ "\<lambda>_. []"], simp)
  moreover have "tokens is_slash [46] = [[46]]" by code_simp
  moreover have "vinodes ?s v = ex_vinode" "vfiles ?s = vfiles ex_fs" "pages_free (fs_pool ?s) = [0x80009000, 0x80008000, 0x80007000]" for v
    by (simp_all add: ex_fs_def) (simp add: hosted_def)
  ultimately show ?thesis
    using vfs_open_ok [of ?s Map.empty "{}" "[46]" "0x1000" "0x1000" 2 "0x80009000" "[0x80008000, 0x80007000]" ex_frontend] assms
    by (simp add: ex_vinode_def)
qed

theorem open_count_leaks_witness:
  "\<exists>p1 p2. do_open ex_frontend [46] 2 ex_proc = Inr (0, p1) \<and> do_close ex_frontend 0 p1 = Inr (0, p2) \<and>
     pf_nfiles p2 (cur_pfiles p2) = 128"
proof -
  define s1 where "s1 = (hosted ex_spike ex_fs)\<lparr>fs_pool := (fs_pool ex_fs)\<lparr>pages_free := [0x80008000, 0x80007000]\<rparr>,
     dentries := ex_tree(0x1000 := (ex_tree 0x1000)\<lparr>d_ref := 2\<rparr>),
     vfiles := (vfiles ex_fs)(0x80009000 := \<lparr>f_status = FD_OPENED, f_readable = 1, f_writable = 1, f_offset = 0, f_dentry = 0x1000\<rparr>)\<rparr>"
  define p1 where "p1 = install_file 0 0x80009000 (ex_proc\<lparr>pf_fs := s1\<rparr>)"
  have slot: "file_slot 0x80020000 0 = 0x80020008" by (simp add: file_slot_def)
  have fd: "free_fd (ex_proc\<lparr>pf_fs := s1\<rparr>) = Some 0"
    by (simp add: free_fd_def upt_rec [of 0] slot ex_proc_def s1_def ex_fs_def)
  have o: "do_open ex_frontend [46] 2 ex_proc = Inr (0, p1)"
    using ex_proc_open [of ex_tree] fd by (simp add: do_open_def on_fs_def ex_proc_def ex_tree_def p1_def s1_def)
  obtain p2 where c: "do_close ex_frontend 0 p1 = Inr (0, p2)"
  proof -
    have f: "vfiles (pf_fs p1) 0x80020008 = \<lparr>f_status = FD_OPENED, f_readable = 1, f_writable = 1, f_offset = 0, f_dentry = 0x1000\<rparr>"
      "get_opened_file 0 p1 = 0x80020008" "dentries (pf_fs p1) 0x1000 = (ex_tree 0x1000)\<lparr>d_ref := 2\<rparr>"
      "vinodes (pf_fs p1) 0 = ex_vinode"
      by (simp_all add: p1_def install_file_def upd_vfile_def ex_proc_def s1_def slot get_opened_file_eq)
         (simp add: ex_fs_def)
    have i: "d_inode (ex_tree d) = 0" "vi_type ex_vinode = FILE_I" "vi_ops ex_vinode = Rfs_i_ops" for d
      by (simp_all add: ex_tree_def ex_vinode_def)
    show ?thesis
      by (rule that) (simp add: do_close_def on_fs_def vfs_close_def f i viop_hook_close_def upd_dentry_def)
  qed
  show ?thesis using o c open_count_leaks [OF o _ c] by (simp add: ex_proc_def)
qed

end
