(* ===== verification/Context.thy ===== *)
theory Context
  imports Riscv
begin

text \<open>
  Entry to and exit from the kernel in assembly: the macros of \<^verbatim>\<open>util/load_store.S\<close>, the supervisor trap
  vector and \<^verbatim>\<open>return_to_user\<close> of \<^verbatim>\<open>kernel/strap_vector.S\<close>, and the machine trap vector with its handler
  (\<^verbatim>\<open>kernel/machine/mtrap_vector.S\<close>, \<^verbatim>\<open>mtrap.c\<close>). A hart is its general registers and the control
  registers the code uses; every instruction of the vectors is a step on it. Trapframes are in physical memory:
  each user page table maps a trapframe at its own physical address, so the same address serves before and after
  \<^verbatim>\<open>satp\<close> is written.
\<close>

section \<open>Harts\<close>

datatype reg = RA | SP | GP | TP | T0 | T1 | T2 | S0 | S1 | A0 | A1 | A2 | A3 | A4 | A5 | A6 | A7
  | S2 | S3 | S4 | S5 | S6 | S7 | S8 | S9 | S10 | S11 | T3 | T4 | T5 | T6

record hart =
  xr :: "reg \<Rightarrow> uint64"
  pc :: uint64
  satp :: uint64
  sscratch :: uint64
  sepc :: uint64
  scause :: uint64
  stval :: uint64
  sstatus :: uint64
  stvec :: uint64
  sip :: uint64
  mscratch :: uint64
  mepc :: uint64
  mcause :: uint64
  mtimecmp :: uint64

definition set_reg :: "reg \<Rightarrow> uint64 \<Rightarrow> hart \<Rightarrow> hart" where
  "set_reg r v h = h\<lparr>xr := (xr h)(r := v)\<rparr>"

lemma set_reg_sel [simp]:
  "xr (set_reg r v h) = (xr h)(r := v)" "sscratch (set_reg r v h) = sscratch h" "sepc (set_reg r v h) = sepc h"
  "satp (set_reg r v h) = satp h" "sstatus (set_reg r v h) = sstatus h" "mscratch (set_reg r v h) = mscratch h"
  "mepc (set_reg r v h) = mepc h"
  by (simp_all add: set_reg_def)

text \<open>\<^verbatim>\<open>sd rs, off(base)\<close> and \<^verbatim>\<open>ld rd, off(base)\<close>.\<close>

definition sd :: "reg \<Rightarrow> uint64 \<Rightarrow> reg \<Rightarrow> hart \<times> mem \<Rightarrow> (hart \<times> mem) res" where
  "sd rs off base hm = (let (h, m) = hm in bnd (st64 m (xr h base + off) (xr h rs)) (\<lambda>m. Inr (h, m)))"

definition ld :: "reg \<Rightarrow> uint64 \<Rightarrow> reg \<Rightarrow> hart \<times> mem \<Rightarrow> (hart \<times> mem) res" where
  "ld rd off base hm = (let (h, m) = hm in bnd (ld64 m (xr h base + off)) (\<lambda>v. Inr (set_reg rd v h, m)))"

section \<open>Saving and restoring\<close>

text \<open>The registers with their offsets, in the order of both macros.\<close>

definition slots :: "(reg \<times> uint64) list" where
  "slots = [(RA, 0), (SP, 8), (GP, 16), (TP, 24), (T0, 32), (T1, 40), (T2, 48), (S0, 56), (S1, 64), (A0, 72), (A1, 80),
     (A2, 88), (A3, 96), (A4, 104), (A5, 112), (A6, 120), (A7, 128), (S2, 136), (S3, 144), (S4, 152), (S5, 160), (S6, 168),
     (S7, 176), (S8, 184), (S9, 192), (S10, 200), (S11, 208), (T3, 216), (T4, 224), (T5, 232), (T6, 240)]"

primrec store_regs :: "(reg \<times> uint64) list \<Rightarrow> hart \<times> mem \<Rightarrow> (hart \<times> mem) res" where
  "store_regs [] hm = Inr hm"
| "store_regs (p # ps) hm = bnd (sd (fst p) (snd p) T6 hm) (store_regs ps)"

primrec load_regs :: "(reg \<times> uint64) list \<Rightarrow> hart \<times> mem \<Rightarrow> (hart \<times> mem) res" where
  "load_regs [] hm = Inr hm"
| "load_regs (p # ps) hm = bnd (ld (fst p) (snd p) T6 hm) (load_regs ps)"

definition store_all_registers :: "hart \<times> mem \<Rightarrow> (hart \<times> mem) res" where
  "store_all_registers = store_regs slots"

definition restore_all_registers :: "hart \<times> mem \<Rightarrow> (hart \<times> mem) res" where
  "restore_all_registers = load_regs slots"

section \<open>The vectors\<close>

definition smode_trap_vector :: "hart \<times> mem \<Rightarrow> (hart \<times> mem) res" where
  "smode_trap_vector hm =
     (let (h, m) = hm;
          h = (set_reg A0 (sscratch h) h)\<lparr>sscratch := xr h A0\<rparr>;
          h = set_reg T6 (xr h A0) h
      in bnd (store_all_registers (h, m)) (\<lambda>(h, m).
         let h = set_reg T0 (sscratch h) h
         in bnd (sd T0 72 A0 (h, m)) (\<lambda>hm.
            bnd (ld SP 248 A0 hm) (\<lambda>hm.
            bnd (ld T0 256 A0 hm) (\<lambda>hm.
            bnd (ld T1 272 A0 hm) (\<lambda>(h, m).
            Inr (h\<lparr>satp := xr h T1, pc := xr h T0\<rparr>, m)))))))"

text \<open>\<open>a0\<close> is the trapframe and \<open>a1\<close> the value for \<^verbatim>\<open>satp\<close>; \<^verbatim>\<open>sret\<close> continues at \<^verbatim>\<open>sepc\<close>.\<close>

definition return_to_user :: "hart \<times> mem \<Rightarrow> (hart \<times> mem) res" where
  "return_to_user hm =
     (let (h, m) = hm;
          h = h\<lparr>satp := xr h A1, sscratch := xr h A0\<rparr>;
          h = set_reg T6 (xr h A0) h
      in bnd (restore_all_registers (h, m)) (\<lambda>(h, m). Inr (h\<lparr>pc := sepc h\<rparr>, m)))"

abbreviation (input) TIMER_INTERVAL :: uint64 where "TIMER_INTERVAL \<equiv> 1000000"
abbreviation (input) SIP_SSIP :: uint64 where "SIP_SSIP \<equiv> 2"
abbreviation (input) CAUSE_MTIMER :: uint64 where "CAUSE_MTIMER \<equiv> 0x8000000000000007"

definition handle_timer :: "hart \<Rightarrow> hart" where
  "handle_timer h = h\<lparr>mtimecmp := mtimecmp h + TIMER_INTERVAL, sip := SIP_SSIP\<rparr>"

text \<open>Every other cause ends in a panic; the text that \<^verbatim>\<open>print_error_line\<close> prints before is left out.\<close>

definition handle_mtrap :: "hart \<Rightarrow> hart res" where
  "handle_mtrap h =
     (if mcause h = CAUSE_MTIMER then Inr (handle_timer h)
      else if mcause h = 1 then Inl (Panic ''Instruction access fault!'')
      else if mcause h = 5 then Inl (Panic ''Load access fault!'')
      else if mcause h = 7 then Inl (Panic ''Store/AMO access fault!'')
      else if mcause h = 2 then Inl (Panic ''Illegal instruction!'')
      else if mcause h = 4 then Inl (Panic ''Misaligned Load!'')
      else if mcause h = 6 then Inl (Panic ''Misaligned AMO!'')
      else Inl (Panic ''unexpected exception happened in M-mode.''))"

text \<open>\<open>stk\<close> is the stack of the hart and \<open>clob\<close> what the C code leaves in the registers; \<^verbatim>\<open>mret\<close> continues at \<^verbatim>\<open>mepc\<close>.\<close>

definition mtrapvec :: "uint64 \<Rightarrow> (reg \<Rightarrow> uint64) \<Rightarrow> hart \<times> mem \<Rightarrow> (hart \<times> mem) res" where
  "mtrapvec stk clob hm =
     (let (h, m) = hm;
          h = (set_reg A0 (mscratch h) h)\<lparr>mscratch := xr h A0\<rparr>;
          h = set_reg T6 (xr h A0) h
      in bnd (store_all_registers (h, m)) (\<lambda>(h, m).
         let h = set_reg T0 (mscratch h) h
         in bnd (sd T0 72 A0 (h, m)) (\<lambda>(h, m).
            let h = set_reg SP stk h;
                h = h\<lparr>mscratch := xr h A0\<rparr>
            in bnd (handle_mtrap h) (\<lambda>h.
               let h = h\<lparr>xr := clob\<rparr>;
                   h = set_reg T6 (mscratch h) h
               in bnd (restore_all_registers (h, m)) (\<lambda>(h, m). Inr (h\<lparr>pc := mepc h\<rparr>, m))))))"

section \<open>Frames\<close>

text \<open>An address with room for a trapframe.\<close>

definition frame_at :: "addr \<Rightarrow> bool" where
  "frame_at tf \<longleftrightarrow> ram_ok tf 280 \<and> tf mod 8 = 0"

definition slot_ok :: "uint64 \<Rightarrow> bool" where
  "slot_ok off \<longleftrightarrow> off \<le> 272 \<and> 8 dvd unat off"

lemma slot_cell:
  assumes "frame_at tf" "slot_ok off"
  shows "ld64 m (tf + off) = Inr (load64 m (tf + off))" "st64 m (tf + off) v = Inr (store64 m (tf + off) v)"
    "8 dvd unat (tf + off)"
proof -
  have o: "unat off \<le> 272" "8 dvd unat off" using assms(2) by (simp_all add: slot_ok_def word_le_nat_alt)
  have t: "unat tf + 280 \<le> 0x88000000" "8 dvd unat tf" "0x80000000 \<le> unat tf"
    using assms(1) by (simp_all add: frame_at_def ram_ok_def word_le_nat_alt word_mod_0_iff_dvd)
  have u: "unat (tf + off) = unat tf + unat off" using o t by (simp add: unat_word_ariths)
  show d: "8 dvd unat (tf + off)" using o t by (simp add: u)
  have "ram_ok (tf + off) 8" using o t by (simp add: ram_ok_def u word_le_nat_alt)
  then show "ld64 m (tf + off) = Inr (load64 m (tf + off))" "st64 m (tf + off) v = Inr (store64 m (tf + off) v)"
    using d by (simp_all add: ld64_def st64_def word_mod_0_iff_dvd)
qed

lemma store_slot: "frame_at tf \<Longrightarrow> slot_ok a \<Longrightarrow> slot_ok b \<Longrightarrow>
  load64 (store64 m (tf + b) v) (tf + a) = (if a = b then v else load64 m (tf + a))"
  using slot_cell(3) by (simp add: load64_store64_other)

lemma sd_slot: "frame_at (xr h b) \<Longrightarrow> slot_ok off \<Longrightarrow> sd r off b (h, m) = Inr (h, store64 m (xr h b + off) (xr h r))"
  by (simp add: sd_def slot_cell)

lemma ld_slot: "frame_at (xr h b) \<Longrightarrow> slot_ok off \<Longrightarrow> ld r off b (h, m) = Inr (set_reg r (load64 m (xr h b + off)) h, m)"
  by (simp add: ld_def slot_cell)

lemma store_regs_ok:
  assumes "frame_at (xr h T6)" "\<forall>p \<in> set ps. slot_ok (snd p)" "distinct (map snd ps)"
  shows "\<exists>m'. store_regs ps (h, m) = Inr (h, m') \<and>
    (\<forall>off. slot_ok off \<longrightarrow> load64 m' (xr h T6 + off) =
       (case map_of (map prod.swap ps) off of Some r \<Rightarrow> xr h r | None \<Rightarrow> load64 m (xr h T6 + off)))"
  using assms(2,3)
proof (induction ps arbitrary: m)
  case (Cons p ps)
  let ?m = "store64 m (xr h T6 + snd p) (xr h (fst p))"
  have "\<forall>p \<in> set ps. slot_ok (snd p)" "distinct (map snd ps)" using Cons.prems by auto
  from Cons.IH [OF this, of ?m] obtain m' where m': "store_regs ps (h, ?m) = Inr (h, m')"
    "\<forall>off. slot_ok off \<longrightarrow> load64 m' (xr h T6 + off) =
       (case map_of (map prod.swap ps) off of Some r \<Rightarrow> xr h r | None \<Rightarrow> load64 ?m (xr h T6 + off))" by blast
  have n: "map_of (map prod.swap ps) (snd p) = None" using Cons.prems(2) by (auto simp: map_of_eq_None_iff image_iff)
  show ?case
    using m' Cons.prems(1) assms(1) n
    by (cases p, intro exI [of _ m']) (auto simp: sd_slot store_slot split: option.splits)
qed simp

lemma load_regs_ok:
  assumes "frame_at (xr h T6)" "\<forall>p \<in> set ps. slot_ok (snd p)" "T6 \<notin> fst ` set ps" "distinct (map fst ps)"
  shows "load_regs ps (h, m) = Inr (h\<lparr>xr := (\<lambda>r. case map_of ps r of Some off \<Rightarrow> load64 m (xr h T6 + off) | None \<Rightarrow> xr h r)\<rparr>, m)"
  using assms
proof (induction ps arbitrary: h)
  case (Cons p ps)
  let ?h = "set_reg (fst p) (load64 m (xr h T6 + snd p)) h"
  have t: "xr ?h T6 = xr h T6" using Cons.prems(3) by (auto simp: set_reg_def)
  have n: "map_of ps (fst p) = None" using Cons.prems(4) by (simp add: map_of_eq_None_iff)
  have l: "load_regs ps (?h, m) = Inr (?h\<lparr>xr := (\<lambda>r. case map_of ps r of Some off \<Rightarrow> load64 m (xr ?h T6 + off) | None \<Rightarrow> xr ?h r)\<rparr>, m)"
    by (rule Cons.IH) (use Cons.prems t in auto)
  have e: "(\<lambda>r. case map_of ps r of Some off \<Rightarrow> load64 m (xr h T6 + off) | None \<Rightarrow> xr ?h r) =
      (\<lambda>r. case map_of (p # ps) r of Some off \<Rightarrow> load64 m (xr h T6 + off) | None \<Rightarrow> xr h r)"
    using n by (auto simp: set_reg_def fun_eq_iff split: option.splits)
  have "?h\<lparr>xr := X\<rparr> = h\<lparr>xr := X\<rparr>" for X by (simp add: set_reg_def)
  then have "load_regs ps (?h, m) =
      Inr (h\<lparr>xr := (\<lambda>r. case map_of (p # ps) r of Some off \<Rightarrow> load64 m (xr h T6 + off) | None \<Rightarrow> xr h r)\<rparr>, m)"
    using l unfolding t e by simp
  then show ?case using Cons.prems(1,2) by (simp add: ld_slot del: map_of_Cons_code)
qed simp

lemma slots_ok: "\<forall>p \<in> set slots. slot_ok (snd p)" "distinct (map snd slots)" "distinct (map fst slots)"
  by (simp_all add: slots_def slot_ok_def)

lemma slots_split: "\<exists>ps. slots = ps @ [(T6, 240)] \<and> T6 \<notin> fst ` set ps"
  by (rule exI [of _ "butlast slots"]) (simp add: slots_def)

lemma slots_all: "\<exists>off. map_of slots r = Some off \<and> slot_ok off \<and> map_of (map prod.swap slots) off = Some r"
  by (cases r) (simp_all add: slots_def slot_ok_def)

text \<open>Restoring loads every register from its slot.\<close>

lemma restore_ok:
  assumes f: "frame_at (xr h T6)"
  shows "restore_all_registers (h, m) = Inr (h\<lparr>xr := (\<lambda>r. load64 m (xr h T6 + the (map_of slots r)))\<rparr>, m)"
proof -
  obtain ps where ps: "slots = ps @ [(T6, 240)]" "T6 \<notin> fst ` set ps" using slots_split by blast
  let ?h = "h\<lparr>xr := (\<lambda>r. case map_of ps r of Some off \<Rightarrow> load64 m (xr h T6 + off) | None \<Rightarrow> xr h r)\<rparr>"
  have l: "load_regs ps (h, m) = Inr (?h, m)"
    using slots_ok(1,3) ps(2) unfolding ps(1) by (intro load_regs_ok [OF f]) simp_all
  have t: "xr ?h T6 = xr h T6" using ps(2) by (simp add: map_of_eq_None_iff [THEN iffD2])
  have app: "load_regs (xs @ ys) hm = bnd (load_regs xs hm) (load_regs ys)" for xs ys hm
    by (induction xs arbitrary: hm) (auto simp: bnd_assoc intro: bnd_cong)
  have "restore_all_registers (h, m) = Inr (set_reg T6 (load64 m (xr h T6 + 240)) ?h, m)"
    using f t ld_slot [of ?h T6 240 T6 m] by (simp add: restore_all_registers_def ps(1) app l slot_ok_def)
  moreover have "load64 m (xr h T6 + the (map_of slots r)) = xr (set_reg T6 (load64 m (xr h T6 + 240)) ?h) r" for r
  proof -
    have "map_of ps T6 = None" using ps(2) by (simp add: map_of_eq_None_iff)
    then have "map_of slots r = (if r = T6 then Some 240 else map_of ps r)" unfolding ps(1) by (auto simp: map_add_def split: option.splits)
    then show ?thesis using slots_all [of r] by (cases "r = T6") (auto simp: set_reg_def)
  qed
  ultimately show ?thesis by (simp add: set_reg_def fun_upd_def)
qed

text \<open>Saving with \<open>T6\<close> pointing to the frame stores every register in its slot, and changes nothing from offset 248 on.\<close>

lemma store_ok:
  assumes f: "frame_at (xr h T6)"
  shows "\<exists>m'. store_all_registers (h, m) = Inr (h, m') \<and> (\<forall>r. load64 m' (xr h T6 + the (map_of slots r)) = xr h r) \<and>
    (\<forall>off. slot_ok off \<and> 248 \<le> off \<longrightarrow> load64 m' (xr h T6 + off) = load64 m (xr h T6 + off))"
proof -
  obtain m' where m': "store_regs slots (h, m) = Inr (h, m')"
    "\<forall>off. slot_ok off \<longrightarrow> load64 m' (xr h T6 + off) =
       (case map_of (map prod.swap slots) off of Some r \<Rightarrow> xr h r | None \<Rightarrow> load64 m (xr h T6 + off))"
    using store_regs_ok [OF f slots_ok(1,2), of m] by blast
  have "map_of (map prod.swap slots) off = None" if "248 \<le> off" for off
    using that by (auto simp: map_of_eq_None_iff slots_def)
  moreover have "load64 m' (xr h T6 + the (map_of slots r)) = xr h r" for r
    using m'(2) slots_all [of r] by fastforce
  ultimately show ?thesis using m' by (intro exI [of _ m']) (auto simp: store_all_registers_def)
qed

section \<open>Properties\<close>

lemma frame_slots: "slot_ok 72" "slot_ok 248" "slot_ok 256" "slot_ok 272" "map_of slots A0 = Some 72" "map_of slots T6 = Some 240"
  by (simp_all add: slot_ok_def slots_def)

text \<open>
  The start of both vectors: the scratch register, which holds the address of the frame, is swapped with \<^verbatim>\<open>a0\<close>, \<^verbatim>\<open>t6\<close>
  is set to the frame, the registers are saved and then \<^verbatim>\<open>a0\<close> is saved again with its old value.
\<close>

lemma save_ok:
  assumes f: "frame_at tf" and x: "xr h1 T6 = tf" "xr h1 A0 = tf" "\<And>r. r \<noteq> T6 \<Longrightarrow> r \<noteq> A0 \<Longrightarrow> xr h1 r = xr h r"
  shows "\<exists>m1 m2. store_all_registers (h1, m) = Inr (h1, m1) \<and> sd T0 72 A0 (set_reg T0 (xr h A0) h1, m1) = Inr (set_reg T0 (xr h A0) h1, m2) \<and>
    (\<forall>r. load64 m2 (tf + the (map_of slots r)) = (if r = T6 then tf else xr h r)) \<and>
    (\<forall>off. slot_ok off \<and> 248 \<le> off \<longrightarrow> load64 m2 (tf + off) = load64 m (tf + off))"
proof -
  obtain m1 where m1: "store_all_registers (h1, m) = Inr (h1, m1)" "\<forall>r. load64 m1 (tf + the (map_of slots r)) = xr h1 r"
    "\<forall>off. slot_ok off \<and> 248 \<le> off \<longrightarrow> load64 m1 (tf + off) = load64 m (tf + off)"
    using store_ok [of h1 m] f by (auto simp: x(1,2))
  define m2 where "m2 = store64 m1 (tf + 72) (xr h A0)"
  have L: "load64 m2 (tf + off) = (if off = 72 then xr h A0 else load64 m1 (tf + off))" if "slot_ok off" for off
    using store_slot [OF f that frame_slots(1)] by (simp add: m2_def)
  have regs: "load64 m2 (tf + the (map_of slots r)) = (if r = T6 then tf else xr h r)" for r
  proof -
    obtain off where off: "map_of slots r = Some off" "slot_ok off" "map_of (map prod.swap slots) off = Some r"
      using slots_all by blast
    have "off = 72 \<longleftrightarrow> r = A0" using off frame_slots(5) slots_all [of A0] by auto
    moreover have "load64 m1 (tf + off) = xr h1 r" using m1(2) [rule_format, of r] off(1) by simp
    ultimately show ?thesis using L [OF off(2)] off(1) x by (cases "r = T6") auto
  qed
  have hi: "load64 m2 (tf + off) = load64 m (tf + off)" if "slot_ok off" "248 \<le> off" for off
    using L [OF that(1)] m1(3) that by auto
  have "sd T0 72 A0 (set_reg T0 (xr h A0) h1, m1) = Inr (set_reg T0 (xr h A0) h1, m2)"
    using sd_slot [of "set_reg T0 (xr h A0) h1" A0 72 T0 m1] f x(2) frame_slots(1) by (simp add: m2_def)
  then show ?thesis using m1(1) regs hi by blast
qed

text \<open>The trap vector: what the frame holds afterwards and where the hart goes.\<close>

lemma smode_trap_vector_ok:
  assumes f: "frame_at (sscratch h)"
  shows "\<exists>h' m'. smode_trap_vector (h, m) = Inr (h', m') \<and>
    (\<forall>r. load64 m' (sscratch h + the (map_of slots r)) = (if r = T6 then sscratch h else xr h r)) \<and>
    (\<forall>off. slot_ok off \<and> 248 \<le> off \<longrightarrow> load64 m' (sscratch h + off) = load64 m (sscratch h + off)) \<and>
    xr h' SP = load64 m (sscratch h + 248) \<and> pc h' = load64 m (sscratch h + 256) \<and> satp h' = load64 m (sscratch h + 272) \<and>
    sepc h' = sepc h \<and> sstatus h' = sstatus h"
proof -
  let ?tf = "sscratch h"
  define h1 where "h1 = set_reg T6 ?tf ((set_reg A0 ?tf h)\<lparr>sscratch := xr h A0\<rparr>)"
  have x: "xr h1 T6 = ?tf" "xr h1 A0 = ?tf" "sscratch h1 = xr h A0" "sepc h1 = sepc h" "sstatus h1 = sstatus h"
    "\<And>r. r \<noteq> T6 \<Longrightarrow> r \<noteq> A0 \<Longrightarrow> xr h1 r = xr h r"
    by (simp_all add: h1_def)
  obtain m1 m2 where "store_all_registers (h1, m) = Inr (h1, m1)"
    "sd T0 72 A0 (set_reg T0 (xr h A0) h1, m1) = Inr (set_reg T0 (xr h A0) h1, m2)"
    "\<forall>r. load64 m2 (?tf + the (map_of slots r)) = (if r = T6 then ?tf else xr h r)"
    "\<forall>off. slot_ok off \<and> 248 \<le> off \<longrightarrow> load64 m2 (?tf + off) = load64 m (?tf + off)"
    using save_ok [OF f x(1,2,6)] by blast
  then show ?thesis
    using f x frame_slots by (simp add: smode_trap_vector_def ld_slot flip: h1_def)
qed

lemma return_to_user_ok:
  assumes "frame_at (xr h A0)"
  shows "return_to_user (h, m) = Inr (h\<lparr>xr := (\<lambda>r. load64 m (xr h A0 + the (map_of slots r))), satp := xr h A1,
    sscratch := xr h A0, pc := sepc h\<rparr>, m)"
proof -
  define h1 where "h1 = set_reg T6 (xr h A0) (h\<lparr>satp := xr h A1, sscratch := xr h A0\<rparr>)"
  have "xr h1 T6 = xr h A0" by (simp add: h1_def set_reg_def)
  then have "restore_all_registers (h1, m) = Inr (h1\<lparr>xr := (\<lambda>r. load64 m (xr h A0 + the (map_of slots r)))\<rparr>, m)"
    using restore_ok [of h1 m] assms by simp
  then show ?thesis by (simp add: return_to_user_def flip: h1_def) (simp add: h1_def set_reg_def)
qed

text \<open>
  C33. A trap and the return from it. When a hart with \<^verbatim>\<open>sscratch\<close> at the trapframe of its process traps, the vector saves
  the registers and continues on the kernel stack and kernel page table that the frame names. If the kernel then returns to the
  same process, with the saved registers still in the frame, every register of the process except \<^verbatim>\<open>t6\<close> is as before
  the trap. \<^verbatim>\<open>t6\<close> is lost, because the vector overwrites it before it saves it: the process finds the
  address of its trapframe there.
\<close>

theorem trap_return_registers:
  assumes "frame_at (sscratch h)"
  shows "\<exists>h1 m1. smode_trap_vector (h, m) = Inr (h1, m1) \<and>
    xr h1 SP = load64 m (sscratch h + 248) \<and> pc h1 = load64 m (sscratch h + 256) \<and> satp h1 = load64 m (sscratch h + 272) \<and>
    (\<forall>h2 m2. xr h2 A0 = sscratch h \<and> (\<forall>off. slot_ok off \<and> off < 248 \<longrightarrow> load64 m2 (sscratch h + off) = load64 m1 (sscratch h + off)) \<longrightarrow>
       (\<exists>h3. return_to_user (h2, m2) = Inr (h3, m2) \<and> pc h3 = sepc h2 \<and> satp h3 = xr h2 A1 \<and> sscratch h3 = sscratch h \<and>
         (\<forall>r. r \<noteq> T6 \<longrightarrow> xr h3 r = xr h r) \<and> xr h3 T6 = sscratch h))"
proof -
  obtain h1 m1 where v: "smode_trap_vector (h, m) = Inr (h1, m1)"
    "\<forall>r. load64 m1 (sscratch h + the (map_of slots r)) = (if r = T6 then sscratch h else xr h r)"
    "xr h1 SP = load64 m (sscratch h + 248)" "pc h1 = load64 m (sscratch h + 256)" "satp h1 = load64 m (sscratch h + 272)"
    using smode_trap_vector_ok [OF assms, of m] by blast
  have "slot_ok (the (map_of slots r)) \<and> the (map_of slots r) < 248" for r
    by (cases r) (simp_all add: slots_def slot_ok_def)
  then have "\<exists>h3. return_to_user (h2, m2) = Inr (h3, m2) \<and> pc h3 = sepc h2 \<and> satp h3 = xr h2 A1 \<and> sscratch h3 = sscratch h \<and>
         (\<forall>r. r \<noteq> T6 \<longrightarrow> xr h3 r = xr h r) \<and> xr h3 T6 = sscratch h"
    if "xr h2 A0 = sscratch h" "\<forall>off. slot_ok off \<and> off < 248 \<longrightarrow> load64 m2 (sscratch h + off) = load64 m1 (sscratch h + off)" for h2 m2
    using return_to_user_ok [of h2 m2] assms that v(2) by simp
  then show ?thesis using v(1,3-5) by blast
qed

theorem trap_return_registers_witness:
  "\<exists>h1 m1. smode_trap_vector (\<lparr>xr = (\<lambda>r. if r = T6 then 5 else 7), pc = 0, satp = 0, sscratch = 0x80100000, sepc = 0, scause = 8,
      stval = 0, sstatus = 0, stvec = 0, sip = 0, mscratch = 0, mepc = 0, mcause = 0, mtimecmp = 0\<rparr>, \<lambda>_. 0) = Inr (h1, m1) \<and>
    (\<exists>h3. return_to_user (set_reg A0 0x80100000 h1, m1) = Inr (h3, m1) \<and> xr h3 A0 = 7 \<and> xr h3 T5 = 7 \<and> xr h3 T6 = 0x80100000)"
proof -
  let ?h = "\<lparr>xr = (\<lambda>r. if r = T6 then 5 else 7), pc = 0, satp = 0, sscratch = 0x80100000, sepc = 0, scause = 8,
      stval = 0, sstatus = 0, stvec = 0, sip = 0, mscratch = 0, mepc = 0, mcause = 0, mtimecmp = 0\<rparr> :: hart"
  have "frame_at (sscratch ?h)" by (simp add: frame_at_def ram_ok_def)
  from trap_return_registers [OF this, of "\<lambda>_. 0"] obtain h1 m1 where
    v: "smode_trap_vector (?h, \<lambda>_. 0) = Inr (h1, m1)" and
    r: "\<And>h2 m2. xr h2 A0 = sscratch ?h \<and> (\<forall>off. slot_ok off \<and> off < 248 \<longrightarrow> load64 m2 (sscratch ?h + off) = load64 m1 (sscratch ?h + off)) \<Longrightarrow>
       \<exists>h3. return_to_user (h2, m2) = Inr (h3, m2) \<and> pc h3 = sepc h2 \<and> satp h3 = xr h2 A1 \<and> sscratch h3 = sscratch ?h \<and>
         (\<forall>r. r \<noteq> T6 \<longrightarrow> xr h3 r = xr ?h r) \<and> xr h3 T6 = sscratch ?h" by blast
  from r [of "set_reg A0 0x80100000 h1" m1] v show ?thesis by (fastforce simp: set_reg_def)
qed



end
