(* ===== verification/Sched.thy ===== *)
theory Sched
  imports Context Vmm
begin

text \<open>
  Processes and the scheduler: the process table of \<^verbatim>\<open>kernel/process.h\<close>, \<^verbatim>\<open>switch_to\<close> and the process
  states of \<^verbatim>\<open>kernel/process.c\<close>, and the ready queue, the semaphores and \<^verbatim>\<open>schedule\<close> of \<^verbatim>\<open>kernel/sched.c\<close>. A pointer
  to a process is an index into \<^verbatim>\<open>procs\<close> or null. The functions run on one hart without interference from the other.
  \<^verbatim>\<open>schedule\<close> never returns to its caller: it ends in user mode, and the caller resumes, if at all, in user mode too. The
  result of a function that may call it says which of the two happened.
\<close>

section \<open>State\<close>

datatype proc_status = FREE | READY | RUNNING | BLOCKED | ZOMBIE

record process_heap_manager =
  heap_top :: uint64
  heap_bottom :: uint64
  free_pages_address :: "uint64 list"
  free_pages_count :: uint32

type_synonym proc_ptr = "nat option"

record process =
  p_kstack :: uint64
  p_pagetable :: addr
  p_trapframe :: addr
  p_mapped_info :: addr
  p_total_mapped_region :: int
  p_user_heap :: process_heap_manager
  p_pid :: uint64
  p_status :: proc_status
  p_parent :: proc_ptr
  p_queue_next :: proc_ptr
  p_tick_count :: int
  p_pfiles :: addr
  p_debugline :: addr
  p_dir :: addr
  p_file :: addr
  p_line :: addr
  p_line_ind :: int
  p_first_free_block :: uint64
  p_is_child :: int

abbreviation (input) NPROC :: nat where "NPROC \<equiv> 32"
abbreviation (input) SEM_MAX :: nat where "SEM_MAX \<equiv> 100"
abbreviation (input) TIME_SLICE_LEN :: int where "TIME_SLICE_LEN \<equiv> 2"

text \<open>The last three fields are the addresses of the linker symbols that \<^verbatim>\<open>process.c\<close> uses.\<close>

record kern =
  kmm :: pmm
  harts :: "nat \<Rightarrow> hart"
  procs :: "nat \<Rightarrow> process"
  current :: "nat \<Rightarrow> proc_ptr"
  ready_queue_head :: proc_ptr
  ready_queue_lock :: int
  sems :: "int list"
  sem_cnt :: int
  waiting_queue :: "proc_ptr list"
  sem_lock :: "int list"
  cnt_lock :: int
  queue_lock :: int
  g_ticks :: "nat \<Rightarrow> uint64"
  child_running :: int
  smode_trap_vector_sym :: addr
  smode_trap_handler_sym :: addr
  trap_sec_start :: addr

datatype 'a ctl = Ret 'a | Switched

definition upd_proc :: "nat \<Rightarrow> (process \<Rightarrow> process) \<Rightarrow> 'a kern_scheme \<Rightarrow> 'a kern_scheme" where
  "upd_proc p f s = s\<lparr>procs := (procs s)(p := f (procs s p))\<rparr>"

text \<open>Following a pointer to a process.\<close>

definition deref :: "proc_ptr \<Rightarrow> nat res" where
  "deref p = (case p of None \<Rightarrow> Inl (Fault 0) | Some i \<Rightarrow> Inr i)"

lemma deref_Some [simp]: "deref (Some i) = Inr i"
  by (simp add: deref_def)

section \<open>Switching\<close>

abbreviation (input) SSTATUS_SPP :: uint64 where "SSTATUS_SPP \<equiv> 0x100"
abbreviation (input) SSTATUS_SPIE :: uint64 where "SSTATUS_SPIE \<equiv> 0x20"

text \<open>
  The offsets are those of \<^verbatim>\<open>kernel_sp\<close>, \<^verbatim>\<open>kernel_satp\<close>, \<^verbatim>\<open>kernel_trap\<close> and \<^verbatim>\<open>epc\<close> in \<^verbatim>\<open>struct trapframe\<close>.
  The call of \<^verbatim>\<open>return_to_user\<close> passes its arguments in \<^verbatim>\<open>a0\<close> and \<^verbatim>\<open>a1\<close>.
\<close>

definition switch_to :: "nat \<Rightarrow> proc_ptr \<Rightarrow> 'a kern_scheme \<Rightarrow> 'a kern_scheme res" where
  "switch_to hid proc s =
     (case proc of
        None \<Rightarrow> Inl (Assert_Fail ''proc'')
      | Some p \<Rightarrow>
          (let s = s\<lparr>current := (current s)(hid := Some p)\<rparr>;
               h = (harts s hid)\<lparr>stvec := smode_trap_vector_sym s\<rparr>;
               tf = p_trapframe (procs s p);
               m = ram (kmm s)
           in bnd (st64 m (tf + 248) (p_kstack (procs s p))) (\<lambda>m.
              bnd (st64 m (tf + 272) (satp h)) (\<lambda>m.
              bnd (st64 m (tf + 256) (smode_trap_handler_sym s)) (\<lambda>m.
              let h = h\<lparr>sstatus := (sstatus h AND NOT SSTATUS_SPP) OR SSTATUS_SPIE\<rparr>
              in bnd (ld64 m (tf + 264)) (\<lambda>epc.
                 let h = h\<lparr>sepc := epc\<rparr>;
                     user_satp = MAKE_SATP (p_pagetable (procs s p));
                     h = set_reg A1 user_satp (set_reg A0 tf h)
                 in bnd (return_to_user (h, m)) (\<lambda>(h, m).
                    Inr (s\<lparr>harts := (harts s)(hid := h), kmm := (kmm s)\<lparr>ram := m\<rparr>\<rparr>))))))))"

section \<open>The ready queue\<close>

definition lock_ready :: "'a kern_scheme \<Rightarrow> 'a kern_scheme res" where
  "lock_ready s = bnd (of_loop (spinlock_lock (ready_queue_lock s))) (\<lambda>l. Inr (s\<lparr>ready_queue_lock := l\<rparr>))"

definition unlock_ready :: "'a kern_scheme \<Rightarrow> 'a kern_scheme" where
  "unlock_ready s = s\<lparr>ready_queue_lock := spinlock_unlock (ready_queue_lock s)\<rparr>"

text \<open>
  The loop over a queue that \<^verbatim>\<open>insert_to_ready_queue\<close> and \<^verbatim>\<open>waiting_queue_push\<close> share: whether the process
  is in the queue before its last element, and the element where the loop stops.
\<close>

partial_function (option) queue_scan :: "(nat \<Rightarrow> process) \<Rightarrow> nat \<Rightarrow> nat \<Rightarrow> (bool \<times> nat) option" where
  "queue_scan P proc p =
     (case p_queue_next (P p) of
        None \<Rightarrow> Some (False, p)
      | Some q \<Rightarrow> if p = proc then Some (True, p) else queue_scan P proc q)"

definition insert_to_ready_queue :: "nat \<Rightarrow> 'a kern_scheme \<Rightarrow> 'a kern_scheme res" where
  "insert_to_ready_queue proc s =
     bnd (lock_ready s) (\<lambda>s.
     case ready_queue_head s of
       None \<Rightarrow>
         Inr (unlock_ready ((upd_proc proc (\<lambda>p. p\<lparr>p_status := READY, p_queue_next := None\<rparr>) s)\<lparr>ready_queue_head := Some proc\<rparr>))
     | Some q0 \<Rightarrow>
         bnd (of_loop (queue_scan (procs s) proc q0)) (\<lambda>(found, p).
         let s = unlock_ready s
         in if found \<or> p = proc then Inr s
            else Inr (upd_proc proc (\<lambda>q. q\<lparr>p_status := READY, p_queue_next := None\<rparr>)
                   (upd_proc p (\<lambda>q. q\<lparr>p_queue_next := Some proc\<rparr>) s))))"

definition schedule :: "nat \<Rightarrow> 'a kern_scheme \<Rightarrow> 'a kern_scheme res" where
  "schedule hid s =
     bnd (lock_ready s) (\<lambda>s.
     case ready_queue_head s of
       None \<Rightarrow>
         (if \<forall>i < NPROC. p_status (procs s i) = FREE \<or> p_status (procs s i) = ZOMBIE
          then Inl (Shutdown 0)
          else Inl (Panic ''Not handled: we should let system wait for unfinished processes.''))
     | Some p \<Rightarrow>
         (let s = s\<lparr>current := (current s)(hid := Some p)\<rparr>
          in if p_status (procs s p) \<noteq> READY then Inl (Assert_Fail ''current[hart_id]->status == READY'')
             else (let s = unlock_ready (s\<lparr>ready_queue_head := p_queue_next (procs s p)\<rparr>);
                       s = upd_proc p (\<lambda>q. q\<lparr>p_status := RUNNING\<rparr>) s
                   in switch_to hid (Some p) s)))"

section \<open>Semaphores\<close>

definition lock_queue :: "'a kern_scheme \<Rightarrow> 'a kern_scheme res" where
  "lock_queue s = bnd (of_loop (spinlock_lock (queue_lock s))) (\<lambda>l. Inr (s\<lparr>queue_lock := l\<rparr>))"

definition unlock_queue :: "'a kern_scheme \<Rightarrow> 'a kern_scheme" where
  "unlock_queue s = s\<lparr>queue_lock := spinlock_unlock (queue_lock s)\<rparr>"

definition waiting_queue_push :: "proc_ptr \<Rightarrow> int \<Rightarrow> 'a kern_scheme \<Rightarrow> 'a kern_scheme res" where
  "waiting_queue_push proc sem s =
     bnd (lock_queue s) (\<lambda>s.
     bnd (arr_get (waiting_queue s) sem) (\<lambda>w.
     bnd (deref proc) (\<lambda>proc.
     case w of
       None \<Rightarrow>
         (let s = upd_proc proc (\<lambda>p. p\<lparr>p_status := BLOCKED, p_queue_next := None\<rparr>) s
          in bnd (arr_set sem (Some proc) (waiting_queue s)) (\<lambda>ws. Inr (unlock_queue (s\<lparr>waiting_queue := ws\<rparr>))))
     | Some q0 \<Rightarrow>
         bnd (of_loop (queue_scan (procs s) proc q0)) (\<lambda>(found, p).
         if found \<or> p = proc then Inr (unlock_queue s)
         else Inr (unlock_queue (upd_proc proc (\<lambda>q. q\<lparr>p_status := BLOCKED, p_queue_next := None\<rparr>)
                     (upd_proc p (\<lambda>q. q\<lparr>p_queue_next := Some proc\<rparr>) s)))))))"

definition waiting_queue_pop :: "int \<Rightarrow> 'a kern_scheme \<Rightarrow> (nat \<times> 'a kern_scheme) res" where
  "waiting_queue_pop sem s =
     bnd (lock_queue s) (\<lambda>s.
     bnd (arr_get (waiting_queue s) sem) (\<lambda>w.
     bnd (deref w) (\<lambda>ret.
     bnd (arr_set sem (p_queue_next (procs s ret)) (waiting_queue s)) (\<lambda>ws.
     Inr (ret, unlock_queue (s\<lparr>waiting_queue := ws\<rparr>))))))"

definition sem_init :: "int \<Rightarrow> 'a kern_scheme \<Rightarrow> (int \<times> 'a kern_scheme) res" where
  "sem_init val s =
     bnd (of_loop (spinlock_lock (cnt_lock s))) (\<lambda>l.
     bnd (arr_set (sem_cnt s) val (sems s)) (\<lambda>ss.
     Inr (sem_cnt s, s\<lparr>sems := ss, sem_cnt := sem_cnt s + 1, cnt_lock := spinlock_unlock l\<rparr>)))"

definition lock_sem :: "int \<Rightarrow> 'a kern_scheme \<Rightarrow> 'a kern_scheme res" where
  "lock_sem sem s =
     bnd (arr_get (sem_lock s) sem) (\<lambda>l.
     bnd (of_loop (spinlock_lock l)) (\<lambda>l.
     bnd (arr_set sem l (sem_lock s)) (\<lambda>ls. Inr (s\<lparr>sem_lock := ls\<rparr>))))"

definition unlock_sem :: "int \<Rightarrow> 'a kern_scheme \<Rightarrow> 'a kern_scheme res" where
  "unlock_sem sem s =
     bnd (arr_get (sem_lock s) sem) (\<lambda>l.
     bnd (arr_set sem (spinlock_unlock l) (sem_lock s)) (\<lambda>ls. Inr (s\<lparr>sem_lock := ls\<rparr>)))"

text \<open>Adding to a semaphore; the value is a C \<^verbatim>\<open>int\<close>.\<close>

definition add_sem :: "int \<Rightarrow> int \<Rightarrow> 'a kern_scheme \<Rightarrow> (int \<times> 'a kern_scheme) res" where
  "add_sem sem d s =
     bnd (arr_get (sems s) sem) (\<lambda>v.
     if v + d < - (2 ^ 31) \<or> v + d \<ge> 2 ^ 31 then Inl (Undefined ''signed overflow'')
     else bnd (arr_set sem (v + d) (sems s)) (\<lambda>ss. Inr (v + d, s\<lparr>sems := ss\<rparr>)))"

definition acquire :: "nat \<Rightarrow> uint64 \<Rightarrow> 'a kern_scheme \<Rightarrow> (unit ctl \<times> 'a kern_scheme) res" where
  "acquire hid sem s =
     (let sem = uint sem
      in bnd (lock_sem sem s) (\<lambda>s.
         bnd (add_sem sem (- 1) s) (\<lambda>(v, s).
         if v < 0
         then bnd (waiting_queue_push (current s hid) sem s) (\<lambda>s.
              bnd (unlock_sem sem s) (\<lambda>s.
              bnd (schedule hid s) (\<lambda>s. Inr (Switched, s))))
         else bnd (unlock_sem sem s) (\<lambda>s. Inr (Ret (), s)))))"

definition release :: "uint64 \<Rightarrow> 'a kern_scheme \<Rightarrow> 'a kern_scheme res" where
  "release sem s =
     (let sem = uint sem
      in bnd (lock_sem sem s) (\<lambda>s.
         bnd (add_sem sem 1 s) (\<lambda>(v, s).
         bnd (if v \<le> 0
              then bnd (unlock_sem sem s) (\<lambda>s.
                   bnd (waiting_queue_pop sem s) (\<lambda>(p, s).
                   insert_to_ready_queue p (upd_proc p (\<lambda>q. q\<lparr>p_status := READY\<rparr>) s)))
              else Inr s) (unlock_sem sem))))"

section \<open>Process states\<close>

definition init_proc_pool :: "process \<Rightarrow> 'a kern_scheme \<Rightarrow> 'a kern_scheme" where
  "init_proc_pool zero s =
     s\<lparr>procs := (\<lambda>i. if i < NPROC then zero\<lparr>p_status := FREE, p_pid := of_nat i\<rparr> else procs s i)\<rparr>"

definition wakeup :: "proc_ptr \<Rightarrow> 'a kern_scheme \<Rightarrow> 'a kern_scheme res" where
  "wakeup p s =
     (case p of
        None \<Rightarrow> Inr s
      | Some p \<Rightarrow> if p_status (procs s p) = BLOCKED
                  then insert_to_ready_queue p (upd_proc p (\<lambda>q. q\<lparr>p_status := READY\<rparr>) s)
                  else Inr s)"

definition free_process :: "nat \<Rightarrow> 'a kern_scheme \<Rightarrow> (int \<times> 'a kern_scheme) res" where
  "free_process proc s =
     (let s = upd_proc proc (\<lambda>q. q\<lparr>p_status := ZOMBIE\<rparr>) s
      in bnd (wakeup (p_parent (procs s proc)) s) (\<lambda>s. Inr (0, s)))"

text \<open>The current process gives up the hart in state \<open>st\<close>.\<close>

definition block_current :: "nat \<Rightarrow> 'a kern_scheme \<Rightarrow> 'a kern_scheme res" where
  "block_current hid s =
     bnd (deref (current s hid)) (\<lambda>c. schedule hid (upd_proc c (\<lambda>q. q\<lparr>p_status := BLOCKED\<rparr>) s))"

definition is_zombie_child :: "nat \<Rightarrow> 'a kern_scheme \<Rightarrow> nat \<Rightarrow> bool" where
  "is_zombie_child hid s i \<longleftrightarrow> p_parent (procs s i) = current s hid \<and> p_status (procs s i) = ZOMBIE"

definition do_wait :: "nat \<Rightarrow> int \<Rightarrow> 'a kern_scheme \<Rightarrow> (int ctl \<times> 'a kern_scheme) res" where
  "do_wait hid pid s =
     (if pid = - 1
      then (case find_slot (is_zombie_child hid s) [0..<NPROC] of
              Some i \<Rightarrow> Inr (Ret (sint (p_pid (procs s i))), upd_proc i (\<lambda>q. q\<lparr>p_status := FREE\<rparr>) s)
            | None \<Rightarrow>
                if \<forall>i < NPROC. p_parent (procs s i) \<noteq> current s hid then Inr (Ret (- 1), s)
                else bnd (block_current hid s) (\<lambda>s. Inr (Switched, s)))
      else if 0 < pid \<and> pid < int NPROC
      then (let i = nat pid
            in if is_zombie_child hid s i then Inr (Ret pid, upd_proc i (\<lambda>q. q\<lparr>p_status := FREE\<rparr>) s)
               else if p_parent (procs s i) = current s hid then bnd (block_current hid s) (\<lambda>s. Inr (Switched, s))
               else Inr (Ret (- 1), s))
      else Inr (Ret (- 1), s))"

definition sys_user_yield :: "nat \<Rightarrow> 'a kern_scheme \<Rightarrow> 'a kern_scheme res" where
  "sys_user_yield hid s =
     bnd (deref (current s hid)) (\<lambda>c.
     bnd (insert_to_ready_queue c (upd_proc c (\<lambda>q. q\<lparr>p_status := READY\<rparr>) s)) (schedule hid))"

definition handle_mtimer_trap :: "nat \<Rightarrow> 'a kern_scheme \<Rightarrow> 'a kern_scheme" where
  "handle_mtimer_trap hid s =
     s\<lparr>g_ticks := (g_ticks s)(hid := g_ticks s hid + 1),
       harts := (harts s)(hid := (harts s hid)\<lparr>sip := sip (harts s hid) AND NOT SIP_SSIP\<rparr>)\<rparr>"

definition rrsched :: "nat \<Rightarrow> 'a kern_scheme \<Rightarrow> (unit ctl \<times> 'a kern_scheme) res" where
  "rrsched hid s =
     bnd (deref (current s hid)) (\<lambda>c.
     let s = upd_proc c (\<lambda>q. q\<lparr>p_tick_count := p_tick_count q + 1\<rparr>) s
     in if p_tick_count (procs s c) \<ge> TIME_SLICE_LEN
        then bnd (insert_to_ready_queue c (upd_proc c (\<lambda>q. q\<lparr>p_tick_count := 0, p_status := READY\<rparr>) s)) (\<lambda>s.
             bnd (schedule hid s) (\<lambda>s. Inr (Switched, s)))
        else Inr (Ret (), s))"

text \<open>The branch of \<^verbatim>\<open>smode_trap_handler\<close> for a timer interrupt, and a number of them in a row.\<close>

definition timer_trap :: "nat \<Rightarrow> 'a kern_scheme \<Rightarrow> 'a kern_scheme res" where
  "timer_trap hid s =
     bnd (rrsched hid (handle_mtimer_trap hid s)) (\<lambda>(r, s).
     case r of Switched \<Rightarrow> Inr s | Ret _ \<Rightarrow> switch_to hid (current s hid) s)"

primrec timer_traps :: "nat \<Rightarrow> nat \<Rightarrow> 'a kern_scheme \<Rightarrow> 'a kern_scheme res" where
  "timer_traps 0 hid s = Inr s"
| "timer_traps (Suc n) hid s = bnd (timer_trap hid s) (timer_traps n hid)"

section \<open>Queues as lists\<close>

primrec queue :: "(nat \<Rightarrow> process) \<Rightarrow> proc_ptr \<Rightarrow> nat list \<Rightarrow> bool" where
  "queue P h [] \<longleftrightarrow> h = None"
| "queue P h (x # xs) \<longleftrightarrow> h = Some x \<and> queue P (p_queue_next (P x)) xs"

lemma queue_fun: "queue P h xs \<Longrightarrow> queue P h ys \<Longrightarrow> xs = ys"
  by (induction xs arbitrary: h ys) (case_tac [!] ys, auto)

lemma queue_suffix: "queue P h (xs @ y # ys) \<Longrightarrow> queue P (Some y) (y # ys)"
  by (induction xs arbitrary: h) auto

lemma queue_distinct: "queue P h xs \<Longrightarrow> distinct xs"
proof (induction xs arbitrary: h)
  case (Cons x xs)
  have "x \<notin> set xs"
  proof
    assume "x \<in> set xs"
    then obtain us vs where "xs = us @ x # vs" by (auto dest: split_list)
    then have "queue P (Some x) (x # vs)" "queue P (Some x) (x # us @ x # vs)"
      using Cons.prems queue_suffix [of P "p_queue_next (P x)" us x vs] by auto
    then have "x # vs = x # us @ x # vs" by (rule queue_fun)
    then have "length vs = length (us @ x # vs)" by simp
    then show False by simp
  qed
  then show ?case using Cons by auto
qed simp

lemma queue_cong: "(\<And>p. p \<in> set xs \<Longrightarrow> p_queue_next (Q p) = p_queue_next (P p)) \<Longrightarrow> queue Q h xs = queue P h xs"
  by (induction xs arbitrary: h) auto

lemma queue_upd [simp]: "c \<notin> set xs \<Longrightarrow> queue (P(c := x)) h xs = queue P h xs"
  by (rule queue_cong) auto

lemma queue_append:
  assumes "queue P h xs" "xs \<noteq> []" "p \<notin> set xs"
    "\<And>q. q \<in> set (butlast xs) \<Longrightarrow> p_queue_next (Q q) = p_queue_next (P q)" "p_queue_next (Q (List.last xs)) = Some p" "p_queue_next (Q p) = None"
  shows "queue Q h (xs @ [p])"
  using assms(1-5)
proof (induction xs arbitrary: h)
  case (Cons x xs)
  then show ?case using assms(6) by (cases "xs = []") auto
qed simp

lemma queue_scan_ok:
  assumes "queue P (Some h) xs"
  shows "queue_scan P proc h = Some (if proc \<in> set (butlast xs) then (True, proc) else (False, List.last xs))"
  using assms
proof (induction xs arbitrary: h)
  case (Cons x xs)
  show ?case
  proof (cases xs)
    case Nil
    then show ?thesis using Cons.prems by (subst queue_scan.simps) simp
  next
    case (Cons y ys)
    then show ?thesis using Cons.prems Cons.IH [of y] by (subst queue_scan.simps) (auto simp: Cons)
  qed
qed simp

text \<open>Only the state and the link of a process structure may differ.\<close>

definition same_pcbs :: "(nat \<Rightarrow> process) \<Rightarrow> (nat \<Rightarrow> process) \<Rightarrow> bool" where
  "same_pcbs P Q \<longleftrightarrow> (\<forall>p. \<exists>st nx. Q p = (P p)\<lparr>p_status := st, p_queue_next := nx\<rparr>)"

lemma same_pcb_refl: "\<exists>st nx. (q :: process) = q\<lparr>p_status := st, p_queue_next := nx\<rparr>"
  by (rule exI [of _ "p_status q"], rule exI [of _ "p_queue_next q"]) simp

lemma same_pcb_next: "\<exists>st nx. (q :: process)\<lparr>p_queue_next := y\<rparr> = q\<lparr>p_status := st, p_queue_next := nx\<rparr>"
  by (rule exI [of _ "p_status q"], rule exI [of _ y]) simp

lemma same_pcb_both: "\<exists>st nx. (q :: process)\<lparr>p_status := x, p_queue_next := y\<rparr> = q\<lparr>p_status := st, p_queue_next := nx\<rparr>"
  by (rule exI [of _ x], rule exI [of _ y]) simp

lemma same_pcbsD:
  assumes "same_pcbs P Q"
  shows "p_trapframe (Q p) = p_trapframe (P p)" "p_tick_count (Q p) = p_tick_count (P p)" "p_parent (Q p) = p_parent (P p)"
    "p_pid (Q p) = p_pid (P p)"
proof -
  obtain st nx where "Q p = (P p)\<lparr>p_status := st, p_queue_next := nx\<rparr>" using assms unfolding same_pcbs_def by blast
  then show "p_trapframe (Q p) = p_trapframe (P p)" "p_tick_count (Q p) = p_tick_count (P p)" "p_parent (Q p) = p_parent (P p)"
    "p_pid (Q p) = p_pid (P p)" by simp_all
qed

definition ready_ok :: "'a kern_scheme \<Rightarrow> nat list \<Rightarrow> bool" where
  "ready_ok s xs \<longleftrightarrow> ready_queue_lock s = 0 \<and> queue (procs s) (ready_queue_head s) xs \<and> (\<forall>p \<in> set xs. p_status (procs s p) = READY)"

text \<open>The effect of appending \<open>p\<close> to a queue whose last element is \<open>l\<close>.\<close>

definition link :: "(nat \<Rightarrow> process) \<Rightarrow> nat \<Rightarrow> nat \<Rightarrow> proc_status \<Rightarrow> nat \<Rightarrow> process" where
  "link P l p st = P(l := (P l)\<lparr>p_queue_next := Some p\<rparr>, p := (P p)\<lparr>p_status := st, p_queue_next := None\<rparr>)"

lemma link_upd_proc:
  "l \<noteq> p \<Longrightarrow> upd_proc p (\<lambda>q. q\<lparr>p_status := st, p_queue_next := None\<rparr>) (upd_proc l (\<lambda>q. q\<lparr>p_queue_next := Some p\<rparr>) s) =
     s\<lparr>procs := link (procs s) l p st\<rparr>"
  by (simp add: upd_proc_def link_def)

lemma link_ok:
  assumes q: "queue P h xs" "xs \<noteq> []" and p: "p \<notin> set xs"
  shows "queue (link P (List.last xs) p st) h (xs @ [p])" "same_pcbs P (link P (List.last xs) p st)"
    "p_status (link P (List.last xs) p st r) = (if r = p then st else p_status (P r))"
    "r \<noteq> p \<Longrightarrow> r \<noteq> List.last xs \<Longrightarrow> link P (List.last xs) p st r = P r"
proof -
  let ?l = "List.last xs"
  have ne: "?l \<noteq> p" using p last_in_set [OF q(2)] by auto
  show "queue (link P ?l p st) h (xs @ [p])"
  proof (rule queue_append [OF q p])
    fix b assume b: "b \<in> set (butlast xs)"
    have d: "distinct (butlast xs @ [?l])" using queue_distinct [OF q(1)] append_butlast_last_id [OF q(2)] by simp
    have "b \<noteq> ?l" "b \<noteq> p" using b d p in_set_butlastD [OF b] by auto
    then show "p_queue_next (link P ?l p st b) = p_queue_next (P b)" by (simp add: link_def)
  qed (use ne in \<open>simp_all add: link_def\<close>)
  show "same_pcbs P (link P ?l p st)"
    by (auto simp: same_pcbs_def link_def intro: same_pcb_refl same_pcb_next same_pcb_both)
  show "p_status (link P ?l p st r) = (if r = p then st else p_status (P r))" using ne by (simp add: link_def)
  show "r \<noteq> p \<Longrightarrow> r \<noteq> ?l \<Longrightarrow> link P ?l p st r = P r" by (simp add: link_def)
qed

lemma butlast_or_last: "p \<in> set xs \<Longrightarrow> p \<in> set (butlast xs) \<or> p = List.last xs"
  by (induction xs) (auto split: if_splits)

lemma insert_ready_ok:
  assumes r: "ready_ok s xs"
  shows "\<exists>h P. insert_to_ready_queue p s = Inr (s\<lparr>ready_queue_head := h, procs := P\<rparr>) \<and> same_pcbs (procs s) P \<and>
    (\<forall>q. q \<notin> set (p # xs) \<longrightarrow> P q = procs s q) \<and>
    ready_ok (s\<lparr>ready_queue_head := h, procs := P\<rparr>) (if p \<in> set xs then xs else xs @ [p])"
proof -
  have lock: "lock_ready s = Inr (s\<lparr>ready_queue_lock := - 1\<rparr>)" using r by (simp add: lock_ready_def ready_ok_def)
  have l0: "ready_queue_lock s = 0" and q: "queue (procs s) (ready_queue_head s) xs" and st: "\<forall>p \<in> set xs. p_status (procs s p) = READY"
    using r by (simp_all add: ready_ok_def)
  have s0: "s\<lparr>ready_queue_lock := 0\<rparr> = s" using l0 by simp
  show ?thesis
  proof (cases xs)
    case Nil
    let ?P = "(procs s)(p := (procs s p)\<lparr>p_status := READY, p_queue_next := None\<rparr>)"
    have "insert_to_ready_queue p s = Inr (s\<lparr>ready_queue_head := Some p, procs := ?P\<rparr>)"
      using lock q Nil l0 by (simp add: insert_to_ready_queue_def unlock_ready_def spinlock_unlock_def upd_proc_def)
    moreover have "same_pcbs (procs s) ?P" by (auto simp: same_pcbs_def intro: same_pcb_refl)
    ultimately show ?thesis using Nil l0 by (intro exI [of _ "Some p"] exI [of _ ?P]) (simp add: ready_ok_def)
  next
    case (Cons x ys)
    then have sc: "queue_scan (procs s) p x = Some (if p \<in> set (butlast xs) then (True, p) else (False, List.last xs))"
      using q queue_scan_ok [of "procs s" x xs p] by auto
    show ?thesis
    proof (cases "p \<in> set xs")
      case True
      then have "insert_to_ready_queue p s = Inr s"
        using lock q Cons sc s0 butlast_or_last [OF True] by (auto simp: insert_to_ready_queue_def unlock_ready_def spinlock_unlock_def)
      then show ?thesis using True r by (intro exI [of _ "ready_queue_head s"] exI [of _ "procs s"]) (simp add: same_pcbs_def same_pcb_refl)
    next
      case False
      let ?P = "link (procs s) (List.last xs) p READY"
      have ne: "xs \<noteq> []" "List.last xs \<noteq> p" using Cons False last_in_set [of xs] by auto
      have "p \<notin> set (butlast xs)" using False in_set_butlastD by fast
      then have "insert_to_ready_queue p s = Inr (s\<lparr>ready_queue_head := ready_queue_head s, procs := ?P\<rparr>)"
        using lock q Cons sc s0 ne by (simp add: insert_to_ready_queue_def unlock_ready_def spinlock_unlock_def link_upd_proc)
      moreover have "r \<notin> set (p # xs) \<Longrightarrow> ?P r = procs s r" for r
        using link_ok(4) [OF q ne(1) False, of r] last_in_set [OF ne(1)] by auto
      ultimately show ?thesis using False st l0 link_ok(1-3) [OF q ne(1) False, where st=READY]
        by (intro exI [of _ "ready_queue_head s"] exI [of _ ?P]) (auto simp: ready_ok_def)
    qed
  qed
qed

section \<open>Switching and scheduling\<close>

text \<open>\<^verbatim>\<open>switch_to\<close> enters the process at its saved program counter with its saved registers and its page table.\<close>

lemma switch_to_ok:
  assumes f: "frame_at (p_trapframe (procs s p))"
  shows "\<exists>h m. switch_to hid (Some p) s =
      Inr (s\<lparr>current := (current s)(hid := Some p), harts := (harts s)(hid := h), kmm := (kmm s)\<lparr>ram := m\<rparr>\<rparr>) \<and>
    pc h = load64 (ram (kmm s)) (p_trapframe (procs s p) + 264) \<and> satp h = MAKE_SATP (p_pagetable (procs s p)) \<and>
    sscratch h = p_trapframe (procs s p) \<and> stvec h = smode_trap_vector_sym s \<and>
    (\<forall>r. xr h r = load64 (ram (kmm s)) (p_trapframe (procs s p) + the (map_of slots r)))"
proof -
  let ?tf = "p_trapframe (procs s p)" and ?m = "ram (kmm s)"
  define m where "m = store64 (store64 (store64 ?m (?tf + 248) (p_kstack (procs s p))) (?tf + 272) (satp (harts s hid))) (?tf + 256) (smode_trap_handler_sym s)"
  have sl: "slot_ok 248" "slot_ok 256" "slot_ok 264" "slot_ok 272" by (simp_all add: slot_ok_def)
  have L: "load64 m (?tf + off) = load64 ?m (?tf + off)" if "slot_ok off" "off \<noteq> 248" "off \<noteq> 256" "off \<noteq> 272" for off
    using that f sl by (simp add: m_def store_slot)
  have slot: "slot_ok (the (map_of slots r)) \<and> the (map_of slots r) < 248" for r
    by (cases r) (simp_all add: slots_def slot_ok_def)
  have R: "load64 m (?tf + the (map_of slots r)) = load64 ?m (?tf + the (map_of slots r))" for r
    using slot [of r] by (intro L) auto
  define h where "h = set_reg A1 (MAKE_SATP (p_pagetable (procs s p))) (set_reg A0 ?tf ((harts s hid)\<lparr>stvec := smode_trap_vector_sym s,
     sstatus := (sstatus (harts s hid) AND NOT SSTATUS_SPP) OR SSTATUS_SPIE, sepc := load64 ?m (?tf + 264)\<rparr>))"
  have ru: "return_to_user (h, m) = Inr (h\<lparr>xr := (\<lambda>r. load64 m (?tf + the (map_of slots r))), satp := MAKE_SATP (p_pagetable (procs s p)),
      sscratch := ?tf, pc := load64 ?m (?tf + 264)\<rparr>, m)"
    using return_to_user_ok [of h m] f by (simp add: h_def)
  have "switch_to hid (Some p) s = bnd (return_to_user (h, m)) (\<lambda>(h, m).
      Inr (s\<lparr>current := (current s)(hid := Some p), harts := (harts s)(hid := h), kmm := (kmm s)\<lparr>ram := m\<rparr>\<rparr>))"
    using f sl L [of 264] by (simp add: switch_to_def slot_cell Let_def h_def flip: m_def)
  then show ?thesis unfolding ru using R by (simp add: h_def) (auto simp: set_reg_def)
qed

lemma schedule_ok:
  assumes r: "ready_ok s (p # xs)" and f: "frame_at (p_trapframe (procs s p))"
  shows "\<exists>h m. schedule hid s = Inr (s\<lparr>current := (current s)(hid := Some p), harts := (harts s)(hid := h), kmm := (kmm s)\<lparr>ram := m\<rparr>,
      ready_queue_head := p_queue_next (procs s p), procs := (procs s)(p := (procs s p)\<lparr>p_status := RUNNING\<rparr>)\<rparr>) \<and>
    pc h = load64 (ram (kmm s)) (p_trapframe (procs s p) + 264) \<and> satp h = MAKE_SATP (p_pagetable (procs s p)) \<and>
    sscratch h = p_trapframe (procs s p)"
proof -
  let ?s = "s\<lparr>current := (current s)(hid := Some p), ready_queue_head := p_queue_next (procs s p),
    procs := (procs s)(p := (procs s p)\<lparr>p_status := RUNNING\<rparr>)\<rparr>"
  have "frame_at (p_trapframe (procs ?s p))" using f by simp
  from switch_to_ok [OF this, of hid] obtain h m where
    "switch_to hid (Some p) ?s = Inr (?s\<lparr>current := (current ?s)(hid := Some p), harts := (harts ?s)(hid := h), kmm := (kmm ?s)\<lparr>ram := m\<rparr>\<rparr>)"
    "pc h = load64 (ram (kmm s)) (p_trapframe (procs s p) + 264)" "satp h = MAKE_SATP (p_pagetable (procs s p))"
    "sscratch h = p_trapframe (procs s p)" by auto
  moreover have e: "s\<lparr>current := (current s)(hid := Some p), ready_queue_head := p_queue_next (procs s p), ready_queue_lock := 0,
    procs := (procs s)(p := (procs s p)\<lparr>p_status := RUNNING\<rparr>)\<rparr> = ?s" using r by (simp add: ready_ok_def)
  have "schedule hid s = switch_to hid (Some p) ?s"
    using r unfolding e [symmetric] by (simp add: schedule_def lock_ready_def ready_ok_def unlock_ready_def spinlock_unlock_def upd_proc_def)
  ultimately show ?thesis by (intro exI [of _ h] exI [of _ m]) simp
qed

text \<open>The scheduler on one hart: \<open>c\<close> is running and \<open>xs\<close> wait in the ready queue; each has a trapframe.\<close>

definition sched_ok :: "nat \<Rightarrow> 'a kern_scheme \<Rightarrow> nat \<Rightarrow> nat list \<Rightarrow> bool" where
  "sched_ok hid s c xs \<longleftrightarrow> ready_ok s xs \<and> current s hid = Some c \<and> c \<notin> set xs \<and> (\<forall>p \<in> set (c # xs). frame_at (p_trapframe (procs s p)))"

lemma requeue_ok:
  assumes k: "sched_ok hid s c xs" and g: "\<And>q. \<exists>st. g q = q\<lparr>p_tick_count := t, p_status := st\<rparr>"
  shows "\<exists>s'. bnd (insert_to_ready_queue c (upd_proc c g s)) (schedule hid) = Inr s' \<and>
    sched_ok hid s' (hd (xs @ [c])) (tl (xs @ [c])) \<and> p_status (procs s' (hd (xs @ [c]))) = RUNNING \<and>
    p_tick_count (procs s' c) = t \<and> (\<forall>q. q \<noteq> c \<longrightarrow> p_tick_count (procs s' q) = p_tick_count (procs s q))"
proof -
  have c: "ready_ok s xs" "current s hid = Some c" "c \<notin> set xs" "\<forall>p \<in> set (c # xs). frame_at (p_trapframe (procs s p))"
    using k by (simp_all add: sched_ok_def)
  let ?u = "upd_proc c g s"
  obtain st where st: "g (procs s c) = (procs s c)\<lparr>p_tick_count := t, p_status := st\<rparr>" using g by blast
  have "ready_ok ?u xs" using c(1,3) by (auto simp: ready_ok_def upd_proc_def)
  from insert_ready_ok [OF this, of c] c(3) obtain h P where
    i: "insert_to_ready_queue c ?u = Inr (?u\<lparr>ready_queue_head := h, procs := P\<rparr>)" "same_pcbs (procs ?u) P"
    "ready_ok (?u\<lparr>ready_queue_head := h, procs := P\<rparr>) (xs @ [c])" by auto
  let ?v = "?u\<lparr>ready_queue_head := h, procs := P\<rparr>"
  obtain p ys where py: "xs @ [c] = p # ys" by (cases xs) auto
  have tf: "p_trapframe (P q) = p_trapframe (procs s q)" "p_tick_count (P q) = (if q = c then t else p_tick_count (procs s q))" for q
    using same_pcbsD [OF i(2), of q] st by (auto simp: upd_proc_def)
  have set: "set (p # ys) = set (c # xs)" using py [symmetric] by simp
  have c4: "\<forall>q \<in> set (p # ys). frame_at (p_trapframe (procs s q))" unfolding set by (rule c(4))
  then have fp: "frame_at (p_trapframe (procs ?v p))" by (simp add: tf)
  have rv: "ready_ok ?v (p # ys)" using i(3) py by simp
  from schedule_ok [OF rv fp, of hid] obtain hh m where
    s': "schedule hid ?v = Inr (?v\<lparr>current := (current ?v)(hid := Some p), harts := (harts ?v)(hid := hh), kmm := (kmm ?v)\<lparr>ram := m\<rparr>,
      ready_queue_head := p_queue_next (P p), procs := P(p := (P p)\<lparr>p_status := RUNNING\<rparr>)\<rparr>)" by auto
  define s' where "s' = ?v\<lparr>current := (current ?v)(hid := Some p), harts := (harts ?v)(hid := hh), kmm := (kmm ?v)\<lparr>ram := m\<rparr>,
      ready_queue_head := p_queue_next (P p), procs := P(p := (P p)\<lparr>p_status := RUNNING\<rparr>)\<rparr>"
  have "queue P h (p # ys)" using rv by (simp add: ready_ok_def)
  then have pn: "p \<notin> set ys" using queue_distinct by fastforce
  have "ready_ok s' ys" using rv pn by (auto simp: ready_ok_def s'_def)
  then have "sched_ok hid s' p ys" using pn c4 by (auto simp: sched_ok_def s'_def tf)
  then show ?thesis using i(1) s' py by (intro exI [of _ s']) (auto simp: tf s'_def)
qed

section \<open>Round robin\<close>

lemma sched_ok_frame:
  assumes "sched_ok hid s c xs" "procs s' = (procs s)(c := x)" "p_trapframe x = p_trapframe (procs s c)"
    "ready_queue_head s' = ready_queue_head s" "ready_queue_lock s' = ready_queue_lock s" "current s' = current s"
  shows "sched_ok hid s' c xs"
  using assms by (auto simp: sched_ok_def ready_ok_def)

text \<open>The state of round-robin scheduling: the running process has used \<open>t\<close> ticks and the others none.\<close>

definition rr_ok :: "nat \<Rightarrow> 'a kern_scheme \<Rightarrow> nat list \<Rightarrow> nat \<Rightarrow> bool" where
  "rr_ok hid s L t \<longleftrightarrow> L \<noteq> [] \<and> sched_ok hid s (hd L) (tl L) \<and> p_tick_count (procs s (hd L)) = int t \<and> t < 2 \<and>
     (\<forall>p \<in> set (tl L). p_tick_count (procs s p) = 0)"

lemma timer_trap_ok:
  assumes r: "rr_ok hid s L t"
  shows "\<exists>s'. timer_trap hid s = Inr s' \<and> rr_ok hid s' (rotate ((t + 1) div 2) L) ((t + 1) mod 2)"
proof -
  obtain c xs where L: "L = c # xs" using r by (cases L) (auto simp: rr_ok_def)
  have k: "sched_ok hid s c xs" "p_tick_count (procs s c) = int t" "t < 2" "\<forall>p \<in> set xs. p_tick_count (procs s p) = 0"
    using r by (simp_all add: rr_ok_def L)
  let ?s = "handle_mtimer_trap hid s"
  have s: "procs ?s = procs s" "current ?s = current s" by (simp_all add: handle_mtimer_trap_def)
  have kc: "current s hid = Some c" "c \<notin> set xs" "frame_at (p_trapframe (procs s c))" using k(1) by (simp_all add: sched_ok_def)
  have ks: "sched_ok hid ?s c xs" by (rule sched_ok_frame [OF k(1), where x="procs s c"]) (simp_all add: handle_mtimer_trap_def)
  show ?thesis
  proof (cases t)
    case 0
    let ?u = "upd_proc c (\<lambda>q. q\<lparr>p_tick_count := p_tick_count q + 1\<rparr>) ?s"
    have rr: "rrsched hid ?s = Inr (Ret (), ?u)" using k(2) 0 kc by (simp add: rrsched_def s upd_proc_def)
    have "frame_at (p_trapframe (procs ?u c))" using kc by (simp add: upd_proc_def s)
    from switch_to_ok [OF this, of hid] obtain h m where
      sw: "switch_to hid (Some c) ?u = Inr (?u\<lparr>current := (current ?u)(hid := Some c), harts := (harts ?u)(hid := h), kmm := (kmm ?u)\<lparr>ram := m\<rparr>\<rparr>)" by auto
    let ?v = "?u\<lparr>current := (current ?u)(hid := Some c), harts := (harts ?u)(hid := h), kmm := (kmm ?u)\<lparr>ram := m\<rparr>\<rparr>"
    have cu: "current ?u = current s" by (simp add: upd_proc_def s)
    have "sched_ok hid ?v c xs"
      by (rule sched_ok_frame [OF k(1), where x="(procs s c)\<lparr>p_tick_count := p_tick_count (procs s c) + 1\<rparr>"])
         (use kc in \<open>auto simp: upd_proc_def handle_mtimer_trap_def\<close>)
    then have "rr_ok hid ?v L 1" using k(2,4) 0 kc by (auto simp: rr_ok_def L upd_proc_def s)
    then show ?thesis using rr sw 0 kc(1) cu by (intro exI [of _ ?v]) (simp add: timer_trap_def)
  next
    case (Suc t')
    let ?g = "\<lambda>q. (q\<lparr>p_tick_count := p_tick_count q + 1\<rparr>)\<lparr>p_tick_count := 0, p_status := READY\<rparr>"
    have u: "upd_proc c (\<lambda>q. q\<lparr>p_tick_count := 0, p_status := READY\<rparr>) (upd_proc c (\<lambda>q. q\<lparr>p_tick_count := p_tick_count q + 1\<rparr>) ?s) = upd_proc c ?g ?s"
      by (simp add: upd_proc_def)
    have g: "\<exists>st. ?g q = q\<lparr>p_tick_count := 0, p_status := st\<rparr>" for q by (rule exI [of _ READY]) simp
    obtain s' where s': "bnd (insert_to_ready_queue c (upd_proc c ?g ?s)) (schedule hid) = Inr s'"
      "sched_ok hid s' (hd (xs @ [c])) (tl (xs @ [c]))" "p_tick_count (procs s' c) = 0"
      "\<forall>q. q \<noteq> c \<longrightarrow> p_tick_count (procs s' q) = p_tick_count (procs ?s q)"
      using requeue_ok [OF ks g] by blast
    have z: "p_tick_count (procs s' q) = 0" if "q \<in> set (c # xs)" for q using that s'(3,4) k(4) s by (cases "q = c") auto
    have "rr_ok hid s' (xs @ [c]) 0" using s'(2) z by (cases xs) (auto simp: rr_ok_def)
    moreover have "rrsched hid ?s = bnd (insert_to_ready_queue c (upd_proc c ?g ?s)) (\<lambda>s. bnd (schedule hid s) (\<lambda>s. Inr (Switched, s)))"
      using k(2) Suc kc by (simp add: rrsched_def s u [symmetric]) (simp add: upd_proc_def s)
    then have "rrsched hid ?s = bnd (bnd (insert_to_ready_queue c (upd_proc c ?g ?s)) (schedule hid)) (\<lambda>s. Inr (Switched, s))"
      by (simp add: bnd_assoc)
    ultimately show ?thesis using s'(1) Suc k(3) by (intro exI [of _ s']) (simp add: timer_trap_def L)
  qed
qed

lemma timer_traps_ok:
  assumes "rr_ok hid s L t"
  shows "\<exists>s'. timer_traps n hid s = Inr s' \<and> rr_ok hid s' (rotate ((n + t) div 2) L) ((n + t) mod 2)"
  using assms
proof (induction n arbitrary: s L t)
  case 0
  then show ?case by (simp add: rr_ok_def)
next
  case (Suc n)
  obtain s1 where s1: "timer_trap hid s = Inr s1" "rr_ok hid s1 (rotate ((t + 1) div 2) L) ((t + 1) mod 2)"
    using timer_trap_ok [OF Suc.prems] by blast
  obtain s2 where "timer_traps n hid s1 = Inr s2"
    "rr_ok hid s2 (rotate ((n + (t + 1) mod 2) div 2) (rotate ((t + 1) div 2) L)) ((n + (t + 1) mod 2) mod 2)"
    using Suc.IH [OF s1(2)] by blast
  moreover have "(n + (t + 1) mod 2) div 2 + (t + 1) div 2 = (Suc n + t) div 2" "(n + (t + 1) mod 2) mod 2 = (Suc n + t) mod 2" by presburger+
  ultimately show ?case using s1(1) by (simp add: rotate_rotate)
qed

text \<open>
  C32. Round-robin scheduling is live: when the processes in the ready queue and the running one have their
  trapframes, and only timer interrupts arrive, every process \<open>p\<close> of the queue is running after at most two interrupts for
  each process in the queue. No interrupt on the way panics or loops.
\<close>

theorem round_robin_live:
  assumes "rr_ok hid s (c # xs) t" "p \<in> set xs"
  shows "\<exists>n s'. n \<le> 2 * length xs \<and> timer_traps n hid s = Inr s' \<and> current s' hid = Some p"
proof -
  obtain i where i: "i < length xs" "xs ! i = p" using assms(2) by (auto simp: in_set_conv_nth)
  have t: "t < 2" using assms(1) by (simp add: rr_ok_def)
  let ?n = "2 * Suc i - t"
  have n: "(?n + t) div 2 = Suc i" "?n \<le> 2 * length xs" using t i(1) by auto
  obtain s' where s': "timer_traps ?n hid s = Inr s'" "rr_ok hid s' (rotate (Suc i) (c # xs)) ((?n + t) mod 2)"
    using timer_traps_ok [OF assms(1), of ?n] n(1) by metis
  have "hd (rotate (Suc i) (c # xs)) = p" using i hd_rotate_conv_nth [of "c # xs" "Suc i"] by simp
  then show ?thesis using s' n(2) by (intro exI [of _ ?n] exI [of _ s']) (simp add: rr_ok_def sched_ok_def)
qed

text \<open>
  The ready queue is first in, first out: a process that is not queued is put behind those that are, in state READY,
  and \<^verbatim>\<open>schedule\<close> takes the oldest one, makes it the running process of the hart and
  enters it at its saved program counter with its page table and trapframe. A process that is queued already is
  not queued twice.
\<close>

theorem ready_queue_fifo:
  assumes r: "ready_ok s xs" and f: "\<forall>q \<in> set (xs @ [p]). frame_at (p_trapframe (procs s q))"
  shows "\<exists>s1. insert_to_ready_queue p s = Inr s1 \<and> ready_ok s1 (if p \<in> set xs then xs else xs @ [p]) \<and>
    (p \<notin> set xs \<longrightarrow> (\<exists>s2. schedule hid s1 = Inr s2 \<and> ready_ok s2 (tl (xs @ [p])) \<and> current s2 hid = Some (hd (xs @ [p])) \<and>
      p_status (procs s2 (hd (xs @ [p]))) = RUNNING \<and>
      pc (harts s2 hid) = load64 (ram (kmm s)) (p_trapframe (procs s (hd (xs @ [p]))) + 264) \<and>
      sscratch (harts s2 hid) = p_trapframe (procs s (hd (xs @ [p])))))"
proof -
  obtain h P where i: "insert_to_ready_queue p s = Inr (s\<lparr>ready_queue_head := h, procs := P\<rparr>)" "same_pcbs (procs s) P"
    "ready_ok (s\<lparr>ready_queue_head := h, procs := P\<rparr>) (if p \<in> set xs then xs else xs @ [p])"
    using insert_ready_ok [OF r, of p] by blast
  let ?v = "s\<lparr>ready_queue_head := h, procs := P\<rparr>"
  have "\<exists>s2. schedule hid ?v = Inr s2 \<and> ready_ok s2 (tl (xs @ [p])) \<and> current s2 hid = Some (hd (xs @ [p])) \<and>
      p_status (procs s2 (hd (xs @ [p]))) = RUNNING \<and>
      pc (harts s2 hid) = load64 (ram (kmm s)) (p_trapframe (procs s (hd (xs @ [p]))) + 264) \<and>
      sscratch (harts s2 hid) = p_trapframe (procs s (hd (xs @ [p])))" if n: "p \<notin> set xs"
  proof -
    obtain c ys where cy: "xs @ [p] = c # ys" by (cases xs) auto
    have rv: "ready_ok ?v (c # ys)" using i(3) n cy by simp
    have tf: "p_trapframe (P c) = p_trapframe (procs s c)" by (rule same_pcbsD [OF i(2)])
    have "frame_at (p_trapframe (procs ?v c))" using f unfolding cy by (simp add: tf)
    from schedule_ok [OF rv this, of hid] obtain hh m where
      s': "schedule hid ?v = Inr (?v\<lparr>current := (current ?v)(hid := Some c), harts := (harts ?v)(hid := hh), kmm := (kmm ?v)\<lparr>ram := m\<rparr>,
        ready_queue_head := p_queue_next (P c), procs := P(c := (P c)\<lparr>p_status := RUNNING\<rparr>)\<rparr>)"
      "pc hh = load64 (ram (kmm s)) (p_trapframe (procs s c) + 264)" "sscratch hh = p_trapframe (procs s c)" by (auto simp: tf)
    have "queue P h (c # ys)" using rv by (simp add: ready_ok_def)
    then have "c \<notin> set ys" using queue_distinct by fastforce
    then show ?thesis using s' rv cy by (auto simp: ready_ok_def)
  qed
  then show ?thesis using i(1,3) by blast
qed

section \<open>Witnesses\<close>

text \<open>Process 0 runs on hart 0, with one tick used, and processes 1 and 2 are in the ready queue.\<close>

definition ex_process :: process where
  "ex_process = \<lparr>p_kstack = 0, p_pagetable = 0, p_trapframe = 0x80100000, p_mapped_info = 0, p_total_mapped_region = 0,
     p_user_heap = \<lparr>heap_top = 0x400000, heap_bottom = 0x400000, free_pages_address = replicate 32 0, free_pages_count = 0\<rparr>,
     p_pid = 0, p_status = FREE, p_parent = None, p_queue_next = None, p_tick_count = 0, p_pfiles = 0, p_debugline = 0, p_dir = 0,
     p_file = 0, p_line = 0, p_line_ind = 0, p_first_free_block = 0, p_is_child = 0\<rparr>"

definition ex_hart :: hart where
  "ex_hart = \<lparr>xr = (\<lambda>_. 0), pc = 0, satp = 0, sscratch = 0, sepc = 0, scause = 0, stval = 0, sstatus = 0, stvec = 0, sip = 0,
     mscratch = 0, mepc = 0, mcause = 0, mtimecmp = 0\<rparr>"

definition ex_kern :: kern where
  "ex_kern = \<lparr>kmm = ex_pmm, harts = (\<lambda>_. ex_hart),
     procs = (\<lambda>_. ex_process)(0 := ex_process\<lparr>p_status := RUNNING, p_tick_count := 1\<rparr>,
       1 := ex_process\<lparr>p_status := READY, p_pid := 1, p_queue_next := Some 2, p_parent := Some 0\<rparr>, 2 := ex_process\<lparr>p_status := READY, p_pid := 2\<rparr>),
     current = (\<lambda>h. if h = 0 then Some 0 else None), ready_queue_head = Some 1, ready_queue_lock = 0,
     sems = replicate 100 0, sem_cnt = 1, waiting_queue = replicate 100 None, sem_lock = replicate 100 0, cnt_lock = 0, queue_lock = 0,
     g_ticks = (\<lambda>_. 0), child_running = 0, smode_trap_vector_sym = 0x80002000, smode_trap_handler_sym = 0x80003000, trap_sec_start = 0x80002000\<rparr>"

lemma ex_frame: "p_trapframe (procs ex_kern p) = 0x80100000" "frame_at 0x80100000"
  by (simp_all add: ex_kern_def ex_process_def frame_at_def ram_ok_def)

lemma ex_ready: "ready_ok ex_kern [1, 2]"
  by (simp add: ready_ok_def ex_kern_def ex_process_def)

lemma ex_sched: "sched_ok 0 ex_kern 0 [1, 2]"
  using ex_ready by (simp add: sched_ok_def ex_frame) (simp add: ex_kern_def)

lemma ex_rr: "rr_ok 0 ex_kern [0, 1, 2] 1"
  using ex_sched by (simp add: rr_ok_def) (simp add: ex_kern_def ex_process_def)

theorem round_robin_live_witness:
  "\<exists>n s'. n \<le> 4 \<and> timer_traps n 0 ex_kern = Inr s' \<and> current s' 0 = Some 2"
  using round_robin_live [OF ex_rr, of 2] by simp

theorem ready_queue_fifo_witness:
  "\<exists>s1 s2. insert_to_ready_queue 3 ex_kern = Inr s1 \<and> ready_ok s1 [1, 2, 3] \<and> schedule 0 s1 = Inr s2 \<and> current s2 0 = Some 1"
  using ready_queue_fifo [OF ex_ready, of 3 0] by (fastforce simp: ex_frame)

end
