(* ===== verification/Semaphores.thy ===== *)
theory Semaphores
  imports Sched
begin

text \<open>
  The semaphores of \<^verbatim>\<open>kernel/sched.c\<close> against an abstract counting semaphore: the running process, the list of ready
  processes, the list of waiting processes and the value. \<^verbatim>\<open>__acquire\<close> and \<^verbatim>\<open>__release\<close> implement its two
  operations. \<^verbatim>\<open>do_wait\<close> of \<^verbatim>\<open>kernel/process.c\<close> is compared with its description.
\<close>

section \<open>Abstract semaphores\<close>

type_synonym asem = "nat \<times> nat list \<times> nat list \<times> int"

definition sem_P :: "asem \<Rightarrow> asem" where
  "sem_P a = (case a of (c, xs, ws, v) \<Rightarrow> if 0 < v then (c, xs, ws, v - 1) else (hd xs, tl xs, ws @ [c], v - 1))"

definition sem_V :: "asem \<Rightarrow> asem" where
  "sem_V a = (case a of (c, xs, ws, v) \<Rightarrow> if v < 0 then (c, xs @ [hd ws], tl ws, v + 1) else (c, xs, ws, v + 1))"

definition waiting_ok :: "'a kern_scheme \<Rightarrow> nat \<Rightarrow> nat list \<Rightarrow> bool" where
  "waiting_ok s sem ws \<longleftrightarrow> sem < 100 \<and> length (waiting_queue s) = 100 \<and> queue_lock s = 0 \<and>
     queue (procs s) (waiting_queue s ! sem) ws \<and> (\<forall>p \<in> set ws. p_status (procs s p) = BLOCKED)"

definition value_ok :: "'a kern_scheme \<Rightarrow> nat \<Rightarrow> int \<Rightarrow> bool" where
  "value_ok s sem v \<longleftrightarrow> length (sems s) = 100 \<and> length (sem_lock s) = 100 \<and> sem_lock s ! sem = 0 \<and> sems s ! sem = v"

definition sem_rel :: "nat \<Rightarrow> 'a kern_scheme \<Rightarrow> nat \<Rightarrow> asem \<Rightarrow> bool" where
  "sem_rel hid s sem a \<longleftrightarrow> (case a of (c, xs, ws, v) \<Rightarrow>
     sched_ok hid s c xs \<and> waiting_ok s sem ws \<and> value_ok s sem v \<and> set ws \<inter> set (c # xs) = {} \<and>
     (\<forall>p \<in> set ws. frame_at (p_trapframe (procs s p))) \<and> length ws = nat (- v) \<and> - (2 ^ 31) < v \<and> v < 2 ^ 31 - 1)"

section \<open>The waiting queue\<close>

lemma waiting_push_ok:
  assumes w: "waiting_ok s sem ws" and c: "c \<notin> set ws"
  shows "\<exists>W P. waiting_queue_push (Some c) (int sem) s = Inr (s\<lparr>waiting_queue := W, procs := P\<rparr>) \<and> same_pcbs (procs s) P \<and>
    (\<forall>r. r \<notin> set (c # ws) \<longrightarrow> P r = procs s r) \<and> waiting_ok (s\<lparr>waiting_queue := W, procs := P\<rparr>) sem (ws @ [c])"
proof -
  let ?W = "waiting_queue s"
  have W: "sem < 100" "length ?W = 100" "queue_lock s = 0" "queue (procs s) (?W ! sem) ws" "\<forall>p \<in> set ws. p_status (procs s p) = BLOCKED"
    using w by (simp_all add: waiting_ok_def)
  have lock: "lock_queue s = Inr (s\<lparr>queue_lock := - 1\<rparr>)" using W(3) by (simp add: lock_queue_def)
  have s0: "s\<lparr>queue_lock := 0\<rparr> = s" using W(3) by simp
  show ?thesis
  proof (cases ws)
    case Nil
    let ?P = "(procs s)(c := (procs s c)\<lparr>p_status := BLOCKED, p_queue_next := None\<rparr>)"
    have "waiting_queue_push (Some c) (int sem) s = Inr (s\<lparr>waiting_queue := ?W[sem := Some c], procs := ?P\<rparr>)"
      using lock W Nil by (simp add: waiting_queue_push_def unlock_queue_def spinlock_unlock_def upd_proc_def)
    moreover have "same_pcbs (procs s) ?P" by (auto simp: same_pcbs_def intro: same_pcb_refl same_pcb_both)
    ultimately show ?thesis using Nil W by (intro exI [of _ "?W[sem := Some c]"] exI [of _ ?P]) (simp add: waiting_ok_def)
  next
    case (Cons x ys)
    let ?P = "link (procs s) (List.last ws) c BLOCKED"
    have ne: "ws \<noteq> []" "List.last ws \<noteq> c" using Cons c last_in_set [of ws] by auto
    have nb: "c \<notin> set (butlast ws)" using c in_set_butlastD by fast
    have "queue_scan (procs s) c x = Some (False, List.last ws)"
      using W(4) Cons queue_scan_ok [of "procs s" x ws c] nb by auto
    then have "waiting_queue_push (Some c) (int sem) s = Inr (s\<lparr>waiting_queue := ?W, procs := ?P\<rparr>)"
      using lock W Cons s0 ne by (simp add: waiting_queue_push_def unlock_queue_def spinlock_unlock_def link_upd_proc)
    moreover have "r \<notin> set (c # ws) \<Longrightarrow> ?P r = procs s r" for r
      using link_ok(4) [OF W(4) ne(1) c, of r] last_in_set [OF ne(1)] by auto
    ultimately show ?thesis using W link_ok(1,2,3) [OF W(4) ne(1) c, where st=BLOCKED]
      by (intro exI [of _ ?W] exI [of _ ?P]) (auto simp: waiting_ok_def)
  qed
qed

lemma waiting_pop_ok:
  assumes "waiting_ok s sem (w # ws)"
  shows "waiting_queue_pop (int sem) s = Inr (w, s\<lparr>waiting_queue := (waiting_queue s)[sem := p_queue_next (procs s w)]\<rparr>) \<and>
    waiting_ok (s\<lparr>waiting_queue := (waiting_queue s)[sem := p_queue_next (procs s w)]\<rparr>) sem ws"
  using assms by (auto simp: waiting_ok_def waiting_queue_pop_def lock_queue_def unlock_queue_def spinlock_unlock_def)

lemma sem_lock_ok: "value_ok s sem v \<Longrightarrow> sem < 100 \<Longrightarrow>
  lock_sem (int sem) s = Inr (s\<lparr>sem_lock := (sem_lock s)[sem := - 1]\<rparr>)"
  by (simp add: lock_sem_def value_ok_def)

lemma unlock_sem_ok: "length (sem_lock s) = 100 \<Longrightarrow> sem < 100 \<Longrightarrow> unlock_sem (int sem) s = Inr (s\<lparr>sem_lock := (sem_lock s)[sem := 0]\<rparr>)"
  by (simp add: unlock_sem_def spinlock_unlock_def)

lemma add_sem_ok: "value_ok s sem v \<Longrightarrow> sem < 100 \<Longrightarrow> - (2 ^ 31) \<le> v + d \<Longrightarrow> v + d < 2 ^ 31 \<Longrightarrow>
  add_sem (int sem) d s = Inr (v + d, s\<lparr>sems := (sems s)[sem := v + d]\<rparr>)"
  by (simp add: add_sem_def value_ok_def)

section \<open>Acquire and release\<close>

lemma sem_frames [simp]:
  "sched_ok hid (s\<lparr>sems := x\<rparr>) c xs = sched_ok hid s c xs" "sched_ok hid (s\<lparr>sem_lock := y\<rparr>) c xs = sched_ok hid s c xs"
  "sched_ok hid (s\<lparr>waiting_queue := z\<rparr>) c xs = sched_ok hid s c xs"
  "waiting_ok (s\<lparr>sems := x\<rparr>) sem ws = waiting_ok s sem ws" "waiting_ok (s\<lparr>sem_lock := y\<rparr>) sem ws = waiting_ok s sem ws"
  "ready_ok (s\<lparr>sems := x\<rparr>) xs = ready_ok s xs" "ready_ok (s\<lparr>sem_lock := y\<rparr>) xs = ready_ok s xs"
  "ready_ok (s\<lparr>waiting_queue := z\<rparr>) xs = ready_ok s xs"
  by (simp_all add: sched_ok_def ready_ok_def waiting_ok_def)

lemma uint_sem: "sem < 100 \<Longrightarrow> uint (of_nat sem :: uint64) = int sem"
proof -
  assume "sem < 100"
  then have "unat (of_nat sem :: uint64) = sem" by (intro unat_of_nat64) simp
  then show ?thesis by (metis uint_nat)
qed

lemma acquire_pass:
  assumes r: "sem_rel hid s sem (c, xs, ws, v)" and v: "0 < v"
  shows "\<exists>s'. acquire hid (of_nat sem) s = Inr (Ret (), s') \<and> sem_rel hid s' sem (c, xs, ws, v - 1)"
proof -
  have k: "sched_ok hid s c xs" "waiting_ok s sem ws" "value_ok s sem v" "sem < 100" "v < 2 ^ 31 - 1"
    using r by (auto simp: sem_rel_def waiting_ok_def)
  let ?s = "s\<lparr>sem_lock := (sem_lock s)[sem := 0], sems := (sems s)[sem := v - 1]\<rparr>"
  have l: "length (sem_lock s) = 100" using k(3) by (simp add: value_ok_def)
  have "add_sem (int sem) (- 1) (s\<lparr>sem_lock := (sem_lock s)[sem := - 1]\<rparr>) =
      Inr (v - 1, s\<lparr>sem_lock := (sem_lock s)[sem := - 1], sems := (sems s)[sem := v - 1]\<rparr>)"
    using k v by (simp add: add_sem_def value_ok_def)
  then have "acquire hid (of_nat sem) s = Inr (Ret (), ?s)"
    using k v l by (simp add: acquire_def uint_sem sem_lock_ok unlock_sem_ok Let_def)
  moreover have "sem_rel hid ?s sem (c, xs, ws, v - 1)" using r v k by (auto simp: sem_rel_def value_ok_def)
  ultimately show ?thesis by blast
qed

lemma ready_distinct: "ready_ok s xs \<Longrightarrow> distinct xs"
  by (auto simp: ready_ok_def dest: queue_distinct)

lemma waiting_distinct: "waiting_ok s sem ws \<Longrightarrow> distinct ws"
  by (auto simp: waiting_ok_def dest: queue_distinct)

lemma ready_ok_cong:
  assumes "ready_ok s xs" "\<forall>p \<in> set xs. procs s' p = procs s p" "ready_queue_head s' = ready_queue_head s" "ready_queue_lock s' = ready_queue_lock s"
  shows "ready_ok s' xs"
  using assms queue_cong [of xs "procs s'" "procs s"] by (auto simp: ready_ok_def)

lemma waiting_ok_cong:
  assumes "waiting_ok s sem ws" "\<forall>p \<in> set ws. procs s' p = procs s p" "waiting_queue s' = waiting_queue s" "queue_lock s' = queue_lock s"
  shows "waiting_ok s' sem ws"
  using assms queue_cong [of ws "procs s'" "procs s"] by (auto simp: waiting_ok_def)

lemma acquire_block:
  assumes r: "sem_rel hid s sem (c, x # xs, ws, v)" and v: "v \<le> 0" "- (2 ^ 31) + 1 < v"
  shows "\<exists>s'. acquire hid (of_nat sem) s = Inr (Switched, s') \<and> sem_rel hid s' sem (x, xs, ws @ [c], v - 1)"
proof -
  have k: "sched_ok hid s c (x # xs)" "waiting_ok s sem ws" "value_ok s sem v" "sem < 100" "- (2 ^ 31) < v" "set ws \<inter> set (c # x # xs) = {}"
    "\<forall>p \<in> set ws. frame_at (p_trapframe (procs s p))" "length ws = nat (- v)"
    using r by (auto simp: sem_rel_def waiting_ok_def)
  have cs: "current s hid = Some c" "ready_ok s (x # xs)" "c \<notin> set (x # xs)" "\<forall>p \<in> set (c # x # xs). frame_at (p_trapframe (procs s p))"
    using k(1) by (simp_all add: sched_ok_def)
  let ?s1 = "s\<lparr>sem_lock := (sem_lock s)[sem := - 1], sems := (sems s)[sem := v - 1]\<rparr>"
  have a: "add_sem (int sem) (- 1) (s\<lparr>sem_lock := (sem_lock s)[sem := - 1]\<rparr>) = Inr (v - 1, ?s1)"
    using k v by (simp add: add_sem_def value_ok_def)
  have "waiting_ok ?s1 sem ws" "c \<notin> set ws" using k(2,6) by auto
  from waiting_push_ok [OF this] obtain W P where
    p: "waiting_queue_push (Some c) (int sem) ?s1 = Inr (?s1\<lparr>waiting_queue := W, procs := P\<rparr>)" "same_pcbs (procs s) P"
    "\<forall>r. r \<notin> set (c # ws) \<longrightarrow> P r = procs s r" "waiting_ok (?s1\<lparr>waiting_queue := W, procs := P\<rparr>) sem (ws @ [c])" by auto
  let ?s2 = "?s1\<lparr>waiting_queue := W, procs := P, sem_lock := (sem_lock s)[sem := 0]\<rparr>"
  have u: "unlock_sem (int sem) (?s1\<lparr>waiting_queue := W, procs := P\<rparr>) = Inr ?s2"
    using k(3,4) unlock_sem_ok [of "?s1\<lparr>waiting_queue := W, procs := P\<rparr>" sem] by (simp add: value_ok_def)
  have eq: "P q = procs s q" if "q \<in> set (x # xs)" for q using p(3) that k(6) cs(3) by auto
  have r2: "ready_ok ?s2 (x # xs)" by (rule ready_ok_cong [OF cs(2)]) (use eq in auto)
  have f2: "frame_at (p_trapframe (procs ?s2 x))" using cs(4) eq by simp
  from schedule_ok [OF r2 f2, of hid] obtain h m where
    sc: "schedule hid ?s2 = Inr (?s2\<lparr>current := (current s)(hid := Some x), harts := (harts s)(hid := h), kmm := (kmm s)\<lparr>ram := m\<rparr>,
      ready_queue_head := p_queue_next (P x), procs := P(x := (P x)\<lparr>p_status := RUNNING\<rparr>)\<rparr>)" by auto
  let ?s3 = "?s2\<lparr>current := (current s)(hid := Some x), harts := (harts s)(hid := h), kmm := (kmm s)\<lparr>ram := m\<rparr>,
      ready_queue_head := p_queue_next (P x), procs := P(x := (P x)\<lparr>p_status := RUNNING\<rparr>)\<rparr>"
  have "acquire hid (of_nat sem) s = Inr (Switched, ?s3)"
    using k(3,4) v a p(1) u sc cs(1) by (simp add: acquire_def uint_sem sem_lock_ok)
  moreover have "sem_rel hid ?s3 sem (x, xs, ws @ [c], v - 1)"
  proof -
    have xn: "x \<notin> set xs" using ready_distinct [OF r2] by simp
    have "ready_ok ?s3 xs" using r2 xn by (auto simp: ready_ok_def)
    moreover have "frame_at (p_trapframe (P q))" if "q \<in> set (c # x # xs) \<union> set ws" for q
      using that cs(4) k(7) same_pcbsD(1) [OF p(2)] by auto
    ultimately have "sched_ok hid ?s3 x xs" using xn by (auto simp: sched_ok_def)
    moreover have "waiting_ok ?s3 sem (ws @ [c])" by (rule waiting_ok_cong [OF p(4)]) (use k(6) cs(3) in auto)
    moreover have "value_ok ?s3 sem (v - 1)" using k(3,4) by (simp add: value_ok_def)
    ultimately show ?thesis
      using k v cs(3) \<open>\<And>q. q \<in> set (c # x # xs) \<union> set ws \<Longrightarrow> frame_at (p_trapframe (P q))\<close> by (auto simp: sem_rel_def)
  qed
  ultimately show ?thesis by blast
qed

lemma release_free:
  assumes r: "sem_rel hid s sem (c, xs, ws, v)" and v: "0 \<le> v" "v < 2 ^ 31 - 2"
  shows "\<exists>s'. release (of_nat sem) s = Inr s' \<and> sem_rel hid s' sem (c, xs, ws, v + 1)"
proof -
  have k: "sched_ok hid s c xs" "waiting_ok s sem ws" "value_ok s sem v" "sem < 100" using r by (auto simp: sem_rel_def waiting_ok_def)
  let ?s = "s\<lparr>sem_lock := (sem_lock s)[sem := 0], sems := (sems s)[sem := v + 1]\<rparr>"
  have "add_sem (int sem) 1 (s\<lparr>sem_lock := (sem_lock s)[sem := - 1]\<rparr>) =
      Inr (v + 1, s\<lparr>sem_lock := (sem_lock s)[sem := - 1], sems := (sems s)[sem := v + 1]\<rparr>)"
    using k v by (simp add: add_sem_def value_ok_def)
  then have "release (of_nat sem) s = Inr ?s"
    using k v by (simp add: release_def uint_sem sem_lock_ok unlock_sem_ok value_ok_def)
  moreover have "sem_rel hid ?s sem (c, xs, ws, v + 1)" using r v k by (auto simp: sem_rel_def value_ok_def)
  ultimately show ?thesis by blast
qed

lemma release_wake:
  assumes r: "sem_rel hid s sem (c, xs, w # ws, v)"
  shows "\<exists>s'. release (of_nat sem) s = Inr s' \<and> sem_rel hid s' sem (c, xs @ [w], ws, v + 1)"
proof -
  have k: "sched_ok hid s c xs" "waiting_ok s sem (w # ws)" "value_ok s sem v" "sem < 100" "v < 0" "set (w # ws) \<inter> set (c # xs) = {}"
    "\<forall>p \<in> set (w # ws). frame_at (p_trapframe (procs s p))" "length (w # ws) = nat (- v)" "- (2 ^ 31) < v"
    using r by (auto simp: sem_rel_def waiting_ok_def)
  have cs: "current s hid = Some c" "ready_ok s xs" "c \<notin> set xs" "\<forall>p \<in> set (c # xs). frame_at (p_trapframe (procs s p))"
    using k(1) by (simp_all add: sched_ok_def)
  have wn: "w \<notin> set ws" using waiting_distinct [OF k(2)] by simp
  let ?L = "(sem_lock s)[sem := 0]"
  let ?s1 = "s\<lparr>sem_lock := (sem_lock s)[sem := - 1], sems := (sems s)[sem := v + 1]\<rparr>"
  have a: "add_sem (int sem) 1 (s\<lparr>sem_lock := (sem_lock s)[sem := - 1]\<rparr>) = Inr (v + 1, ?s1)"
    using k by (simp add: add_sem_def value_ok_def)
  let ?s2 = "s\<lparr>sems := (sems s)[sem := v + 1], sem_lock := ?L\<rparr>"
  have u: "unlock_sem (int sem) ?s1 = Inr ?s2" using k(3,4) unlock_sem_ok [of ?s1 sem] by (simp add: value_ok_def)
  let ?s3 = "?s2\<lparr>waiting_queue := (waiting_queue s)[sem := p_queue_next (procs s w)]\<rparr>"
  have p: "waiting_queue_pop (int sem) ?s2 = Inr (w, ?s3)" "waiting_ok ?s3 sem ws"
    using waiting_pop_ok [of ?s2 sem w ws] k(2) by simp_all
  let ?s4 = "upd_proc w (\<lambda>q. q\<lparr>p_status := READY\<rparr>) ?s3"
  have "ready_ok ?s4 xs" by (rule ready_ok_cong [OF cs(2)]) (use k(6) in \<open>auto simp: upd_proc_def\<close>)
  from insert_ready_ok [OF this, of w] obtain h P where
    i: "insert_to_ready_queue w ?s4 = Inr (?s4\<lparr>ready_queue_head := h, procs := P\<rparr>)" "same_pcbs (procs ?s4) P"
    "\<forall>q. q \<notin> set (w # xs) \<longrightarrow> P q = procs ?s4 q" "ready_ok (?s4\<lparr>ready_queue_head := h, procs := P\<rparr>) (xs @ [w])"
    using k(6) by auto
  let ?s5 = "?s4\<lparr>ready_queue_head := h, procs := P, sem_lock := ?L\<rparr>"
  have u2: "unlock_sem (int sem) (?s4\<lparr>ready_queue_head := h, procs := P\<rparr>) = Inr ?s5"
    using k(3,4) unlock_sem_ok [of "?s4\<lparr>ready_queue_head := h, procs := P\<rparr>" sem] by (simp add: value_ok_def upd_proc_def)
  have "release (of_nat sem) s = Inr ?s5"
    using k(3,4,5) a u p(1) i(1) u2 by (simp add: release_def uint_sem sem_lock_ok)
  moreover have "sem_rel hid ?s5 sem (c, xs @ [w], ws, v + 1)"
  proof -
    have tf: "p_trapframe (P q) = p_trapframe (procs s q)" for q using same_pcbsD(1) [OF i(2), of q] by (simp add: upd_proc_def)
    have "sched_ok hid ?s5 c (xs @ [w])" using i(4) cs k(6,7) by (auto simp: sched_ok_def tf) (auto simp: upd_proc_def)
    moreover have "waiting_ok ?s5 sem ws"
      by (rule waiting_ok_cong [OF p(2)]) (use i(3) k(6) wn in \<open>auto simp: upd_proc_def\<close>)
    moreover have "value_ok ?s5 sem (v + 1)" using k(3,4) by (simp add: value_ok_def upd_proc_def)
    ultimately show ?thesis using k wn by (auto simp: sem_rel_def tf)
  qed
  ultimately show ?thesis by blast
qed

text \<open>
  C35. The semaphores implement the abstract counting semaphore. \<^verbatim>\<open>__acquire\<close> returns with the value one lower when it
  was positive; otherwise the calling process is put behind the processes that wait, in state BLOCKED, and the oldest ready
  process runs. \<^verbatim>\<open>__release\<close> raises the value and, when processes wait, moves the one that has waited longest
  behind the ready ones. After each call the number of waiting processes is again the amount by which
  the value is below zero, and all locks are free.
\<close>

theorem semaphore_refines:
  assumes "sem_rel hid s sem (c, xs, ws, v)" "- (2 ^ 31) + 1 < v" "v < 2 ^ 31 - 2"
  shows "(0 < v \<or> xs \<noteq> [] \<longrightarrow>
      (\<exists>s'. acquire hid (of_nat sem) s = Inr (if 0 < v then Ret () else Switched, s') \<and> sem_rel hid s' sem (sem_P (c, xs, ws, v)))) \<and>
    (\<exists>s'. release (of_nat sem) s = Inr s' \<and> sem_rel hid s' sem (sem_V (c, xs, ws, v)))"
proof (intro conjI impI)
  assume "0 < v \<or> xs \<noteq> []"
  then show "\<exists>s'. acquire hid (of_nat sem) s = Inr (if 0 < v then Ret () else Switched, s') \<and> sem_rel hid s' sem (sem_P (c, xs, ws, v))"
    using acquire_pass [OF assms(1)] acquire_block [of hid s sem c "hd xs" "tl xs" ws v] assms(1,2)
    by (cases "0 < v") (auto simp: sem_P_def)
next
  show "\<exists>s'. release (of_nat sem) s = Inr s' \<and> sem_rel hid s' sem (sem_V (c, xs, ws, v))"
  proof (cases "v < 0")
    case True
    then obtain w ws' where "ws = w # ws'" using assms(1) by (cases ws) (auto simp: sem_rel_def)
    then show ?thesis using release_wake [of hid s sem c xs w ws' v] assms(1) True by (simp add: sem_V_def)
  next
    case False
    then show ?thesis using release_free [OF assms(1)] assms(3) by (simp add: sem_V_def)
  qed
qed

theorem semaphore_refines_witness:
  "\<exists>s'. acquire 0 0 ex_kern = Inr (Switched, s') \<and> sem_rel 0 s' 0 (1, [2], [0], - 1)"
proof -
  have "sem_rel 0 ex_kern 0 (0, [1, 2], [], 0)"
    using ex_sched by (simp add: sem_rel_def waiting_ok_def value_ok_def) (simp add: ex_kern_def)
  from semaphore_refines [OF this] show ?thesis by (simp add: sem_P_def)
qed

section \<open>Waiting for children\<close>

lemma find_slot_unique:
  assumes "i < n" "P i" "\<And>j. j < n \<Longrightarrow> P j \<Longrightarrow> j = i"
  shows "find_slot P [0..<n] = Some i"
proof (cases "find_slot P [0..<n]")
  case None
  then show ?thesis using assms(1,2) by (simp add: find_slot_None)
next
  case (Some k)
  then have "k < n" "P k" using find_slot_Some [OF Some] by auto
  then show ?thesis using Some assms(3) by simp
qed

text \<open>
  C36. \<^verbatim>\<open>do_wait(-1)\<close> reaps a child that has exited: it returns the process number of the child and
  frees its entry. But a reaped entry still names its parent. When the last child has been reaped, a further
  \<^verbatim>\<open>do_wait(-1)\<close> does not return \<open>-1\<close>: the parent blocks although no child is left to wake it, and with no
  other process ready the kernel panics.
\<close>

theorem wait_after_last_child:
  assumes r: "ready_ok s []" and c: "current s hid = Some c" "c < 32"
    and i: "i < 32" "i \<noteq> c" "p_parent (procs s i) = Some c" "p_status (procs s i) = ZOMBIE"
    and only: "\<forall>j < 32. j \<noteq> i \<longrightarrow> p_parent (procs s j) \<noteq> Some c"
  shows "\<exists>s1. do_wait hid (- 1) s = Inr (Ret (sint (p_pid (procs s i))), s1) \<and> p_status (procs s1 i) = FREE \<and>
    do_wait hid (- 1) s1 = Inl (Panic ''Not handled: we should let system wait for unfinished processes.'')"
proof -
  let ?s1 = "upd_proc i (\<lambda>q. q\<lparr>p_status := FREE\<rparr>) s"
  have "find_slot (is_zombie_child hid s) [0..<NPROC] = Some i"
    by (rule find_slot_unique) (use i c only in \<open>auto simp: is_zombie_child_def\<close>)
  then have w1: "do_wait hid (- 1) s = Inr (Ret (sint (p_pid (procs s i))), ?s1)" by (simp add: do_wait_def)
  have n: "find_slot (is_zombie_child hid ?s1) [0..<NPROC] = None"
    unfolding find_slot_None using i(1) c only by (auto simp: is_zombie_child_def upd_proc_def)
  have ch: "\<not> (\<forall>j < NPROC. p_parent (procs ?s1 j) \<noteq> current ?s1 hid)" using i(1,3) c by (auto simp: upd_proc_def)
  let ?s2 = "upd_proc c (\<lambda>q. q\<lparr>p_status := BLOCKED\<rparr>) ?s1"
  have l: "lock_ready ?s2 = Inr (?s2\<lparr>ready_queue_lock := - 1\<rparr>)" "ready_queue_head ?s2 = None"
    using r by (simp_all add: lock_ready_def ready_ok_def upd_proc_def)
  have "p_status (procs ?s2 c) = BLOCKED" by (simp add: upd_proc_def)
  then have "\<not> (\<forall>j < NPROC. p_status (procs ?s2 j) = FREE \<or> p_status (procs ?s2 j) = ZOMBIE)" using c(2) by force
  then have "schedule hid ?s2 = Inl (Panic ''Not handled: we should let system wait for unfinished processes.'')"
    using l by (simp add: schedule_def)
  moreover have "do_wait hid (- 1) ?s1 = bnd (block_current hid ?s1) (\<lambda>s. Inr (Switched, s))"
    unfolding do_wait_def n using ch by auto
  moreover have "block_current hid ?s1 = schedule hid ?s2" using c(1) by (simp add: block_current_def) (simp add: upd_proc_def c(1))
  ultimately have "do_wait hid (- 1) ?s1 = Inl (Panic ''Not handled: we should let system wait for unfinished processes.'')" by simp
  moreover have "p_status (procs ?s1 i) = FREE" by (simp add: upd_proc_def)
  ultimately show ?thesis using w1 by blast
qed

definition ex_wait :: kern where
  "ex_wait = ex_kern\<lparr>ready_queue_head := None,
     procs := (\<lambda>_. ex_process)(0 := ex_process\<lparr>p_status := RUNNING\<rparr>, 1 := ex_process\<lparr>p_status := ZOMBIE, p_pid := 1, p_parent := Some 0\<rparr>)\<rparr>"

theorem wait_after_last_child_witness:
  "\<exists>s1. do_wait 0 (- 1) ex_wait = Inr (Ret 1, s1) \<and>
    do_wait 0 (- 1) s1 = Inl (Panic ''Not handled: we should let system wait for unfinished processes.'')"
proof -
  have "ready_ok ex_wait []" "current ex_wait 0 = Some 0" "p_parent (procs ex_wait 1) = Some 0" "p_status (procs ex_wait 1) = ZOMBIE"
    "\<forall>j < 32. j \<noteq> 1 \<longrightarrow> p_parent (procs ex_wait j) \<noteq> Some 0" "p_pid (procs ex_wait 1) = 1"
    by (simp_all add: ready_ok_def ex_wait_def ex_kern_def ex_process_def)
  from wait_after_last_child [OF this(1,2) _ _ _ this(3,4,5)] this(6) show ?thesis by auto
qed

text \<open>
  C37. When a process exits while its parent is blocked in \<^verbatim>\<open>do_wait\<close>, the parent is put behind the ready processes, and once it
  is scheduled and calls \<^verbatim>\<open>do_wait\<close> for that child, the child is reaped and its number returned.
\<close>

theorem exit_wakes_parent:
  fixes s :: "'a kern_scheme"
  assumes r: "ready_ok s xs" and p: "p_parent (procs s i) = Some c" "p_status (procs s c) = BLOCKED"
    and n: "c \<notin> set xs" "i \<notin> set xs" "c \<noteq> i" "0 < i" "i < 32"
  shows "\<exists>s1. free_process i s = Inr (0, s1) \<and> p_status (procs s1 i) = ZOMBIE \<and> ready_ok s1 (xs @ [c]) \<and>
    (\<forall>(s2 :: 'a kern_scheme) hid. procs s2 i = procs s1 i \<and> current s2 hid = Some c \<longrightarrow>
       (\<exists>s3. do_wait hid (int i) s2 = Inr (Ret (int i), s3) \<and> p_status (procs s3 i) = FREE))"
proof -
  let ?u = "upd_proc i (\<lambda>q. q\<lparr>p_status := ZOMBIE\<rparr>) s"
  let ?v = "upd_proc c (\<lambda>q. q\<lparr>p_status := READY\<rparr>) ?u"
  have "ready_ok ?v xs" by (rule ready_ok_cong [OF r]) (use n in \<open>auto simp: upd_proc_def\<close>)
  from insert_ready_ok [OF this, of c] obtain h P where
    i: "insert_to_ready_queue c ?v = Inr (?v\<lparr>ready_queue_head := h, procs := P\<rparr>)"
    "\<forall>q. q \<notin> set (c # xs) \<longrightarrow> P q = procs ?v q" "ready_ok (?v\<lparr>ready_queue_head := h, procs := P\<rparr>) (xs @ [c])"
    using n(1) by auto
  let ?s1 = "?v\<lparr>ready_queue_head := h, procs := P\<rparr>"
  have Pi: "P i = (procs s i)\<lparr>p_status := ZOMBIE\<rparr>" using i(2) n by (simp add: upd_proc_def)
  have "free_process i s = Inr (0, ?s1)"
    using p n(3) i(1) by (simp add: free_process_def wakeup_def) (simp add: upd_proc_def p(1))
  moreover have "\<exists>s3. do_wait hid (int i) s2 = Inr (Ret (int i), s3) \<and> p_status (procs s3 i) = FREE"
    if "procs s2 i = P i" "current s2 hid = Some c" for s2 :: "'a kern_scheme" and hid
    using that p(1) n(4,5) by (simp add: do_wait_def is_zombie_child_def Pi upd_proc_def)
  ultimately show ?thesis using i(3) Pi by (intro exI [of _ ?s1]) simp
qed

theorem exit_wakes_parent_witness:
  "\<exists>s1. free_process 3 (ex_kern\<lparr>procs := (procs ex_kern)(3 := ex_process\<lparr>p_parent := Some 4\<rparr>, 4 := ex_process\<lparr>p_status := BLOCKED\<rparr>)\<rparr>) = Inr (0, s1) \<and>
     ready_ok s1 [1, 2, 4]"
proof -
  let ?s = "ex_kern\<lparr>procs := (procs ex_kern)(3 := ex_process\<lparr>p_parent := Some 4\<rparr>, 4 := ex_process\<lparr>p_status := BLOCKED\<rparr>)\<rparr>"
  have "ready_ok ?s [1, 2]" by (rule ready_ok_cong [OF ex_ready]) simp_all
  from exit_wakes_parent [OF this, of 3 4] show ?thesis by (simp add: ex_process_def) blast
qed

end
