(* ===== verification/Debug_Line.thy ===== *)
theory Debug_Line
  imports Riscv "HOL-Library.Signed_Division"
begin

text \<open>
  The line table of an executable, \<^verbatim>\<open>kernel/elf.c\<close> lines 69 to 290: the readers of little-endian and LEB128 numbers and
  \<^verbatim>\<open>make_addr_line\<close>, which runs the line number program of every compilation unit, and the search of
  \<^verbatim>\<open>print_error_line\<close> in \<^verbatim>\<open>kernel/process.c\<close>. The section is read from memory byte by byte. The arrays that the code
  lays out behind the section in the same buffer are lists with the capacity that the layout leaves.
\<close>

section \<open>Readers\<close>

text \<open>The value read and the address behind it. A shift by 64 or more is undefined.\<close>

function uleb_loop :: "mem \<Rightarrow> addr \<Rightarrow> uint64 \<Rightarrow> nat \<Rightarrow> (uint64 \<times> nat \<times> uint8 \<times> addr) res" where
  "uleb_loop m off val shift =
     (if shift \<ge> 64 then Inl (Undefined ''shift by the width or more'')
      else (let b = m off;
                val = val OR push_bit shift (ucast b AND 0x7F)
            in if b AND 0x80 = 0 then Inr (val, shift + 7, b, off + 1) else uleb_loop m (off + 1) val (shift + 7)))"
  by pat_completeness auto
termination by (relation "measure (\<lambda>(m, off, val, shift). 64 - shift)") auto

declare uleb_loop.simps [simp del]

definition read_uleb128 :: "mem \<Rightarrow> addr \<Rightarrow> (uint64 \<times> addr) res" where
  "read_uleb128 m off = bnd (uleb_loop m off 0 0) (\<lambda>(val, _, _, off). Inr (val, off))"

text \<open>The sign is extended with \<^verbatim>\<open>-(1 << shift)\<close>, where 1 is an \<^verbatim>\<open>int\<close> of 32 bits.\<close>

definition read_sleb128 :: "mem \<Rightarrow> addr \<Rightarrow> (uint64 \<times> addr) res" where
  "read_sleb128 m off =
     bnd (uleb_loop m off 0 0) (\<lambda>(val, shift, b, off).
     if shift < 64 \<and> b AND 0x40 \<noteq> 0
     then (if shift \<ge> 31 then Inl (Undefined ''shift of an int'') else Inr (val OR of_int (- (2 ^ shift)), off))
     else Inr (val, off))"

text \<open>\<^verbatim>\<open>char\<close> is unsigned on this machine.\<close>

primrec read_le :: "nat \<Rightarrow> nat \<Rightarrow> mem \<Rightarrow> addr \<Rightarrow> uint64 \<Rightarrow> uint64 \<times> addr" where
  "read_le 0 i m off out = (out, off)"
| "read_le (Suc n) i m off out = read_le n (Suc i) m (off + 1) (out OR push_bit (8 * i) (ucast (m off)))"

definition read_uint64 :: "mem \<Rightarrow> addr \<Rightarrow> uint64 \<times> addr" where
  "read_uint64 m off = read_le 8 0 m off 0"

definition read_uint32 :: "mem \<Rightarrow> addr \<Rightarrow> uint32 \<times> addr" where
  "read_uint32 m off = (let (v, off) = read_le 4 0 m off 0 in (ucast v, off))"

definition read_uint16 :: "mem \<Rightarrow> addr \<Rightarrow> uint16 \<times> addr" where
  "read_uint16 m off = (let (v, off) = read_le 2 0 m off 0 in (ucast v, off))"

section \<open>The line number program\<close>

record code_file =
  cf_dir :: uint64
  cf_file :: addr

record addr_line =
  al_addr :: uint64
  al_line :: uint64
  al_file :: uint64

record debug_header =
  min_instruction_length :: uint8
  line_base :: int
  line_range :: uint8
  opcode_base :: uint8

abbreviation (input) DEBUG_HEADER_SIZE :: uint64 where "DEBUG_HEADER_SIZE \<equiv> 27"

text \<open>The fields that are used of the packed header.\<close>

definition load_header :: "mem \<Rightarrow> addr \<Rightarrow> debug_header" where
  "load_header m off =
     \<lparr>min_instruction_length = m (off + 10), line_base = sint (m (off + 12)), line_range = m (off + 13), opcode_base = m (off + 14)\<rparr>"

partial_function (option) skip_string :: "mem \<Rightarrow> addr \<Rightarrow> addr option" where
  "skip_string m off = (if m off \<noteq> 0 then skip_string m (off + 1) else Some (off + 1))"

abbreviation (input) TABLE_SIZE :: nat where "TABLE_SIZE \<equiv> 64"

partial_function (option) dir_loop :: "mem \<Rightarrow> addr \<Rightarrow> addr list \<Rightarrow> (addr list \<times> addr) res option" where
  "dir_loop m off dirs =
     (if m off = 0 then Some (Inr (dirs, off + 1))
      else if length dirs \<ge> TABLE_SIZE then Some (Inl (Undefined ''array index''))
      else Option.bind (skip_string m off) (\<lambda>off'. dir_loop m off' (dirs @ [off])))"

text \<open>One file entry: the name, the directory index and two more numbers.\<close>

definition file_entry :: "mem \<Rightarrow> addr \<Rightarrow> addr \<Rightarrow> nat \<Rightarrow> (code_file \<times> addr) res" where
  "file_entry m off off' dir_base =
     bnd (read_uleb128 m off') (\<lambda>(dir, off').
     bnd (read_uleb128 m off') (\<lambda>(_, off').
     bnd (read_uleb128 m off') (\<lambda>(_, off').
     Inr (\<lparr>cf_dir = dir - 1 + of_nat dir_base, cf_file = off\<rparr>, off'))))"

partial_function (option) file_loop :: "mem \<Rightarrow> addr \<Rightarrow> nat \<Rightarrow> code_file list \<Rightarrow> (code_file list \<times> addr) res option" where
  "file_loop m off dir_base files =
     (if m off = 0 then Some (Inr (files, off + 1))
      else if length files \<ge> TABLE_SIZE then Some (Inl (Undefined ''array index''))
      else Option.bind (skip_string m off) (\<lambda>off'.
           case file_entry m off off' dir_base of
             Inl e \<Rightarrow> Some (Inl e)
           | Inr (f, off') \<Rightarrow> file_loop m off' dir_base (files @ [f])))"

text \<open>A row of the table; it replaces the last row when that has the same address.\<close>

definition emit :: "nat \<Rightarrow> nat \<Rightarrow> addr_line \<Rightarrow> addr_line list \<Rightarrow> addr_line list res" where
  "emit cap file_base regs lines =
     (let lines = (if lines \<noteq> [] \<and> al_addr (List.last lines) = al_addr regs then butlast lines else lines)
      in if length lines \<ge> cap then Inl (Undefined ''array index'')
         else Inr (lines @ [regs\<lparr>al_file := al_file regs + of_int (int file_base - 1)\<rparr>]))"

type_synonym line_state = "addr \<times> addr_line \<times> addr_line list"

definition c_div :: "int \<Rightarrow> int \<Rightarrow> int res" where
  "c_div a b = (if b = 0 then Inl (Undefined ''division by zero'') else Inr (a sdiv b))"

definition extended_op :: "nat \<Rightarrow> nat \<Rightarrow> mem \<Rightarrow> line_state \<Rightarrow> (bool \<times> line_state) res" where
  "extended_op cap file_base m st =
     (let (off, regs, lines) = st
      in bnd (read_uleb128 m off) (\<lambda>(_, off).
         let op = m off; off = off + 1
         in if op = 1 then bnd (emit cap file_base regs lines) (\<lambda>lines. Inr (True, off, regs, lines))
            else if op = 2 then (let (a, off) = read_uint64 m off in Inr (False, off, regs\<lparr>al_addr := a\<rparr>, lines))
            else if op = 4 then bnd (read_uleb128 m off) (\<lambda>(_, off). Inr (False, off, regs, lines))
            else Inr (False, off, regs, lines)))"

definition special_op :: "nat \<Rightarrow> nat \<Rightarrow> debug_header \<Rightarrow> uint8 \<Rightarrow> line_state \<Rightarrow> (bool \<times> line_state) res" where
  "special_op cap file_base dh op st =
     (let (off, regs, lines) = st; adjust = uint op - uint (opcode_base dh)
      in bnd (c_div adjust (uint (line_range dh))) (\<lambda>q.
         let addr_delta = q * uint (min_instruction_length dh);
             line_delta = line_base dh + adjust smod uint (line_range dh);
             regs = regs\<lparr>al_addr := al_addr regs + of_int addr_delta, al_line := al_line regs + of_int line_delta\<rparr>
         in bnd (emit cap file_base regs lines) (\<lambda>lines. Inr (False, off, regs, lines))))"

text \<open>One turn of the loop; the flag says that the sequence has ended.\<close>

definition line_op :: "nat \<Rightarrow> nat \<Rightarrow> debug_header \<Rightarrow> mem \<Rightarrow> line_state \<Rightarrow> (bool \<times> line_state) res" where
  "line_op cap file_base dh m st =
     (let (off, regs, lines) = st; op = m off; off = off + 1
      in if op = 0 then extended_op cap file_base m (off, regs, lines)
         else if op = 1 then bnd (emit cap file_base regs lines) (\<lambda>lines. Inr (False, off, regs, lines))
         else if op = 2
         then bnd (read_uleb128 m off) (\<lambda>(delta, off).
              Inr (False, off, regs\<lparr>al_addr := al_addr regs + delta * ucast (min_instruction_length dh)\<rparr>, lines))
         else if op = 3
         then bnd (read_sleb128 m off) (\<lambda>(delta, off). Inr (False, off, regs\<lparr>al_line := al_line regs + delta\<rparr>, lines))
         else if op = 4 then bnd (read_uleb128 m off) (\<lambda>(f, off). Inr (False, off, regs\<lparr>al_file := f\<rparr>, lines))
         else if op = 5 then bnd (read_uleb128 m off) (\<lambda>(_, off). Inr (False, off, regs, lines))
         else if op = 6 \<or> op = 7 then Inr (False, off, regs, lines)
         else if op = 8
         then bnd (c_div (255 - uint (opcode_base dh)) (uint (line_range dh))) (\<lambda>q.
              Inr (False, off, regs\<lparr>al_addr := al_addr regs + of_int (q * uint (min_instruction_length dh))\<rparr>, lines))
         else if op = 9
         then (let (delta, off) = read_uint16 m off
               in Inr (False, off, regs\<lparr>al_addr := al_addr regs + ucast delta\<rparr>, lines))
         else special_op cap file_base dh op (off, regs, lines))"

partial_function (option) op_loop :: "nat \<Rightarrow> nat \<Rightarrow> debug_header \<Rightarrow> mem \<Rightarrow> line_state \<Rightarrow> line_state res option" where
  "op_loop cap file_base dh m st =
     (case line_op cap file_base dh m st of
        Inl e \<Rightarrow> Some (Inl e)
      | Inr (done, st) \<Rightarrow> if done then Some (Inr st) else op_loop cap file_base dh m st)"

record line_tables =
  lt_dirs :: "addr list"
  lt_files :: "code_file list"
  lt_lines :: "addr_line list"

text \<open>One compilation unit.\<close>

definition unit_step :: "nat \<Rightarrow> mem \<Rightarrow> addr \<Rightarrow> line_tables \<Rightarrow> (addr \<times> line_tables) res option" where
  "unit_step cap m off t =
     (let dh = load_header m off; off = off + DEBUG_HEADER_SIZE;
          dir_base = length (lt_dirs t); file_base = length (lt_files t)
      in Option.bind (dir_loop m off (lt_dirs t)) (\<lambda>r. case r of Inl e \<Rightarrow> Some (Inl e) | Inr (dirs, off) \<Rightarrow>
         Option.bind (file_loop m off dir_base (lt_files t)) (\<lambda>r. case r of Inl e \<Rightarrow> Some (Inl e) | Inr (files, off) \<Rightarrow>
         Option.bind (op_loop cap file_base dh m (off, \<lparr>al_addr = 0, al_line = 1, al_file = 1\<rparr>, lt_lines t)) (\<lambda>r.
         case r of Inl e \<Rightarrow> Some (Inl e) | Inr (off, _, lines) \<Rightarrow>
         Some (Inr (off, \<lparr>lt_dirs = dirs, lt_files = files, lt_lines = lines\<rparr>))))))"

partial_function (option) unit_loop :: "nat \<Rightarrow> mem \<Rightarrow> addr \<Rightarrow> addr \<Rightarrow> line_tables \<Rightarrow> line_tables res option" where
  "unit_loop cap m e off t =
     (if off < e
      then Option.bind (unit_step cap m off t) (\<lambda>r. case r of Inl x \<Rightarrow> Some (Inl x) | Inr (off, t) \<Rightarrow> unit_loop cap m e off t)
      else Some (Inr t))"

text \<open>
  \<open>buf_size\<close> is the size of the static buffer: the row table starts behind the section, rounded up to 8 bytes, 64 pointers of 8
  bytes and 64 file entries of 16 bytes, and has rows of 24 bytes.
\<close>

definition line_capacity :: "nat \<Rightarrow> nat \<Rightarrow> nat" where
  "line_capacity buf_size len = (buf_size - ((len + 7) div 8 * 8 + 64 * 8 + 64 * 16)) div 24"

abbreviation (input) DEBUG_BUF :: nat where "DEBUG_BUF \<equiv> 0x4000"

definition make_addr_line :: "mem \<Rightarrow> addr \<Rightarrow> uint64 \<Rightarrow> line_tables res" where
  "make_addr_line m debug_line len =
     bnd (of_loop (unit_loop (line_capacity DEBUG_BUF (unat len)) m (debug_line + len) debug_line \<lparr>lt_dirs = [], lt_files = [], lt_lines = []\<rparr>))
       (\<lambda>r. r)"

text \<open>The row that \<^verbatim>\<open>print_error_line\<close> reports: the one before the first row above the address.\<close>

definition error_row :: "addr_line list \<Rightarrow> uint64 \<Rightarrow> addr_line option res" where
  "error_row lines mepc =
     (case find_slot (\<lambda>l. al_addr l > mepc) lines of
        None \<Rightarrow> Inr None
      | Some 0 \<Rightarrow> Inl (Undefined ''array index'')
      | Some (Suc i) \<Rightarrow> Inr (Some (lines ! i)))"

section \<open>LEB128\<close>

lemma high_bit: "(b :: uint8) AND 0x80 = 0 \<longleftrightarrow> unat b < 128"
proof -
  have lt: "unat b < 256" using unsigned_less [of b, where ?'a = nat] by simp
  have "b AND 0x80 = 0 \<longleftrightarrow> unat (b AND 0x80) = 0" by (simp add: unat_eq_0)
  also have "\<dots> \<longleftrightarrow> unat b AND 2 ^ 7 = 0" by (simp add: unsigned_and_eq)
  also have "\<dots> \<longleftrightarrow> \<not> bit (unat b) 7" by (simp add: and_exp_eq_0_iff_not_bit del: power_numeral)
  also have "\<dots> \<longleftrightarrow> even (unat b div 128)" by (simp add: bit_iff_odd)
  also have "\<dots> \<longleftrightarrow> unat b < 128"
  proof -
    have "unat b div 128 = 0 \<or> unat b div 128 = 1" using lt by auto
    then show ?thesis by (auto simp: div_eq_0_iff)
  qed
  finally show ?thesis .
qed

lemma low_bits: "(ucast (b :: uint8) :: uint64) AND 0x7F = of_nat (unat b mod 128)"
proof -
  have lt: "unat b < 256" using unsigned_less [of b, where ?'a = nat] by simp
  have "unat (ucast b :: uint64) = unat b" using lt by (simp add: unsigned_ucast_eq take_bit_nat_eq_self)
  then have "unat (ucast b AND (0x7F :: uint64)) = unat b AND 127" by (simp add: unsigned_and_eq)
  also have "\<dots> = unat b mod 128" using take_bit_eq_mask [of 7 "unat b"] by (simp add: mask_eq_exp_minus_1 take_bit_eq_mod)
  also have "\<dots> = unat (of_nat (unat b mod 128) :: uint64)" by (rule unat_of_nat64 [symmetric]) (simp add: less_trans [of _ 128])
  finally show ?thesis by (simp only: word_eq_iff_unsigned [where ?'a = nat])
qed

lemma or_add: "unat (v :: uint64) < 2 ^ k \<Longrightarrow> v OR push_bit k x = v + push_bit k x"
proof -
  assume v: "unat v < 2 ^ k"
  have "\<not> bit v n \<or> \<not> bit (push_bit k x) n" for n
  proof (cases "k \<le> n")
    case True
    then have "unat v < 2 ^ n" using v by (meson less_le_trans one_le_numeral power_increasing)
    then have "\<not> bit (unat v) n" by (simp add: bit_iff_odd)
    then show ?thesis using bit_of_nat_iff [of "unat v" n, where ?'a = "64 word"] by (simp add: bit_simps)
  next
    case False
    then show ?thesis by (simp add: bit_simps)
  qed
  then show ?thesis by (simp add: disjunctive_add)
qed

primrec bytes_at :: "mem \<Rightarrow> addr \<Rightarrow> uint8 list \<Rightarrow> bool" where
  "bytes_at m off [] = True"
| "bytes_at m off (b # bs) = (m off = b \<and> bytes_at m (off + 1) bs)"

text \<open>A number in \<open>L\<close> groups of seven bits, lowest first; every group but the last has the top bit set.\<close>

fun leb_groups :: "nat \<Rightarrow> nat \<Rightarrow> uint8 list" where
  "leb_groups 0 n = []"
| "leb_groups (Suc 0) n = [of_nat n]"
| "leb_groups (Suc (Suc L)) n = of_nat (n mod 128 + 128) # leb_groups (Suc L) (n div 128)"

lemma unat_byte: "n < 256 \<Longrightarrow> unat (of_nat n :: uint8) = n"
  by (simp add: unsigned_of_nat take_bit_nat_eq_self)

lemma add_group:
  assumes "unat (v :: uint64) < 2 ^ k" "r < 128" "k + 7 \<le> 64 \<or> r * 2 ^ k + 2 ^ k \<le> 2 ^ 64"
  shows "v OR push_bit k (of_nat r) = v + of_nat (r * 2 ^ k)" "k + 7 < 64 \<Longrightarrow> unat (v + of_nat (r * 2 ^ k)) < 2 ^ (k + 7)"
proof -
  show "v OR push_bit k (of_nat r) = v + of_nat (r * 2 ^ k)"
    using or_add [OF assms(1)] by (simp add: push_bit_of_nat push_bit_eq_mult)
  assume k: "k + 7 < 64"
  have le: "unat v + r * 2 ^ k < 2 ^ (k + 7)"
  proof -
    have "unat v + r * 2 ^ k < (r + 1) * 2 ^ k" using assms(1) by simp
    also have "\<dots> \<le> 128 * 2 ^ k" using assms(2) by (intro mult_le_mono1) simp
    finally show ?thesis by (simp add: power_add)
  qed
  define x where "x = r * 2 ^ k"
  have "(2 :: nat) ^ (k + 7) \<le> 2 ^ 64" using k by (intro power_increasing) auto
  then have lt: "unat v + x < 2 ^ 64" using le unfolding x_def by (rule less_le_trans [rotated])
  have "unat (of_nat x :: uint64) = x" by (rule unat_of_nat64) (use lt in linarith)
  then have "unat (v + of_nat x) = unat v + x" using lt by (simp add: unat_word_ariths)
  then show "unat (v + of_nat (r * 2 ^ k)) < 2 ^ (k + 7)" using le by (simp only: x_def)
qed

lemma leb_last: "n < 128 ^ L \<Longrightarrow> 0 < L \<Longrightarrow> unat (List.last (leb_groups L n)) = n div 128 ^ (L - 1) \<and> leb_groups L n \<noteq> [] \<and> length (leb_groups L n) = L"
proof (induction L n rule: leb_groups.induct)
  case (2 n)
  then show ?case by (simp add: unat_byte)
next
  case (3 L n)
  have "n div 128 < 128 ^ Suc L" using 3(2) by (simp add: less_mult_imp_div_less mult.commute)
  then show ?case using 3(1) by (simp add: div_mult2_eq)
qed simp

lemma uleb_loop_groups:
  assumes "bytes_at m off (leb_groups L n)" "0 < L" "n < 128 ^ L" "unat v < 2 ^ k" "n * 2 ^ k < 2 ^ 64" "k + 7 * (L - 1) < 64"
  shows "uleb_loop m off v k = Inr (v + of_nat (n * 2 ^ k), k + 7 * L, List.last (leb_groups L n), off + of_nat L)"
  using assms
proof (induction L n arbitrary: off v k rule: leb_groups.induct)
  case (2 n)
  have b: "unat (m off) = n" "m off = of_nat n" using 2 by (simp_all add: unat_byte)
  have o: "v OR push_bit k (of_nat n) = v + of_nat (n * 2 ^ k)"
    using or_add [OF 2(4), of "of_nat n"] by (simp add: push_bit_of_nat push_bit_eq_mult)
  have "k < 64" "n < 128" using 2 by simp_all
  then have "uleb_loop m off v k = Inr (v OR push_bit k (of_nat n), k + 7, m off, off + 1)"
    by (subst uleb_loop.simps) (simp add: high_bit low_bits b(1))
  then show ?case unfolding o by (simp add: b(2))
next
  case (3 L n)
  have "m off = of_nat (n mod 128 + 128)" and rest: "bytes_at m (off + 1) (leb_groups (Suc L) (n div 128))"
    using 3(2) by simp_all
  moreover have "n mod 128 + 128 < 256" using mod_less_divisor [of 128 n] by linarith
  ultimately have b: "unat (m off) = n mod 128 + 128" by (simp only: unat_byte)
  have k7: "k + 7 < 64" using 3(7) by simp
  let ?r = "n mod 128" and ?v = "v + of_nat (n mod 128 * 2 ^ k)"
  have g: "v OR push_bit k (of_nat ?r) = ?v" "unat ?v < 2 ^ (k + 7)"
    using add_group [OF 3(5), of ?r] k7 by simp_all
  have nn: "n div 128 * 2 ^ (k + 7) + ?r * 2 ^ k = n * 2 ^ k"
  proof -
    have "n * 2 ^ k = (n div 128 * 128 + ?r) * 2 ^ k" by (simp only: div_mult_mod_eq)
    also have "\<dots> = n div 128 * 128 * 2 ^ k + ?r * 2 ^ k" by (rule add_mult_distrib)
    also have "n div 128 * 128 * 2 ^ k = n div 128 * 2 ^ (k + 7)" by (simp add: power_add)
    finally show ?thesis by (rule sym)
  qed
  have lt: "n div 128 < 128 ^ Suc L" using 3(4) by (simp add: less_mult_imp_div_less mult.commute)
  have "uleb_loop m (off + 1) ?v (k + 7) = Inr (?v + of_nat (n div 128 * 2 ^ (k + 7)), k + 7 + 7 * Suc L,
      List.last (leb_groups (Suc L) (n div 128)), off + 1 + of_nat (Suc L))"
    by (rule 3(1)) (use rest g(2) nn 3(6,7) lt in simp_all)
  moreover have "?v + of_nat (n div 128 * 2 ^ (k + 7)) = v + of_nat (n * 2 ^ k)"
    unfolding nn [symmetric] by (simp only: of_nat_add add.assoc) (simp only: add.commute)
  moreover have "leb_groups (Suc L) (n div 128) \<noteq> []" using leb_last [OF lt] by simp
  moreover have "uleb_loop m off v k = uleb_loop m (off + 1) ?v (k + 7)"
    using 3(7) by (subst uleb_loop.simps) (simp add: high_bit low_bits b g(1))
  ultimately show ?case by (simp add: add.assoc)
qed simp

lemma sign_bit: "unat (b :: uint8) < 128 \<Longrightarrow> b AND 0x40 = 0 \<longleftrightarrow> unat b < 64"
proof -
  assume lt: "unat b < 128"
  have "b AND 0x40 = 0 \<longleftrightarrow> unat (b AND 0x40) = 0" by (simp add: unat_eq_0)
  also have "\<dots> \<longleftrightarrow> unat b AND 2 ^ 6 = 0" by (simp add: unsigned_and_eq)
  also have "\<dots> \<longleftrightarrow> \<not> bit (unat b) 6" by (simp add: and_exp_eq_0_iff_not_bit del: power_numeral)
  also have "\<dots> \<longleftrightarrow> even (unat b div 64)" by (simp add: bit_iff_odd)
  also have "\<dots> \<longleftrightarrow> unat b < 64"
  proof -
    have "unat b div 64 = 0 \<or> unat b div 64 = 1" using lt by auto
    then show ?thesis by (auto simp: div_eq_0_iff)
  qed
  finally show ?thesis .
qed

text \<open>
  C39. The LEB128 readers. From the groups of a number, shortest or padded, \<^verbatim>\<open>read_uleb128\<close> returns the number and the address behind the
  groups. \<^verbatim>\<open>read_sleb128\<close> returns the two's complement value of the groups for every number that is not
  negative and for negative numbers of up to four groups. For a negative number of five to nine groups the code shifts an
  \<^verbatim>\<open>int\<close> by its width or more, which is undefined.
\<close>

theorem leb128_correct:
  assumes b: "bytes_at m off (leb_groups L n)" and L: "0 < L" "L \<le> 9" "n < 128 ^ L"
  shows "read_uleb128 m off = Inr (of_nat n, off + of_nat L) \<and>
    read_sleb128 m off =
      (if n < 64 * 128 ^ (L - 1) then Inr (of_nat n, off + of_nat L)
       else if L \<le> 4 then Inr (of_int (int n - 128 ^ L), off + of_nat L)
       else Inl (Undefined ''shift of an int''))"
proof -
  have pw: "(128 :: nat) ^ L = 2 ^ (7 * L)" by (simp add: power_mult)
  have "(2 :: nat) ^ (7 * L) \<le> 2 ^ 63" using L(2) by (intro power_increasing) auto
  then have n64: "n < 2 ^ 63" using L(3) unfolding pw by (rule less_le_trans [rotated])
  let ?b = "List.last (leb_groups L n)"
  have loop: "uleb_loop m off 0 0 = Inr (of_nat n, 7 * L, ?b, off + of_nat L)"
    using uleb_loop_groups [OF b L(1,3), of 0 0] n64 L(2) by simp
  have ub: "unat ?b = n div 128 ^ (L - 1)" using leb_last [OF L(3,1)] by simp
  have P: "(128 :: nat) ^ L = 128 * 128 ^ (L - 1)" using L(1) by (cases L) simp_all
  have "n div 128 ^ (L - 1) < 128" using L(3) unfolding P by (simp add: less_mult_imp_div_less mult.commute)
  then have sg: "?b AND 0x40 = 0 \<longleftrightarrow> n < 64 * 128 ^ (L - 1)"
    using sign_bit [of ?b] ub by (simp add: div_less_iff_less_mult)
  have "unat (of_nat n :: uint64) = n" using n64 by (intro unat_of_nat64) simp
  then have "(of_nat n :: uint64) OR push_bit (7 * L) (- 1) = of_nat n + push_bit (7 * L) (- 1)"
    using L(3) unfolding pw by (intro or_add) simp
  then have neg: "(of_nat n :: uint64) OR of_int (- (2 ^ (7 * L))) = of_int (int n - 128 ^ L)"
    by (simp add: push_bit_eq_mult power_mult)
  have "7 * L < 64" "31 \<le> 7 * L \<longleftrightarrow> \<not> L \<le> 4" using L(2) by auto
  then show ?thesis using loop sg neg by (auto simp: read_uleb128_def read_sleb128_def)
qed

theorem leb128_correct_witness:
  "read_uleb128 (\<lambda>a. if a = 0 then 0xE5 else if a = 1 then 0x8E else 0x26) 0 = Inr (624485, 3) \<and>
   read_sleb128 (\<lambda>a. if a = 0 then 0xC0 else if a = 1 then 0xBB else 0x78) 0 = Inr (- 123456, 3)"
proof -
  have "bytes_at (\<lambda>a. if a = 0 then 0xE5 else if a = 1 then 0x8E else 0x26) 0 (leb_groups 3 624485)"
    "bytes_at (\<lambda>a. if a = 0 then 0xC0 else if a = 1 then 0xBB else 0x78) 0 (leb_groups 3 1973696)"
    by (simp_all add: numeral_3_eq_3)
  from leb128_correct [OF this(1)] leb128_correct [OF this(2)] show ?thesis by simp
qed

section \<open>The row table\<close>

text \<open>Adjacent rows have different addresses.\<close>

definition rows_ok :: "addr_line list \<Rightarrow> bool" where
  "rows_ok ls \<longleftrightarrow> successively (\<lambda>a b. al_addr a \<noteq> al_addr b) ls"

lemma rows_ok_snoc: "rows_ok (ls @ [r]) \<longleftrightarrow> rows_ok ls \<and> (ls \<noteq> [] \<longrightarrow> al_addr (List.last ls) \<noteq> al_addr r)"
  by (auto simp: rows_ok_def successively_append_iff)

lemma rows_ok_butlast: "rows_ok ls \<Longrightarrow> rows_ok (butlast ls)"
  by (cases ls rule: rev_cases) (simp_all add: rows_ok_snoc)

lemma emit_rows:
  assumes "emit cap fb regs ls = Inr ls'" "rows_ok ls"
  shows "rows_ok ls' \<and> length ls' \<le> cap"
proof -
  let ?l = "if ls \<noteq> [] \<and> al_addr (List.last ls) = al_addr regs then butlast ls else ls"
  have e: "length ?l < cap" "ls' = ?l @ [regs\<lparr>al_file := al_file regs + of_int (int fb - 1)\<rparr>]"
    using assms(1) by (auto simp: emit_def Let_def split: if_splits)
  have "rows_ok ?l" using assms(2) rows_ok_butlast by simp
  moreover have "?l \<noteq> [] \<longrightarrow> al_addr (List.last ?l) \<noteq> al_addr regs"
  proof (cases "ls \<noteq> [] \<and> al_addr (List.last ls) = al_addr regs")
    case True
    then have "rows_ok (butlast ls @ [List.last ls])" using assms(2) by simp
    then show ?thesis using True by (simp only: rows_ok_snoc) simp
  qed auto
  ultimately show ?thesis using e by (simp add: rows_ok_snoc)
qed

lemma line_op_rows:
  assumes "line_op cap fb dh m (off, regs, ls) = Inr (d, off', regs', ls')" "rows_ok ls \<and> length ls \<le> cap"
  shows "rows_ok ls' \<and> length ls' \<le> cap"
  using assms emit_rows [of cap fb _ ls ls']
  by (auto simp: line_op_def extended_op_def special_op_def Let_def bnd_eq_Inr split: if_splits prod.splits)

lemma op_loop_rows:
  assumes "op_loop cap fb dh m (off, regs, ls) = Some (Inr (off', regs', ls'))" "rows_ok ls \<and> length ls \<le> cap"
  shows "rows_ok ls' \<and> length ls' \<le> cap"
proof -
  have "case r of Inl e \<Rightarrow> True | Inr (_, _, ls') \<Rightarrow> (case st of (_, _, ls) \<Rightarrow> rows_ok ls \<and> length ls \<le> cap \<longrightarrow> rows_ok ls' \<and> length ls' \<le> cap)"
    if "op_loop cap fb dh m st = Some r" for st r
  proof (rule op_loop.raw_induct [where P="\<lambda>cap fb dh m st r. case r of Inl e \<Rightarrow> True | Inr (_, _, ls') \<Rightarrow>
      (case st of (_, _, ls) \<Rightarrow> rows_ok ls \<and> length ls \<le> cap \<longrightarrow> rows_ok ls' \<and> length ls' \<le> cap)", OF _ that], goal_cases)
    case (1 f cap fb dh m st r)
    show ?case
    proof (cases "line_op cap fb dh m st")
      case (Inl e)
      then show ?thesis using 1(2) by (auto simp: split: prod.splits)
    next
      case (Inr p)
      obtain d off regs ls where p: "p = (d, off, regs, ls)" by (cases p) auto
      obtain off0 regs0 ls0 where st: "st = (off0, regs0, ls0)" by (cases st) auto
      have r: "rows_ok ls0 \<and> length ls0 \<le> cap \<longrightarrow> rows_ok ls \<and> length ls \<le> cap"
        using line_op_rows Inr unfolding p st by blast
      show ?thesis
      proof (cases d)
        case True
        then show ?thesis using 1(2) Inr r unfolding p st by auto
      next
        case False
        then have "f cap fb dh m (off, regs, ls) = Some r" using 1(2) Inr p by simp
        from 1(1) [OF this] show ?thesis using r unfolding st by (auto split: sum.splits)
      qed
    qed
  qed
  from this [OF assms(1)] show ?thesis using assms(2) by simp
qed

lemma obind_Inr:
  "Option.bind r (\<lambda>r. case r of Inl e \<Rightarrow> Some (Inl e) | Inr x \<Rightarrow> f x) = Some (Inr y) \<longleftrightarrow> (\<exists>x. r = Some (Inr x) \<and> f x = Some (Inr y))"
  by (cases r; cases "the r") auto

lemma unit_step_rows:
  assumes "unit_step cap m off t = Some (Inr (off', t'))" "rows_ok (lt_lines t) \<and> length (lt_lines t) \<le> cap"
  shows "rows_ok (lt_lines t') \<and> length (lt_lines t') \<le> cap"
  using assms op_loop_rows [OF _ assms(2)] by (auto simp: unit_step_def Let_def obind_Inr split: prod.splits)

lemma unit_loop_rows:
  assumes "unit_loop cap m e off t = Some (Inr t')" "rows_ok (lt_lines t) \<and> length (lt_lines t) \<le> cap"
  shows "rows_ok (lt_lines t') \<and> length (lt_lines t') \<le> cap"
proof -
  have "case r of Inl e \<Rightarrow> True | Inr t' \<Rightarrow>
      rows_ok (lt_lines t) \<and> length (lt_lines t) \<le> cap \<longrightarrow> rows_ok (lt_lines t') \<and> length (lt_lines t') \<le> cap"
    if "unit_loop cap m e off t = Some r" for off t r
  proof (rule unit_loop.raw_induct [where P="\<lambda>cap m e off t r. case r of Inl e \<Rightarrow> True | Inr t' \<Rightarrow>
      rows_ok (lt_lines t) \<and> length (lt_lines t) \<le> cap \<longrightarrow> rows_ok (lt_lines t') \<and> length (lt_lines t') \<le> cap", OF _ that], goal_cases)
    case (1 f cap m e off t r)
    show ?case
    proof (cases "off < e")
      case False
      then show ?thesis using 1(2) by auto
    next
      case True
      then obtain u where u: "unit_step cap m off t = Some u" using 1(2) by (auto simp: bind_eq_Some_conv)
      show ?thesis
      proof (cases u)
        case (Inl e)
        then show ?thesis using 1(2) True u by auto
      next
        case (Inr p)
        obtain off1 t1 where p: "p = (off1, t1)" by (cases p)
        have "f cap m e off1 t1 = Some r" using 1(2) True u Inr p by simp
        moreover have "rows_ok (lt_lines t) \<and> length (lt_lines t) \<le> cap \<longrightarrow> rows_ok (lt_lines t1) \<and> length (lt_lines t1) \<le> cap"
          using u unfolding Inr p
          using unit_step_rows by blast
        ultimately show ?thesis using 1(1) [of cap m e off1 t1 r] by (cases r) auto
      qed
    qed
  qed
  from this [OF assms(1)] show ?thesis using assms(2) by simp
qed

section \<open>Properties\<close>


definition ex_section :: "uint8 list" where
  "ex_section = [0, 0, 0, 0, 0, 0, 0, 0, 0, 0, 1, 1, 0xFB, 14, 10, 0, 0, 0, 0, 0, 0, 0, 0, 0, 0, 0, 0,
     0, 0, 0, 9, 2, 0, 0x10, 0, 0, 0, 0, 0, 0, 1, 2, 4, 3, 1, 1, 2, 4, 0, 1, 1]"

definition ex_memory :: mem where
  "ex_memory a = (if unat a < 51 then ex_section ! unat a else 0)"

lemma ex_bytes:
  "ex_memory 10 = 1" "ex_memory 12 = 0xFB" "ex_memory 13 = 14" "ex_memory 14 = 10" "ex_memory 27 = 0" "ex_memory 28 = 0"
  "ex_memory 29 = 0" "ex_memory 30 = 9" "ex_memory 31 = 2" "ex_memory 32 = 0" "ex_memory 33 = 0x10" "ex_memory 34 = 0"
  "ex_memory 35 = 0" "ex_memory 36 = 0" "ex_memory 37 = 0" "ex_memory 38 = 0" "ex_memory 39 = 0" "ex_memory 40 = 1"
  "ex_memory 41 = 2" "ex_memory 42 = 4" "ex_memory 43 = 3" "ex_memory 44 = 1" "ex_memory 45 = 1" "ex_memory 46 = 2"
  "ex_memory 47 = 4" "ex_memory 48 = 0" "ex_memory 49 = 1" "ex_memory 50 = 1"
  by (simp_all add: ex_memory_def ex_section_def)

lemma uleb_one: "m off AND 0x80 = 0 \<Longrightarrow> uleb_loop m off 0 0 = Inr (ucast (m off) AND 0x7F, 7, m off, off + 1)"
  by (subst uleb_loop.simps) (simp add: Let_def)

lemma read_le_numeral:
  "read_le (numeral n) i m off out = read_le (pred_numeral n) (Suc i) m (off + 1) (out OR push_bit (8 * i) (ucast (m off)))"
  by (simp add: numeral_eq_Suc)

lemma ex_numbers:
  "read_uleb128 ex_memory 30 = Inr (9, 31)" "read_uleb128 ex_memory 42 = Inr (4, 43)" "read_sleb128 ex_memory 44 = Inr (1, 45)"
  "read_uleb128 ex_memory 47 = Inr (4, 48)" "read_uleb128 ex_memory 49 = Inr (1, 50)" "read_uint64 ex_memory 32 = (0x1000, 40)"
  by (simp_all add: read_uleb128_def read_sleb128_def read_uint64_def uleb_one ex_bytes read_le_numeral)

lemma ex_rows:
  "op_loop cap 0 (load_header ex_memory 0) ex_memory (29, \<lparr>al_addr = 0, al_line = 1, al_file = 1\<rparr>, []) =
     (if cap < 3 then Some (Inl (Undefined ''array index'')) else Some (Inr (51, \<lparr>al_addr = 0x1008, al_line = 2, al_file = 1\<rparr>,
      [\<lparr>al_addr = 0x1000, al_line = 1, al_file = 0\<rparr>, \<lparr>al_addr = 0x1004, al_line = 2, al_file = 0\<rparr>,
       \<lparr>al_addr = 0x1008, al_line = 2, al_file = 0\<rparr>])))"
  by (simp add: op_loop.simps line_op_def extended_op_def load_header_def emit_def Let_def ex_bytes ex_numbers)

lemma ex_table:
  "make_addr_line ex_memory 0 51 = Inr \<lparr>lt_dirs = [], lt_files = [],
     lt_lines = [\<lparr>al_addr = 0x1000, al_line = 1, al_file = 0\<rparr>, \<lparr>al_addr = 0x1004, al_line = 2, al_file = 0\<rparr>,
                 \<lparr>al_addr = 0x1008, al_line = 2, al_file = 0\<rparr>]\<rparr>"
proof -
  have "dir_loop ex_memory 27 [] = Some (Inr ([], 28))" "file_loop ex_memory 28 0 [] = Some (Inr ([], 29))"
    by (subst dir_loop.simps file_loop.simps; simp add: ex_bytes)+
  then have "unit_step (line_capacity DEBUG_BUF 51) ex_memory 0 \<lparr>lt_dirs = [], lt_files = [], lt_lines = []\<rparr> = Some (Inr (51,
      \<lparr>lt_dirs = [], lt_files = [],
       lt_lines = [\<lparr>al_addr = 0x1000, al_line = 1, al_file = 0\<rparr>, \<lparr>al_addr = 0x1004, al_line = 2, al_file = 0\<rparr>,
                   \<lparr>al_addr = 0x1008, al_line = 2, al_file = 0\<rparr>]\<rparr>))"
    by (simp add: unit_step_def Let_def ex_rows line_capacity_def)
  then show ?thesis
    unfolding make_addr_line_def of_loop_def by (subst unit_loop.simps) (simp, subst unit_loop.simps, simp)
qed


end
