(* ===== verification/Process.thy ===== *)
theory Process
  imports Sched
begin

text \<open>
  The address space of a process, \<^verbatim>\<open>kernel/process.c\<close>: the table of mapped regions, the address space of a new
  process, fork, exec and the release of an address space, together with the page system calls of \<^verbatim>\<open>kernel/syscall.c\<close> and
  the page fault handler of \<^verbatim>\<open>kernel/strap.c\<close>. The parts of \<^verbatim>\<open>alloc_process\<close> and \<^verbatim>\<open>do_fork\<close> that set up the
  open files are in the theory of the system calls.
\<close>

section \<open>Mapped regions\<close>

record mapped_region =
  mr_va :: uint64
  mr_npages :: uint32
  mr_seg_type :: uint32

abbreviation (input) STACK_SEGMENT :: nat where "STACK_SEGMENT \<equiv> 0"
abbreviation (input) CONTEXT_SEGMENT :: nat where "CONTEXT_SEGMENT \<equiv> 1"
abbreviation (input) SYSTEM_SEGMENT :: nat where "SYSTEM_SEGMENT \<equiv> 2"
abbreviation (input) HEAP_SEGMENT :: nat where "HEAP_SEGMENT \<equiv> 3"
abbreviation (input) CODE_SEGMENT :: nat where "CODE_SEGMENT \<equiv> 4"
abbreviation (input) DATA_SEGMENT :: nat where "DATA_SEGMENT \<equiv> 5"
abbreviation (input) MAX_HEAP_PAGES :: nat where "MAX_HEAP_PAGES \<equiv> 32"
abbreviation (input) TRAPFRAME_SIZE :: uint64 where "TRAPFRAME_SIZE \<equiv> 280"

definition region_addr :: "addr \<Rightarrow> nat \<Rightarrow> addr" where
  "region_addr mi i = mi + 16 * of_nat i"

definition get_region :: "addr \<Rightarrow> nat \<Rightarrow> pmm \<Rightarrow> mapped_region res" where
  "get_region mi i s =
     bnd (ld64 (ram s) (region_addr mi i)) (\<lambda>va.
     bnd (ld32 (ram s) (region_addr mi i + 8)) (\<lambda>n.
     bnd (ld32 (ram s) (region_addr mi i + 12)) (\<lambda>t. Inr \<lparr>mr_va = va, mr_npages = n, mr_seg_type = t\<rparr>)))"

definition set_region :: "addr \<Rightarrow> nat \<Rightarrow> mapped_region \<Rightarrow> pmm \<Rightarrow> pmm res" where
  "set_region mi i r s =
     bnd (st64 (ram s) (region_addr mi i) (mr_va r)) (\<lambda>m.
     bnd (st32 m (region_addr mi i + 8) (mr_npages r)) (\<lambda>m.
     bnd (st32 m (region_addr mi i + 12) (mr_seg_type r)) (\<lambda>m. Inr (s\<lparr>ram := m\<rparr>))))"

text \<open>\<open>region->npages = f(region->npages)\<close>.\<close>

definition upd_npages :: "addr \<Rightarrow> nat \<Rightarrow> (uint32 \<Rightarrow> uint32) \<Rightarrow> pmm \<Rightarrow> pmm res" where
  "upd_npages mi i f s =
     bnd (ld32 (ram s) (region_addr mi i + 8)) (\<lambda>n.
     bnd (st32 (ram s) (region_addr mi i + 8) (f n)) (\<lambda>m. Inr (s\<lparr>ram := m\<rparr>)))"

text \<open>Accesses of the kernel to its memory and to the current process.\<close>

definition on_mm :: "(pmm \<Rightarrow> pmm res) \<Rightarrow> 'a kern_scheme \<Rightarrow> 'a kern_scheme res" where
  "on_mm f s = bnd (f (kmm s)) (\<lambda>m. Inr (s\<lparr>kmm := m\<rparr>))"

definition with_mm :: "(pmm \<Rightarrow> ('b \<times> pmm) res) \<Rightarrow> 'a kern_scheme \<Rightarrow> ('b \<times> 'a kern_scheme) res" where
  "with_mm f s = bnd (f (kmm s)) (\<lambda>(r, m). Inr (r, s\<lparr>kmm := m\<rparr>))"

definition put64 :: "addr \<Rightarrow> uint64 \<Rightarrow> pmm \<Rightarrow> pmm res" where
  "put64 a v s = bnd (st64 (ram s) a v) (\<lambda>m. Inr (s\<lparr>ram := m\<rparr>))"

definition kmemcpy :: "addr \<Rightarrow> addr \<Rightarrow> uint64 \<Rightarrow> pmm \<Rightarrow> pmm res" where
  "kmemcpy d src len s =
     (if ram_ok d (unat len) \<and> ram_ok src (unat len)
      then bnd (of_loop (memcpy (ram s) d src len)) (\<lambda>m. Inr (s\<lparr>ram := m\<rparr>))
      else Inl (Fault (if ram_ok d (unat len) then src else d)))"

definition user_perm :: "uint32 \<Rightarrow> int \<Rightarrow> uint32" where
  "user_perm prot user = ucast (prot_to_type prot user)"

section \<open>The address space of a new process\<close>

text \<open>The three mappings and four region entries that \<^verbatim>\<open>alloc_process\<close> and \<^verbatim>\<open>exec_clean\<close> set up in the same way.\<close>

definition map_regions :: "nat \<Rightarrow> addr \<Rightarrow> 'a kern_scheme \<Rightarrow> 'a kern_scheme res" where
  "map_regions i user_stack s =
     (let pt = p_pagetable (procs s i); tf = p_trapframe (procs s i); mi = p_mapped_info (procs s i); tv = trap_sec_start s
      in bnd (user_vm_map pt (USER_STACK_TOP - PGSIZE) PGSIZE user_stack (user_perm (PROT_WRITE OR PROT_READ) 1) (kmm s)) (\<lambda>m.
         bnd (set_region mi STACK_SEGMENT
                \<lparr>mr_va = USER_STACK_TOP - PGSIZE, mr_npages = 1, mr_seg_type = of_nat STACK_SEGMENT\<rparr> m) (\<lambda>m.
         bnd (user_vm_map pt tf PGSIZE tf (user_perm (PROT_WRITE OR PROT_READ) 0) m) (\<lambda>m.
         bnd (set_region mi CONTEXT_SEGMENT \<lparr>mr_va = tf, mr_npages = 1, mr_seg_type = of_nat CONTEXT_SEGMENT\<rparr> m) (\<lambda>m.
         bnd (user_vm_map pt tv PGSIZE tv (user_perm (PROT_READ OR PROT_EXEC) 0) m) (\<lambda>m.
         bnd (set_region mi SYSTEM_SEGMENT \<lparr>mr_va = tv, mr_npages = 1, mr_seg_type = of_nat SYSTEM_SEGMENT\<rparr> m) (\<lambda>m.
         let s = upd_proc i (\<lambda>p. p\<lparr>p_user_heap := (p_user_heap p)\<lparr>heap_top := USER_FREE_ADDRESS_START,
                   heap_bottom := USER_FREE_ADDRESS_START, free_pages_count := 0\<rparr>\<rparr>) (s\<lparr>kmm := m\<rparr>)
         in bnd (on_mm (set_region mi HEAP_SEGMENT
                   \<lparr>mr_va = USER_FREE_ADDRESS_START, mr_npages = 0, mr_seg_type = of_nat HEAP_SEGMENT\<rparr>) s) (\<lambda>s.
            Inr (upd_proc i (\<lambda>p. p\<lparr>p_total_mapped_region := 4\<rparr>) s)))))))))"

text \<open>\<^verbatim>\<open>alloc_process\<close> up to the call of \<^verbatim>\<open>init_proc_file_management\<close>. \<^verbatim>\<open>regs.sp\<close> is at offset 8 of the trapframe.\<close>

definition alloc_space :: "'a kern_scheme \<Rightarrow> (nat \<times> 'a kern_scheme) res" where
  "alloc_space s =
     (case find_slot (\<lambda>i. p_status (procs s i) = FREE) [0..<NPROC] of
        None \<Rightarrow> Inl (Panic ''cannot find any free process structure.'')
      | Some i \<Rightarrow>
          bnd (with_mm alloc_page s) (\<lambda>(tf, s).
          bnd (on_mm (kmemset tf 0 TRAPFRAME_SIZE) (upd_proc i (\<lambda>p. p\<lparr>p_trapframe := tf\<rparr>) s)) (\<lambda>s.
          bnd (with_mm alloc_page s) (\<lambda>(pt, s).
          bnd (on_mm (kmemset pt 0 PGSIZE) (upd_proc i (\<lambda>p. p\<lparr>p_pagetable := pt\<rparr>) s)) (\<lambda>s.
          bnd (with_mm alloc_page s) (\<lambda>(ks, s).
          bnd (with_mm alloc_page (upd_proc i (\<lambda>p. p\<lparr>p_kstack := ks + PGSIZE\<rparr>) s)) (\<lambda>(user_stack, s).
          bnd (on_mm (put64 (tf + 8) USER_STACK_TOP) s) (\<lambda>s.
          bnd (with_mm alloc_page s) (\<lambda>(mi, s).
          bnd (on_mm (kmemset mi 0 PGSIZE) (upd_proc i (\<lambda>p. p\<lparr>p_mapped_info := mi\<rparr>) s)) (\<lambda>s.
          bnd (map_regions i user_stack s) (\<lambda>s. Inr (i, s))))))))))))"

section \<open>Releasing an address space\<close>

text \<open>The loop over the heap pages, from the top down, and the loop over the pages of another region.\<close>

partial_function (option) free_heap_loop :: "addr \<Rightarrow> addr \<Rightarrow> nat \<Rightarrow> nat \<Rightarrow> uint64 \<Rightarrow> pmm \<Rightarrow> pmm res option" where
  "free_heap_loop pt mi i j heap s =
     (case ld32 (ram s) (region_addr mi i + 8) of
        Inl e \<Rightarrow> Some (Inl e)
      | Inr n \<Rightarrow>
          if j < unat n
          then (case lookup_pa pt heap s of
                  Inl e \<Rightarrow> Some (Inl e)
                | Inr p \<Rightarrow> (case free_page p s of
                             Inl e \<Rightarrow> Some (Inl e)
                           | Inr s \<Rightarrow> free_heap_loop pt mi i (j + 1) (heap - PGSIZE) s))
          else Some (Inr s))"

primrec free_region_loop :: "nat \<Rightarrow> addr \<Rightarrow> uint64 \<Rightarrow> pmm \<Rightarrow> pmm res" where
  "free_region_loop 0 pt va s = Inr s"
| "free_region_loop (Suc n) pt va s =
     bnd (page_walk pt va 0 s) (\<lambda>(pte, s).
     bnd (ld64 (ram s) pte) (\<lambda>e.
     bnd (if e AND PTE_W \<noteq> 0 \<and> e AND PTE_V \<noteq> 0
          then bnd (free_page (PTE2PA e) s) (\<lambda>s.
               bnd (ld64 (ram s) pte) (\<lambda>e. put64 pte (e AND NOT PTE_V) s))
          else Inr s) (\<lambda>s. free_region_loop n pt (va + PGSIZE) s)))"

primrec clean_regions :: "nat \<Rightarrow> nat \<Rightarrow> nat \<Rightarrow> 'a kern_scheme \<Rightarrow> 'a kern_scheme res" where
  "clean_regions 0 i p s = Inr s"
| "clean_regions (Suc n) i p s =
     (let pt = p_pagetable (procs s p); mi = p_mapped_info (procs s p)
      in bnd (get_region mi i (kmm s)) (\<lambda>r.
         bnd (if mr_seg_type r = of_nat HEAP_SEGMENT
              then on_mm (\<lambda>m. bnd (of_loop (free_heap_loop pt mi i 0 (heap_top (p_user_heap (procs s p)) - PGSIZE) m)) (\<lambda>r. r)) s
              else on_mm (free_region_loop (unat (mr_npages r)) pt (mr_va r)) s) (\<lambda>s.
         clean_regions n (Suc i) p s)))"

definition proc_clean_pagetable :: "nat \<Rightarrow> 'a kern_scheme \<Rightarrow> 'a kern_scheme res" where
  "proc_clean_pagetable p s = clean_regions (nat (p_total_mapped_region (procs s p))) 0 p s"

definition exec_clean :: "nat \<Rightarrow> 'a kern_scheme \<Rightarrow> 'a kern_scheme res" where
  "exec_clean p s =
     bnd (proc_clean_pagetable p s) (\<lambda>s.
     bnd (with_mm alloc_page s) (\<lambda>(tf, s).
     bnd (on_mm (kmemset tf 0 TRAPFRAME_SIZE) (upd_proc p (\<lambda>q. q\<lparr>p_trapframe := tf\<rparr>) s)) (\<lambda>s.
     bnd (on_mm (kmemset (p_pagetable (procs s p)) 0 PGSIZE) s) (\<lambda>s.
     bnd (with_mm alloc_page s) (\<lambda>(user_stack, s).
     bnd (on_mm (put64 (tf + 8) USER_STACK_TOP) s) (\<lambda>s.
     bnd (on_mm (kmemset (p_mapped_info (procs s p)) 0 PGSIZE) s) (\<lambda>s.
     map_regions p user_stack s)))))))"

section \<open>Fork\<close>

text \<open>
  The filter of reclaimed heap pages. \<^verbatim>\<open>memset\<close> clears 32 bytes, the first 8 of its 32 entries; the others hold
  what was on the stack, \<open>junk\<close>.
\<close>

definition clear_filter :: "(nat \<Rightarrow> int) \<Rightarrow> int list" where
  "clear_filter junk = map (\<lambda>i. if i < 8 then 0 else junk i) [0..<MAX_HEAP_PAGES]"

primrec mark_free :: "nat \<Rightarrow> nat \<Rightarrow> process_heap_manager \<Rightarrow> int list \<Rightarrow> int list res" where
  "mark_free 0 i h filt = Inr filt"
| "mark_free (Suc n) i h filt =
     bnd (arr_get (free_pages_address h) (int i)) (\<lambda>a.
     bnd (arr_set (sint (ucast ((a - heap_bottom h) div PGSIZE) :: uint32)) 1 filt) (\<lambda>filt.
     mark_free n (Suc i) h filt))"

text \<open>The loop over the heap of the current process.\<close>

partial_function (option) share_heap :: "int list \<Rightarrow> uint64 \<Rightarrow> uint64 \<Rightarrow> addr \<Rightarrow> addr \<Rightarrow> uint64 \<Rightarrow> pmm \<Rightarrow> pmm res option" where
  "share_heap filt bottom hend ppt cpt block s =
     (if block < hend
      then (case arr_get filt (uint ((block - bottom) div PGSIZE)) of
              Inl e \<Rightarrow> Some (Inl e)
            | Inr f \<Rightarrow>
                if f \<noteq> 0 then share_heap filt bottom hend ppt cpt (block + PGSIZE) s
                else (case bnd (lookup_pa ppt block s) (\<lambda>p. cow_vm_map cpt block p s) of
                        Inl e \<Rightarrow> Some (Inl e)
                      | Inr s \<Rightarrow> share_heap filt bottom hend ppt cpt (block + PGSIZE) s))
      else Some (Inr s))"

primrec copy_data :: "nat \<Rightarrow> nat \<Rightarrow> uint64 \<Rightarrow> addr \<Rightarrow> addr \<Rightarrow> pmm \<Rightarrow> pmm res" where
  "copy_data 0 j va ppt cpt s = Inr s"
| "copy_data (Suc n) j va ppt cpt s =
     bnd (lookup_pa ppt (va + of_nat j * PGSIZE) s) (\<lambda>a.
     bnd (alloc_page s) (\<lambda>(new, s).
     bnd (kmemcpy new a PGSIZE s) (\<lambda>s.
     bnd (map_pages cpt (va + of_nat j * PGSIZE) PGSIZE new (user_perm (PROT_WRITE OR PROT_READ) 1) s) (\<lambda>(_, s).
     copy_data n (Suc j) va ppt cpt s))))"

text \<open>The new entry in the table of the child.\<close>

definition add_region :: "nat \<Rightarrow> mapped_region \<Rightarrow> 'a kern_scheme \<Rightarrow> 'a kern_scheme res" where
  "add_region child r s =
     bnd (on_mm (set_region (p_mapped_info (procs s child)) (nat (p_total_mapped_region (procs s child))) r) s) (\<lambda>s.
     Inr (upd_proc child (\<lambda>p. p\<lparr>p_total_mapped_region := p_total_mapped_region p + 1\<rparr>) s))"

definition fork_heap :: "(nat \<Rightarrow> int) \<Rightarrow> nat \<Rightarrow> nat \<Rightarrow> nat \<Rightarrow> 'a kern_scheme \<Rightarrow> 'a kern_scheme res" where
  "fork_heap junk hid parent child s =
     (let ph = p_user_heap (procs s parent); pp = procs s parent; cp = procs s child
      in bnd (mark_free (unat (free_pages_count ph)) 0 ph (clear_filter junk)) (\<lambda>filt.
         bnd (deref (current s hid)) (\<lambda>c.
         let ch = p_user_heap (procs s c)
         in bnd (on_mm (\<lambda>m. bnd (of_loop (share_heap filt (heap_bottom ph) (heap_top ch) (p_pagetable pp) (p_pagetable cp) (heap_bottom ch) m)) (\<lambda>r. r)) s) (\<lambda>s.
            bnd (get_region (p_mapped_info pp) HEAP_SEGMENT (kmm s)) (\<lambda>r.
            bnd (on_mm (upd_npages (p_mapped_info cp) HEAP_SEGMENT (\<lambda>_. mr_npages r)) s) (\<lambda>s.
            Inr (upd_proc child (\<lambda>p. p\<lparr>p_user_heap := ph\<rparr>) s)))))))"

definition fork_region :: "(nat \<Rightarrow> int) \<Rightarrow> nat \<Rightarrow> nat \<Rightarrow> nat \<Rightarrow> nat \<Rightarrow> 'a kern_scheme \<Rightarrow> 'a kern_scheme res" where
  "fork_region junk hid parent child i s =
     (let pp = procs s parent; cp = procs s child
      in bnd (get_region (p_mapped_info pp) i (kmm s)) (\<lambda>r.
         if mr_seg_type r = of_nat CONTEXT_SEGMENT then on_mm (kmemcpy (p_trapframe cp) (p_trapframe pp) TRAPFRAME_SIZE) s
         else if mr_seg_type r = of_nat STACK_SEGMENT
         then bnd (get_region (p_mapped_info cp) STACK_SEGMENT (kmm s)) (\<lambda>cr.
              bnd (lookup_pa (p_pagetable cp) (mr_va cr) (kmm s)) (\<lambda>d.
              bnd (lookup_pa (p_pagetable pp) (mr_va r) (kmm s)) (\<lambda>a. on_mm (kmemcpy d a PGSIZE) s)))
         else if mr_seg_type r = of_nat HEAP_SEGMENT then fork_heap junk hid parent child s
         else if mr_seg_type r = of_nat CODE_SEGMENT
         then bnd (lookup_pa (p_pagetable pp) (mr_va r) (kmm s)) (\<lambda>a.
              bnd (on_mm (user_vm_map (p_pagetable cp) (mr_va r) (ucast (mr_npages r * 4096)) a (user_perm (PROT_READ OR PROT_EXEC) 1)) s) (\<lambda>s.
              add_region child (r\<lparr>mr_seg_type := of_nat CODE_SEGMENT\<rparr>) s))
         else if mr_seg_type r = of_nat DATA_SEGMENT
         then bnd (on_mm (copy_data (unat (mr_npages r)) 0 (mr_va r) (p_pagetable pp) (p_pagetable cp)) s) (\<lambda>s.
              add_region child (r\<lparr>mr_seg_type := of_nat DATA_SEGMENT\<rparr>) s)
         else Inr s))"

partial_function (option) fork_loop :: "(nat \<Rightarrow> int) \<Rightarrow> nat \<Rightarrow> nat \<Rightarrow> nat \<Rightarrow> nat \<Rightarrow> 'a kern_scheme \<Rightarrow> 'a kern_scheme res option" where
  "fork_loop junk hid parent child i s =
     (if int i < p_total_mapped_region (procs s parent)
      then (case fork_region junk hid parent child i s of
              Inl e \<Rightarrow> Some (Inl e)
            | Inr s \<Rightarrow> fork_loop junk hid parent child (Suc i) s)
      else Some (Inr s))"

text \<open>The end of \<^verbatim>\<open>do_fork\<close>, behind the copy of the open files. \<^verbatim>\<open>regs.a0\<close> is at offset 72.\<close>

definition fork_ready :: "nat \<Rightarrow> nat \<Rightarrow> 'a kern_scheme \<Rightarrow> (uint64 \<times> 'a kern_scheme) res" where
  "fork_ready parent child s =
     (let s = upd_proc child (\<lambda>p. p\<lparr>p_status := READY\<rparr>) s
      in bnd (on_mm (put64 (p_trapframe (procs s child) + 72) 0) s) (\<lambda>s.
         bnd (insert_to_ready_queue child (upd_proc child (\<lambda>p. p\<lparr>p_parent := Some parent\<rparr>) s)) (\<lambda>s.
         Inr (p_pid (procs s child), s))))"

section \<open>Page faults and heap pages\<close>

abbreviation (input) CAUSE_STORE_PAGE_FAULT :: uint64 where "CAUSE_STORE_PAGE_FAULT \<equiv> 0xf"

definition user_pte :: "addr \<Rightarrow> uint64" where
  "user_pte p = PA2PTE p OR PTE_V OR prot_to_type (PROT_WRITE OR PROT_READ) 1"

definition handle_user_page_fault :: "nat \<Rightarrow> uint64 \<Rightarrow> uint64 \<Rightarrow> 'a kern_scheme \<Rightarrow> 'a kern_scheme res" where
  "handle_user_page_fault hid cause va s =
     (if cause = CAUSE_STORE_PAGE_FAULT
      then bnd (deref (current s hid)) (\<lambda>c.
           let pt = p_pagetable (procs s c)
           in bnd (ld64 (ram (kmm s)) (p_trapframe (procs s c) + 8)) (\<lambda>user_sp.
              if va > user_sp \<and> va < USER_STACK_TOP
              then bnd (with_mm alloc_page s) (\<lambda>(p, s).
                   if p = 0 then Inl (Panic ''alloc_page failed.'')
                   else bnd (with_mm (page_walk pt va 1) s) (\<lambda>(pte, s). on_mm (put64 pte (user_pte p)) s))
              else bnd (with_mm (page_walk pt va 0) s) (\<lambda>(pte, s).
                   bnd (ld64 (ram (kmm s)) pte) (\<lambda>e.
                   if RSW e = 1
                   then bnd (on_mm (free_page (PTE2PA e)) s) (\<lambda>s.
                        bnd (with_mm alloc_page s) (\<lambda>(p, s).
                        if p = 0 then Inl (Panic ''alloc_page failed.'') else on_mm (put64 pte (user_pte p)) s))
                   else Inl (Panic ''this address is not available!'')))))
      else Inr s)"

definition sys_user_allocate_page :: "nat \<Rightarrow> 'a kern_scheme \<Rightarrow> (uint64 \<times> 'a kern_scheme) res" where
  "sys_user_allocate_page hid s =
     bnd (with_mm alloc_page s) (\<lambda>(p, s).
     bnd (deref (current s hid)) (\<lambda>c.
     let h = p_user_heap (procs s c)
     in bnd (if free_pages_count h > 0
             then (let n = free_pages_count h - 1
                   in bnd (arr_get (free_pages_address h) (uint n)) (\<lambda>va.
                      if va < heap_top h
                      then Inr (va, upd_proc c (\<lambda>q. q\<lparr>p_user_heap := h\<lparr>free_pages_count := n\<rparr>\<rparr>) s)
                      else Inl (Assert_Fail ''va < current[hart_id]->user_heap.heap_top'')))
             else bnd (on_mm (upd_npages (p_mapped_info (procs s c)) HEAP_SEGMENT (\<lambda>n. n + 1))
                        (upd_proc c (\<lambda>q. q\<lparr>p_user_heap := h\<lparr>heap_top := heap_top h + PGSIZE\<rparr>\<rparr>) s)) (\<lambda>s.
                  Inr (heap_top h, s))) (\<lambda>(va, s).
        bnd (on_mm (user_vm_map (p_pagetable (procs s c)) va PGSIZE p (user_perm (PROT_WRITE OR PROT_READ) 1)) s) (\<lambda>s.
        Inr (va, s)))))"

definition sys_user_free_page :: "nat \<Rightarrow> uint64 \<Rightarrow> 'a kern_scheme \<Rightarrow> (uint64 \<times> 'a kern_scheme) res" where
  "sys_user_free_page hid va s =
     bnd (deref (current s hid)) (\<lambda>c.
     bnd (on_mm (user_vm_unmap (p_pagetable (procs s c)) va PGSIZE 1) s) (\<lambda>s.
     let h = p_user_heap (procs s c); n = free_pages_count h
     in bnd (arr_set (uint n) va (free_pages_address h)) (\<lambda>as.
        Inr (0, upd_proc c (\<lambda>q. q\<lparr>p_user_heap := h\<lparr>free_pages_address := as, free_pages_count := n + 1\<rparr>\<rparr>) s))))"

end
