(* ===== verification/User_Pages.thy ===== *)
theory User_Pages
  imports Process
begin

text \<open>
  The pages of a process: what the page fault handler and the page system calls do to its address space.
\<close>

section \<open>Accesses inside a page\<close>

lemma uint_less_length: "unat i < length xs \<Longrightarrow> uint i < int (length xs)"
  by (simp only: uint_nat of_nat_less_iff)

lemma arr_get_word: "unat i < length xs \<Longrightarrow> arr_get xs (uint i) = Inr (xs ! unat i)"
  by (simp add: arr_get_def uint_less_length)

lemma arr_set_word: "unat i < length xs \<Longrightarrow> arr_set (uint i) v xs = Inr (xs[unat i := v])"
  by (simp add: arr_set_def uint_less_length)

lemma in_page_off:
  assumes "unat off + n \<le> 4096" "unat (a - (p + off)) < n"
  shows "in_page p a"
proof -
  define x where "x = a - (p + off)"
  have "a - p = off + x" "unat x < n" using assms(2) by (simp_all add: x_def)
  then have "unat (a - p) = unat off + unat x" using assms(1) by (simp add: unat_word_ariths)
  then show ?thesis using assms(1) \<open>unat x < n\<close> by (simp add: in_page_def word_less_nat_alt)
qed

lemma store32_page: "unat off + 4 \<le> 4096 \<Longrightarrow> \<not> in_page p a \<Longrightarrow> store32 m (p + off) v a = m a"
  using in_page_off [of off 4 a p] by (auto simp: store32_def word_less_nat_alt)

lemma page_ld32: "page_aligned p \<Longrightarrow> ram_ok p 4096 \<Longrightarrow> unat off + 4 \<le> 4096 \<Longrightarrow> 4 dvd unat off \<Longrightarrow> ram_ok (p + off) 4 \<and> (p + off) mod 4 = 0"
proof -
  assume a: "page_aligned p" "ram_ok p 4096" "unat off + 4 \<le> 4096" "4 dvd unat off"
  then have u: "unat (p + off) = unat p + unat off" by (simp add: ram_ok_def unat_word_ariths)
  have "(4 :: nat) dvd unat p" using a(1) by (auto simp: page_aligned_iff dest!: dvd_trans [where a = "4::nat", rotated])
  then have "(p + off) mod 4 = 0" using u a(4) by (simp add: word_mod_0_iff_dvd)
  then show ?thesis using a u by (simp add: ram_ok_def word_le_nat_alt)
qed

lemma upd_npages_ok:
  assumes "page_aligned mi" "ram_ok mi 4096" "i < 256"
  shows "\<exists>m'. upd_npages mi i f m = Inr (m\<lparr>ram := m'\<rparr>) \<and> (\<forall>a. \<not> in_page mi a \<longrightarrow> m' a = ram m a)"
proof -
  define off :: addr where "off = 16 * of_nat i + 8"
  have u: "unat off = 4 * (4 * i + 2)"
    using assms(3) by (simp add: off_def unat_word_ariths unsigned_of_nat take_bit_nat_eq_self)
  have o1: "unat off + 4 \<le> 4096" unfolding u using assms(3) by simp
  have o2: "4 dvd unat off" unfolding u by (rule dvd_triv_left)
  have e: "region_addr mi i + 8 = mi + off" by (simp add: region_addr_def off_def)
  have "upd_npages mi i f m = Inr (m\<lparr>ram := store32 (ram m) (mi + off) (f (load32 (ram m) (mi + off)))\<rparr>)"
    using page_ld32 [OF assms(1,2) o1 o2] by (simp add: upd_npages_def e ld32_def st32_def)
  then show ?thesis using store32_page [OF o1] by blast
qed

lemma page_ld64: "page_aligned p \<Longrightarrow> ram_ok p 4096 \<Longrightarrow> unat off + 8 \<le> 4096 \<Longrightarrow> 8 dvd unat off \<Longrightarrow> ram_ok (p + off) 8 \<and> (p + off) mod 8 = 0"
proof -
  assume a: "page_aligned p" "ram_ok p 4096" "unat off + 8 \<le> 4096" "8 dvd unat off"
  then have u: "unat (p + off) = unat p + unat off" by (simp add: ram_ok_def unat_word_ariths)
  then have "(p + off) mod 8 = 0" using a(4) page_aligned_dvd8 [OF a(1)] by (simp add: word_mod_0_iff_dvd)
  then show ?thesis using a u by (simp add: ram_ok_def word_le_nat_alt)
qed

lemma unat_region: "i < 256 \<Longrightarrow> unat (16 * of_nat i :: addr) = 16 * i"
  by (simp add: unat_word_ariths unsigned_of_nat take_bit_nat_eq_self)

lemma get_region_ok:
  assumes "page_aligned mi" "ram_ok mi 4096" "i < 256"
  shows "get_region mi i m = Inr \<lparr>mr_va = load64 (ram m) (region_addr mi i), mr_npages = load32 (ram m) (region_addr mi i + 8),
    mr_seg_type = load32 (ram m) (region_addr mi i + 12)\<rparr>"
proof -
  define o0 o1 o2 :: addr where "o0 = 16 * of_nat i" and "o1 = 16 * of_nat i + 8" and "o2 = 16 * of_nat i + 12"
  have u: "unat o0 = 8 * (2 * i)" "unat o1 = 4 * (4 * i + 2)" "unat o2 = 4 * (4 * i + 3)"
    using unat_region [OF assms(3)] assms(3) by (simp_all add: o0_def o1_def o2_def unat_word_ariths)
  have d: "8 dvd unat o0" "4 dvd unat o1" "4 dvd unat o2" unfolding u by (rule dvd_triv_left)+
  have l: "unat o0 + 8 \<le> 4096" "unat o1 + 4 \<le> 4096" "unat o2 + 4 \<le> 4096" unfolding u using assms(3) by simp_all
  have e: "region_addr mi i = mi + o0" "region_addr mi i + 8 = mi + o1" "region_addr mi i + 12 = mi + o2"
    by (simp_all add: region_addr_def o0_def o1_def o2_def)
  have "ram_ok (region_addr mi i) 8 \<and> region_addr mi i mod 8 = 0"
    "ram_ok (region_addr mi i + 8) 4 \<and> (region_addr mi i + 8) mod 4 = 0"
    "ram_ok (region_addr mi i + 12) 4 \<and> (region_addr mi i + 12) mod 4 = 0"
    unfolding e(2,3) unfolding e(1)
    by (rule page_ld64 [OF assms(1,2) l(1) d(1)], rule page_ld32 [OF assms(1,2) l(2) d(2)], rule page_ld32 [OF assms(1,2) l(3) d(3)])
  then show ?thesis by (simp add: get_region_def ld64_def ld32_def)
qed

section \<open>Entries of user pages\<close>

lemma user_pte_eq: "user_pte p = PA2PTE p OR 215"
  by (simp add: user_pte_def prot_to_type_def)

lemma user_perm_rw: "scast (user_perm (PROT_WRITE OR PROT_READ) 1) = (214 :: uint64)"
  by (simp add: user_perm_def prot_to_type_def)

lemma user_pte_map: "PA2PTE p OR scast (user_perm (PROT_WRITE OR PROT_READ) 1) OR PTE_V = user_pte p"
  unfolding user_perm_rw user_pte_eq by simp

lemma user_pte_pa [simp]: "page_aligned p \<Longrightarrow> PTE2PA (user_pte p) = p"
  unfolding user_pte_eq by (rule PTE2PA_PA2PTE) simp_all

lemma user_pte_nonzero [simp]: "user_pte p \<noteq> 0"
  by (simp add: user_pte_eq or_eq_0_iff)

lemma user_pte_bits: "user_pte p AND PTE_V \<noteq> 0" "user_pte p AND PTE_R \<noteq> 0" "user_pte p AND PTE_W \<noteq> 0"
  unfolding user_pte_eq bit.conj_disj_distrib2 by (simp_all add: or_eq_0_iff)

lemma lookup_user_pte:
  assumes "pt_wf s root" "bounds_ok s" "va < MAXVA" "pte_of (ram s) root va = user_pte p" "page_aligned p"
  shows "lookup_pa root va s = Inr p"
  using lookup_pa_eq [OF assms(1-3)] assms(4,5) user_pte_bits [of p] by simp

lemma user_pte_translate:
  assumes "pt_wf s root" "bounds_ok s" "va < MAXVA" "pte_of (ram s) root va = user_pte p" "page_aligned p"
  shows "user_va_to_pa root va s = Inr (p + va mod PGSIZE)"
  using assms by (intro user_va_to_pa_eq [where f = 215]) (simp_all add: user_pte_eq)

lemma agree_3_div:
  assumes "va < MAXVA" "vb < MAXVA"
  shows "agree 3 va vb \<longleftrightarrow> unat va div 4096 = unat vb div 4096"
proof -
  have "drop_bit 12 va = drop_bit 12 vb \<longleftrightarrow> unat (drop_bit 12 va) = unat (drop_bit 12 vb)"
    by (auto intro: unsigned_word_eqI)
  then show ?thesis using agree_3_iff [OF assms] by (simp add: drop_bit_eq_div unat_div)
qed

lemma booted_bounds: "booted pin s ps \<Longrightarrow> bounds_ok s"
  by (simp add: booted_def pmm_inv_def)

text \<open>A table of a well-formed page table is in use, so it is not a free page.\<close>

lemma table_not_free:
  assumes "booted pin s ps" "pt_wf s root" "k \<le> 2" "desc (ram s) root va k = Some t" "p \<in> set ps"
  shows "t \<noteq> p"
  using pt_wf_table [OF assms(2-4)] pmm_inv_fresh [of s ps p] assms(1,5) by (auto simp: booted_def)

text \<open>Counts and bounds may change as long as the tables stay in use.\<close>

lemma pt_wf_counts:
  assumes "pt_wf s root" "ram s' = ram s" "same_bounds s s'"
    "\<And>va k t. k \<le> 2 \<Longrightarrow> desc (ram s) root va k = Some t \<Longrightarrow> 0 < ref_count s' t"
  shows "pt_wf s' root"
  using assms same_boundsD [OF assms(3)] by (intro pt_wf_other [OF assms(1)]) auto

section \<open>Frames\<close>

text \<open>A page table depends only on the memory of its tables.\<close>

lemma desc_frame:
  assumes wf: "pt_wf s root"
    and same: "\<And>va k t a. k \<le> 2 \<Longrightarrow> desc (ram s) root va k = Some t \<Longrightarrow> in_page t a \<Longrightarrow> m a = ram s a"
  shows "k \<le> 2 \<Longrightarrow> desc m root va k = desc (ram s) root va k" "pte_of m root va = pte_of (ram s) root va"
proof -
  have ld: "load64 m (cell t l va) = load64 (ram s) (cell t l va)" if "k \<le> 2" "desc (ram s) root va k = Some t" for k va t l
    by (rule load64_cong) (rule same [OF that cell_bytes_in_page])
  show d: "k \<le> 2 \<Longrightarrow> desc m root va k = desc (ram s) root va k" for k
  proof (induction k)
    case (Suc k)
    then show ?case using ld [of k va] by (cases "desc (ram s) root va k") auto
  qed simp
  show "pte_of m root va = pte_of (ram s) root va"
    using d [of 2] ld [of 2 va] by (auto simp: pte_of_def split: option.splits)
qed

text \<open>A page that is not a table of \<open>root\<close>.\<close>

definition no_table :: "pmm \<Rightarrow> addr \<Rightarrow> addr \<Rightarrow> bool" where
  "no_table s root p \<longleftrightarrow> (\<forall>va k t. k \<le> 2 \<longrightarrow> desc (ram s) root va k = Some t \<longrightarrow> t \<noteq> p)"

lemma no_tableD: "no_table s root p \<Longrightarrow> k \<le> 2 \<Longrightarrow> desc (ram s) root va k = Some t \<Longrightarrow> t \<noteq> p"
  by (auto simp: no_table_def)

text \<open>Writing inside a page that is in use and is not a table.\<close>

lemma page_write:
  assumes b: "booted pin s ps" and p: "page_aligned p" "0 < ref_count s p"
    and m: "\<And>a. \<not> in_page p a \<Longrightarrow> m a = ram s a"
  shows "booted pin (s\<lparr>ram := m\<rparr>) ps"
proof (rule booted_ram [OF b])
  fix q assume q: "q \<in> set ps"
  then have qa: "page_aligned q" "q \<noteq> p" using b p pmm_inv_fresh [of s ps q] by (auto simp: booted_def managed_def)
  show "load64 m q = load64 (ram s) q"
  proof (rule load64_cong)
    fix i :: addr assume "i < 8"
    then have "in_page q (q + i)" using less_trans [of i 8 4096] by (simp add: in_page_def)
    then show "m (q + i) = ram s (q + i)" using in_page_disjoint [OF qa(1) p(1) qa(2)] m by blast
  qed
qed

lemma page_write_pt:
  assumes wf: "pt_wf s root" and p: "page_aligned p" "no_table s root p"
    and m: "\<And>a. \<not> in_page p a \<Longrightarrow> m a = ram s a"
  shows "pt_wf (s\<lparr>ram := m\<rparr>) root" "pte_of m root va = pte_of (ram s) root va"
    "k \<le> 2 \<Longrightarrow> desc m root va k = desc (ram s) root va k"
proof -
  have same: "m a = ram s a" if "k \<le> 2" "desc (ram s) root va k = Some t" "in_page t a" for va k t a
    using in_page_disjoint [OF pt_wf_aligned [OF wf that(1,2)] p(1) no_tableD [OF p(2) that(1,2)] that(3)] m by blast
  note f = desc_frame [OF wf same]
  show "pte_of m root va = pte_of (ram s) root va" by (rule f(2))
  show d: "k \<le> 2 \<Longrightarrow> desc m root va k = desc (ram s) root va k" for va k by (rule f(1))
  show "pt_wf (s\<lparr>ram := m\<rparr>) root"
    using d by (intro pt_wf_other [OF wf]) (auto simp: managed_def fun_eq_iff dest: pt_wf_table [OF wf])
qed

lemma fresh_no_table: "booted pin s ps \<Longrightarrow> pt_wf s root \<Longrightarrow> p \<in> set ps \<Longrightarrow> no_table s root p"
  unfolding no_table_def using table_not_free by blast

section \<open>Mapping one page\<close>

lemma pte_of_agree:
  assumes "agree 3 va vb" shows "pte_of m root va = pte_of m root vb"
proof -
  have "agree 2 va vb" "PX 0 va = PX 0 vb" using agree_mono [OF assms, of 2] assms by (simp_all add: agree_3)
  then show ?thesis using desc_agree [of 2 va vb m root] by (auto simp: pte_of_def cell_def split: option.splits)
qed

lemma vpages_page: "page_aligned p \<Longrightarrow> v \<in> vpages p 1 \<longleftrightarrow> unat v div 4096 = unat p div 4096"
  unfolding page_aligned_iff vpages_def by auto

lemma user_map_page:
  assumes b: "booted pin s ps" and wf: "pt_wf s root" and va: "page_aligned va" "va < MAXVA" "pte_of (ram s) root va AND PTE_V = 0"
    and room: "2 \<le> length ps" "2 \<le> table_room s"
  shows "\<exists>s' j. user_vm_map root va PGSIZE p perm s = Inr s' \<and> booted pin s' (drop j ps) \<and> j \<le> 2 \<and>
    table_room s = j + table_room s' \<and>
    remapped s s' root ps (\<lambda>v. if unat v div 4096 = unat va div 4096 then PA2PTE p OR scast perm OR PTE_V else pte_of (ram s) root v)"
proof -
  obtain k where k: "unat va = 4096 * k" using va(1) by (auto simp: page_aligned_iff)
  have top: "unat va + 4096 \<le> 2 ^ 38" using va(2) k by (simp add: word_less_nat_alt)
  have n: "npages va PGSIZE = 1" "ROUNDDOWN va PGSIZE = va" using ROUNDDOWN_aligned [OF va(1)] k by (simp_all add: npages_def)
  have S: "v \<in> vpages va 1 \<longleftrightarrow> unat v div 4096 = unat va div 4096" for v by (rule vpages_page [OF va(1)])
  have "pte_of (ram s) root v AND PTE_V = 0" if "v \<in> vpages va 1" for v
  proof -
    have "v < MAXVA" using that top by (simp add: vpages_def word_less_nat_alt)
    then have "agree 3 va v" using agree_3_div [OF va(2)] that S by simp
    then show ?thesis using pte_of_agree va(3) by metis
  qed
  then obtain s' j where s': "map_pages root va PGSIZE p perm s = Inr (0, s')" "booted pin s' (drop j ps)"
    "j \<le> range_need (ram s) root (vpages va 1)" "table_room s = j + table_room s'"
    "remapped s s' root ps (mapped va 1 p perm (pte_of (ram s) root))"
    using map_pages_eq [OF b wf, of PGSIZE va p perm] top n range_need_page [OF va(1,2), of "ram s" root] room by auto
  have "mapped va 1 p perm (pte_of (ram s) root) v =
      (if unat v div 4096 = unat va div 4096 then PA2PTE p OR scast perm OR PTE_V else pte_of (ram s) root v)" for v
  proof (cases "v \<in> vpages va 1")
    case True
    then have "va \<le> v" "unat v < unat va + 4096" by (simp_all add: vpages_def word_le_nat_alt)
    then have "unat (v - va) div 4096 = 0" by (simp add: unat_sub)
    then have "unat (ROUNDDOWN (v - va) PGSIZE) = 0" by (simp add: unat_ROUNDDOWN)
    then have "ROUNDDOWN (v - va) PGSIZE = 0" by (simp only: unat_eq_0)
    then show ?thesis using True S by (simp add: mapped_def)
  qed (use S in \<open>simp add: mapped_def\<close>)
  then have "mapped va 1 p perm (pte_of (ram s) root) = (\<lambda>v. if unat v div 4096 = unat va div 4096 then PA2PTE p OR scast perm OR PTE_V else pte_of (ram s) root v)"
    by (rule ext)
  then show ?thesis
    using s' range_need_page [OF va(1,2), of "ram s" root] by (intro exI [of _ s'] exI [of _ j]) (simp add: user_vm_map_def)
qed

text \<open>A page in use that is not a table: mapping does not touch it.\<close>

definition owned :: "pmm \<Rightarrow> addr \<Rightarrow> addr \<Rightarrow> bool" where
  "owned s root p \<longleftrightarrow> p \<noteq> 0 \<and> page_aligned p \<and> 0 < ref_count s p \<and> no_table s root p"

lemma owned_ram_ok: "booted pin s ps \<Longrightarrow> owned s root p \<Longrightarrow> page_aligned p \<and> ram_ok p 4096"
  using managed_ram_ok [OF booted_bounds booted_managed, of pin s ps pin ps p] by (auto simp: owned_def)

lemma remapped_owned:
  assumes b: "booted pin s ps" and r: "remapped s s' root ps f" and p: "owned s root p"
  shows "owned s' root p" "ref_count s' p = ref_count s p" "in_page p a \<Longrightarrow> ram s' a = ram s a"
proof -
  have nf: "p \<notin> set ps" using b p pmm_inv_fresh [of s ps p] by (auto simp: booted_def owned_def)
  show c: "ref_count s' p = ref_count s p" using r p by (simp add: remapped_def owned_def)
  have "no_table s' root p"
    unfolding no_table_def
  proof (intro allI impI)
    fix va k t assume "k \<le> 2" "desc (ram s') root va k = Some t"
    then have "desc (ram s) root va k = Some t \<or> t \<in> set ps" using r unfolding remapped_def by blast
    then show "t \<noteq> p" using p nf \<open>k \<le> 2\<close> by (auto simp: owned_def no_table_def)
  qed
  then show "owned s' root p" using p c by (simp add: owned_def)
  show "ram s' a = ram s a" if a: "in_page p a"
  proof (rule frame_okD [of s root ps])
    show "frame_ok s root ps (ram s')" using r by (simp add: remapped_def)
    show "\<not> in_page q a" if "q \<in> set ps" for q
      using that b p nf in_page_disjoint [of p q a] a pmm_inv_fresh [of s ps q] by (auto simp: booted_def owned_def managed_def)
    show "\<not> in_page t a" if "k \<le> 2" "desc (ram s) root va k = Some t" for va k t
    proof -
      have "page_aligned t"
        using r that unfolding remapped_def pt_wf_def by (meson managed_def)
      then show ?thesis using in_page_disjoint [of p t a] a p that by (auto simp: owned_def no_table_def)
    qed
  qed
qed

section \<open>Page faults\<close>

lemma RSW_0 [simp]: "RSW 0 = 0"
  by (simp add: RSW_def)

lemma cow_fault:
  assumes b: "booted pin (kmm s) (q # qs)" "0 < table_room (kmm s)"
    and cur: "current s hid = Some c" and root: "root = p_pagetable (procs s c)" and wf: "pt_wf (kmm s) root"
    and usp: "ld64 (ram (kmm s)) (p_trapframe (procs s c) + 8) = Inr usp" "\<not> (usp < va \<and> va < USER_STACK_TOP)"
    and va: "va < MAXVA" "RSW (pte_of (ram (kmm s)) root va) = 1"
    and p: "p = PTE2PA (pte_of (ram (kmm s)) root va)" "p \<noteq> 0" "1 < ref_count (kmm s) p"
  shows "\<exists>s' t. handle_user_page_fault hid CAUSE_STORE_PAGE_FAULT va s = Inr s' \<and> booted pin (kmm s') qs \<and>
    desc (ram (kmm s)) root va 2 = Some t \<and> pt_wf (kmm s') root \<and>
    ram (kmm s') = store64 (ram (kmm s)) (cell t 0 va) (user_pte q) \<and>
    ref_count (kmm s') = (ref_count (kmm s))(p := ref_count (kmm s) p - 1, q := 1)"
proof -
  have bo: "bounds_ok (kmm s)" by (rule booted_bounds [OF b(1)])
  obtain t where t: "desc (ram (kmm s)) root va 2 = Some t" using va(2) by (auto simp: pte_of_def split: option.splits)
  note lc = leaf_cell [OF wf bo t]
  obtain m1 where m1: "free_page p (kmm s) = Inr m1" "booted pin m1 (q # qs)"
    "ref_count m1 = (ref_count (kmm s))(p := ref_count (kmm s) p - 1)" "ram m1 = ram (kmm s)" "same_bounds (kmm s) m1"
    "ref_total m1 = ref_total (kmm s)"
    using booted_free_shared [OF b(1) p(3,2)] by blast
  have "0 < table_room m1" using b(2) m1(6) by (simp add: table_room_def)
  from booted_alloc [OF m1(2) this] obtain m2 where m2: "alloc_page m1 = Inr (q, m2)" "booted pin m2 qs"
    "ref_count m2 = (ref_count m1)(q := 1)" "ram m2 = ram m1" "same_bounds m1 m2" by blast
  have q0: "q \<noteq> 0" using m1(2) by (auto simp: booted_def pmm_inv_def)
  have rc: "ref_count m2 = (ref_count (kmm s))(p := ref_count (kmm s) p - 1, q := 1)" using m1(3) m2(3) by simp
  have wf2: "pt_wf m2 root"
  proof (rule pt_wf_counts [OF wf])
    show "ram m2 = ram (kmm s)" using m1(4) m2(4) by simp
    show "same_bounds (kmm s) m2" by (rule same_bounds_trans [OF m1(5) m2(5)])
    show "0 < ref_count m2 t" if "k \<le> 2" "desc (ram (kmm s)) root va k = Some t" for va k t
      using pt_wf_table [OF wf that] p(3) unfolding rc by auto
  qed
  let ?m = "m2\<lparr>ram := store64 (ram m2) (cell t 0 va) (user_pte q)\<rparr>"
  have t2: "desc (ram m2) root va 2 = Some t" using t m1(4) m2(4) by simp
  have "handle_user_page_fault hid CAUSE_STORE_PAGE_FAULT va s = Inr (s\<lparr>kmm := ?m\<rparr>)"
    using cur usp page_walk_find [OF wf bo va(1)] t cell_ld64 [OF lc(1,2)] cell_st64 [OF lc(1,2)] va(2) m1(1) m2(1) q0
    unfolding root p(1)
    by (auto simp: handle_user_page_fault_def with_mm_def on_mm_def put64_def pte_of_def Let_def)
  moreover have "0 < ref_count m2 t" using pt_wf_table [OF wf2 _ t2] by simp
  then have "booted pin ?m qs" by (rule booted_store_cell [OF m2(2) lc(1)])
  moreover have "pt_wf ?m root" by (rule pt_wf_store_leaf [OF wf2 t2])
  ultimately show ?thesis using t rc m1(4) m2(4) by (intro exI [of _ "s\<lparr>kmm := ?m\<rparr>"] exI [of _ t]) simp
qed

section \<open>A machine with free memory\<close>

text \<open>Memory of one megabyte behind the kernel, with the kernel's page directory in the last page.\<close>

lemma ex_machine: "\<exists>m pin ps. booted pin m ps \<and> length ps = 254 \<and> table_room m = 16383 \<and> free_mem_start_addr m = 0x80100000"
proof -
  let ?s = "\<lparr>ram = \<lambda>_. 0, g_mem_size = 0x200000, free_mem_start_addr = 0, free_mem_end_addr = 0,
      g_free_mem_list = 0, ref_list = \<lambda>_. \<lparr>ru_pa = 0, ru_ref = 0\<rparr>, ref_total = 0, page_latch = 0\<rparr> :: pmm"
  obtain s where s: "pmm_init 0x80100000 ?s = Inr s" "free_mem_start_addr s = ROUNDUP 0x80100000 PGSIZE"
    "free_mem_end_addr s = DRAM_BASE + min PKE_MAX_ALLOWABLE_RAM (g_mem_size ?s)"
    "pmm_inv s (rev (pages_from (free_mem_start_addr s) (page_count (free_mem_start_addr s) (free_mem_end_addr s))))"
    "\<forall>p. ref_count s p = 0"
    using pmm_init_spec [of "0x80100000" ?s] by (auto simp: min_def)
  let ?ps = "rev (pages_from (free_mem_start_addr s) (page_count (free_mem_start_addr s) (free_mem_end_addr s)))"
  have b: "free_mem_start_addr s = 0x80100000" "free_mem_end_addr s = 0x80200000"
    using s(2,3) by (simp_all add: ROUNDUP_def min_def)
  then have len: "length ?ps = 255" by (simp add: page_count_def pages_from_def)
  then obtain p qs where ps: "?ps = p # qs" by (cases ?ps) auto
  have r: "ref_pas s = []" using s(4,5) ref_count_0_iff [of s] by (auto simp: pmm_inv_def)
  then have "nat (ref_total s) = 0" using length_refs [of s] by (simp add: ref_pas_def)
  then have tot: "ref_total s = 0" using s(4) by (simp add: pmm_inv_def table_ok_def)
  have inv: "pmm_inv s (p # qs)" using s(4) unfolding ps .
  obtain m where m: "pmm_inv m qs" "ref_total m = 1" "ref_pas m \<noteq> []" "last (ref_pas m) = p" "same_bounds s m"
    using alloc_page_some [OF inv] tot r by auto
  then have "booted p m qs" by (simp add: booted_def)
  moreover have "length qs = 254" using len unfolding ps by simp
  moreover have "free_mem_start_addr m = 0x80100000" using m(5) b by (simp add: same_bounds_def)
  moreover have "table_room m = 16383" using m(2) by (simp add: table_room_def)
  ultimately show ?thesis by blast
qed

text \<open>A page directory with no mapping and a page for the region table.\<close>

lemma empty_space:
  assumes "booted pin m (root # ps)" "0 < table_room m"
  shows "\<exists>m' . alloc_page m = Inr (root, m') \<and> booted pin (m'\<lparr>ram := filled (ram m') root 0 4096\<rparr>) ps \<and>
    pt_wf (m'\<lparr>ram := filled (ram m') root 0 4096\<rparr>) root \<and> empty_dir (filled (ram m') root 0 4096) root \<and>
    table_room m = Suc (table_room m') \<and> ref_count m' = (ref_count m)(root := 1) \<and> ram m' = ram m \<and> same_bounds m m'"
proof -
  obtain m' where m': "alloc_page m = Inr (root, m')" "booted pin m' ps" "ref_count m' = (ref_count m)(root := 1)"
    "table_room m = Suc (table_room m')" "ram m' = ram m" "same_bounds m m'"
    using booted_alloc [OF assms] by blast
  have rt: "managed m root" using assms(1) pmm_inv_fresh [of m "root # ps" root] by (auto simp: booted_def)
  then have al: "page_aligned root" by (simp add: managed_def)
  let ?m = "m'\<lparr>ram := filled (ram m') root 0 4096\<rparr>"
  have e: "empty_dir (ram ?m) root" by (simp add: empty_dir_filled)
  have "managed ?m root" using rt m'(6) by (simp add: managed_def same_bounds_def)
  moreover have "0 < ref_count ?m root" using m'(3) by simp
  ultimately have "pt_wf ?m root" by (rule empty_dir_wf [OF e])
  moreover have "booted pin ?m ps" by (rule booted_fill_page [OF m'(2) al]) (simp add: m'(3))
  ultimately show ?thesis using m' e by auto
qed

lemma ex_space:
  "\<exists>m pin ps root mi. booted pin m ps \<and> 250 < length ps \<and> 250 < table_room m \<and> pt_wf m root \<and> (\<forall>va. pte_of (ram m) root va = 0) \<and>
     owned m root mi"
proof -
  obtain m0 pin ps0 where m0: "booted pin m0 ps0" "length ps0 = 254" "table_room m0 = 16383" using ex_machine by blast
  obtain root mi ps where ps0: "ps0 = root # mi # ps" using m0(2) by (cases ps0; cases "tl ps0") auto
  obtain m1 where m1: "booted pin (m1\<lparr>ram := filled (ram m1) root 0 4096\<rparr>) (mi # ps)" "pt_wf (m1\<lparr>ram := filled (ram m1) root 0 4096\<rparr>) root"
    "empty_dir (filled (ram m1) root 0 4096) root" "table_room m0 = Suc (table_room m1)"
    using empty_space [of pin m0 root "mi # ps"] m0 ps0 by auto
  let ?m = "m1\<lparr>ram := filled (ram m1) root 0 4096\<rparr>"
  have tr: "0 < table_room ?m" using m0(3) m1(4) by (simp add: table_room_def)
  obtain m2 where m2: "booted pin m2 ps" "ref_count m2 = (ref_count ?m)(mi := 1)" "table_room ?m = Suc (table_room m2)"
    "ram m2 = ram ?m" "same_bounds ?m m2"
    using booted_alloc [OF m1(1) tr] by blast
  have "pt_wf m2 root" using pt_wf_table [OF m1(2)] m2(2) by (intro pt_wf_counts [OF m1(2) m2(4,5)]) auto
  moreover have "no_table m2 root mi" using fresh_no_table [OF m1(1,2), of mi] m2(4) by (simp add: no_table_def)
  then have "owned m2 root mi"
    using m2(2) m1(1) pmm_inv_fresh [of ?m "mi # ps" mi] managed_nonzero [OF booted_bounds [OF m1(1)]]
    by (auto simp: owned_def booted_def managed_def)
  moreover have "pte_of (ram m2) root va = 0" for va using empty_dir_pte [OF m1(3)] m2(4) by simp
  moreover have "250 < length ps" "250 < table_room m2" using m0(2,3) ps0 m1(4) m2(3) by (simp_all add: table_room_def)
  ultimately show ?thesis using m2(1) by blast
qed

end
