(* ===== verification/Heap_Pages.thy ===== *)
theory Heap_Pages
  imports User_Pages
begin

text \<open>
  The heap pages of a process: \<^verbatim>\<open>sys_user_allocate_page\<close> and \<^verbatim>\<open>sys_user_free_page\<close> of \<^verbatim>\<open>kernel/syscall.c\<close> keep a set of
  mapped pages, each on a frame of its own.
\<close>

section \<open>The mapped heap\<close>

text \<open>
  The pages \<open>L\<close> of the region \<open>D\<close> are mapped, page \<open>v\<close> to the frame \<open>fr v\<close>, which nothing else refers to; the other
  pages of \<open>D\<close> are not mapped. \<open>mi\<close> is the page of the region table.
\<close>

definition heap_map :: "addr \<Rightarrow> pmm \<Rightarrow> addr list \<Rightarrow> addr \<Rightarrow> addr \<Rightarrow> addr set \<Rightarrow> addr set \<Rightarrow> (addr \<Rightarrow> addr) \<Rightarrow> bool" where
  "heap_map pin m ps root mi D L fr \<longleftrightarrow> booted pin m ps \<and> pt_wf m root \<and> owned m root mi \<and>
     (\<forall>v \<in> D. page_aligned v \<and> v < MAXVA) \<and> L \<subseteq> D \<and> inj_on fr L \<and>
     (\<forall>v \<in> L. pte_of (ram m) root v = user_pte (fr v) \<and> owned m root (fr v) \<and> ref_count m (fr v) = 1 \<and> fr v \<noteq> pin \<and> fr v \<noteq> mi) \<and>
     (\<forall>v \<in> D - L. pte_of (ram m) root v AND PTE_V = 0)"

text \<open>A page that has been allocated and is not yet mapped.\<close>

definition spare :: "addr \<Rightarrow> pmm \<Rightarrow> addr \<Rightarrow> addr \<Rightarrow> addr set \<Rightarrow> (addr \<Rightarrow> addr) \<Rightarrow> addr \<Rightarrow> bool" where
  "spare pin m root mi L fr p \<longleftrightarrow> owned m root p \<and> ref_count m p = 1 \<and> p \<noteq> pin \<and> p \<noteq> mi \<and> p \<notin> fr ` L"

lemma no_table_ram: "ram m' = ram m \<Longrightarrow> no_table m' root p = no_table m root p"
  by (simp add: no_table_def)

lemma heap_map_new:
  assumes h: "heap_map pin m (p # ps) root mi D L fr" and r: "0 < table_room m"
  shows "\<exists>m'. alloc_page m = Inr (p, m') \<and> heap_map pin m' ps root mi D L fr \<and> spare pin m' root mi L fr p \<and>
    table_room m = Suc (table_room m') \<and> ram m' = ram m"
proof -
  have b: "booted pin m (p # ps)" and wf: "pt_wf m root" using h by (simp_all add: heap_map_def)
  obtain m' where m': "alloc_page m = Inr (p, m')" "booted pin m' ps" "ref_count m' = (ref_count m)(p := 1)"
    "table_room m = Suc (table_room m')" "ram m' = ram m" "same_bounds m m'"
    using booted_alloc [OF b r] by blast
  have p: "ref_count m p = 0" "page_aligned p" "p \<noteq> 0"
    using b pmm_inv_fresh [of m "p # ps" p] managed_nonzero [OF booted_bounds [OF b], of p] by (auto simp: booted_def managed_def)
  have ow: "owned m' root q \<and> ref_count m' q = ref_count m q \<and> q \<noteq> p" if "owned m root q" for q
    using that m'(3) p(1) no_table_ram [OF m'(5)] by (auto simp: owned_def)
  have "pin \<in> set (ref_pas m)" using booted_last_in [OF b] by simp
  then have "ref_count m pin \<noteq> 0" using ref_count_0_iff [of m pin] b by (auto simp: booted_def pmm_inv_def)
  moreover have "pt_wf m' root"
    using m'(3) pt_wf_table [OF wf] by (intro pt_wf_counts [OF wf m'(5,6)]) auto
  moreover have "no_table m' root p" using fresh_no_table [OF b wf] no_table_ram [OF m'(5)] by simp
  ultimately show ?thesis
    using m'(1,2,3,4,5) h ow p unfolding heap_map_def spare_def by (intro exI [of _ m']) (auto simp: owned_def)
qed

lemma owned_write: "owned m root p \<Longrightarrow> (\<And>va k. k \<le> 2 \<Longrightarrow> desc m' root va k = desc (ram m) root va k) \<Longrightarrow> owned (m\<lparr>ram := m'\<rparr>) root p"
  by (simp add: owned_def no_table_def)

text \<open>Writes inside a page that is in use and not a table: the region table, a mapped frame, or a page that is to be mapped.\<close>

lemma heap_map_write:
  assumes h: "heap_map pin m ps root mi D L fr" and w: "owned m root w" and m': "\<And>a. \<not> in_page w a \<Longrightarrow> m' a = ram m a"
  shows "heap_map pin (m\<lparr>ram := m'\<rparr>) ps root mi D L fr" "spare pin m root mi L fr p \<Longrightarrow> spare pin (m\<lparr>ram := m'\<rparr>) root mi L fr p"
proof -
  have w': "page_aligned w" "0 < ref_count m w" "no_table m root w" and wf: "pt_wf m root" and b: "booted pin m ps"
    using h w by (simp_all add: heap_map_def owned_def)
  note pw = page_write_pt [OF wf w'(1,3) m']
  show "heap_map pin (m\<lparr>ram := m'\<rparr>) ps root mi D L fr"
    using h pw owned_write [OF _ pw(3)] page_write [OF b w'(1,2) m'] by (simp add: heap_map_def)
  show "spare pin (m\<lparr>ram := m'\<rparr>) root mi L fr p" if "spare pin m root mi L fr p"
    using that owned_write [OF _ pw(3)] by (simp add: spare_def)
qed

lemma page_div_eq: "page_aligned u \<Longrightarrow> page_aligned v \<Longrightarrow> unat u div 4096 = unat v div 4096 \<longleftrightarrow> u = v"
proof -
  assume "page_aligned u" "page_aligned v"
  then obtain i j where "unat u = 4096 * i" "unat v = 4096 * j" unfolding page_aligned_iff dvd_def by auto
  then have "unat u div 4096 = unat v div 4096 \<longleftrightarrow> unat u = unat v" by simp
  then show ?thesis by (simp only: word_unat_eq_iff)
qed

lemma heap_map_add:
  assumes h: "heap_map pin m ps root mi D L fr" and sp: "spare pin m root mi L fr p" and va: "va \<in> D - L"
    and r: "2 \<le> length ps" "2 \<le> table_room m"
  shows "\<exists>m' j. user_vm_map root va PGSIZE p (user_perm (PROT_WRITE OR PROT_READ) 1) m = Inr m' \<and>
    heap_map pin m' (drop j ps) root mi D (insert va L) (fr(va := p)) \<and> j \<le> 2 \<and> table_room m = j + table_room m' \<and>
    (\<forall>q a. owned m root q \<longrightarrow> in_page q a \<longrightarrow> ram m' a = ram m a)"
proof -
  have b: "booted pin m ps" and wf: "pt_wf m root" and D: "\<forall>v \<in> D. page_aligned v \<and> v < MAXVA"
    and va': "page_aligned va" "va < MAXVA" "pte_of (ram m) root va AND PTE_V = 0"
    using h va by (auto simp: heap_map_def)
  obtain m' j where m': "user_vm_map root va PGSIZE p (user_perm (PROT_WRITE OR PROT_READ) 1) m = Inr m'" "booted pin m' (drop j ps)"
    "j \<le> 2" "table_room m = j + table_room m'"
    and re: "remapped m m' root ps (\<lambda>v. if unat v div 4096 = unat va div 4096
        then PA2PTE p OR scast (user_perm (PROT_WRITE OR PROT_READ) 1) OR PTE_V else pte_of (ram m) root v)"
    using user_map_page [OF b wf va' r] by blast
  have pte: "pte_of (ram m') root v = (if v = va then user_pte p else pte_of (ram m) root v)" if "v \<in> D" for v
    using re that D va'(1) page_div_eq [of v va] unfolding remapped_def user_pte_map by auto
  note ow = remapped_owned [OF b re]
  have wf': "pt_wf m' root" using re by (simp add: remapped_def)
  have "heap_map pin m' (drop j ps) root mi D (insert va L) (fr(va := p))"
    using h sp va m'(2) wf' pte ow unfolding heap_map_def spare_def by (auto simp: inj_on_def)
  then show ?thesis using m' ow(3) by blast
qed


lemma heap_map_remove:
  assumes h: "heap_map pin m ps root mi D L fr" and va: "va \<in> L"
  shows "\<exists>m'. user_vm_unmap root va PGSIZE 1 m = Inr m' \<and> heap_map pin m' (fr va # ps) root mi D (L - {va}) fr"
proof -
  have b: "booted pin m ps" and wf: "pt_wf m root" and D: "\<forall>v \<in> D. page_aligned v \<and> v < MAXVA" and LD: "L \<subseteq> D"
    and f: "pte_of (ram m) root va = user_pte (fr va)" "owned m root (fr va)" "ref_count m (fr va) = 1" "fr va \<noteq> pin"
    using h va by (auto simp: heap_map_def)
  have vm: "va < MAXVA" "page_aligned va" using D LD va by auto
  have fa: "page_aligned (fr va)" "fr va = PTE2PA (pte_of (ram m) root va)" using f by (simp_all add: owned_def)
  have f0: "fr va \<noteq> 0" using f(2) by (simp add: owned_def)
  have "desc (ram m) root va 2 \<noteq> None" using f(1) user_pte_nonzero [of "fr va"] by (auto simp: pte_of_def split: option.splits)
  from user_vm_unmap_eq [OF b wf vm(1) this fa(2) _ f0 f(4), where sz = PGSIZE and free = 1] f(2,3)
  obtain m' where m': "user_vm_unmap root va PGSIZE 1 m = Inr m'" "pt_wf m' root" "booted pin m' (fr va # ps)"
    "ref_count m' = (ref_count m)(fr va := 0)"
    "\<forall>vb. pte_of (ram m') root vb = (if agree 3 va vb then user_pte (fr va) AND NOT PTE_V else pte_of (ram m) root vb)"
    "\<forall>vb k. k \<le> 2 \<longrightarrow> desc (ram m') root vb k = desc (ram m) root vb k"
    using f(1) unfolding owned_def no_table_def by auto
  have ow: "owned m' root q" "ref_count m' q = ref_count m q" if "owned m root q" "q \<noteq> fr va" for q
    using that m'(4,6) by (auto simp: owned_def no_table_def)
  have pte: "pte_of (ram m') root v = (if v = va then user_pte (fr va) AND NOT PTE_V else pte_of (ram m) root v)" if "v \<in> D" for v
  proof -
    have "agree 3 va v \<longleftrightarrow> v = va" using agree_3_div [OF vm(1)] page_div_eq [OF vm(2)] D that by auto
    then show ?thesis using m'(5) by simp
  qed
  have "heap_map pin m' (fr va # ps) root mi D (L - {va}) fr"
    unfolding heap_map_def
  proof (intro conjI ballI)
    have mi: "owned m root mi" "mi \<noteq> fr va" using h va by (auto simp: heap_map_def)
    then show "owned m' root mi" by (rule ow(1))
    show "inj_on fr (L - {va})" using h by (auto simp: heap_map_def inj_on_def)
    fix v assume v: "v \<in> L - {va}"
    then have "owned m root (fr v)" "fr v \<noteq> fr va" "v \<in> D" "ref_count m (fr v) = 1"
      using h va by (auto simp: heap_map_def inj_on_def)
    then show "owned m' root (fr v)" "ref_count m' (fr v) = 1" "pte_of (ram m') root v = user_pte (fr v)" "fr v \<noteq> pin" "fr v \<noteq> mi"
      using h v ow pte by (auto simp: heap_map_def)
  next
    fix v assume v: "v \<in> D - (L - {va})"
    show "pte_of (ram m') root v AND PTE_V = 0"
    proof (cases "v = va")
      case True
      have "(user_pte (fr va) AND NOT PTE_V) AND PTE_V = 0" by (simp add: and.assoc)
      then show ?thesis using pte v True by auto
    next
      case False
      then show ?thesis using pte h v by (auto simp: heap_map_def)
    qed
  qed (use m'(2,3) h in \<open>auto simp: heap_map_def\<close>)
  then show ?thesis using m'(1) by blast
qed


section \<open>The heap of a process\<close>

definition heap_pages :: "process_heap_manager \<Rightarrow> addr set" where
  "heap_pages h = {v. page_aligned v \<and> heap_bottom h \<le> v \<and> v < heap_top h}"

definition freed_pages :: "process_heap_manager \<Rightarrow> addr list" where
  "freed_pages h = take (unat (free_pages_count h)) (free_pages_address h)"

definition live_pages :: "process_heap_manager \<Rightarrow> addr set" where
  "live_pages h = heap_pages h - set (freed_pages h)"

text \<open>The heap of the process \<open>c\<close> has room up to \<open>lim\<close>, and its live pages are mapped.\<close>

definition heap_inv :: "addr \<Rightarrow> addr list \<Rightarrow> addr \<Rightarrow> nat \<Rightarrow> (addr \<Rightarrow> addr) \<Rightarrow> 'a kern_scheme \<Rightarrow> bool" where
  "heap_inv pin ps lim c fr s \<longleftrightarrow>
     (let h = p_user_heap (procs s c)
      in length (free_pages_address h) = MAX_HEAP_PAGES \<and> unat (free_pages_count h) \<le> MAX_HEAP_PAGES \<and>
         distinct (freed_pages h) \<and> set (freed_pages h) \<subseteq> heap_pages h \<and>
         page_aligned (heap_top h) \<and> heap_bottom h \<le> heap_top h \<and> heap_top h \<le> lim \<and> page_aligned lim \<and> lim \<le> MAXVA \<and>
         heap_map pin (kmm s) ps (p_pagetable (procs s c)) (p_mapped_info (procs s c))
           {v. page_aligned v \<and> heap_bottom h \<le> v \<and> v < lim} (live_pages h) fr)"

lemma page_top:
  assumes "page_aligned a" "page_aligned b" "a < b"
  shows "unat (a + PGSIZE) = unat a + 4096" "page_aligned (a + PGSIZE)" "a + PGSIZE \<le> b"
    "page_aligned v \<Longrightarrow> v < a + PGSIZE \<longleftrightarrow> v < a \<or> v = a"
proof -
  obtain i j where ij: "unat a = 4096 * i" "unat b = 4096 * j" using assms(1,2) unfolding page_aligned_iff dvd_def by auto
  have lt: "i < j" using assms(3) ij by (simp add: word_less_nat_alt)
  have "4096 * j < 2 ^ 64" using unsigned_less [of b, where ?'a = nat] ij by simp
  then show u: "unat (a + PGSIZE) = unat a + 4096" using ij lt by (simp add: unat_word_ariths)
  show "page_aligned (a + PGSIZE)" using u ij by (simp add: page_aligned_iff)
  show "a + PGSIZE \<le> b" using u ij lt by (simp add: word_le_nat_alt)
  show "v < a + PGSIZE \<longleftrightarrow> v < a \<or> v = a" if v: "page_aligned v"
  proof -
    obtain k where "unat v = 4096 * k" using v unfolding page_aligned_iff dvd_def by auto
    then show ?thesis using u ij by (auto simp: word_less_nat_alt word_unat_eq_iff)
  qed
qed


lemma freed_pop:
  assumes "unat (free_pages_count h) \<le> length (free_pages_address h)" "free_pages_count h > 0"
  shows "freed_pages h = freed_pages (h\<lparr>free_pages_count := free_pages_count h - 1\<rparr>) @ [free_pages_address h ! unat (free_pages_count h - 1)]"
proof -
  have "unat (free_pages_count h) = Suc (unat (free_pages_count h - 1))"
    using assms(2) unat_minus_one [of "free_pages_count h"] by (cases "free_pages_count h = 0") (auto simp: word_less_nat_alt)
  then show ?thesis using assms(1) by (simp add: freed_pages_def take_Suc_conv_app_nth)
qed

lemma freed_push:
  assumes "length (free_pages_address h) = MAX_HEAP_PAGES" "unat (free_pages_count h) < MAX_HEAP_PAGES"
  shows "freed_pages (h\<lparr>free_pages_address := (free_pages_address h)[unat (free_pages_count h) := va],
      free_pages_count := free_pages_count h + 1\<rparr>) = freed_pages h @ [va]"
    "unat (free_pages_count h + 1) = Suc (unat (free_pages_count h))"
proof -
  show u: "unat (free_pages_count h + 1) = Suc (unat (free_pages_count h))" using assms(2) by (simp add: unat_word_ariths)
  show "freed_pages (h\<lparr>free_pages_address := (free_pages_address h)[unat (free_pages_count h) := va],
      free_pages_count := free_pages_count h + 1\<rparr>) = freed_pages h @ [va]"
    using assms by (simp add: freed_pages_def u take_Suc_conv_app_nth)
qed

text \<open>Handing out a page that was given back, and a page behind the heap.\<close>

lemma allocate_page:
  assumes h: "heap_inv pin ps lim c fr s" and cur: "current s hid = Some c"
    and room: "3 \<le> length ps" "3 \<le> table_room (kmm s)"
    and top: "free_pages_count (p_user_heap (procs s c)) = 0 \<Longrightarrow> heap_top (p_user_heap (procs s c)) < lim"
  shows "\<exists>va s' ps' p. sys_user_allocate_page hid s = Inr (va, s') \<and> va \<notin> live_pages (p_user_heap (procs s c)) \<and>
    live_pages (p_user_heap (procs s' c)) = insert va (live_pages (p_user_heap (procs s c))) \<and>
    p \<notin> fr ` live_pages (p_user_heap (procs s c)) \<and> heap_inv pin ps' lim c (fr(va := p)) s' \<and> current s' = current s"
proof -
  define hp root mi where "hp = p_user_heap (procs s c)" and "root = p_pagetable (procs s c)" and "mi = p_mapped_info (procs s c)"
  let ?D = "{v. page_aligned v \<and> heap_bottom hp \<le> v \<and> v < lim}" and ?L = "live_pages hp"
  have hi: "length (free_pages_address hp) = 32" "unat (free_pages_count hp) \<le> 32" "distinct (freed_pages hp)"
      "set (freed_pages hp) \<subseteq> heap_pages hp" "page_aligned (heap_top hp)" "heap_bottom hp \<le> heap_top hp" "heap_top hp \<le> lim"
      "page_aligned lim" "lim \<le> MAXVA" and hm: "heap_map pin (kmm s) ps root mi ?D ?L fr"
    using h by (simp_all add: heap_inv_def Let_def hp_def root_def mi_def)
  obtain p ps1 where ps: "ps = p # ps1" using room(1) by (cases ps) auto
  obtain m1 where m1: "alloc_page (kmm s) = Inr (p, m1)" "heap_map pin m1 ps1 root mi ?D ?L fr" "spare pin m1 root mi ?L fr p"
    "table_room (kmm s) = Suc (table_room m1)"
    using heap_map_new [OF hm [unfolded ps]] room(2) by auto
  have pn: "p \<notin> fr ` ?L" using m1(3) by (simp add: spare_def)
  show ?thesis
  proof (cases "free_pages_count hp > 0")
    case True
    define va h' where "va = free_pages_address hp ! unat (free_pages_count hp - 1)"
      and "h' = hp\<lparr>free_pages_count := free_pages_count hp - 1\<rparr>"
    have fp: "freed_pages hp = freed_pages h' @ [va]"
      using freed_pop [of hp] hi(1,2) True by (simp add: va_def h'_def)
    have va: "va \<in> heap_pages hp" "va \<notin> set (freed_pages h')" "va \<in> ?D - ?L" using hi(3,4,7) fp by (auto simp: heap_pages_def live_pages_def)
    have hp': "heap_pages h' = heap_pages hp" by (simp add: heap_pages_def h'_def)
    have L': "live_pages h' = insert va ?L" using fp va hp' by (auto simp: live_pages_def)
    have "2 \<le> length ps1" "2 \<le> table_room m1" using room ps m1(4) by auto
    from heap_map_add [OF m1(2,3) va(3) this] obtain m2 j where m2:
      "user_vm_map root va PGSIZE p (user_perm (PROT_WRITE OR PROT_READ) 1) m1 = Inr m2"
      "heap_map pin m2 (drop j ps1) root mi ?D (insert va ?L) (fr(va := p))" by blast
    let ?s = "upd_proc c (\<lambda>q. q\<lparr>p_user_heap := h'\<rparr>) (s\<lparr>kmm := m2\<rparr>)"
    have "free_pages_count hp \<noteq> 0" using True by auto
    from unat_minus_one [OF this] have u: "unat (free_pages_count hp - 1) < 32" using hi(2) True
      by (simp add: word_less_nat_alt)
    then have ag: "arr_get (free_pages_address hp) (uint (free_pages_count hp - 1)) = Inr va"
      using arr_get_word [of "free_pages_count hp - 1" "free_pages_address hp"] hi(1) by (simp add: va_def)
    have "va < heap_top hp" using va(1) by (simp add: heap_pages_def)
    then have "sys_user_allocate_page hid s = Inr (va, ?s)"
      using m1(1) m2(1) ag True cur
      by (simp add: sys_user_allocate_page_def with_mm_def on_mm_def upd_proc_def Let_def h'_def flip: hp_def root_def)
    moreover have "heap_inv pin (drop j ps1) lim c (fr(va := p)) ?s"
      using hi fp m2(2) hp' u L' unfolding heap_inv_def Let_def
      by (simp add: upd_proc_def flip: root_def mi_def) (simp add: h'_def)
    ultimately show ?thesis using va(3) L' pn by (intro exI [of _ va] exI [of _ ?s]) (auto simp: upd_proc_def hp_def)
  next
    case False
    then have z: "free_pages_count hp = 0" by (simp add: word_less_nat_alt unat_eq_0)
    define va h' where "va = heap_top hp" and "h' = hp\<lparr>heap_top := heap_top hp + PGSIZE\<rparr>"
    have lt: "va < lim" using top z by (simp add: hp_def va_def)
    note pt = page_top [OF hi(5,8) lt [unfolded va_def]]
    have bt: "heap_bottom hp \<le> heap_top hp + PGSIZE" using hi(6) pt(1) by (simp add: word_le_nat_alt)
    have fp: "freed_pages hp = []" "freed_pages h' = []" using z by (simp_all add: freed_pages_def h'_def)
    have hp': "heap_pages h' = insert va (heap_pages hp)" using pt(4) hi(5,6) by (auto simp: heap_pages_def h'_def va_def)
    have va: "va \<in> ?D - ?L" using hi(5,6) lt by (auto simp: live_pages_def heap_pages_def va_def)
    have L': "live_pages h' = insert va ?L" by (simp add: live_pages_def fp hp')
    have mi: "page_aligned mi" "ram_ok mi 4096"
      using m1(2) owned_ram_ok [of pin m1 ps1 root mi] by (auto simp: heap_map_def)
    obtain mm where mm: "upd_npages mi HEAP_SEGMENT (\<lambda>n. n + 1) m1 = Inr (m1\<lparr>ram := mm\<rparr>)" "\<And>a. \<not> in_page mi a \<Longrightarrow> mm a = ram m1 a"
      using upd_npages_ok [OF mi, of HEAP_SEGMENT "\<lambda>n. n + 1" m1] by auto
    have w: "heap_map pin (m1\<lparr>ram := mm\<rparr>) ps1 root mi ?D ?L fr" "spare pin (m1\<lparr>ram := mm\<rparr>) root mi ?L fr p"
      using heap_map_write [OF m1(2), of mi mm] mm(2) m1(2,3) by (auto simp: heap_map_def)
    have "2 \<le> length ps1" "2 \<le> table_room (m1\<lparr>ram := mm\<rparr>)" using room ps m1(4) by (auto simp: table_room_def)
    from heap_map_add [OF w va this] obtain m2 j where m2:
      "user_vm_map root va PGSIZE p (user_perm (PROT_WRITE OR PROT_READ) 1) (m1\<lparr>ram := mm\<rparr>) = Inr m2"
      "heap_map pin m2 (drop j ps1) root mi ?D (insert va ?L) (fr(va := p))" by blast
    let ?s = "upd_proc c (\<lambda>q. q\<lparr>p_user_heap := h'\<rparr>) (s\<lparr>kmm := m2\<rparr>)"
    have "sys_user_allocate_page hid s = Inr (va, ?s)"
      using m1(1) m2(1) mm(1) z cur
      by (simp add: sys_user_allocate_page_def with_mm_def on_mm_def upd_proc_def Let_def h'_def va_def flip: hp_def root_def mi_def)
    moreover have "heap_inv pin (drop j ps1) lim c (fr(va := p)) ?s"
      using hi fp m2(2) hp' L' pt(2,3) bt z unfolding heap_inv_def Let_def
      by (simp add: upd_proc_def flip: root_def mi_def) (simp add: h'_def)
    ultimately show ?thesis using va L' pn by (intro exI [of _ va] exI [of _ ?s]) (auto simp: upd_proc_def hp_def)
  qed
qed


lemma release_page:
  assumes h: "heap_inv pin ps lim c fr s" and cur: "current s hid = Some c" and va: "va \<in> live_pages (p_user_heap (procs s c))"
  shows "\<exists>m s'. user_vm_unmap (p_pagetable (procs s c)) va PGSIZE 1 (kmm s) = Inr m \<and>
    (if unat (free_pages_count (p_user_heap (procs s c))) < MAX_HEAP_PAGES
     then sys_user_free_page hid va s = Inr (0, s') \<and> heap_inv pin (fr va # ps) lim c fr s' \<and>
       live_pages (p_user_heap (procs s' c)) = live_pages (p_user_heap (procs s c)) - {va}
     else sys_user_free_page hid va s = Inl (Undefined ''array index''))"
proof -
  define hp root mi where "hp = p_user_heap (procs s c)" and "root = p_pagetable (procs s c)" and "mi = p_mapped_info (procs s c)"
  let ?D = "{v. page_aligned v \<and> heap_bottom hp \<le> v \<and> v < lim}" and ?L = "live_pages hp" and ?n = "free_pages_count hp"
  have hi: "length (free_pages_address hp) = 32" "unat ?n \<le> 32" "distinct (freed_pages hp)"
      "set (freed_pages hp) \<subseteq> heap_pages hp" "page_aligned (heap_top hp)" "heap_bottom hp \<le> heap_top hp" "heap_top hp \<le> lim"
      "page_aligned lim" "lim \<le> MAXVA" and hm: "heap_map pin (kmm s) ps root mi ?D ?L fr"
    using h by (simp_all add: heap_inv_def Let_def hp_def root_def mi_def)
  obtain m where m: "user_vm_unmap root va PGSIZE 1 (kmm s) = Inr m" "heap_map pin m (fr va # ps) root mi ?D (?L - {va}) fr"
    using heap_map_remove [OF hm va [folded hp_def]] by blast
  define h' where "h' = hp\<lparr>free_pages_address := (free_pages_address hp)[unat ?n := va], free_pages_count := ?n + 1\<rparr>"
  let ?s = "upd_proc c (\<lambda>q. q\<lparr>p_user_heap := h'\<rparr>) (s\<lparr>kmm := m\<rparr>)"
  have v: "va \<in> heap_pages hp" "va \<notin> set (freed_pages hp)" using va by (simp_all add: live_pages_def hp_def)
  show ?thesis
  proof (cases "unat ?n < 32")
    case True
    note fp = freed_push(1) [OF hi(1) True, of va] freed_push(2) [OF hi(1) True]
    have hp': "heap_pages h' = heap_pages hp" by (simp add: heap_pages_def h'_def)
    have L': "live_pages h' = ?L - {va}" using fp(1) hp' by (auto simp: live_pages_def h'_def)
    have "sys_user_free_page hid va s = Inr (0, ?s)"
      using m(1) cur arr_set_word [of ?n "free_pages_address hp" va] hi(1) True
      by (simp add: sys_user_free_page_def on_mm_def upd_proc_def Let_def h'_def flip: hp_def root_def)
    moreover have "heap_inv pin (fr va # ps) lim c fr ?s"
      using hi fp m(2) hp' L' v True unfolding heap_inv_def Let_def
      by (simp add: upd_proc_def flip: root_def mi_def) (simp add: h'_def)
    ultimately show ?thesis using m(1) L' True by (intro exI [of _ m] exI [of _ ?s]) (simp add: upd_proc_def hp_def root_def)
  next
    case False
    then have "arr_set (uint ?n) va (free_pages_address hp) = Inl (Undefined ''array index'')"
      using hi(1,2) by (simp add: arr_set_def not_less uint_nat del: of_nat_unat)
    then show ?thesis
      using m(1) False cur by (simp add: sys_user_free_page_def on_mm_def Let_def flip: hp_def root_def)
  qed
qed


section \<open>Properties\<close>

text \<open>
  C5. The heap pages of a process. \<^verbatim>\<open>sys_user_allocate_page\<close> returns a page that is not live and maps it to a frame that no other
  live page has; \<^verbatim>\<open>sys_user_free_page\<close> of a live page removes it and gives its frame back. Both keep every other live page mapped to its
  frame and the pages that are not live unmapped. Only 32 pages can be given back and not taken again: the next one is
  written behind the array.
\<close>

theorem heap_pages_safe:
  assumes h: "heap_inv pin ps lim c fr s" and cur: "current s hid = Some c"
  shows "(3 \<le> length ps \<and> 3 \<le> table_room (kmm s) \<and>
      (free_pages_count (p_user_heap (procs s c)) = 0 \<longrightarrow> heap_top (p_user_heap (procs s c)) < lim) \<longrightarrow>
      (\<exists>va s' ps' p. sys_user_allocate_page hid s = Inr (va, s') \<and> va \<notin> live_pages (p_user_heap (procs s c)) \<and>
        live_pages (p_user_heap (procs s' c)) = insert va (live_pages (p_user_heap (procs s c))) \<and>
        p \<notin> fr ` live_pages (p_user_heap (procs s c)) \<and> heap_inv pin ps' lim c (fr(va := p)) s' \<and> current s' = current s)) \<and>
    (va \<in> live_pages (p_user_heap (procs s c)) \<longrightarrow>
      (\<exists>s'. if unat (free_pages_count (p_user_heap (procs s c))) < MAX_HEAP_PAGES
        then sys_user_free_page hid va s = Inr (0, s') \<and> heap_inv pin (fr va # ps) lim c fr s' \<and>
          live_pages (p_user_heap (procs s' c)) = live_pages (p_user_heap (procs s c)) - {va}
        else sys_user_free_page hid va s = Inl (Undefined ''array index'')))"
  using allocate_page [OF assms] release_page [OF assms] by blast

lemma ex_live: "live_pages (p_user_heap ex_process) = {}"
  by (auto simp: live_pages_def heap_pages_def freed_pages_def ex_process_def)

lemma ex_heap:
  "\<exists>(s :: kern) pin ps fr. heap_inv pin ps 0x500000 0 fr s \<and> current s 0 = Some 0 \<and> 3 \<le> length ps \<and> 3 \<le> table_room (kmm s) \<and>
     p_user_heap (procs s 0) = p_user_heap ex_process"
proof -
  obtain m pin ps root mi where m: "booted pin m ps" "250 < length ps" "250 < table_room m" "pt_wf m root"
    "\<forall>va. pte_of (ram m) root va = 0" "owned m root mi"
    using ex_space by blast
  let ?s = "ex_kern\<lparr>kmm := m, procs := \<lambda>_. ex_process\<lparr>p_pagetable := root, p_mapped_info := mi\<rparr>\<rparr>"
  have "v < MAXVA" if "v < 0x500000" for v :: addr using that by (simp add: word_less_nat_alt)
  then have "heap_map pin m ps root mi {v. page_aligned v \<and> 0x400000 \<le> v \<and> v < 0x500000} {} fr" for fr
    using m by (auto simp: heap_map_def)
  then have "heap_inv pin ps 0x500000 0 (\<lambda>_. 0) ?s"
    by (simp add: heap_inv_def ex_live) (simp add: heap_pages_def freed_pages_def ex_process_def page_aligned_def)
  then show ?thesis using m(2,3) by (intro exI [of _ ?s] exI [of _ pin] exI [of _ ps]) (auto simp: ex_kern_def)
qed

theorem heap_pages_safe_witness:
  "\<exists>(s :: kern) va s'. sys_user_allocate_page 0 s = Inr (va, s') \<and> live_pages (p_user_heap (procs s' 0)) = {va}"
proof -
  obtain s :: kern and pin ps fr where s: "heap_inv pin ps 0x500000 0 fr s" "current s 0 = Some 0" "3 \<le> length ps"
    "3 \<le> table_room (kmm s)" "p_user_heap (procs s 0) = p_user_heap ex_process"
    using ex_heap by blast
  have "heap_top (p_user_heap ex_process) < 0x500000" by (simp add: ex_process_def)
  then show ?thesis using heap_pages_safe [OF s(1,2)] s(3-5) ex_live by fastforce
qed

end
