(* ===== verification/Fork.thy ===== *)
theory Fork
  imports Heap_Pages
begin

text \<open>
  The heap after a fork: \<^verbatim>\<open>do_fork\<close> of \<^verbatim>\<open>kernel/process.c\<close> maps the heap pages of the parent into the child with
  \<^verbatim>\<open>cow_vm_map\<close>, and the page fault handler of \<^verbatim>\<open>kernel/strap.c\<close> resolves a write of the child.
\<close>

section \<open>Mapping a shared page\<close>

definition cow_pte :: "addr \<Rightarrow> uint64" where
  "cow_pte p = PA2PTE p OR prot_to_type PROT_READ 1 OR PTE_RSW OR PTE_V"

lemma booted_refs:
  assumes "booted pin s ps" "table_ok (s\<lparr>ref_list := a\<rparr>)" "ref_pas (s\<lparr>ref_list := a\<rparr>) = ref_pas s"
  shows "booted pin (s\<lparr>ref_list := a\<rparr>) ps"
proof -
  have "managed (s\<lparr>ref_list := a\<rparr>) = managed s" "bounds_ok (s\<lparr>ref_list := a\<rparr>) = bounds_ok s"
    by (simp_all add: managed_def bounds_ok_def fun_eq_iff)
  then show ?thesis using assms unfolding booted_def pmm_inv_def by auto
qed

lemma cow_map:
  assumes b: "booted pin s ps" and wf: "pt_wf s root" and va: "va < MAXVA" and room: "2 \<le> length ps" "2 \<le> table_room s"
    and p: "0 < ref_count s p" "ref_count s p < 2 ^ 64 - 1"
  shows "\<exists>s1 a j. cow_vm_map root va p s = Inr (s1\<lparr>ref_list := a\<rparr>) \<and> booted pin (s1\<lparr>ref_list := a\<rparr>) (drop j ps) \<and> j \<le> 2 \<and>
    table_room s = j + table_room (s1\<lparr>ref_list := a\<rparr>) \<and>
    remapped s s1 root ps (\<lambda>v. if agree 3 va v then cow_pte p else pte_of (ram s) root v) \<and>
    ref_count (s1\<lparr>ref_list := a\<rparr>) = (ref_count s1)(p := ref_count s1 p + 1)"
proof -
  let ?j = "walk_need (ram s) root va 0"
  have j2: "?j \<le> 2" by (simp add: walk_need_0)
  then have need: "?j \<le> length ps" "?j \<le> table_room s" using room by linarith+
  obtain s0 t where s0: "page_walk root va 1 s = Inr (cell t 0 va, s0)" "desc (ram s0) root va 2 = Some t"
    "booted pin s0 (drop ?j ps)" "table_room s = ?j + table_room s0" "grown s s0 root va ps"
    "\<forall>m v. ld64 m (cell t 0 va) = Inr (load64 m (cell t 0 va)) \<and> st64 m (cell t 0 va) v = Inr (store64 m (cell t 0 va) v)"
    using map_one [OF b wf va need] by metis
  let ?s1 = "s0\<lparr>ram := store64 (ram s0) (cell t 0 va) (cow_pte p)\<rparr>"
  have wf0: "pt_wf s0 root" using s0(5) by (simp add: grown_def)
  have t: "page_aligned t" "0 < ref_count s0 t" using pt_wf_aligned [OF wf0 _ s0(2)] pt_wf_table [OF wf0 _ s0(2)] by auto
  have b1: "booted pin ?s1 (drop ?j ps)" by (rule booted_store_cell [OF s0(3) t])
  have re: "remapped s ?s1 root ps (\<lambda>v. if agree 3 va v then cow_pte p else pte_of (ram s) root v)"
    by (rule remapped_store [OF s0(5,2)])
  have c: "ref_count ?s1 p = ref_count s p" using re p(1) by (simp add: remapped_def)
  have ok: "table_ok ?s1" using b1 by (simp add: booted_def pmm_inv_def)
  have "p \<in> set (ref_pas ?s1)" using c p(1) ref_count_0_iff [OF ok, of p] by auto
  from ref_insert_old [OF ok this] c p(2) obtain a where a: "ref_insert p ?s1 = Inr (?s1\<lparr>ref_list := a\<rparr>)"
    "table_ok (?s1\<lparr>ref_list := a\<rparr>)" "ref_pas (?s1\<lparr>ref_list := a\<rparr>) = ref_pas ?s1"
    "ref_count (?s1\<lparr>ref_list := a\<rparr>) = (ref_count ?s1)(p := ref_count ?s1 p + 1)" by auto
  have "cow_vm_map root va p s = Inr (?s1\<lparr>ref_list := a\<rparr>)"
    using s0(1,6) a(1) by (simp add: cow_vm_map_def cow_pte_def)
  moreover have "table_room s = ?j + table_room (?s1\<lparr>ref_list := a\<rparr>)" using s0(4) by (simp add: table_room_def)
  ultimately show ?thesis using booted_refs [OF b1 a(2,3)] re a(4) j2 by blast
qed


section \<open>Sharing the heap\<close>

definition blk :: "addr \<Rightarrow> nat \<Rightarrow> addr" where
  "blk b i = b + PGSIZE * of_nat i"

lemma unat_blk: "unat b + 4096 * n \<le> 2 ^ 38 \<Longrightarrow> i \<le> n \<Longrightarrow> unat (blk b i) = unat b + 4096 * i"
proof -
  assume a: "unat b + 4096 * n \<le> 2 ^ 38" "i \<le> n"
  then have "unat (of_nat i :: addr) = i" by (intro unat_of_nat64) simp
  then have "unat (PGSIZE * of_nat i :: addr) = 4096 * i" using a by (simp add: unat_word_ariths)
  then show ?thesis using a by (simp add: blk_def unat_word_ariths)
qed

lemma blk_index: "unat b + 4096 * n \<le> 2 ^ 38 \<Longrightarrow> i \<le> n \<Longrightarrow> uint ((blk b i - b) div PGSIZE) = int i"
proof -
  assume a: "unat b + 4096 * n \<le> 2 ^ 38" "i \<le> n"
  then have "unat (of_nat i :: addr) = i" by (intro unat_of_nat64) simp
  then have "unat (PGSIZE * of_nat i :: addr) = 4096 * i" using a by (simp add: unat_word_ariths)
  then have "unat ((blk b i - b) div PGSIZE) = i" by (simp add: blk_def unat_div)
  then show ?thesis by (metis uint_nat)
qed

text \<open>
  Parent and child have page tables of their own, and the heap page \<open>i\<close> of the parent is in the frame \<open>fr i\<close>.
  \<open>mc\<close> is the region table of the child.
\<close>

definition forkable :: "addr \<Rightarrow> pmm \<Rightarrow> addr list \<Rightarrow> addr \<Rightarrow> addr \<Rightarrow> addr \<Rightarrow> addr \<Rightarrow> nat \<Rightarrow> (nat \<Rightarrow> addr) \<Rightarrow> bool" where
  "forkable pin s ps ppt cpt mc b n fr \<longleftrightarrow> booted pin s ps \<and> pt_wf s ppt \<and> pt_wf s cpt \<and>
     (\<forall>va k t. k \<le> 2 \<longrightarrow> desc (ram s) ppt va k = Some t \<longrightarrow> owned s cpt t) \<and> owned s cpt mc \<and> no_table s ppt mc \<and>
     unat b + 4096 * n \<le> 2 ^ 38 \<and> page_aligned b \<and> inj_on fr {..<n} \<and>
     (\<forall>i < n. pte_of (ram s) ppt (blk b i) = user_pte (fr i) \<and> page_aligned (fr i) \<and> 0 < ref_count s (fr i))"

lemma owned_refs: "owned s root p \<Longrightarrow> 0 < ref_count (s\<lparr>ref_list := a\<rparr>) p \<Longrightarrow> owned (s\<lparr>ref_list := a\<rparr>) root p"
  by (simp add: owned_def no_table_def)

lemma share_one:
  assumes f: "forkable pin s ps ppt cpt mc b n fr" and i: "i < n" and room: "2 \<le> length ps" "2 \<le> table_room s"
    and cnt: "ref_count s (fr i) < 2 ^ 64 - 1"
  shows "\<exists>s' j. bnd (lookup_pa ppt (blk b i) s) (\<lambda>p. cow_vm_map cpt (blk b i) p s) = Inr s' \<and> j \<le> 2 \<and>
    forkable pin s' (drop j ps) ppt cpt mc b n fr \<and> table_room s = j + table_room s' \<and>
    (\<forall>v < MAXVA. pte_of (ram s') cpt v = (if agree 3 (blk b i) v then cow_pte (fr i) else pte_of (ram s) cpt v)) \<and>
    (\<forall>v. pte_of (ram s') ppt v = pte_of (ram s) ppt v) \<and>
    (\<forall>p. 0 < ref_count s p \<longrightarrow> ref_count s' p = (if p = fr i then ref_count s p + 1 else ref_count s p)) \<and> same_bounds s s'"
proof -
  let ?va = "blk b i"
  have b: "booted pin s ps" and wfp: "pt_wf s ppt" and wfc: "pt_wf s cpt" and top: "unat b + 4096 * n \<le> 2 ^ 38"
    and tb: "\<And>va k t. k \<le> 2 \<Longrightarrow> desc (ram s) ppt va k = Some t \<Longrightarrow> owned s cpt t"
    and fi: "pte_of (ram s) ppt ?va = user_pte (fr i)" "page_aligned (fr i)" "0 < ref_count s (fr i)"
    using f i by (auto simp: forkable_def)
  have va: "?va < MAXVA" using unat_blk [OF top less_imp_le [OF i]] top i by (simp add: word_less_nat_alt)
  obtain s1 a j where s1: "cow_vm_map cpt ?va (fr i) s = Inr (s1\<lparr>ref_list := a\<rparr>)" "booted pin (s1\<lparr>ref_list := a\<rparr>) (drop j ps)" "j \<le> 2"
    "table_room s = j + table_room (s1\<lparr>ref_list := a\<rparr>)"
    "ref_count (s1\<lparr>ref_list := a\<rparr>) = (ref_count s1)(fr i := ref_count s1 (fr i) + 1)"
    and re: "remapped s s1 cpt ps (\<lambda>v. if agree 3 ?va v then cow_pte (fr i) else pte_of (ram s) cpt v)"
    using cow_map [OF b wfc va room fi(3) cnt] by blast
  let ?s = "s1\<lparr>ref_list := a\<rparr>"
  note ow = remapped_owned [OF b re]
  have fr: "desc (ram ?s) ppt v k = desc (ram s) ppt v k" if "k \<le> 2" for v k
    using desc_frame(1) [OF wfp ow(3) [OF tb] that] by simp
  have pp: "pte_of (ram ?s) ppt v = pte_of (ram s) ppt v" for v
    using desc_frame(2) [OF wfp ow(3) [OF tb]] by simp
  have rc: "ref_count ?s p = (if p = fr i then ref_count s p + 1 else ref_count s p)" if "0 < ref_count s p" for p
    using re that s1(5) by (auto simp: remapped_def)
  have sb: "same_bounds s ?s" using re by (simp add: remapped_def same_bounds_def)
  have "pt_wf ?s ppt"
  proof (rule pt_wf_other [OF wfp fr])
    show "managed ?s = managed s" using same_boundsD [OF sb] by simp
    show "0 < ref_count ?s t" if "k \<le> 2" "desc (ram s) ppt va k = Some t" for va k t
      using pt_wf_table [OF wfp that] rc by simp
  qed
  moreover have "pt_wf ?s cpt"
  proof (rule pt_wf_counts [of s1])
    show wf1: "pt_wf s1 cpt" using re by (simp add: remapped_def)
    show "0 < ref_count ?s t" if "k \<le> 2" "desc (ram s1) cpt va k = Some t" for va k t
      using pt_wf_table [OF wf1 that] s1(5) by simp
  qed (simp_all add: same_bounds_def)
  moreover have "owned ?s cpt t" if "k \<le> 2" "desc (ram ?s) ppt va k = Some t" for va k t
    using owned_refs [OF ow(1) [OF tb]] fr that rc tb by (auto simp: owned_def)
  moreover have "owned ?s cpt mc" "no_table ?s ppt mc"
  proof -
    have mc: "owned s cpt mc" "no_table s ppt mc" using f by (simp_all add: forkable_def)
    then show "owned ?s cpt mc" using owned_refs [OF ow(1)] rc by (auto simp: owned_def)
    show "no_table ?s ppt mc" using mc(2) fr unfolding no_table_def by metis
  qed
  ultimately have "forkable pin ?s (drop j ps) ppt cpt mc b n fr"
    using f s1(2) pp rc unfolding forkable_def by auto
  moreover have "lookup_pa ppt ?va s = Inr (fr i)" by (rule lookup_user_pte [OF wfp booted_bounds [OF b] va fi(1,2)])
  ultimately show ?thesis using s1(1,3,4) re pp rc sb by (intro exI [of _ ?s] exI [of _ j]) (simp add: remapped_def)
qed


text \<open>The loop over the heap pages from page \<open>i\<close> on.\<close>

lemma share_heap_ok:
  assumes "forkable pin s ps ppt cpt mc b n fr" "i \<le> n" "length filt = MAX_HEAP_PAGES" "n \<le> MAX_HEAP_PAGES"
    "2 * (n - i) \<le> length ps" "2 * (n - i) \<le> table_room s" "\<forall>l. i \<le> l \<and> l < n \<longrightarrow> ref_count s (fr l) < 2 ^ 64 - 1"
  shows "\<exists>s' j. share_heap filt b (blk b n) ppt cpt (blk b i) s = Some (Inr s') \<and> forkable pin s' (drop j ps) ppt cpt mc b n fr \<and>
    (\<forall>l < n. pte_of (ram s') cpt (blk b l) = (if i \<le> l \<and> filt ! l = 0 then cow_pte (fr l) else pte_of (ram s) cpt (blk b l))) \<and>
    (\<forall>p. 0 < ref_count s p \<longrightarrow> ref_count s' p = ref_count s p + (if \<exists>l. i \<le> l \<and> l < n \<and> filt ! l = 0 \<and> p = fr l then 1 else 0))"
  using assms
proof (induction "n - i" arbitrary: s ps i)
  case 0
  then have "i = n" by simp
  then show ?case using 0 by (subst share_heap.simps) (auto intro!: exI [of _ 0])
next
  case (Suc k)
  have top: "unat b + 4096 * n \<le> 2 ^ 38" "page_aligned b" and inj: "inj_on fr {..<n}" using Suc.prems(1) by (simp_all add: forkable_def)
  have i: "i < n" "k = n - Suc i" using Suc.hyps(2) by auto
  note ub = unat_blk [OF top(1)]
  have lt: "blk b i < blk b n" using ub [of i] ub [of n] i(1) by (simp add: word_less_nat_alt)
  have nx: "blk b i + PGSIZE = blk b (Suc i)" by (simp add: blk_def algebra_simps)
  have get: "arr_get filt (uint ((blk b i - b) div PGSIZE)) = Inr (filt ! i)"
    using Suc.prems(3,4) i(1) unfolding blk_index [OF top(1) less_imp_le [OF i(1)]] by simp
  show ?case
  proof (cases "filt ! i = 0")
    case False
    have ih: "\<exists>s' j. share_heap filt b (blk b n) ppt cpt (blk b (Suc i)) s = Some (Inr s') \<and> forkable pin s' (drop j ps) ppt cpt mc b n fr \<and>
    (\<forall>l < n. pte_of (ram s') cpt (blk b l) = (if Suc i \<le> l \<and> filt ! l = 0 then cow_pte (fr l) else pte_of (ram s) cpt (blk b l))) \<and>
    (\<forall>p. 0 < ref_count s p \<longrightarrow> ref_count s' p = ref_count s p + (if \<exists>l. Suc i \<le> l \<and> l < n \<and> filt ! l = 0 \<and> p = fr l then 1 else 0))"
      using Suc.prems i by (intro Suc.hyps(1)) auto
    have e: "(i \<le> l \<and> filt ! l = 0) = (Suc i \<le> l \<and> filt ! l = 0)" for l using False by (cases "l = i") auto
    have e': "(\<exists>l. i \<le> l \<and> l < n \<and> filt ! l = 0 \<and> p = fr l) = (\<exists>l. Suc i \<le> l \<and> l < n \<and> filt ! l = 0 \<and> p = fr l)" for p
      using e by blast
    show ?thesis using ih False unfolding e e' by (subst share_heap.simps) (simp add: lt get nx)
  next
    case True
    have r: "2 \<le> length ps" "2 \<le> table_room s" "ref_count s (fr i) < 2 ^ 64 - 1" using Suc.prems(5-7) i(1) by auto
    obtain s1 j where s1: "bnd (lookup_pa ppt (blk b i) s) (\<lambda>p. cow_vm_map cpt (blk b i) p s) = Inr s1" "j \<le> 2"
      "forkable pin s1 (drop j ps) ppt cpt mc b n fr" "table_room s = j + table_room s1"
      "\<forall>v < MAXVA. pte_of (ram s1) cpt v = (if agree 3 (blk b i) v then cow_pte (fr i) else pte_of (ram s) cpt v)"
      "\<forall>p. 0 < ref_count s p \<longrightarrow> ref_count s1 p = (if p = fr i then ref_count s p + 1 else ref_count s p)"
      using share_one [OF Suc.prems(1) i(1) r] by blast
    have pos: "0 < ref_count s (fr l)" if "l < n" for l using Suc.prems(1) that by (simp add: forkable_def)
    have ne: "fr l = fr i \<longleftrightarrow> l = i" if "l < n" for l using inj that i(1) by (auto simp: inj_on_def)
    have "\<exists>s' j'. share_heap filt b (blk b n) ppt cpt (blk b (Suc i)) s1 = Some (Inr s') \<and> forkable pin s' (drop j' (drop j ps)) ppt cpt mc b n fr \<and>
    (\<forall>l < n. pte_of (ram s') cpt (blk b l) = (if Suc i \<le> l \<and> filt ! l = 0 then cow_pte (fr l) else pte_of (ram s1) cpt (blk b l))) \<and>
    (\<forall>p. 0 < ref_count s1 p \<longrightarrow> ref_count s' p = ref_count s1 p + (if \<exists>l. Suc i \<le> l \<and> l < n \<and> filt ! l = 0 \<and> p = fr l then 1 else 0))"
      using Suc.prems i s1(2,4,6) pos ne by (intro Suc.hyps(1) [OF i(2) s1(3)]) auto
    then obtain s' j' where s': "share_heap filt b (blk b n) ppt cpt (blk b (Suc i)) s1 = Some (Inr s')"
      "forkable pin s' (drop (j' + j) ps) ppt cpt mc b n fr"
      "\<forall>l < n. pte_of (ram s') cpt (blk b l) = (if Suc i \<le> l \<and> filt ! l = 0 then cow_pte (fr l) else pte_of (ram s1) cpt (blk b l))"
      "\<forall>p. 0 < ref_count s1 p \<longrightarrow> ref_count s' p = ref_count s1 p + (if \<exists>l. Suc i \<le> l \<and> l < n \<and> filt ! l = 0 \<and> p = fr l then 1 else 0)"
      by auto
    have "pte_of (ram s') cpt (blk b l) = (if i \<le> l \<and> filt ! l = 0 then cow_pte (fr l) else pte_of (ram s) cpt (blk b l))" if "l < n" for l
    proof -
      obtain q where "unat b = 4096 * q" using top(2) unfolding page_aligned_iff dvd_def by auto
      then have d: "unat (blk b x) div 4096 = q + x" "blk b x < MAXVA" if "x < n" for x
        using ub [of x] top(1) that by (simp_all add: word_less_nat_alt)
      have "agree 3 (blk b i) (blk b l) \<longleftrightarrow> l = i" "blk b l < MAXVA"
        using agree_3_div [OF d(2) [OF i(1)] d(2) [OF that]] d(1) [OF i(1)] d [OF that] by auto
      then show ?thesis using s'(3) s1(5) True that by auto
    qed
    moreover have "ref_count s' p = ref_count s p + (if \<exists>l. i \<le> l \<and> l < n \<and> filt ! l = 0 \<and> p = fr l then 1 else 0)" if p: "0 < ref_count s p" for p
    proof (cases "p = fr i")
      case True
      then have "\<not> (\<exists>l. Suc i \<le> l \<and> l < n \<and> filt ! l = 0 \<and> p = fr l)" using ne by (metis Suc_n_not_le_n)
      then show ?thesis using s1(6) s'(4) p True i(1) \<open>filt ! i = 0\<close> by auto
    next
      case False
      then have "(\<exists>l. i \<le> l \<and> l < n \<and> filt ! l = 0 \<and> p = fr l) = (\<exists>l. Suc i \<le> l \<and> l < n \<and> filt ! l = 0 \<and> p = fr l)"
        by (metis Suc_leD le_eq_less_or_eq Suc_leI)
      then show ?thesis using s1(6) s'(4) p False by simp
    qed
    ultimately show ?thesis using s'(1,2) s1(1) True by (subst share_heap.simps) (auto simp: lt get nx)
  qed
qed



lemma clear_filter_nth: "i < MAX_HEAP_PAGES \<Longrightarrow> clear_filter junk ! i = (if i < 8 then 0 else junk i)" "length (clear_filter junk) = MAX_HEAP_PAGES"
  by (simp_all add: clear_filter_def del: upt_Suc)

section \<open>Properties\<close>


text \<open>
  C7. A write to a page that is shared after a fork. The handler gives the process a page of its own: it drops one
  reference of the shared page, and the faulting page, and no other, is mapped to a fresh page with write access. But the contents
  are not copied: the process then reads what the fresh page held when it was free.
\<close>

theorem cow_fault_contents:
  assumes "booted pin (kmm s) (q # qs)" "0 < table_room (kmm s)"
    "current s hid = Some c" "root = p_pagetable (procs s c)" "pt_wf (kmm s) root"
    "ld64 (ram (kmm s)) (p_trapframe (procs s c) + 8) = Inr usp" "\<not> (usp < va \<and> va < USER_STACK_TOP)"
    "va < MAXVA" "RSW (pte_of (ram (kmm s)) root va) = 1"
    "p = PTE2PA (pte_of (ram (kmm s)) root va)" "p \<noteq> 0" "1 < ref_count (kmm s) p"
  shows "\<exists>s'. handle_user_page_fault hid CAUSE_STORE_PAGE_FAULT va s = Inr s' \<and> booted pin (kmm s') qs \<and>
    ref_count (kmm s') = (ref_count (kmm s))(p := ref_count (kmm s) p - 1, q := 1) \<and>
    (\<forall>vb < MAXVA. pte_of (ram (kmm s')) root vb =
       (if unat vb div 4096 = unat va div 4096 then user_pte q else pte_of (ram (kmm s)) root vb)) \<and>
    user_va_to_pa root va (kmm s') = Inr (q + va mod PGSIZE) \<and>
    (\<forall>a. in_page q a \<longrightarrow> ram (kmm s') a = ram (kmm s) a)"
proof -
  obtain s' t where s': "handle_user_page_fault hid CAUSE_STORE_PAGE_FAULT va s = Inr s'" "booted pin (kmm s') qs"
    "desc (ram (kmm s)) root va 2 = Some t" "pt_wf (kmm s') root"
    "ram (kmm s') = store64 (ram (kmm s)) (cell t 0 va) (user_pte q)"
    "ref_count (kmm s') = (ref_count (kmm s))(p := ref_count (kmm s) p - 1, q := 1)"
    using cow_fault [OF assms] by blast
  have qa: "page_aligned q" using assms(1) pmm_inv_fresh [of "kmm s" "q # qs" q] by (auto simp: booted_def managed_def)
  have pte: "pte_of (ram (kmm s')) root vb = (if agree 3 va vb then user_pte q else pte_of (ram (kmm s)) root vb)" for vb
    using pte_of_store_leaf [OF assms(5) s'(3)] s'(5) by simp
  have "user_va_to_pa root va (kmm s') = Inr (q + va mod PGSIZE)"
    by (rule user_pte_translate [OF s'(4) booted_bounds [OF s'(2)] assms(8) _ qa]) (simp add: pte)
  moreover have "agree 3 va vb \<longleftrightarrow> unat vb div 4096 = unat va div 4096" if "vb < MAXVA" for vb
    using agree_3_div [OF assms(8) that] by auto
  moreover have "ram (kmm s') a = ram (kmm s) a" if "in_page q a" for a
  proof -
    have "t \<noteq> q" by (rule table_not_free [OF assms(1,5) _ s'(3)]) simp_all
    then have "\<not> in_page t a" using in_page_disjoint [OF qa _ _ that] pt_wf_aligned [OF assms(5) _ s'(3)] by auto
    then show ?thesis by (simp add: s'(5) store_cell_frame)
  qed
  ultimately show ?thesis using s'(1,2,6) pte by auto
qed


section \<open>Witnesses\<close>

text \<open>A parent with one heap page and a child with no mapping.\<close>

lemma ex_forkable:
  "\<exists>m pin ps ppt cpt mc p. forkable pin m ps ppt cpt mc 0x400000 1 (\<lambda>_. p) \<and> 200 < length ps \<and> 200 < table_room m \<and> ref_count m p = 1 \<and> p \<noteq> 0"
proof -
  obtain m0 pin ps root mi where m0: "booted pin m0 ps" "250 < length ps" "250 < table_room m0" "pt_wf m0 root"
    "\<forall>va. pte_of (ram m0) root va = 0" "owned m0 root mi"
    using ex_space by blast
  obtain p ps1 where ps: "ps = p # ps1" using m0(2) by (cases ps) auto
  have D: "0x400000 \<in> {0x400000 :: addr} - {}" by simp
  have "heap_map pin m0 (p # ps1) root mi {0x400000} {} (\<lambda>_. p)"
    using m0 ps by (simp add: heap_map_def page_aligned_def)
  from heap_map_new [OF this] m0(3) obtain m1 where m1: "heap_map pin m1 ps1 root mi {0x400000} {} (\<lambda>_. p)"
    "spare pin m1 root mi {} (\<lambda>_. p) p" "table_room m0 = Suc (table_room m1)" by auto
  have r1: "2 \<le> length ps1" "2 \<le> table_room m1" using m0(2,3) ps m1(3) by simp_all
  from heap_map_add [OF m1(1,2) D r1] obtain m2 j where m2:
    "heap_map pin m2 (drop j ps1) root mi {0x400000} {0x400000} ((\<lambda>_. p)(0x400000 := p))" "j \<le> 2" "table_room m1 = j + table_room m2" by auto
  obtain c ps2 where ps2: "drop j ps1 = c # ps2" using m0(2) ps m2(2) by (cases "drop j ps1") auto
  have h: "booted pin m2 (c # ps2)" "pt_wf m2 root" "owned m2 root mi" "pte_of (ram m2) root 0x400000 = user_pte p" "owned m2 root p" "ref_count m2 p = 1"
    using m2(1) ps2 by (simp_all add: heap_map_def)
  have "0 < table_room m2" using m0(3) m1(3) m2(2,3) by simp
  from empty_space [OF h(1) this] obtain m3 where m3: "booted pin (m3\<lparr>ram := filled (ram m3) c 0 4096\<rparr>) ps2"
    "pt_wf (m3\<lparr>ram := filled (ram m3) c 0 4096\<rparr>) c" "empty_dir (filled (ram m3) c 0 4096) c"
    "table_room m2 = Suc (table_room m3)" "ref_count m3 = (ref_count m2)(c := 1)" "ram m3 = ram m2" "same_bounds m2 m3" by blast
  let ?m = "m3\<lparr>ram := filled (ram m3) c 0 4096\<rparr>"
  have ca: "page_aligned c" "ref_count m2 c = 0" using h(1) pmm_inv_fresh [of m2 "c # ps2" c] by (auto simp: booted_def managed_def)
  have nc: "no_table m2 root c" by (rule fresh_no_table [OF h(1,2)]) simp
  note w = page_write_pt [OF h(2) ca(1) nc, of "filled (ram m3) c 0 4096"]
  have same: "filled (ram m3) c 0 4096 a = ram m2 a" if "\<not> in_page c a" for a using that m3(6) by (simp add: filled_page)
  have d: "desc (ram ?m) root va k = desc (ram m2) root va k" if "k \<le> 2" for va k using w(3) [OF same that] by simp
  have own: "owned ?m c q" if "q \<noteq> 0" "page_aligned q" "0 < ref_count m2 q" for q
  proof -
    have "no_table ?m c q"
      unfolding no_table_def
    proof (intro allI impI)
      fix va k t assume "desc (ram ?m) c va k = Some t"
      then have "t = c" using empty_dir_desc [OF m3(3)] by (cases k) auto
      then show "t \<noteq> q" using that ca(2) by auto
    qed
    then show ?thesis using that m3(5) by (simp add: owned_def)
  qed
  have tab: "0 < ref_count m2 t \<and> managed m2 t" if "k \<le> 2" "desc (ram m2) root va k = Some t" for va k t
    using pt_wf_table [OF h(2) that] by simp
  have "pt_wf ?m root"
  proof (rule pt_wf_other [OF h(2) d])
    show "managed ?m = managed m2" using m3(7) by (auto simp: managed_def same_bounds_def fun_eq_iff)
    show "0 < ref_count ?m t" if "k \<le> 2" "desc (ram m2) root va k = Some t" for va k t using tab [OF that] m3(5) by simp
  qed
  moreover have "owned ?m c t" if "k \<le> 2" "desc (ram ?m) root va k = Some t" for va k t
    using own tab d that managed_nonzero [OF booted_bounds [OF h(1)]] by (auto simp: managed_def)
  moreover have "owned ?m c mi" "no_table ?m root mi" using own h(3) d by (auto simp: owned_def no_table_def)
  moreover have "pte_of (ram ?m) root 0x400000 = user_pte p" using w(2) [OF same] h(4) by simp
  moreover have "ref_count ?m p = 1" "p \<noteq> 0" "page_aligned p" using h(5,6) m3(5) ca(2) by (auto simp: owned_def)
  ultimately have "forkable pin ?m ps2 root c mi 0x400000 1 (\<lambda>_. p)"
    using m3(1,2) by (simp add: forkable_def blk_def page_aligned_def inj_on_def)
  moreover have "200 < length ps2" "200 < table_room ?m"
    using m0(2,3) ps m1(3) m2(2,3) m3(4) arg_cong [OF ps2, of length] by (simp_all add: table_room_def)
  ultimately show ?thesis using \<open>ref_count ?m p = 1\<close> \<open>p \<noteq> 0\<close> by blast
qed




lemma cow_pte_eq: "cow_pte p = PA2PTE p OR 339"
  by (simp add: cow_pte_def prot_to_type_def)

lemma RSW_cow: "RSW (cow_pte p) = 1"
proof -
  have "drop_bit 8 (PA2PTE p) AND 3 = 0"
  proof (rule bit_word_eqI)
    fix n
    have m: "(3 :: uint64) = mask 2" by (simp add: mask_eq_exp_minus_1)
    show "bit (drop_bit 8 (PA2PTE p) AND 3) n = bit (0 :: uint64) n"
      unfolding m bit_and_iff bit_mask_iff by (simp add: PA2PTE_def bit_simps)
  qed
  moreover have "drop_bit 8 (cow_pte p) AND 3 = (drop_bit 8 (PA2PTE p) AND 3) OR (drop_bit 8 339 AND 3)"
    unfolding cow_pte_eq by (simp only: drop_bit_or bit.conj_disj_distrib2)
  ultimately show ?thesis by (simp add: RSW_def)
qed

lemma cow_pte_pa: "page_aligned p \<Longrightarrow> PTE2PA (cow_pte p) = p"
  unfolding cow_pte_eq by (rule PTE2PA_PA2PTE) simp_all


text \<open>The child of the example after the fork, with its stack pointer at the top of the stack.\<close>

lemma ex_shared:
  "\<exists>m pin q qs cpt mc p. booted pin m (q # qs) \<and> 0 < table_room m \<and> pt_wf m cpt \<and> pte_of (ram m) cpt 0x400000 = cow_pte p \<and>
     page_aligned p \<and> p \<noteq> 0 \<and> ref_count m p = 2 \<and> ld64 (ram m) (mc + 8) = Inr USER_STACK_TOP"
proof -
  obtain m pin ps ppt cpt mc p where m: "forkable pin m ps ppt cpt mc 0x400000 1 (\<lambda>_. p)" "200 < length ps" "200 < table_room m"
    "ref_count m p = 1" "p \<noteq> 0"
    using ex_forkable by blast
  have "2 \<le> length ps" "2 \<le> table_room m" using m(2,3) by simp_all
  from share_one [OF m(1) _ this] m(4) obtain s j where s: "j \<le> 2" "forkable pin s (drop j ps) ppt cpt mc 0x400000 1 (\<lambda>_. p)"
    "table_room m = j + table_room s" "\<forall>v < MAXVA. pte_of (ram s) cpt v = (if agree 3 0x400000 v then cow_pte p else pte_of (ram m) cpt v)"
    "ref_count s p = 2"
    by (auto simp: blk_def)
  obtain q qs where qs: "drop j ps = q # qs" using m(2) s(1) by (cases "drop j ps") auto
  have b: "booted pin s (q # qs)" and wf: "pt_wf s cpt" and mc: "owned s cpt mc" and pa: "page_aligned p"
    using s(2) qs by (auto simp: forkable_def)
  have mr: "page_aligned mc" "ram_ok mc 4096" "0 < ref_count s mc" "no_table s cpt mc"
    using owned_ram_ok [OF b mc] mc by (auto simp: owned_def)
  let ?m = "store64 (ram s) (mc + 8) USER_STACK_TOP"
  have same: "?m a = ram s a" if "\<not> in_page mc a" for a
    using that in_page_off [of 8 8 a mc] by (auto simp: store64_def word_less_nat_alt)
  have "ld64 ?m (mc + 8) = Inr USER_STACK_TOP" using page_ld64 [OF mr(1,2), of 8] by (simp add: ld64_def)
  moreover have "booted pin (s\<lparr>ram := ?m\<rparr>) (q # qs)" by (rule page_write [OF b mr(1,3) same])
  moreover have "pt_wf (s\<lparr>ram := ?m\<rparr>) cpt" "pte_of ?m cpt 0x400000 = cow_pte p"
    using page_write_pt [OF wf mr(1,4) same] s(4) by simp_all
  moreover have "0 < table_room (s\<lparr>ram := ?m\<rparr>)" using m(3) s(1,3) by (simp add: table_room_def)
  ultimately show ?thesis using s(5) m(5) pa
    by (intro exI [of _ "s\<lparr>ram := ?m\<rparr>"] exI [of _ pin] exI [of _ q] exI [of _ qs] exI [of _ cpt] exI [of _ mc] exI [of _ p]) simp
qed

theorem cow_fault_contents_witness:
  "\<exists>(s :: kern) s' p q. handle_user_page_fault 0 CAUSE_STORE_PAGE_FAULT 0x400000 s = Inr s' \<and>
     pte_of (ram (kmm s)) (p_pagetable (procs s 0)) 0x400000 = cow_pte p \<and>
     user_va_to_pa (p_pagetable (procs s 0)) 0x400000 (kmm s') = Inr q \<and> (\<forall>a. in_page q a \<longrightarrow> ram (kmm s') a = ram (kmm s) a)"
proof -
  obtain m pin q qs cpt mc p where m: "booted pin m (q # qs)" "0 < table_room m" "pt_wf m cpt"
    "pte_of (ram m) cpt 0x400000 = cow_pte p" "page_aligned p" "p \<noteq> 0" "ref_count m p = 2" "ld64 (ram m) (mc + 8) = Inr USER_STACK_TOP"
    using ex_shared by blast
  let ?s = "ex_kern\<lparr>kmm := m, procs := \<lambda>_. ex_process\<lparr>p_pagetable := cpt, p_trapframe := mc\<rparr>\<rparr>"
  have c: "current ?s 0 = Some 0" by (simp add: ex_kern_def)
  have "\<exists>s'. handle_user_page_fault 0 CAUSE_STORE_PAGE_FAULT 0x400000 ?s = Inr s' \<and> booted pin (kmm s') qs \<and>
    ref_count (kmm s') = (ref_count (kmm ?s))(p := ref_count (kmm ?s) p - 1, q := 1) \<and>
    (\<forall>vb < MAXVA. pte_of (ram (kmm s')) cpt vb =
       (if unat vb div 4096 = unat (0x400000 :: addr) div 4096 then user_pte q else pte_of (ram (kmm ?s)) cpt vb)) \<and>
    user_va_to_pa cpt 0x400000 (kmm s') = Inr (q + 0x400000 mod PGSIZE) \<and>
    (\<forall>a. in_page q a \<longrightarrow> ram (kmm s') a = ram (kmm ?s) a)"
    by (rule cow_fault_contents [OF _ _ c, where usp = USER_STACK_TOP]) (use m RSW_cow [of p] cow_pte_pa [OF m(5)] in simp_all)
  then obtain s' where "handle_user_page_fault 0 CAUSE_STORE_PAGE_FAULT 0x400000 ?s = Inr s'"
    "user_va_to_pa cpt 0x400000 (kmm s') = Inr (q + 0x400000 mod PGSIZE)" "\<forall>a. in_page q a \<longrightarrow> ram (kmm s') a = ram m a"
    by fastforce
  then show ?thesis using m(4) by (intro exI [of _ ?s] exI [of _ s'] exI [of _ p] exI [of _ q]) simp
qed

end
