(* ===== verification/Malloc.thy ===== *)
theory Malloc
  imports Fork
begin

text \<open>
  The user heap of variable-sized blocks, \<^verbatim>\<open>kernel/process.c\<close> lines 485 to 639: \<^verbatim>\<open>vm_malloc\<close> and \<^verbatim>\<open>vm_free\<close> keep a list of free
  blocks in the memory of the process. A block starts with its size and the virtual address of the next free
  block; the kernel reaches both through the page table of the process.
\<close>

section \<open>Block headers\<close>

abbreviation (input) BLOCK_HEAD :: uint64 where "BLOCK_HEAD \<equiv> 16"

text \<open>\<^verbatim>\<open>user_va_to_pa(current[hart_id]->pagetable, (void *)va)\<close> and the two fields at the address it gives.\<close>

definition head_at :: "nat \<Rightarrow> uint64 \<Rightarrow> 'a kern_scheme \<Rightarrow> addr res" where
  "head_at c va s = user_va_to_pa (p_pagetable (procs s c)) va (kmm s)"

definition get_capacity :: "addr \<Rightarrow> 'a kern_scheme \<Rightarrow> uint64 res" where
  "get_capacity head s = ld64 (ram (kmm s)) head"

definition get_next :: "addr \<Rightarrow> 'a kern_scheme \<Rightarrow> uint64 res" where
  "get_next head s = ld64 (ram (kmm s)) (head + 8)"

definition set_capacity :: "addr \<Rightarrow> uint64 \<Rightarrow> 'a kern_scheme \<Rightarrow> 'a kern_scheme res" where
  "set_capacity head v s = on_mm (put64 head v) s"

definition set_next :: "addr \<Rightarrow> uint64 \<Rightarrow> 'a kern_scheme \<Rightarrow> 'a kern_scheme res" where
  "set_next head v s = on_mm (put64 (head + 8) v) s"

definition set_first :: "nat \<Rightarrow> uint64 \<Rightarrow> 'a kern_scheme \<Rightarrow> 'a kern_scheme" where
  "set_first c va s = upd_proc c (\<lambda>p. p\<lparr>p_first_free_block := va\<rparr>) s"

text \<open>\<^verbatim>\<open>need_size\<close> rounded up to a multiple of 8.\<close>

definition align8 :: "uint64 \<Rightarrow> uint64" where
  "align8 n = (let ALIGN = n mod 8 in if ALIGN \<noteq> 0 then n + (8 - ALIGN) else n)"

section \<open>Operations\<close>

text \<open>A new page at the top of the heap; the result is its virtual address.\<close>

definition grow_heap :: "nat \<Rightarrow> 'a kern_scheme \<Rightarrow> (uint64 \<times> 'a kern_scheme) res" where
  "grow_heap c s =
     bnd (with_mm alloc_page s) (\<lambda>(page, s).
     let va = heap_top (p_user_heap (procs s c));
         s = upd_proc c (\<lambda>p. p\<lparr>p_user_heap := (p_user_heap p)\<lparr>heap_top := va + PGSIZE\<rparr>\<rparr>) s
     in bnd (on_mm (upd_npages (p_mapped_info (procs s c)) HEAP_SEGMENT (\<lambda>n. n + 1)) s) (\<lambda>s.
        bnd (on_mm (kmemset page 0 PGSIZE) s) (\<lambda>s.
        bnd (on_mm (user_vm_map (p_pagetable (procs s c)) va PGSIZE page (user_perm (PROT_WRITE OR PROT_READ) 1)) s) (\<lambda>s.
        Inr (va, s)))))"

definition try_alloc_free_block :: "nat \<Rightarrow> 'a kern_scheme \<Rightarrow> 'a kern_scheme res" where
  "try_alloc_free_block hid s =
     bnd (deref (current s hid)) (\<lambda>c.
     if p_first_free_block (procs s c) = 0
     then bnd (grow_heap c s) (\<lambda>(va, s).
          bnd (head_at c va s) (\<lambda>head.
          bnd (set_capacity head PGSIZE s) (\<lambda>s.
          bnd (set_next head 0 s) (\<lambda>s. Inr (set_first c va s)))))
     else Inr s)"

text \<open>The loop that looks for the free block with the highest address: that block and the one before it in the list.\<close>

partial_function (option) scan_max :: "nat \<Rightarrow> 'a kern_scheme \<Rightarrow> uint64 \<Rightarrow> uint64 \<Rightarrow> uint64 \<Rightarrow> uint64 \<Rightarrow> (uint64 \<times> uint64) res option" where
  "scan_max c s cur max_va pre max_pre =
     (if cur = 0 then Some (Inr (max_va, max_pre))
      else (case bnd (head_at c cur s) (\<lambda>head. get_next head s) of
              Inl e \<Rightarrow> Some (Inl e)
            | Inr nx \<Rightarrow>
                (let (max_va, max_pre) = (if cur > max_va then (cur, pre) else (max_va, max_pre))
                 in scan_max c s nx max_va cur max_pre)))"

text \<open>The \<^verbatim>\<open>do\<close> loop that adds pages; the result is the last page and the size that is left.\<close>

partial_function (option) grow_loop :: "nat \<Rightarrow> uint64 \<Rightarrow> 'a kern_scheme \<Rightarrow> (uint64 \<times> uint64 \<times> 'a kern_scheme) res option" where
  "grow_loop c need s =
     (case grow_heap c s of
        Inl e \<Rightarrow> Some (Inl e)
      | Inr (last_va, s) \<Rightarrow>
          (let need = (if need > PGSIZE then need - PGSIZE else need)
           in if need > PGSIZE then grow_loop c need s else Some (Inr (last_va, need, s))))"

text \<open>The new head behind the block in the last page, linked in place of the block that was used.\<close>

definition link_rest :: "nat \<Rightarrow> uint64 \<Rightarrow> uint64 \<Rightarrow> uint64 \<Rightarrow> uint64 \<Rightarrow> 'a kern_scheme \<Rightarrow> 'a kern_scheme res" where
  "link_rest c last_va need nx max_pre s =
     (let need = align8 need
      in bnd (head_at c (last_va + need) s) (\<lambda>last_head.
         bnd (set_capacity last_head (PGSIZE - need) s) (\<lambda>s.
         bnd (set_next last_head nx s) (\<lambda>s.
         if max_pre \<noteq> 0
         then bnd (head_at c max_pre s) (\<lambda>max_pre_head. set_next max_pre_head (last_va + need) s)
         else Inr (set_first c (last_va + need) s)))))"

definition alloc_from_new_block :: "nat \<Rightarrow> uint64 \<Rightarrow> 'a kern_scheme \<Rightarrow> (uint64 \<times> 'a kern_scheme) res" where
  "alloc_from_new_block c n s =
     (let need_size = n + BLOCK_HEAD
      in bnd (of_loop (scan_max c s (p_first_free_block (procs s c)) 0 0 0)) (\<lambda>r.
         bnd r (\<lambda>(max_va, max_pre).
         bnd (head_at c max_va s) (\<lambda>head.
         bnd (get_capacity head s) (\<lambda>capacity.
         bnd (get_next head s) (\<lambda>nx.
         bnd (set_next head 0 s) (\<lambda>s.
         bnd (set_capacity head need_size s) (\<lambda>s.
         bnd (of_loop (grow_loop c (need_size - capacity) s)) (\<lambda>r.
         bnd r (\<lambda>(last_va, need, s).
         bnd (if need \<noteq> 0 then link_rest c last_va need nx max_pre s else Inr s) (\<lambda>s.
         Inr (max_va + BLOCK_HEAD, s))))))))))))"

text \<open>The block is taken out of the list: \<open>nx\<close> takes its place.\<close>

definition relink :: "nat \<Rightarrow> uint64 \<Rightarrow> uint64 \<Rightarrow> 'a kern_scheme \<Rightarrow> 'a kern_scheme res" where
  "relink c pre nx s =
     (if pre = 0 then Inr (set_first c nx s) else bnd (head_at c pre s) (\<lambda>pre_head. set_next pre_head nx s))"

text \<open>A block that is larger than needed: the rest becomes a free block.\<close>

definition split_block :: "nat \<Rightarrow> uint64 \<Rightarrow> uint64 \<Rightarrow> addr \<Rightarrow> uint64 \<Rightarrow> uint64 \<Rightarrow> 'a kern_scheme \<Rightarrow> 'a kern_scheme res" where
  "split_block c pre cur head capacity need_size s =
     (let need_size = align8 need_size; va = cur + need_size
      in bnd (set_capacity head need_size s) (\<lambda>s.
         bnd (head_at c va s) (\<lambda>new_head.
         bnd (set_capacity new_head (capacity - need_size) s) (\<lambda>s.
         bnd (get_next head s) (\<lambda>nx.
         bnd (set_next new_head nx s) (\<lambda>s. relink c pre va s))))))"

partial_function (option) fit_loop :: "nat \<Rightarrow> uint64 \<Rightarrow> uint64 \<Rightarrow> uint64 \<Rightarrow> 'a kern_scheme \<Rightarrow> (uint64 \<times> 'a kern_scheme) res option" where
  "fit_loop c n pre cur s =
     (if cur = 0 then Some (alloc_from_new_block c n s)
      else (case bnd (head_at c cur s) (\<lambda>head. bnd (get_capacity head s) (\<lambda>capacity. Inr (head, capacity))) of
              Inl e \<Rightarrow> Some (Inl e)
            | Inr (head, capacity) \<Rightarrow>
                (let need_size = n + BLOCK_HEAD
                 in if capacity \<ge> need_size
                    then Some (bnd (if capacity = need_size then bnd (get_next head s) (\<lambda>nx. relink c pre nx s)
                                    else split_block c pre cur head capacity need_size s) (\<lambda>s.
                               Inr (cur + BLOCK_HEAD, s)))
                    else (case get_next head s of
                            Inl e \<Rightarrow> Some (Inl e)
                          | Inr nx \<Rightarrow> fit_loop c n cur nx s))))"

definition alloc_from_free_block :: "nat \<Rightarrow> uint64 \<Rightarrow> 'a kern_scheme \<Rightarrow> (uint64 \<times> 'a kern_scheme) res" where
  "alloc_from_free_block c n s = bnd (of_loop (fit_loop c n 0 (p_first_free_block (procs s c)) s)) (\<lambda>r. r)"

definition vm_malloc :: "nat \<Rightarrow> uint64 \<Rightarrow> 'a kern_scheme \<Rightarrow> (uint64 \<times> 'a kern_scheme) res" where
  "vm_malloc hid n s =
     bnd (try_alloc_free_block hid s) (\<lambda>s.
     bnd (deref (current s hid)) (\<lambda>c. alloc_from_free_block c n s))"

definition vm_free :: "nat \<Rightarrow> uint64 \<Rightarrow> 'a kern_scheme \<Rightarrow> 'a kern_scheme res" where
  "vm_free hid va s =
     bnd (deref (current s hid)) (\<lambda>c.
     bnd (head_at c (va - BLOCK_HEAD) s) (\<lambda>head.
     bnd (set_next head (p_first_free_block (procs s c)) s) (\<lambda>s.
     Inr (set_first c (va - BLOCK_HEAD) s))))"

end
