(* ===== verification/Malloc_Blocks.thy ===== *)
theory Malloc_Blocks
  imports Malloc
begin

text \<open>
  The block allocator of the user heap refines an abstract heap: a list of free blocks and a list of blocks in use, all of them
  apart from each other.
\<close>

section \<open>Cells of the heap\<close>

text \<open>The physical address of a heap address, when heap page \<open>v\<close> is in the frame \<open>fr v\<close>.\<close>

definition tr :: "(addr \<Rightarrow> addr) \<Rightarrow> addr \<Rightarrow> addr" where
  "tr fr va = fr (ROUNDDOWN va PGSIZE) + va mod PGSIZE"

definition cell_in :: "addr set \<Rightarrow> addr \<Rightarrow> bool" where
  "cell_in L va \<longleftrightarrow> ROUNDDOWN va PGSIZE \<in> L \<and> 8 dvd unat va"

text \<open>A block head does not cross a page.\<close>

definition head_in :: "addr set \<Rightarrow> addr \<Rightarrow> bool" where
  "head_in L va \<longleftrightarrow> va \<noteq> 0 \<and> cell_in L va \<and> unat va mod 4096 \<le> 4080"

lemma unat_mod_page: "unat (va mod PGSIZE) = unat va mod 4096"
  by (simp add: unat_mod)

lemma ROUNDDOWN_split: "ROUNDDOWN va PGSIZE + va mod PGSIZE = va"
  by (simp add: ROUNDDOWN_def div_mult_mod_eq)

lemma ROUNDDOWN_page: "page_aligned (ROUNDDOWN va PGSIZE)"
  by (simp add: page_aligned_iff unat_ROUNDDOWN)

lemma head_next:
  assumes "head_in L va"
  shows "ROUNDDOWN (va + 8) PGSIZE = ROUNDDOWN va PGSIZE" "tr fr (va + 8) = tr fr va + 8" "cell_in L (va + 8)" "va + 8 \<noteq> va"
proof -
  have m: "unat va mod 4096 \<le> 4080" and d: "8 dvd unat va" "ROUNDDOWN va PGSIZE \<in> L" using assms by (simp_all add: head_in_def cell_in_def)
  have lt: "unat va < 2 ^ 64" using unsigned_less [of va, where ?'a = nat] by simp
  have "unat va + 8 < 2 ^ 64"
  proof -
    have "unat va div 4096 < 2 ^ 52" using lt by (simp add: div_less_iff_less_mult)
    then have "unat va div 4096 * 4096 + 4096 \<le> 2 ^ 64" by simp
    then show ?thesis using m div_mult_mod_eq [of "unat va" 4096] by linarith
  qed
  then have u: "unat (va + 8) = unat va + 8" by (simp add: unat_word_ariths)
  have q: "(unat va + 8) div 4096 = unat va div 4096" "(unat va + 8) mod 4096 = unat va mod 4096 + 8"
  proof -
    have "unat va + 8 = 4096 * (unat va div 4096) + (unat va mod 4096 + 8)" by simp
    moreover have "unat va mod 4096 + 8 < 4096" using m by simp
    ultimately show "(unat va + 8) div 4096 = unat va div 4096" "(unat va + 8) mod 4096 = unat va mod 4096 + 8"
      by (metis div_mult_self4 div_less add_0_right zero_neq_numeral, metis mod_mult_self4 mod_less)
  qed
  show r: "ROUNDDOWN (va + 8) PGSIZE = ROUNDDOWN va PGSIZE"
    by (rule unsigned_word_eqI [where ?'a = nat]) (simp add: unat_ROUNDDOWN u q)
  have "unat (va mod PGSIZE) + 8 < 2 ^ 64" using m unfolding unat_mod_page by simp
  then have "unat (va mod PGSIZE + 8) = unat (va mod PGSIZE) + 8" by (simp add: unat_word_ariths)
  then have "unat ((va + 8) mod PGSIZE) = unat (va mod PGSIZE + 8)" using q(2) unfolding unat_mod_page u by simp
  then have "(va + 8) mod PGSIZE = va mod PGSIZE + 8" by (rule unsigned_word_eqI)
  then show "tr fr (va + 8) = tr fr va + 8" by (simp add: tr_def r add.assoc)
  show "cell_in L (va + 8)" using d r u by (simp add: cell_in_def)
qed simp


lemma tr_inj:
  assumes "cell_in L va" "cell_in L vb" "inj_on fr L" "\<And>v. v \<in> L \<Longrightarrow> page_aligned (fr v)" "tr fr va = tr fr vb"
  shows "va = vb"
proof -
  let ?p = "fr (ROUNDDOWN va PGSIZE)" and ?q = "fr (ROUNDDOWN vb PGSIZE)"
  have i: "in_page ?p (tr fr va)" "in_page ?q (tr fr vb)"
    by (simp_all add: tr_def in_page_def word_less_nat_alt unat_mod_page)
  have L: "ROUNDDOWN va PGSIZE \<in> L" "ROUNDDOWN vb PGSIZE \<in> L" using assms(1,2) by (simp_all add: cell_in_def)
  then have "?p = ?q" using in_page_disjoint [of ?p ?q "tr fr va"] i assms(4,5) by fastforce
  then have "ROUNDDOWN va PGSIZE = ROUNDDOWN vb PGSIZE" "va mod PGSIZE = vb mod PGSIZE"
    using assms(3,5) L by (auto simp: inj_on_def tr_def)
  then show ?thesis using ROUNDDOWN_split by metis
qed

section \<open>The heap in memory\<close>

definition hget :: "(addr \<Rightarrow> addr) \<Rightarrow> 'a kern_scheme \<Rightarrow> addr \<Rightarrow> uint64" where
  "hget fr s va = load64 (ram (kmm s)) (tr fr va)"

definition hput :: "(addr \<Rightarrow> addr) \<Rightarrow> addr \<Rightarrow> uint64 \<Rightarrow> 'a kern_scheme \<Rightarrow> 'a kern_scheme" where
  "hput fr va v s = s\<lparr>kmm := (kmm s)\<lparr>ram := store64 (ram (kmm s)) (tr fr va) v\<rparr>\<rparr>"

text \<open>The heap pages of the process \<open>c\<close> are mapped, and there is room for the heap up to \<open>lim\<close>.\<close>

definition uheap :: "addr \<Rightarrow> addr list \<Rightarrow> addr \<Rightarrow> nat \<Rightarrow> (addr \<Rightarrow> addr) \<Rightarrow> 'a kern_scheme \<Rightarrow> bool" where
  "uheap pin ps lim c fr s \<longleftrightarrow>
     (let h = p_user_heap (procs s c)
      in page_aligned (heap_top h) \<and> page_aligned (heap_bottom h) \<and> 0 < heap_bottom h \<and> heap_bottom h \<le> heap_top h \<and> heap_top h \<le> lim \<and> page_aligned lim \<and> lim \<le> MAXVA \<and>
         heap_map pin (kmm s) ps (p_pagetable (procs s c)) (p_mapped_info (procs s c))
           {v. page_aligned v \<and> heap_bottom h \<le> v \<and> v < lim} (heap_pages h) fr)"

abbreviation (input) hpages :: "nat \<Rightarrow> 'a kern_scheme \<Rightarrow> addr set" where
  "hpages c s \<equiv> heap_pages (p_user_heap (procs s c))"

lemma uheap_cell:
  assumes u: "uheap pin ps lim c fr s" and va: "cell_in (hpages c s) va"
  shows "owned (kmm s) (p_pagetable (procs s c)) (fr (ROUNDDOWN va PGSIZE))"
    "ld64 m (tr fr va) = Inr (load64 m (tr fr va))" "st64 m (tr fr va) x = Inr (store64 m (tr fr va) x)"
    "8 dvd unat (tr fr va)" "head_at c va s = Inr (tr fr va)" "va < MAXVA"
    "\<not> in_page (fr (ROUNDDOWN va PGSIZE)) a \<Longrightarrow> store64 m (tr fr va) x a = m a"
proof -
  define p where "p = fr (ROUNDDOWN va PGSIZE)"
  have d: "8 dvd unat va" and L: "ROUNDDOWN va PGSIZE \<in> hpages c s" using va by (simp_all add: cell_in_def)
  have b: "booted pin (kmm s) ps" and wf: "pt_wf (kmm s) (p_pagetable (procs s c))" and o: "owned (kmm s) (p_pagetable (procs s c)) p"
    and pte: "pte_of (ram (kmm s)) (p_pagetable (procs s c)) (ROUNDDOWN va PGSIZE) = user_pte p"
    using u L by (auto simp: uheap_def Let_def heap_map_def p_def)
  show "owned (kmm s) (p_pagetable (procs s c)) (fr (ROUNDDOWN va PGSIZE))" using o by (simp add: p_def)
  have pr: "page_aligned p" "ram_ok p 4096" using owned_ram_ok [OF b o] by auto
  let ?o = "va mod PGSIZE"
  have od: "8 dvd unat ?o" unfolding unat_mod_page using d by (simp add: dvd_mod)
  then obtain k where k: "unat ?o = 8 * k" by auto
  have "unat ?o < 4096" unfolding unat_mod_page by simp
  then have ol: "unat ?o + 8 \<le> 4096" using k by simp
  have t: "tr fr va = p + ?o" by (simp add: tr_def p_def)
  note acc = page_ld64 [OF pr ol od]
  show "ld64 m (tr fr va) = Inr (load64 m (tr fr va))" "st64 m (tr fr va) x = Inr (store64 m (tr fr va) x)"
    using acc by (simp_all add: t ld64_def st64_def)
  show "8 dvd unat (tr fr va)" using acc by (simp add: t word_mod_0_iff_dvd)
  have "page_aligned lim" "lim \<le> MAXVA" "ROUNDDOWN va PGSIZE < lim"
    using u L by (auto simp: uheap_def Let_def heap_pages_def)
  from page_top [OF ROUNDDOWN_page this(1,3)] this(2)
  have "unat (ROUNDDOWN va PGSIZE) + 4096 \<le> unat MAXVA" unfolding word_le_nat_alt by linarith
  moreover have "unat va < unat (ROUNDDOWN va PGSIZE) + 4096"
    unfolding unat_ROUNDDOWN using div_mult_mod_eq [of "unat va" 4096] mod_less_divisor [of 4096 "unat va"] by linarith
  ultimately show vm: "va < MAXVA" by (simp add: word_less_nat_alt)
  have rm: "ROUNDDOWN va PGSIZE < MAXVA" using \<open>ROUNDDOWN va PGSIZE < lim\<close> \<open>lim \<le> MAXVA\<close> by (rule less_le_trans)
  have "agree 3 (ROUNDDOWN va PGSIZE) va" unfolding agree_3_div [OF rm vm] unat_ROUNDDOWN by simp
  then have "pte_of (ram (kmm s)) (p_pagetable (procs s c)) va = user_pte p" using pte pte_of_agree by metis
  from user_pte_translate [OF wf booted_bounds [OF b] vm this pr(1)]
  show "head_at c va s = Inr (tr fr va)" by (simp add: head_at_def t)
  show "store64 m (tr fr va) x a = m a" if "\<not> in_page (fr (ROUNDDOWN va PGSIZE)) a"
    using that in_page_off [OF ol, of a p] by (auto simp: t store64_def word_less_nat_alt p_def)
qed


lemma hput_procs [simp]: "procs (hput fr va v s) = procs s" "current (hput fr va v s) = current s"
  by (simp_all add: hput_def)

lemma uheap_put:
  assumes u: "uheap pin ps lim c fr s" and va: "cell_in (hpages c s) va"
  shows "uheap pin ps lim c fr (hput fr va v s)"
    "cell_in (hpages c s) vb \<Longrightarrow> hget fr (hput fr va v s) vb = (if vb = va then v else hget fr s vb)"
proof -
  let ?root = "p_pagetable (procs s c)" and ?mi = "p_mapped_info (procs s c)" and ?h = "p_user_heap (procs s c)"
  let ?D = "{v. page_aligned v \<and> heap_bottom ?h \<le> v \<and> v < lim}"
  have h: "heap_map pin (kmm s) ps ?root ?mi ?D (heap_pages ?h) fr" using u by (simp add: uheap_def Let_def)
  note cl = uheap_cell [OF u va]
  have "heap_map pin ((kmm s)\<lparr>ram := store64 (ram (kmm s)) (tr fr va) v\<rparr>) ps ?root ?mi ?D (heap_pages ?h) fr"
    by (rule heap_map_write(1) [OF h cl(1)]) (rule cl(7))
  then show "uheap pin ps lim c fr (hput fr va v s)" using u by (simp add: uheap_def Let_def hput_def)
  assume vb: "cell_in (hpages c s) vb"
  have inj: "inj_on fr (heap_pages ?h)" "\<And>v. v \<in> heap_pages ?h \<Longrightarrow> page_aligned (fr v)" using h by (auto simp: heap_map_def owned_def)
  have "tr fr vb \<noteq> tr fr va" if "vb \<noteq> va" using tr_inj [OF vb va inj] that by blast
  then show "hget fr (hput fr va v s) vb = (if vb = va then v else hget fr s vb)"
    using load64_store64_other [OF uheap_cell(4) [OF u vb] cl(4)] by (auto simp: hget_def hput_def)
qed

text \<open>The accesses of the allocator to a block head.\<close>

lemma head_ops:
  assumes u: "uheap pin ps lim c fr s" and va: "head_in (hpages c s) va"
  shows "head_at c va s = Inr (tr fr va)" "get_capacity (tr fr va) s = Inr (hget fr s va)" "get_next (tr fr va) s = Inr (hget fr s (va + 8))"
    "set_capacity (tr fr va) v s = Inr (hput fr va v s)" "set_next (tr fr va) v s = Inr (hput fr (va + 8) v s)"
proof -
  have c: "cell_in (hpages c s) va" "cell_in (hpages c s) (va + 8)" using va head_next(3) [OF va] by (simp_all add: head_in_def)
  note t = head_next(2) [OF va, of fr, symmetric]
  show "head_at c va s = Inr (tr fr va)" "get_capacity (tr fr va) s = Inr (hget fr s va)" "get_next (tr fr va) s = Inr (hget fr s (va + 8))"
    "set_capacity (tr fr va) v s = Inr (hput fr va v s)" "set_next (tr fr va) v s = Inr (hput fr (va + 8) v s)"
    using uheap_cell [OF u c(1)] uheap_cell [OF u c(2)]
    by (simp_all add: get_capacity_def get_next_def set_capacity_def set_next_def on_mm_def put64_def hget_def hput_def t)
qed

section \<open>The list of free blocks\<close>

type_synonym block_desc = "addr \<times> uint64"

fun free_chain :: "addr set \<Rightarrow> (addr \<Rightarrow> uint64) \<Rightarrow> addr \<Rightarrow> block_desc list \<Rightarrow> bool" where
  "free_chain L H cur [] \<longleftrightarrow> cur = 0"
| "free_chain L H cur ((va, cap) # bs) \<longleftrightarrow> cur = va \<and> head_in L va \<and> H va = cap \<and> free_chain L H (H (va + 8)) bs"

definition apart :: "block_desc \<Rightarrow> block_desc \<Rightarrow> bool" where
  "apart x y \<longleftrightarrow> unat (fst x) + unat (snd x) \<le> unat (fst y) \<or> unat (fst y) + unat (snd y) \<le> unat (fst x)"

definition sized :: "addr \<Rightarrow> addr \<Rightarrow> block_desc \<Rightarrow> bool" where
  "sized lo hi x \<longleftrightarrow> lo \<le> fst x \<and> 16 \<le> snd x \<and> unat (fst x) + unat (snd x) \<le> unat hi"

definition head_cells :: "block_desc \<Rightarrow> addr set" where
  "head_cells x = {fst x, fst x + 8}"

lemma apart_sym: "apart x y \<longleftrightarrow> apart y x"
  by (auto simp: apart_def)

lemma unat_add_8: "unat z + 8 < 2 ^ 64 \<Longrightarrow> unat (z + 8) = unat z + 8" for z :: uint64
  by (simp add: unat_word_ariths)

lemma apart_cells:
  assumes "apart x y" "sized lo hi x" "sized lo hi y"
  shows "head_cells x \<inter> head_cells y = {}"
proof -
  obtain a n b k where e: "x = (a, n)" "y = (b, k)" by (cases x; cases y) auto
  have s: "16 \<le> unat n" "16 \<le> unat k" "unat a + unat n \<le> unat hi" "unat b + unat k \<le> unat hi"
    using assms(2,3) by (simp_all add: sized_def e word_le_nat_alt)
  have hl: "unat hi < 2 ^ 64" using unsigned_less [of hi, where ?'a = nat] by simp
  have u: "unat (z + 8) = unat z + 8" if "unat z + unat w \<le> unat hi" "16 \<le> unat w" for z w :: uint64
    using that hl by (intro unat_add_8) linarith
  note ua = u [OF s(3,1)] and ub = u [OF s(4,2)]
  have "unat a + unat n \<le> unat b \<or> unat b + unat k \<le> unat a" using assms(1) by (simp add: apart_def e)
  then have "unat a \<noteq> unat b" "unat a \<noteq> unat (b + 8)" "unat (a + 8) \<noteq> unat b" "unat (a + 8) \<noteq> unat (b + 8)"
    using s(1,2) unfolding ua ub by linarith+
  then show ?thesis unfolding head_cells_def e by auto
qed

lemma chain_upd: "(\<And>x. x \<in> set bs \<Longrightarrow> z \<notin> head_cells x) \<Longrightarrow> free_chain L (H(z := v)) cur bs = free_chain L H cur bs"
proof (induction bs arbitrary: cur)
  case (Cons b bs)
  obtain va cap where b: "b = (va, cap)" by (cases b)
  have "z \<noteq> va" "z \<noteq> va + 8" using Cons.prems [of b] by (auto simp: b head_cells_def)
  then show ?case using Cons by (simp add: b)
qed simp

lemma free_chain_cong:
  "free_chain L H cur bs \<Longrightarrow> (\<And>z. cell_in L z \<Longrightarrow> H' z = H z) \<Longrightarrow> free_chain L H' cur bs"
proof (induction bs arbitrary: cur)
  case (Cons b bs)
  obtain va cap where b: "b = (va, cap)" by (cases b)
  have h: "head_in L va" using Cons.prems(1) by (simp add: b)
  then have "H' va = H va" "H' (va + 8) = H (va + 8)"
    using Cons.prems(2) head_next(3) [OF h] by (simp_all add: head_in_def)
  then show ?case using Cons by (simp add: b)
qed simp

lemma chain_heads: "free_chain L H cur bs \<Longrightarrow> x \<in> set bs \<Longrightarrow> head_in L (fst x) \<and> H (fst x) = snd x"
  by (induction bs arbitrary: cur) auto

lemma chain_append: "free_chain L H cur (P @ (va, cap) # Q) \<Longrightarrow> free_chain L H va ((va, cap) # Q)"
  by (induction P arbitrary: cur) auto

lemma chain_first: "free_chain L H cur ((va, cap) # bs) \<Longrightarrow> cur = va \<and> cur \<noteq> 0"
  by (simp add: head_in_def)

text \<open>Putting another list behind the prefix \<open>P\<close> by changing the link of its last block.\<close>

lemma chain_relink:
  assumes "free_chain L H cur (P @ Q)" "P \<noteq> []" "free_chain L H nx Q'" "sorted_wrt apart (P @ Q')" "\<forall>x \<in> set (P @ Q'). sized lo hi x"
  shows "free_chain L (H(fst (List.last P) + 8 := nx)) cur (P @ Q')"
  using assms
proof (induction P arbitrary: cur)
  case (Cons b P)
  obtain va cap where b: "b = (va, cap)" by (cases b)
  have ne: "head_cells b \<inter> head_cells x = {}" if "x \<in> set (P @ Q')" for x
    using that Cons.prems(4,5) by (intro apart_cells) auto
  show ?case
  proof (cases "P = []")
    case True
    have "va \<noteq> va + 8" by simp
    moreover have "va + 8 \<notin> head_cells x" if "x \<in> set Q'" for x using ne [of x] that by (auto simp: b head_cells_def)
    then have "free_chain L (H(va + 8 := nx)) nx Q'" using Cons.prems(3) by (subst chain_upd) simp_all
    ultimately show ?thesis using Cons.prems(1) by (simp add: b True fun_upd_def)
  next
    case False
    then have "List.last P \<in> set (P @ Q')" by simp
    from ne [OF this] have "fst (List.last P) + 8 \<noteq> va" "fst (List.last P) + 8 \<noteq> va + 8" by (auto simp: b head_cells_def)
    then show ?thesis using Cons False by (simp add: b)
  qed
qed simp

text \<open>
  An abstract heap with the free blocks \<open>F\<close>, in the order of the list, and the blocks \<open>U\<close> in use: no block touches another one, and all of
  them are between \<open>lo\<close> and \<open>hi\<close>.
\<close>

definition blocks :: "addr set \<Rightarrow> addr \<Rightarrow> addr \<Rightarrow> addr \<Rightarrow> (addr \<Rightarrow> uint64) \<Rightarrow> block_desc list \<Rightarrow> block_desc list \<Rightarrow> bool" where
  "blocks L lo hi first H F U \<longleftrightarrow>
     free_chain L H first F \<and> (\<forall>x \<in> set U. head_in L (fst x) \<and> H (fst x) = snd x) \<and>
     sorted_wrt apart (F @ U) \<and> (\<forall>x \<in> set (F @ U). sized lo hi x)"

definition prev :: "block_desc list \<Rightarrow> addr" where
  "prev P = (if P = [] then 0 else fst (List.last P))"

definition relinked :: "block_desc list \<Rightarrow> uint64 \<Rightarrow> (addr \<Rightarrow> uint64) \<Rightarrow> addr \<Rightarrow> uint64" where
  "relinked P nx H = (if P = [] then H else H(fst (List.last P) + 8 := nx))"

lemma blocks_cong: "blocks L lo hi first H F U \<Longrightarrow> (\<And>z. cell_in L z \<Longrightarrow> H' z = H z) \<Longrightarrow> blocks L lo hi first H' F U"
  using free_chain_cong [of L H first F H'] by (auto simp: blocks_def head_in_def)

lemma blocks_cells:
  assumes "blocks L lo hi first H F U" "F @ U = xs @ x # ys" "y \<in> set (xs @ ys)"
  shows "head_cells x \<inter> head_cells y = {}"
proof -
  have "apart x y" "sized lo hi x" "sized lo hi y"
    using assms apart_sym [of y x] by (auto simp: blocks_def sorted_wrt_append)
  then show ?thesis by (rule apart_cells)
qed

lemma blocks_free:
  assumes b: "blocks L lo hi first H F (U1 @ (va, cap) # U2)"
  shows "blocks L lo hi va (H(va + 8 := first)) ((va, cap) # F) (U1 @ U2)"
proof -
  have ne: "va + 8 \<notin> head_cells y" if "y \<in> set F \<union> set U1 \<union> set U2" for y
    using blocks_cells [OF b, of "F @ U1" "(va, cap)" U2 y] that by (auto simp: head_cells_def)
  have "free_chain L (H(va + 8 := first)) first F" using b ne by (subst chain_upd) (auto simp: blocks_def)
  moreover have "fst y \<noteq> va + 8" if "y \<in> set (U1 @ U2)" for y using ne [of y] that by (auto simp: head_cells_def)
  moreover have "va \<noteq> va + 8" by simp
  ultimately show ?thesis using b by (auto simp: blocks_def sorted_wrt_append apart_sym)
qed

lemma relinked_chain:
  assumes b: "blocks L lo hi first H (P @ Q) U" and c: "free_chain L H nx Q'" and s: "sorted_wrt apart (P @ Q')" "\<forall>x \<in> set (P @ Q'). sized lo hi x"
  shows "free_chain L (relinked P nx H) (if P = [] then nx else first) (P @ Q')"
  using chain_relink [of L H first P Q nx Q' lo hi] assms by (auto simp: relinked_def blocks_def)

lemma relinked_used:
  assumes "sized lo hi x" "\<And>p. p \<in> set P \<Longrightarrow> sized lo hi p \<and> apart p x" shows "relinked P nx H (fst x) = H (fst x)"
proof (cases "P = []")
  case False
  then have "head_cells (List.last P) \<inter> head_cells x = {}" using assms last_in_set [OF False] by (intro apart_cells) auto
  then show ?thesis by (auto simp: relinked_def head_cells_def)
qed (simp add: relinked_def)

lemma blocks_take:
  assumes b: "blocks L lo hi first H (P @ (va, cap) # Q) U"
  shows "blocks L lo hi (if P = [] then H (va + 8) else first) (relinked P (H (va + 8)) H) (P @ Q) ((va, cap) # U)"
proof -
  have ch: "free_chain L H va ((va, cap) # Q)" using b chain_append by (auto simp: blocks_def)
  have s: "sorted_wrt apart (P @ Q)" "\<forall>x \<in> set (P @ Q). sized lo hi x" using b by (auto simp: blocks_def sorted_wrt_append)
  have "free_chain L H (H (va + 8)) Q" using ch by simp
  note c = relinked_chain [OF b this s]
  have "relinked P (H (va + 8)) H (fst x) = H (fst x)" if "x \<in> set ((va, cap) # U)" for x
    using that b by (intro relinked_used [where lo = lo and hi = hi]) (auto simp: blocks_def sorted_wrt_append)
  moreover have "sorted_wrt apart ((P @ Q) @ (va, cap) # U)" using b by (auto simp: blocks_def sorted_wrt_append apart_sym)
  ultimately show ?thesis using b c ch by (auto simp: blocks_def)
qed

lemma block_parts:
  assumes "sized lo hi (va, cap)" "16 \<le> unat a" "unat a + 16 \<le> unat cap"
  shows "sized lo hi (va, a)" "sized lo hi (va + a, cap - a)" "apart (va, a) (va + a, cap - a)"
    "apart (va, cap) y \<Longrightarrow> apart (va, a) y \<and> apart (va + a, cap - a) y"
proof -
  have s: "unat lo \<le> unat va" "unat va + unat cap \<le> unat hi" using assms(1) by (simp_all add: sized_def word_le_nat_alt)
  have "unat hi < 2 ^ 64" using unsigned_less [of hi, where ?'a = nat] by simp
  then have "unat va + unat a < 2 ^ LENGTH(64)" using s assms(3) by simp
  then have u: "unat (va + a) = unat va + unat a" by (simp only: unat_add_lem)
  have "a \<le> cap" using assms(3) by (simp add: word_le_nat_alt)
  then have v: "unat (cap - a) = unat cap - unat a" by (rule unat_sub)
  show "sized lo hi (va, a)" "sized lo hi (va + a, cap - a)" "apart (va, a) (va + a, cap - a)"
    using s assms(2,3) by (simp_all add: sized_def apart_def word_le_nat_alt u v)
  show "apart (va, cap) y \<Longrightarrow> apart (va, a) y \<and> apart (va + a, cap - a) y"
    using assms(2,3) by (auto simp: apart_def u v)
qed

lemma blocks_upd:
  "blocks L lo hi first H F U \<Longrightarrow> (\<And>x. x \<in> set (F @ U) \<Longrightarrow> z \<notin> head_cells x) \<Longrightarrow> blocks L lo hi first (H(z := v)) F U"
  using chain_upd [of F z L H v first] by (auto simp: blocks_def head_cells_def)

lemma chain_shrink:
  "free_chain L H cur (P @ (va, cap) # Q) \<Longrightarrow> (\<And>x. x \<in> set (P @ Q) \<Longrightarrow> va \<notin> head_cells x) \<Longrightarrow>
   free_chain L (H(va := a)) cur (P @ (va, a) # Q)"
proof (induction P arbitrary: cur)
  case Nil
  have "va \<noteq> va + 8" by simp
  then show ?case using Nil chain_upd [of Q va L H a] by (simp add: fun_upd_def)
next
  case (Cons b P)
  obtain vb k where b: "b = (vb, k)" by (cases b)
  have "va \<noteq> vb" "va \<noteq> vb + 8" using Cons.prems(2) [of b] by (auto simp: b head_cells_def)
  then show ?case using Cons by (auto simp: b)
qed

lemma blocks_shrink:
  assumes b: "blocks L lo hi first H (P @ (va, cap) # Q) U" and a: "16 \<le> unat a" "unat a + 16 \<le> unat cap"
  shows "blocks L lo hi first (H(va := a)) (P @ (va, a) # Q) U"
proof -
  have z: "sized lo hi (va, cap)" using b by (simp add: blocks_def)
  note parts = block_parts [OF z a]
  have ne: "va \<notin> head_cells x" if "x \<in> set ((P @ Q) @ U)" for x
    using blocks_cells [OF b, of P "(va, cap)" "Q @ U" x] that by (auto simp: head_cells_def)
  have "free_chain L (H(va := a)) first (P @ (va, a) # Q)" using b ne by (intro chain_shrink [where cap = cap]) (auto simp: blocks_def)
  moreover have "fst x \<noteq> va" if "x \<in> set U" for x using ne [of x] that by (auto simp: head_cells_def)
  moreover have "apart x (va, a)" if "apart x (va, cap)" for x using parts(4) [of x] that by (simp add: apart_sym)
  moreover have "apart (va, a) x" if "apart (va, cap) x" for x using parts(4) [of x] that by simp
  ultimately show ?thesis using b parts(1) by (auto simp: blocks_def sorted_wrt_append)
qed

lemma blocks_split:
  assumes b: "blocks L lo hi first H (P @ (va, cap) # Q) U" and a: "16 \<le> unat a" "unat a + 16 \<le> unat cap" and h: "head_in L (va + a)"
  defines "H2 \<equiv> H(va := a, va + a := cap - a, va + a + 8 := H (va + 8))"
  shows "blocks L lo hi (if P = [] then va + a else first) (relinked P (va + a) H2) (P @ (va + a, cap - a) # Q) ((va, a) # U)"
    "va + 8 \<noteq> va + a"
proof -
  have z: "sized lo hi (va, cap)" using b by (simp add: blocks_def)
  note parts = block_parts [OF z a]
  note b1 = blocks_shrink [OF b a]
  let ?rest = "(va + a, cap - a)"
  have ne: "head_cells ?rest \<inter> head_cells x = {}" if "x \<in> set ((P @ (va, a) # Q) @ U)" for x
  proof (rule apart_cells [OF _ parts(2)])
    show "sized lo hi x" using b1 that by (auto simp: blocks_def)
    show "apart ?rest x" using that b parts(3) parts(4) [of x] by (auto simp: blocks_def sorted_wrt_append apart_sym)
  qed
  have n1: "va + a \<notin> head_cells x" "va + a + 8 \<notin> head_cells x" if "x \<in> set ((P @ (va, a) # Q) @ U)" for x
    using ne [OF that] by (simp_all add: head_cells_def [of ?rest])
  have b2: "blocks L lo hi first H2 (P @ (va, a) # Q) U"
    unfolding H2_def using n1 by (intro blocks_upd b1) blast+
  have nv: "va + 8 \<noteq> va + a" "va + 8 \<noteq> va + a + 8" using n1 [of "(va, a)"] by (auto simp: head_cells_def)
  then show "va + 8 \<noteq> va + a" by simp
  have n8: "H2 (va + 8) = H (va + 8)" "H2 (va + a) = cap - a" "H2 (va + a + 8) = H (va + 8)" using nv by (simp_all add: H2_def)
  have "free_chain L H2 va ((va, a) # Q)" using b2 chain_append by (auto simp: blocks_def)
  then have c: "free_chain L H2 (va + a) (?rest # Q)" using h n8 by simp
  have ap: "apart x ?rest" if "apart x (va, cap)" for x using parts(4) [of x] that by (simp add: apart_sym)
  have ap2: "apart ?rest x" if "apart (va, cap) x" for x using parts(4) [of x] that by simp
  have s: "sorted_wrt apart (P @ ?rest # Q)" "\<forall>x \<in> set (P @ ?rest # Q). sized lo hi x"
    using b parts(2) ap ap2 by (auto simp: blocks_def sorted_wrt_append)
  note ch = relinked_chain [OF b2 c s]
  have "relinked P (va + a) H2 (fst x) = H2 (fst x)" if "x \<in> set ((va, a) # U)" for x
    using that b2 by (intro relinked_used [where lo = lo and hi = hi]) (auto simp: blocks_def sorted_wrt_append)
  moreover have "sorted_wrt apart ((P @ ?rest # Q) @ (va, a) # U)"
    using b2 s parts(3) ap ap2 b by (auto simp: blocks_def sorted_wrt_append apart_sym)
  ultimately show "blocks L lo hi (if P = [] then va + a else first) (relinked P (va + a) H2) (P @ ?rest # Q) ((va, a) # U)"
    using b2 s ch \<open>free_chain L H2 va ((va, a) # Q)\<close> by (auto simp: blocks_def)
qed

end
