(* ===== verification/Malloc_Spec.thy ===== *)
theory Malloc_Spec
  imports Malloc_Blocks
begin

text \<open>
  The allocator of \<^verbatim>\<open>kernel/process.c\<close> against an abstract first-fit allocator.
\<close>

section \<open>Running the allocator on an abstract heap\<close>

text \<open>The state \<open>s\<close> has the heap \<open>h\<close>, the first free block \<open>f\<close> and the heap contents \<open>H\<close>.\<close>

definition heap_is :: "addr \<Rightarrow> addr list \<Rightarrow> addr \<Rightarrow> nat \<Rightarrow> (addr \<Rightarrow> addr) \<Rightarrow> process_heap_manager \<Rightarrow> 'a kern_scheme \<Rightarrow> addr \<Rightarrow> (addr \<Rightarrow> uint64) \<Rightarrow> bool" where
  "heap_is pin ps lim c fr h s f H \<longleftrightarrow> uheap pin ps lim c fr s \<and> p_user_heap (procs s c) = h \<and> p_first_free_block (procs s c) = f \<and>
     (\<forall>z. cell_in (heap_pages h) z \<longrightarrow> hget fr s z = H z)"

lemma heap_is_put:
  assumes "heap_is pin ps lim c fr h s f H" "cell_in (heap_pages h) va"
  shows "heap_is pin ps lim c fr h (hput fr va v s) f (H(va := v))"
proof -
  have u: "uheap pin ps lim c fr s" "cell_in (hpages c s) va" using assms by (simp_all add: heap_is_def)
  show ?thesis using assms uheap_put(1) [OF u] uheap_put(2) [OF u] by (simp add: heap_is_def)
qed

lemma heap_is_first: "heap_is pin ps lim c fr h s f H \<Longrightarrow> heap_is pin ps lim c fr h (set_first c v s) v H"
  by (auto simp: heap_is_def uheap_def set_first_def upd_proc_def Let_def hget_def)

lemma heap_is_ops:
  assumes s: "heap_is pin ps lim c fr h s f H" and va: "head_in (heap_pages h) va"
  shows "head_at c va s = Inr (tr fr va)" "get_capacity (tr fr va) s = Inr (H va)" "get_next (tr fr va) s = Inr (H (va + 8))"
    "set_capacity (tr fr va) v s = Inr (hput fr va v s)" "set_next (tr fr va) v s = Inr (hput fr (va + 8) v s)"
    "heap_is pin ps lim c fr h (hput fr va v s) f (H(va := v))" "heap_is pin ps lim c fr h (hput fr (va + 8) v s) f (H(va + 8 := v))"
proof -
  have u: "uheap pin ps lim c fr s" "head_in (hpages c s) va" using assms by (simp_all add: heap_is_def)
  have c: "cell_in (heap_pages h) va" "cell_in (heap_pages h) (va + 8)" using va head_next(3) [OF va] by (simp_all add: head_in_def)
  then have g: "hget fr s va = H va" "hget fr s (va + 8) = H (va + 8)" using s by (simp_all add: heap_is_def)
  show "head_at c va s = Inr (tr fr va)" "get_capacity (tr fr va) s = Inr (H va)" "get_next (tr fr va) s = Inr (H (va + 8))"
    "set_capacity (tr fr va) v s = Inr (hput fr va v s)" "set_next (tr fr va) v s = Inr (hput fr (va + 8) v s)"
    using head_ops [OF u] by (simp_all add: g)
  show "heap_is pin ps lim c fr h (hput fr va v s) f (H(va := v))" "heap_is pin ps lim c fr h (hput fr (va + 8) v s) f (H(va + 8 := v))"
    using heap_is_put [OF s] c by simp_all
qed

text \<open>What no operation on blocks changes.\<close>

definition calm :: "'a kern_scheme \<Rightarrow> 'a kern_scheme \<Rightarrow> bool" where
  "calm s s' \<longleftrightarrow> current s' = current s \<and> table_room (kmm s') = table_room (kmm s)"

lemma calm_simps [simp]: "calm s (set_first c v s') = calm s s'" "calm s (hput fr va v s') = calm s s'" "calm s s"
  "calm (hput fr va v s) s' = calm s s'" "current (set_first c v s') = current s'"
  by (simp_all add: calm_def set_first_def upd_proc_def hput_def table_room_def)

lemma run_relink:
  assumes s: "heap_is pin ps lim c fr h s f H" and P: "\<And>x. x \<in> set P \<Longrightarrow> head_in (heap_pages h) (fst x)"
  shows "\<exists>s'. relink c (prev P) nx s = Inr s' \<and> heap_is pin ps lim c fr h s' (if P = [] then nx else f) (relinked P nx H) \<and> calm s s'"
proof (cases "P = []")
  case True
  then show ?thesis using heap_is_first [OF s] by (simp add: relink_def prev_def relinked_def)
next
  case False
  have hd: "head_in (heap_pages h) (fst (List.last P))" using P False by simp
  then have "fst (List.last P) \<noteq> 0" by (simp add: head_in_def)
  then show ?thesis using heap_is_ops [OF s hd] False by (simp add: relink_def prev_def relinked_def)
qed

lemma run_split:
  assumes s: "heap_is pin ps lim c fr h s f H" and P: "\<And>x. x \<in> set P \<Longrightarrow> head_in (heap_pages h) (fst x)"
    and va: "head_in (heap_pages h) va" "head_in (heap_pages h) (va + align8 n)" "va + 8 \<noteq> va + align8 n"
  shows "\<exists>s'. split_block c (prev P) va (tr fr va) cap n s = Inr s' \<and> calm s s' \<and>
    heap_is pin ps lim c fr h s' (if P = [] then va + align8 n else f)
      (relinked P (va + align8 n) (H(va := align8 n, va + align8 n := cap - align8 n, va + align8 n + 8 := H (va + 8))))"
proof -
  define a where "a = align8 n"
  let ?s1 = "hput fr va a s" and ?s2 = "hput fr (va + a) (cap - a) (hput fr va a s)"
  let ?s3 = "hput fr (va + a + 8) (H (va + 8)) ?s2"
  note o1 = heap_is_ops [OF s va(1)]
  note o2 = heap_is_ops [OF o1(6) va(2) [folded a_def]]
  note o3 = heap_is_ops [OF o2(6) va(1)] heap_is_ops [OF o2(6) va(2) [folded a_def]]
  have n8: "va + 8 \<noteq> va" by simp
  have h3: "heap_is pin ps lim c fr h ?s3 f (H(va := a, va + a := cap - a, va + a + 8 := H (va + 8)))" by (rule o3(14))
  obtain s' where s': "relink c (prev P) (va + a) ?s3 = Inr s'" "calm s s'"
    "heap_is pin ps lim c fr h s' (if P = [] then va + a else f) (relinked P (va + a) (H(va := a, va + a := cap - a, va + a + 8 := H (va + 8))))"
    using run_relink [OF h3 P, where nx = "va + a"] by auto
  then show ?thesis
    using o1 o2 o3 va(3) n8 unfolding split_block_def Let_def a_def [symmetric] by (intro exI [of _ s']) simp
qed

section \<open>The abstract allocator\<close>

record aheap =
  a_bottom :: addr
  a_top :: addr
  a_limit :: addr
  a_free :: "block_desc list"
  a_used :: "block_desc list"
  a_data :: "addr \<rightharpoonup> uint64"

text \<open>The first free block that is large enough: the block that is taken and the free blocks that remain.\<close>

fun first_fit :: "uint64 \<Rightarrow> block_desc list \<Rightarrow> (block_desc \<times> block_desc list) option" where
  "first_fit need [] = None"
| "first_fit need ((va, cap) # F) =
     (if need \<le> cap
      then Some (if cap = need then ((va, cap), F) else ((va, align8 need), (va + align8 need, cap - align8 need) # F))
      else map_option (\<lambda>(b, F). (b, (va, cap) # F)) (first_fit need F))"

text \<open>Every block is inside the heap, and its head is inside one page.\<close>

definition fits :: "aheap \<Rightarrow> bool" where
  "fits A = list_all (\<lambda>b. sized (a_bottom A) (a_top A) b \<and> unat (fst b) mod 4096 \<le> 4080) (a_free A @ a_used A)"

text \<open>The words behind the head of a block.\<close>

definition payload :: "block_desc \<Rightarrow> addr \<Rightarrow> bool" where
  "payload b z \<longleftrightarrow> unat (fst b) + 16 \<le> unat z \<and> unat z + 8 \<le> unat (fst b) + unat (snd b) \<and> 8 dvd unat z"

definition spec_grow :: "aheap \<Rightarrow> aheap option" where
  "spec_grow A =
     (if a_free A \<noteq> [] then Some A
      else if a_top A < a_limit A then Some (A\<lparr>a_free := [(a_top A, PGSIZE)], a_top := a_top A + PGSIZE\<rparr>)
      else None)"

definition spec_malloc :: "uint64 \<Rightarrow> aheap \<Rightarrow> (addr \<times> aheap) option" where
  "spec_malloc n A =
     (case spec_grow A of
        None \<Rightarrow> None
      | Some A \<Rightarrow>
          (case first_fit (n + BLOCK_HEAD) (a_free A) of
             None \<Rightarrow> None
           | Some (b, F) \<Rightarrow>
               (let A' = A\<lparr>a_free := F, a_used := b # a_used A, a_data := (\<lambda>z. if payload b z then None else a_data A z)\<rparr>
                in if fits A' then Some (fst b + BLOCK_HEAD, A') else None)))"

definition spec_free :: "addr \<Rightarrow> aheap \<Rightarrow> aheap option" where
  "spec_free p A =
     (case filter (\<lambda>b. fst b = p - BLOCK_HEAD) (a_used A) of
        [] \<Rightarrow> None
      | b # _ \<Rightarrow> Some (A\<lparr>a_free := b # a_free A, a_used := remove1 b (a_used A)\<rparr>))"

lemma first_fit_cases:
  assumes "first_fit need F = Some (b, F')"
  obtains P va cap Q where "F = P @ (va, cap) # Q" "\<forall>x \<in> set P. snd x < need" "need \<le> cap"
    "cap = need \<and> b = (va, cap) \<and> F' = P @ Q \<or>
     cap \<noteq> need \<and> b = (va, align8 need) \<and> F' = P @ (va + align8 need, cap - align8 need) # Q"
  using assms
proof (induction F arbitrary: F' thesis)
  case (Cons x F)
  obtain va cap where x: "x = (va, cap)" by (cases x)
  show ?case
  proof (cases "need \<le> cap")
    case True
    then show ?thesis using Cons.prems(2) by (intro Cons.prems(1) [of "[]" va cap F]) (auto simp: x split: if_splits)
  next
    case False
    then obtain F1 where F1: "first_fit need F = Some (b, F1)" "F' = (va, cap) # F1" using Cons.prems(2) by (auto simp: x)
    show ?thesis
    proof (rule Cons.IH [OF _ F1(1)])
      fix P vb k Q assume a: "F = P @ (vb, k) # Q" "\<forall>x \<in> set P. snd x < need" "need \<le> k"
        "k = need \<and> b = (vb, k) \<and> F1 = P @ Q \<or> k \<noteq> need \<and> b = (vb, align8 need) \<and> F1 = P @ (vb + align8 need, k - align8 need) # Q"
      show thesis using a False F1(2) by (intro Cons.prems(1) [of "x # P" vb k Q]) (auto simp: x)
    qed
  qed
qed simp

lemma unat_align8: "unat n + 8 \<le> 2 ^ 64 \<Longrightarrow> unat (align8 n) < unat n + 8 \<and> unat n \<le> unat (align8 n) \<and> 8 dvd unat (align8 n)"
proof -
  assume n: "unat n + 8 \<le> 2 ^ 64"
  define r where "r = unat n mod 8"
  have r: "r < 8" "unat (n mod 8) = r" by (simp_all add: r_def unat_mod)
  show ?thesis
  proof (cases "n mod 8 = 0")
    case True
    then have "r = 0" using r(2) by simp
    then show ?thesis using True by (simp add: align8_def r_def mod_eq_0_iff_dvd)
  next
    case False
    then have r0: "r \<noteq> 0" using r(2) by (metis unat_eq_zero)
    have "n mod 8 \<le> 8" using r by (simp add: word_le_nat_alt)
    then have "unat (8 - n mod 8) = 8 - r" using unat_sub [of "n mod 8" 8] r(2) by simp
    moreover have "unat n + (8 - r) < 2 ^ 64" using n r0 r by linarith
    ultimately have u: "unat (align8 n) = unat n + (8 - r)" using False
      by (simp add: align8_def Let_def unat_word_ariths del: of_nat_unat)
    obtain q where "unat n = 8 * q + r" using mult_div_mod_eq [of 8 "unat n"] unfolding r_def by metis
    then have "unat n + (8 - r) = 8 * (q + 1)" using r(1) by simp
    then have "8 dvd unat (align8 n)" unfolding u by (metis dvd_triv_left)
    then show ?thesis using u r0 r by linarith
  qed
qed

section \<open>Simulation\<close>

lemma head_in_heap:
  assumes "page_aligned (heap_bottom h)" "0 < heap_bottom h" "heap_bottom h \<le> z" "z < heap_top h" "8 dvd unat z" "unat z mod 4096 \<le> 4080"
  shows "head_in (heap_pages h) z"
proof -
  obtain i where i: "unat (heap_bottom h) = 4096 * i" using assms(1) unfolding page_aligned_iff dvd_def by auto
  then have "4096 * i \<le> unat z" using assms(3) by (simp add: word_le_nat_alt)
  then have "i \<le> unat z div 4096" by (simp add: less_eq_div_iff_mult_less_eq mult.commute)
  then have "heap_bottom h \<le> ROUNDDOWN z PGSIZE" using i by (simp add: word_le_nat_alt unat_ROUNDDOWN)
  moreover have "ROUNDDOWN z PGSIZE < heap_top h"
  proof -
    have "unat (ROUNDDOWN z PGSIZE) \<le> unat z" unfolding unat_ROUNDDOWN by simp
    then show ?thesis using assms(4) unfolding word_less_nat_alt by linarith
  qed
  ultimately show ?thesis using assms ROUNDDOWN_page [of z] by (auto simp: head_in_def cell_in_def heap_pages_def)
qed

lemma run_skip:
  assumes s: "heap_is pin ps lim c fr h s f H"
  shows "free_chain (heap_pages h) H cur (P1 @ (va, cap) # Q) \<Longrightarrow> \<forall>x \<in> set P1. snd x < n + BLOCK_HEAD \<Longrightarrow>
    fit_loop c n (prev P0) cur s = fit_loop c n (prev (P0 @ P1)) va s"
proof (induction P1 arbitrary: cur P0)
  case (Cons x P1)
  obtain vb k where x: "x = (vb, k)" by (cases x)
  have h: "cur = vb" "head_in (heap_pages h) vb" "H vb = k" "free_chain (heap_pages h) H (H (vb + 8)) (P1 @ (va, cap) # Q)"
    "\<not> n + BLOCK_HEAD \<le> k" "vb \<noteq> 0"
    using Cons.prems by (auto simp: x head_in_def)
  have "fit_loop c n (prev P0) cur s = fit_loop c n vb (H (vb + 8)) s"
    using h heap_is_ops [OF s h(2)] by (subst fit_loop.simps) simp
  also have "\<dots> = fit_loop c n (prev (P0 @ [x])) (H (vb + 8)) s" by (simp add: prev_def x)
  also have "\<dots> = fit_loop c n (prev ((P0 @ [x]) @ P1)) va s" using Cons.prems(2) by (intro Cons.IH h(4)) simp
  finally show ?case by simp
qed simp

lemma relinked_other: "(\<And>x. x \<in> set P \<Longrightarrow> z \<notin> head_cells x) \<Longrightarrow> relinked P nx H z = H z"
  by (cases "P = []") (auto simp: relinked_def head_cells_def)

lemma run_first_fit:
  assumes s: "heap_is pin ps lim c fr h s f H" and b: "blocks (heap_pages h) (heap_bottom h) (heap_top h) f H F U"
    and ff: "first_fit (n + BLOCK_HEAD) F = Some (bl, F')"
    and ok: "\<And>x. x \<in> set (bl # F') \<Longrightarrow> sized (heap_bottom h) (heap_top h) x \<and> unat (fst x) mod 4096 \<le> 4080"
  shows "\<exists>s' f' H'. alloc_from_free_block c n s = Inr (fst bl + BLOCK_HEAD, s') \<and> calm s s' \<and>
    heap_is pin ps lim c fr h s' f' H' \<and> blocks (heap_pages h) (heap_bottom h) (heap_top h) f' H' F' (bl # U) \<and>
    (\<forall>z. (\<forall>x \<in> set (bl # F'). z \<notin> head_cells x) \<longrightarrow> H' z = H z)"
proof -
  define need where "need = n + BLOCK_HEAD"
  obtain P va cap Q where F: "F = P @ (va, cap) # Q" "\<forall>x \<in> set P. snd x < need" "need \<le> cap"
    and r: "cap = need \<and> bl = (va, cap) \<and> F' = P @ Q \<or>
     cap \<noteq> need \<and> bl = (va, align8 need) \<and> F' = P @ (va + align8 need, cap - align8 need) # Q"
    using first_fit_cases [OF ff [folded need_def]] by blast
  have ch: "free_chain (heap_pages h) H f (P @ (va, cap) # Q)" using b F(1) by (simp add: blocks_def)
  have hd: "head_in (heap_pages h) (fst x)" if "x \<in> set P \<or> x = (va, cap)" for x using chain_heads [OF ch, of x] that by auto
  have va: "head_in (heap_pages h) va" "va \<noteq> 0" "H va = cap" using hd [of "(va, cap)"] chain_heads [OF ch, of "(va, cap)"] by (auto simp: head_in_def)
  note o = heap_is_ops [OF s va(1)]
  have f: "p_first_free_block (procs s c) = f" using s by (simp add: heap_is_def)
  have sk: "fit_loop c n 0 f s = fit_loop c n (prev P) va s"
    using run_skip [OF s ch F(2) [unfolded need_def], of "[]"] by (simp add: prev_def)
  show ?thesis
  proof (cases "cap = need")
    case True
    obtain s' where s': "relink c (prev P) (H (va + 8)) s = Inr s'" "calm s s'"
      "heap_is pin ps lim c fr h s' (if P = [] then H (va + 8) else f) (relinked P (H (va + 8)) H)"
      using run_relink [OF s, of P "H (va + 8)"] hd by auto
    have "fit_loop c n (prev P) va s = Some (Inr (va + BLOCK_HEAD, s'))"
      using s'(1) o va F(3) True unfolding need_def by (subst fit_loop.simps) simp
    then have "alloc_from_free_block c n s = Inr (fst bl + BLOCK_HEAD, s')" using r True f sk by (simp add: alloc_from_free_block_def)
    moreover have "relinked P (H (va + 8)) H z = H z" if "\<forall>x \<in> set (bl # F'). z \<notin> head_cells x" for z
      using r True that by (intro relinked_other) auto
    ultimately show ?thesis using s' blocks_take [OF b [unfolded F(1)]] r True by blast
  next
    case False
    define a where "a = align8 need"
    have rr: "bl = (va, a)" "F' = P @ (va + a, cap - a) # Q" using r False by (auto simp: a_def)
    have z: "sized (heap_bottom h) (heap_top h) (va, cap)" using b by (simp add: blocks_def F(1))
    have oa: "16 \<le> a" and ob: "sized (heap_bottom h) (heap_top h) (va + a, cap - a)" "unat (va + a) mod 4096 \<le> 4080"
      using ok [of "(va, a)"] ok [of "(va + a, cap - a)"] rr by (simp_all add: sized_def)
    have ht: "unat (heap_top h) \<le> unat MAXVA" "page_aligned (heap_bottom h)" "0 < heap_bottom h"
      using s unfolding heap_is_def uheap_def Let_def by (auto simp: word_le_nat_alt)
    have "unat cap \<le> unat MAXVA" using z ht(1) by (simp add: sized_def)
    moreover have "unat need \<le> unat cap" using F(3) by (simp add: word_le_nat_alt)
    ultimately have al: "unat a < unat need + 8" "unat need \<le> unat a" "8 dvd unat a" using unat_align8 [of need] by (simp_all add: a_def)
    have le: "a \<le> cap"
    proof (rule ccontr)
      assume "\<not> a \<le> cap"
      then have "unat cap < unat a" by (simp add: word_le_nat_alt)
      have sb: "unat (cap - a) = 2 ^ 64 + unat cap - unat a"
        using unat_sub_if' [of cap a] \<open>unat cap < unat a\<close> by simp
      have "unat (cap - a) \<le> unat (heap_top h)" using ob(1) by (simp add: sized_def)
      moreover have "unat MAXVA = 274877906944" "(2 :: nat) ^ 64 = 18446744073709551616" by simp_all
      ultimately show False using sb al(1) \<open>unat need \<le> unat cap\<close> ht(1) by linarith
    qed
    have "16 \<le> unat (cap - a)" "16 \<le> unat a" using ob(1) oa by (simp_all add: sized_def word_le_nat_alt)
    then have sz: "16 \<le> unat a" "unat a + 16 \<le> unat cap" using le unat_sub [OF le] by (simp_all add: word_le_nat_alt)
    note parts = block_parts [OF z sz]
    have "8 dvd unat va" using va(1) by (simp add: head_in_def cell_in_def)
    moreover have "unat (va + a) = unat va + unat a"
    proof -
      have "unat va + unat a < 2 ^ LENGTH(64)" using z sz ht(1) by (simp add: sized_def)
      then show ?thesis by (simp only: unat_add_lem)
    qed
    ultimately have d8: "8 dvd unat (va + a)" using al(3) by simp
    have "unat (va + a) < unat (heap_top h)" using parts(2) by (simp add: sized_def word_le_nat_alt)
    then have ha: "head_in (heap_pages h) (va + a)"
      using ht(2,3) parts(2) ob(2) d8 by (intro head_in_heap) (simp_all add: sized_def word_less_nat_alt)
    note sp = blocks_split [OF b [unfolded F(1)] sz ha]
    obtain s' where s': "split_block c (prev P) va (tr fr va) cap need s = Inr s'" "calm s s'"
      "heap_is pin ps lim c fr h s' (if P = [] then va + a else f) (relinked P (va + a) (H(va := a, va + a := cap - a, va + a + 8 := H (va + 8))))"
      using run_split [OF s _ va(1), of P need cap] hd ha sp(2) unfolding a_def by auto
    have "fit_loop c n (prev P) va s = Some (Inr (va + BLOCK_HEAD, s'))"
      using s'(1) o va F(3) False unfolding need_def by (subst fit_loop.simps) simp
    then have "alloc_from_free_block c n s = Inr (fst bl + BLOCK_HEAD, s')" using rr f sk by (simp add: alloc_from_free_block_def)
    moreover have "relinked P (va + a) (H(va := a, va + a := cap - a, va + a + 8 := H (va + 8))) z = H z"
      if "\<forall>x \<in> set (bl # F'). z \<notin> head_cells x" for z
    proof -
      have "z \<noteq> va" "z \<noteq> va + a" "z \<noteq> va + a + 8" using that rr by (auto simp: head_cells_def)
      then show ?thesis using that rr by (subst relinked_other) auto
    qed
    ultimately show ?thesis using s' sp(1) rr by blast
  qed
qed

section \<open>A new page of the heap\<close>

lemma filled_outside: "\<not> in_page p a \<Longrightarrow> filled m p v 4096 a = m a"
  by (simp add: filled_page)

lemma run_grow:
  assumes u: "uheap pin ps lim c fr s" and top: "heap_top (p_user_heap (procs s c)) < lim"
    and room: "3 \<le> length ps" "3 \<le> table_room (kmm s)"
  defines "hp \<equiv> p_user_heap (procs s c)"
  shows "\<exists>s' ps' p. grow_heap c s = Inr (heap_top hp, s') \<and> uheap pin ps' lim c (fr(heap_top hp := p)) s' \<and>
    procs s' = (procs s)(c := (procs s c)\<lparr>p_user_heap := hp\<lparr>heap_top := heap_top hp + PGSIZE\<rparr>\<rparr>) \<and> current s' = current s \<and>
    heap_pages (hp\<lparr>heap_top := heap_top hp + PGSIZE\<rparr>) = insert (heap_top hp) (heap_pages hp) \<and>
    (\<forall>z. cell_in (heap_pages hp) z \<longrightarrow> hget (fr(heap_top hp := p)) s' z = hget fr s z) \<and>
    length ps \<le> length ps' + 3 \<and> table_room (kmm s) \<le> table_room (kmm s') + 3"
proof -
  define root mi va where "root = p_pagetable (procs s c)" and "mi = p_mapped_info (procs s c)" and "va = heap_top hp"
  let ?D = "{v. page_aligned v \<and> heap_bottom hp \<le> v \<and> v < lim}" and ?L = "heap_pages hp"
  let ?h = "hp\<lparr>heap_top := va + PGSIZE\<rparr>"
  have hi: "page_aligned va" "page_aligned (heap_bottom hp)" "0 < heap_bottom hp" "heap_bottom hp \<le> va" "va \<le> lim" "page_aligned lim" "lim \<le> MAXVA"
    and hm: "heap_map pin (kmm s) ps root mi ?D ?L fr" and lt: "va < lim"
    using u top by (simp_all add: uheap_def Let_def hp_def root_def mi_def va_def)
  note pt = page_top [OF hi(1,6) lt]
  have bt: "heap_bottom hp \<le> va + PGSIZE" using hi(4) pt(1) by (simp add: word_le_nat_alt)
  obtain p ps1 where ps: "ps = p # ps1" using room(1) by (cases ps) auto
  obtain m1 where m1: "alloc_page (kmm s) = Inr (p, m1)" "heap_map pin m1 ps1 root mi ?D ?L fr" "spare pin m1 root mi ?L fr p"
    "table_room (kmm s) = Suc (table_room m1)" "ram m1 = ram (kmm s)"
    using heap_map_new [OF hm [unfolded ps]] room(2) by auto
  have mi: "page_aligned mi" "ram_ok mi 4096"
    using m1(2) owned_ram_ok [of pin m1 ps1 root mi] by (auto simp: heap_map_def)
  obtain mm where mm: "upd_npages mi HEAP_SEGMENT (\<lambda>n. n + 1) m1 = Inr (m1\<lparr>ram := mm\<rparr>)" "\<And>a. \<not> in_page mi a \<Longrightarrow> mm a = ram m1 a"
    using upd_npages_ok [OF mi, of HEAP_SEGMENT "\<lambda>n. n + 1" m1] by auto
  have om: "owned m1 root mi" using m1(2) by (simp add: heap_map_def)
  note w1 = heap_map_write(1) [OF m1(2) om mm(2)] heap_map_write(2) [OF m1(2) om mm(2) m1(3)]
  let ?m1 = "m1\<lparr>ram := mm\<rparr>"
  have op: "owned ?m1 root p" "page_aligned p" using w1(2) by (auto simp: spare_def owned_def)
  have pr: "ram_ok p 4096" using owned_ram_ok [of pin ?m1 ps1 root p] w1(1) op(1) by (auto simp: heap_map_def)
  let ?m2 = "?m1\<lparr>ram := filled mm p 0 4096\<rparr>"
  have fo: "filled mm p 0 4096 a = ram ?m1 a" if "\<not> in_page p a" for a using filled_outside [OF that] by simp
  note w2 = heap_map_write(1) [OF w1(1) op(1) fo] heap_map_write(2) [OF w1(1) op(1) fo w1(2)]
  have va: "va \<in> ?D - ?L" using hi lt by (auto simp: heap_pages_def va_def)
  have ro: "2 \<le> length ps1" "2 \<le> table_room ?m2" using room ps m1(4) by (auto simp: table_room_def)
  from heap_map_add [OF w2(1,2) va ro] obtain m3 j where m3:
    "user_vm_map root va PGSIZE p (user_perm (PROT_WRITE OR PROT_READ) 1) ?m2 = Inr m3"
    "heap_map pin m3 (drop j ps1) root mi ?D (insert va ?L) (fr(va := p))" "j \<le> 2" "table_room ?m2 = j + table_room m3"
    "\<forall>q a. owned ?m2 root q \<longrightarrow> in_page q a \<longrightarrow> ram m3 a = ram ?m2 a" by blast
  let ?s = "upd_proc c (\<lambda>q. q\<lparr>p_user_heap := ?h\<rparr>) (s\<lparr>kmm := m3\<rparr>)"
  have "grow_heap c s = Inr (va, ?s)"
    using m1(1) mm(1) kmemset_page [OF pr, of 0 ?m1] m3(1)
    by (simp add: grow_heap_def with_mm_def on_mm_def upd_proc_def Let_def va_def flip: hp_def root_def mi_def)
  moreover have hp': "heap_pages ?h = insert va ?L" using pt(4) hi(1,4) by (auto simp: heap_pages_def va_def)
  moreover have "uheap pin (drop j ps1) lim c (fr(va := p)) ?s"
    using hi pt(2,3) bt m3(2) hp' unfolding uheap_def Let_def
    by (simp add: upd_proc_def flip: root_def mi_def)
  moreover have "hget (fr(va := p)) ?s z = hget fr s z" if z: "cell_in ?L z" for z
  proof -
    let ?w = "fr (ROUNDDOWN z PGSIZE)"
    have zL: "ROUNDDOWN z PGSIZE \<in> ?L" "ROUNDDOWN z PGSIZE \<noteq> va" using z va by (auto simp: cell_in_def)
    have o: "owned ?m2 root ?w" "?w \<noteq> p" "?w \<noteq> mi" "page_aligned ?w"
      using w2(1,2) zL(1) by (auto simp: heap_map_def spare_def owned_def)
    have ip: "in_page ?w (tr fr z + i)" if "i < 8" for i
    proof (rule in_page_off [where n = 8 and off = "z mod PGSIZE"])
      have "8 dvd unat (z mod PGSIZE)" unfolding unat_mod_page using z by (simp add: cell_in_def dvd_mod)
      moreover have "unat (z mod PGSIZE) < 4096" unfolding unat_mod_page by simp
      ultimately show "unat (z mod PGSIZE) + 8 \<le> 4096" by (auto elim!: dvdE)
      show "unat (tr fr z + i - (?w + z mod PGSIZE)) < 8" using that by (simp add: tr_def word_less_nat_alt)
    qed
    have "ram m3 (tr fr z + i) = ram (kmm s) (tr fr z + i)" if "i < 8" for i
    proof -
      have "\<not> in_page p (tr fr z + i)" "\<not> in_page mi (tr fr z + i)"
        using in_page_disjoint [of ?w] ip [OF that] o op(2) mi(1) by blast+
      then show ?thesis using m3(5) o(1) ip [OF that] mm(2) m1(5) filled_outside by simp
    qed
    then have "load64 (ram m3) (tr fr z) = load64 (ram (kmm s)) (tr fr z)" by (rule load64_cong)
    moreover have "tr (fr(va := p)) z = tr fr z" using zL(2) by (simp add: tr_def)
    ultimately show ?thesis by (simp add: hget_def upd_proc_def)
  qed
  moreover have "length ps \<le> length (drop j ps1) + 3" "table_room (kmm s) \<le> table_room m3 + 3"
    using ps m3(3,4) m1(4) by (auto simp: table_room_def)
  ultimately show ?thesis
    unfolding va_def [symmetric]
    by (intro exI [of _ ?s] exI [of _ "drop j ps1"] exI [of _ p]) (simp add: upd_proc_def hp_def)
qed

section \<open>The allocator and the abstract heap\<close>

definition data_ok :: "block_desc list \<Rightarrow> (addr \<rightharpoonup> uint64) \<Rightarrow> (addr \<Rightarrow> uint64) \<Rightarrow> bool" where
  "data_ok U D H \<longleftrightarrow> (\<forall>b \<in> set U. \<forall>z v. payload b z \<longrightarrow> D z = Some v \<longrightarrow> H z = v)"

lemma payload_cell:
  assumes "page_aligned (heap_bottom h)" "sized (heap_bottom h) (heap_top h) b" "payload b z"
  shows "cell_in (heap_pages h) z" "unat z + 8 \<le> unat (heap_top h)"
proof -
  have z: "unat (heap_bottom h) \<le> unat z" "unat z < unat (heap_top h)" "8 dvd unat z"
    using assms(2,3) by (auto simp: sized_def payload_def word_le_nat_alt)
  show "unat z + 8 \<le> unat (heap_top h)" using assms(2,3) by (auto simp: sized_def payload_def)
  obtain i where i: "unat (heap_bottom h) = 4096 * i" using assms(1) unfolding page_aligned_iff dvd_def by auto
  then have "i \<le> unat z div 4096" using z(1) by (simp add: less_eq_div_iff_mult_less_eq mult.commute)
  then have "heap_bottom h \<le> ROUNDDOWN z PGSIZE" using i by (simp add: word_le_nat_alt unat_ROUNDDOWN)
  moreover have "unat (ROUNDDOWN z PGSIZE) \<le> unat z" unfolding unat_ROUNDDOWN by simp
  then have "ROUNDDOWN z PGSIZE < heap_top h" using z(2) unfolding word_less_nat_alt by linarith
  ultimately show "cell_in (heap_pages h) z" using z(3) ROUNDDOWN_page [of z] by (simp add: cell_in_def heap_pages_def)
qed

lemma payload_heads:
  assumes b: "blocks L lo hi f H F U" and x: "x \<in> set U" "payload x z" and y: "y \<in> set (F @ U)"
  shows "z \<notin> head_cells y"
proof -
  have sz: "16 \<le> unat (snd y)" "unat (fst y) + unat (snd y) \<le> unat hi" using b y by (auto simp: blocks_def sized_def word_le_nat_alt)
  have "unat hi < 2 ^ 64" using unsigned_less [of hi, where ?'a = nat] by simp
  then have u: "unat (fst y + 8) = unat (fst y) + 8" using sz by (intro unat_add_8) linarith
  have "apart x y \<or> x = y"
  proof -
    obtain xs ys where U: "U = xs @ x # ys" using split_list [OF x(1)] by blast
    then show ?thesis using b y by (auto simp: blocks_def sorted_wrt_append apart_sym)
  qed
  then have "unat z \<noteq> unat (fst y)" "unat z \<noteq> unat (fst y + 8)" using x(2) sz unfolding u payload_def apart_def by auto
  then show ?thesis by (auto simp: head_cells_def)
qed

lemma data_ok_cong:
  "data_ok U D H \<Longrightarrow> (\<And>b z. b \<in> set U \<Longrightarrow> payload b z \<Longrightarrow> H' z = H z) \<Longrightarrow> data_ok U D H'"
  by (auto simp: data_ok_def)

definition malloc_rel :: "addr \<Rightarrow> addr list \<Rightarrow> nat \<Rightarrow> nat \<Rightarrow> (addr \<Rightarrow> addr) \<Rightarrow> 'a kern_scheme \<Rightarrow> aheap \<Rightarrow> bool" where
  "malloc_rel pin ps hid c fr s A \<longleftrightarrow> current s hid = Some c \<and> uheap pin ps (a_limit A) c fr s \<and>
     (let h = p_user_heap (procs s c)
      in heap_bottom h = a_bottom A \<and> heap_top h = a_top A \<and>
         blocks (heap_pages h) (a_bottom A) (a_top A) (p_first_free_block (procs s c)) (hget fr s) (a_free A) (a_used A)) \<and>
     data_ok (a_used A) (a_data A) (hget fr s)"

lemma malloc_rel_of:
  assumes "heap_is pin ps (a_limit A) c fr h s f H" "blocks (heap_pages h) (heap_bottom h) (heap_top h) f H (a_free A) (a_used A)"
    "heap_bottom h = a_bottom A" "heap_top h = a_top A" "current s hid = Some c" "data_ok (a_used A) (a_data A) H"
  shows "malloc_rel pin ps hid c fr s A"
proof -
  have h: "page_aligned (heap_bottom h)" using assms(1) by (auto simp: heap_is_def uheap_def Let_def)
  have "hget fr s z = H z" if "b \<in> set (a_used A)" "payload b z" for b z
    using payload_cell(1) [OF h _ that(2)] that(1) assms(1,2) by (auto simp: blocks_def heap_is_def)
  then have "data_ok (a_used A) (a_data A) (hget fr s)" by (rule data_ok_cong [OF assms(6)])
  then show ?thesis using assms blocks_cong [OF assms(2), of "hget fr s"] by (auto simp: malloc_rel_def heap_is_def Let_def)
qed

lemma malloc_rel_is:
  assumes "malloc_rel pin ps hid c fr s A"
  shows "heap_is pin ps (a_limit A) c fr (p_user_heap (procs s c)) s (p_first_free_block (procs s c)) (hget fr s)"
  using assms by (simp add: malloc_rel_def heap_is_def)

lemma grow_sim:
  assumes r: "malloc_rel pin ps hid c fr s A" and g: "spec_grow A = Some A'" and room: "3 \<le> length ps" "3 \<le> table_room (kmm s)"
  shows "\<exists>s' ps' fr'. try_alloc_free_block hid s = Inr s' \<and> malloc_rel pin ps' hid c fr' s' A' \<and>
    length ps \<le> length ps' + 3 \<and> table_room (kmm s) \<le> table_room (kmm s') + 3"
proof (cases "a_free A = []")
  case False
  then have "A' = A" using g by (simp add: spec_grow_def)
  obtain va k F where F: "a_free A = (va, k) # F" using False by (cases "a_free A") auto
  have "p_first_free_block (procs s c) \<noteq> 0"
    using r F chain_first [of "hpages c s" "hget fr s" "p_first_free_block (procs s c)" va k F] by (simp add: malloc_rel_def Let_def blocks_def)
  then have "try_alloc_free_block hid s = Inr s" using r by (simp add: try_alloc_free_block_def malloc_rel_def)
  then show ?thesis using r \<open>A' = A\<close> by (intro exI [of _ s]) auto
next
  case True
  define h where "h = p_user_heap (procs s c)"
  let ?va = "heap_top h" and ?h = "h\<lparr>heap_top := heap_top h + PGSIZE\<rparr>"
  have u: "uheap pin ps (a_limit A) c fr s" and b: "blocks (heap_pages h) (a_bottom A) ?va 0 (hget fr s) [] (a_used A)"
    and e: "heap_bottom h = a_bottom A" "?va = a_top A" "current s hid = Some c" "p_first_free_block (procs s c) = 0"
    using r True by (auto simp: malloc_rel_def Let_def h_def blocks_def)
  have A': "a_top A < a_limit A" "A' = A\<lparr>a_free := [(a_top A, PGSIZE)], a_top := a_top A + PGSIZE\<rparr>"
    using g True by (auto simp: spec_grow_def split: if_splits)
  have lt: "heap_top (p_user_heap (procs s c)) < a_limit A" using e(2) A'(1) by (simp add: h_def)
  obtain s1 ps1 p where s1: "grow_heap c s = Inr (?va, s1)" "uheap pin ps1 (a_limit A) c (fr(?va := p)) s1"
    "procs s1 = (procs s)(c := (procs s c)\<lparr>p_user_heap := ?h\<rparr>)" "current s1 = current s"
    "heap_pages ?h = insert ?va (heap_pages h)" "\<forall>z. cell_in (heap_pages h) z \<longrightarrow> hget (fr(?va := p)) s1 z = hget fr s z"
    "length ps \<le> length ps1 + 3" "table_room (kmm s) \<le> table_room (kmm s1) + 3"
    using run_grow [OF u lt room] unfolding h_def by blast
  let ?fr = "fr(?va := p)" and ?H = "(hget (fr(?va := p)) s1)(?va := PGSIZE, ?va + 8 := 0)"
  have hi: "heap_is pin ps1 (a_limit A) c ?fr ?h s1 0 (hget ?fr s1)" using s1(2,3) e(4) by (simp add: heap_is_def)
  have hb: "page_aligned ?va" "page_aligned (heap_bottom h)" "0 < heap_bottom h" "heap_bottom h \<le> ?va" "page_aligned (a_limit A)"
    using u by (auto simp: uheap_def Let_def h_def)
  note pt = page_top [OF hb(1,5), unfolded e(2), OF A'(1), folded e(2)]
  have top: "head_in (heap_pages ?h) ?va"
    using hb pt(1) by (intro head_in_heap) (auto simp: word_less_nat_alt word_le_nat_alt page_aligned_iff elim: dvd_trans [rotated])
  note o1 = heap_is_ops [OF hi top]
  note o2 = heap_is_ops [OF o1(6) top]
  let ?s = "set_first c ?va (hput ?fr (?va + 8) 0 (hput ?fr ?va PGSIZE s1))"
  have t: "try_alloc_free_block hid s = Inr ?s"
    using e(3,4) s1(1) o1(1,4) o2(5) by (simp add: try_alloc_free_block_def)
  have his: "heap_is pin ps1 (a_limit A) c ?fr ?h ?s ?va ?H" by (rule heap_is_first [OF o2(7)])
  have sz: "sized (heap_bottom h) (?va + PGSIZE) x" "apart (?va, PGSIZE) x" if "x \<in> set (a_used A)" for x
    using b that pt(1) e(1,2) by (auto simp: blocks_def sized_def apart_def)
  have sz0: "sized (heap_bottom h) (?va + PGSIZE) (?va, PGSIZE)"
    using hb(4) pt(1) by (simp add: sized_def)
  have ne: "fst x \<noteq> ?va" "fst x \<noteq> ?va + 8" if "x \<in> set (a_used A)" for x
    using apart_cells [OF sz(2) [OF that] sz0 sz(1) [OF that]] by (auto simp: head_cells_def)
  have mono: "head_in (heap_pages ?h) z" if "head_in (heap_pages h) z" for z
    using that s1(5) by (simp add: head_in_def cell_in_def)
  have "?H (fst x) = snd x \<and> head_in (heap_pages ?h) (fst x)" if "x \<in> set (a_used A)" for x
  proof -
    have "head_in (heap_pages h) (fst x)" "hget fr s (fst x) = snd x" using b that by (auto simp: blocks_def)
    then show ?thesis using ne [OF that] mono s1(6) by (simp add: head_in_def)
  qed
  then have "blocks (heap_pages ?h) (heap_bottom ?h) (heap_top ?h) ?va ?H (a_free A') (a_used A')"
    using b sz sz0 top e(1,2) unfolding blocks_def A'(2) by (simp add: sorted_wrt_append)
  moreover have "data_ok (a_used A') (a_data A') ?H"
  proof (rule data_ok_cong [where H = "hget fr s"])
    show "data_ok (a_used A') (a_data A') (hget fr s)" using r A'(2) by (simp add: malloc_rel_def)
    fix x z assume x: "x \<in> set (a_used A')" "payload x z"
    have "sized (heap_bottom h) (heap_top h) x" using b x(1) A'(2) e(1) by (simp add: blocks_def)
    note pc = payload_cell [OF hb(2) this x(2)]
    have "unat (?va + 8) = unat ?va + 8"
      using pt(1) unsigned_less [of "?va + PGSIZE", where ?'a = nat] by (intro unat_add_8) simp
    then have "z \<noteq> ?va" "z \<noteq> ?va + 8" using pc(2) by auto
    then show "?H z = hget fr s z" using s1(6) pc(1) by simp
  qed
  ultimately have "malloc_rel pin ps1 hid c ?fr ?s A'"
    using his e A'(2) s1(4) by (intro malloc_rel_of [where h = ?h and f = ?va and H = ?H]) auto
  moreover have "table_room (kmm ?s) = table_room (kmm s1)" by (simp add: set_first_def upd_proc_def hput_def table_room_def)
  ultimately show ?thesis using t s1(7,8) by (intro exI [of _ ?s] exI [of _ ps1] exI [of _ ?fr]) auto
qed

lemma malloc_sim:
  assumes r: "malloc_rel pin ps hid c fr s A" and m: "spec_malloc n A = Some (p, A')" and room: "3 \<le> length ps" "3 \<le> table_room (kmm s)"
  shows "\<exists>s' ps' fr'. vm_malloc hid n s = Inr (p, s') \<and> malloc_rel pin ps' hid c fr' s' A' \<and>
    length ps \<le> length ps' + 3 \<and> table_room (kmm s) \<le> table_room (kmm s') + 3"
proof -
  obtain A1 b F where A1: "spec_grow A = Some A1" "first_fit (n + BLOCK_HEAD) (a_free A1) = Some (b, F)"
    "A' = A1\<lparr>a_free := F, a_used := b # a_used A1, a_data := (\<lambda>z. if payload b z then None else a_data A1 z)\<rparr>" "fits A'" "p = fst b + BLOCK_HEAD"
    using m by (auto simp: spec_malloc_def Let_def split: option.splits if_splits)
  obtain s1 ps1 fr1 where s1: "try_alloc_free_block hid s = Inr s1" "malloc_rel pin ps1 hid c fr1 s1 A1"
    "length ps \<le> length ps1 + 3" "table_room (kmm s) \<le> table_room (kmm s1) + 3"
    using grow_sim [OF r A1(1) room] by blast
  let ?h = "p_user_heap (procs s1 c)"
  have e: "heap_bottom ?h = a_bottom A1" "heap_top ?h = a_top A1" "current s1 hid = Some c"
    and b: "blocks (heap_pages ?h) (heap_bottom ?h) (heap_top ?h) (p_first_free_block (procs s1 c)) (hget fr1 s1) (a_free A1) (a_used A1)"
    using s1(2) by (simp_all add: malloc_rel_def Let_def)
  have ok: "sized (heap_bottom ?h) (heap_top ?h) x \<and> unat (fst x) mod 4096 \<le> 4080" if "x \<in> set (b # F)" for x
    using that A1(3,4) e by (auto simp: fits_def list_all_iff)
  obtain s2 f H where s2: "alloc_from_free_block c n s1 = Inr (p, s2)" "calm s1 s2" "heap_is pin ps1 (a_limit A1) c fr1 ?h s2 f H"
    "blocks (heap_pages ?h) (heap_bottom ?h) (heap_top ?h) f H F (b # a_used A1)"
    "\<forall>z. (\<forall>x \<in> set (b # F). z \<notin> head_cells x) \<longrightarrow> H z = hget fr1 s1 z"
    using run_first_fit [OF malloc_rel_is [OF s1(2)] b A1(2) ok] unfolding A1(5) by blast
  have "data_ok (a_used A') (a_data A') H"
    unfolding data_ok_def
  proof (intro ballI allI impI)
    fix x z v assume x: "x \<in> set (a_used A')" "payload x z" "a_data A' z = Some v"
    then have xu: "x \<in> set (a_used A1)" "a_data A1 z = Some v" using A1(3) by (auto split: if_splits)
    have "z \<notin> head_cells y" if "y \<in> set (b # F)" for y
      using payload_heads [OF s2(4), of x z y] xu(1) x(2) that by auto
    then have "H z = hget fr1 s1 z" using s2(5) by blast
    then show "H z = v" using s1(2) xu x(2) by (auto simp: malloc_rel_def data_ok_def)
  qed
  then have "malloc_rel pin ps1 hid c fr1 s2 A'"
    using s2 e A1(3) by (intro malloc_rel_of [where h = ?h and f = f and H = H]) (auto simp: calm_def)
  then show ?thesis using s1 s2(1,2) e(3) by (intro exI [of _ s2]) (auto simp: vm_malloc_def calm_def)
qed

lemma free_sim:
  assumes r: "malloc_rel pin ps hid c fr s A" and m: "spec_free p A = Some A'"
  shows "\<exists>s'. vm_free hid p s = Inr s' \<and> malloc_rel pin ps hid c fr s' A' \<and> table_room (kmm s') = table_room (kmm s)"
proof -
  obtain b bs where fl: "filter (\<lambda>b. fst b = p - BLOCK_HEAD) (a_used A) = b # bs" "A' = A\<lparr>a_free := b # a_free A, a_used := remove1 b (a_used A)\<rparr>"
    using m by (auto simp: spec_free_def split: list.splits)
  have "b \<in> set (filter (\<lambda>b. fst b = p - BLOCK_HEAD) (a_used A))" by (simp add: fl(1))
  then have bu: "b \<in> set (a_used A)" "fst b = p - BLOCK_HEAD" by auto
  obtain va cap where b: "b = (va, cap)" by (cases b)
  obtain U1 U2 where U: "a_used A = U1 @ b # U2" "b \<notin> set U1" using split_list_first [OF bu(1)] by blast
  then have A': "A' = A\<lparr>a_free := (va, cap) # a_free A, a_used := U1 @ U2\<rparr>" using fl(2) by (simp add: b remove1_append)
  let ?h = "p_user_heap (procs s c)" and ?f = "p_first_free_block (procs s c)"
  have e: "heap_bottom ?h = a_bottom A" "heap_top ?h = a_top A" "current s hid = Some c"
    and bl: "blocks (heap_pages ?h) (heap_bottom ?h) (heap_top ?h) ?f (hget fr s) (a_free A) (U1 @ (va, cap) # U2)"
    using r U(1) b by (simp_all add: malloc_rel_def Let_def)
  have hd: "head_in (heap_pages ?h) va" using bl by (simp add: blocks_def)
  note o = heap_is_ops [OF malloc_rel_is [OF r] hd]
  let ?s = "set_first c va (hput fr (va + 8) ?f s)"
  have "vm_free hid p s = Inr ?s" using o(1,5) e(3) bu(2) b by (simp add: vm_free_def)
  moreover have "data_ok (a_used A') (a_data A') ((hget fr s)(va + 8 := ?f))"
  proof (rule data_ok_cong [where H = "hget fr s"])
    show "data_ok (a_used A') (a_data A') (hget fr s)" using r A' U(1) by (auto simp: malloc_rel_def data_ok_def)
    fix x z assume "x \<in> set (a_used A')" "payload x z"
    then have "z \<notin> head_cells (va, cap)" using A' by (intro payload_heads [OF bl]) auto
    then show "((hget fr s)(va + 8 := ?f)) z = hget fr s z" by (simp add: head_cells_def)
  qed
  then have "malloc_rel pin ps hid c fr ?s A'"
    using heap_is_first [OF o(7)] blocks_free [OF bl] e A'
    by (intro malloc_rel_of [where h = ?h and f = va and H = "(hget fr s)(va + 8 := ?f)"]) (auto simp: set_first_def upd_proc_def hput_def)
  moreover have "calm s ?s" by simp
  ultimately show ?thesis by (intro exI [of _ ?s]) (simp add: calm_def)
qed

section \<open>Sequences of calls\<close>

text \<open>What a process does with its heap: the calls of the allocator, and its own loads and stores through its page table.\<close>

datatype heap_call = Malloc uint64 | Free addr | Load addr | Store addr uint64

definition heap_call :: "nat \<Rightarrow> heap_call \<Rightarrow> 'a kern_scheme \<Rightarrow> (uint64 \<times> 'a kern_scheme) res" where
  "heap_call hid cl s =
     (case cl of
        Malloc n \<Rightarrow> vm_malloc hid n s
      | Free p \<Rightarrow> bnd (vm_free hid p s) (\<lambda>s. Inr (0, s))
      | Load z \<Rightarrow> bnd (deref (current s hid)) (\<lambda>c. bnd (head_at c z s) (\<lambda>p. bnd (ld64 (ram (kmm s)) p) (\<lambda>v. Inr (v, s))))
      | Store z v \<Rightarrow> bnd (deref (current s hid)) (\<lambda>c. bnd (head_at c z s) (\<lambda>p. bnd (on_mm (put64 p v) s) (\<lambda>s. Inr (0, s)))))"

primrec heap_run :: "nat \<Rightarrow> heap_call list \<Rightarrow> 'a kern_scheme \<Rightarrow> (uint64 list \<times> 'a kern_scheme) res" where
  "heap_run hid [] s = Inr ([], s)"
| "heap_run hid (cl # cls) s = bnd (heap_call hid cl s) (\<lambda>(r, s). bnd (heap_run hid cls s) (\<lambda>(rs, s). Inr (r # rs, s)))"

definition spec_call :: "heap_call \<Rightarrow> aheap \<Rightarrow> (uint64 \<times> aheap) option" where
  "spec_call cl A =
     (case cl of
        Malloc n \<Rightarrow> spec_malloc n A
      | Free p \<Rightarrow> map_option (\<lambda>A. (0, A)) (spec_free p A)
      | Load z \<Rightarrow> if list_ex (\<lambda>b. payload b z) (a_used A) then map_option (\<lambda>v. (v, A)) (a_data A z) else None
      | Store z v \<Rightarrow> if list_ex (\<lambda>b. payload b z) (a_used A) then Some (0, A\<lparr>a_data := (a_data A)(z \<mapsto> v)\<rparr>) else None)"

primrec spec_run :: "heap_call list \<Rightarrow> aheap \<Rightarrow> (uint64 list \<times> aheap) option" where
  "spec_run [] A = Some ([], A)"
| "spec_run (cl # cls) A =
     (case spec_call cl A of
        None \<Rightarrow> None
      | Some (r, A) \<Rightarrow> map_option (\<lambda>(rs, A). (r # rs, A)) (spec_run cls A))"

lemma access_sim:
  assumes r: "malloc_rel pin ps hid c fr s A" and b: "b \<in> set (a_used A)" "payload b z"
  shows "current s hid = Some c" "head_at c z s = Inr (tr fr z)" "ld64 (ram (kmm s)) (tr fr z) = Inr (hget fr s z)"
    "on_mm (put64 (tr fr z) v) s = Inr (hput fr z v s)"
    "malloc_rel pin ps hid c fr (hput fr z v s) (A\<lparr>a_data := (a_data A)(z \<mapsto> v)\<rparr>)"
proof -
  let ?h = "p_user_heap (procs s c)" and ?f = "p_first_free_block (procs s c)"
  have u: "uheap pin ps (a_limit A) c fr s" and e: "heap_bottom ?h = a_bottom A" "heap_top ?h = a_top A" "current s hid = Some c"
    and bl: "blocks (heap_pages ?h) (heap_bottom ?h) (heap_top ?h) ?f (hget fr s) (a_free A) (a_used A)"
    and d: "data_ok (a_used A) (a_data A) (hget fr s)"
    using r by (simp_all add: malloc_rel_def Let_def)
  show "current s hid = Some c" by (rule e(3))
  have "page_aligned (heap_bottom ?h)" "sized (heap_bottom ?h) (heap_top ?h) b" using u bl b(1) by (auto simp: uheap_def Let_def blocks_def)
  note c = payload_cell(1) [OF this b(2)]
  note cl = uheap_cell [OF u c]
  show "head_at c z s = Inr (tr fr z)" "ld64 (ram (kmm s)) (tr fr z) = Inr (hget fr s z)" "on_mm (put64 (tr fr z) v) s = Inr (hput fr z v s)"
    using cl by (simp_all add: hget_def hput_def on_mm_def put64_def)
  have "blocks (heap_pages ?h) (heap_bottom ?h) (heap_top ?h) ?f ((hget fr s)(z := v)) (a_free A) (a_used A)"
    by (rule blocks_upd [OF bl payload_heads [OF bl b]])
  moreover have "data_ok (a_used A) ((a_data A)(z \<mapsto> v)) ((hget fr s)(z := v))" using d by (simp add: data_ok_def)
  ultimately show "malloc_rel pin ps hid c fr (hput fr z v s) (A\<lparr>a_data := (a_data A)(z \<mapsto> v)\<rparr>)"
    using heap_is_put [OF malloc_rel_is [OF r] c] e by (intro malloc_rel_of [where h = ?h and f = ?f and H = "(hget fr s)(z := v)"]) auto
qed

lemma call_sim:
  assumes r: "malloc_rel pin ps hid c fr s A" and m: "spec_call cl A = Some (x, A')" and room: "3 \<le> length ps" "3 \<le> table_room (kmm s)"
  shows "\<exists>s' ps' fr'. heap_call hid cl s = Inr (x, s') \<and> malloc_rel pin ps' hid c fr' s' A' \<and>
    length ps \<le> length ps' + 3 \<and> table_room (kmm s) \<le> table_room (kmm s') + 3"
proof (cases cl)
  case (Malloc n)
  then show ?thesis using malloc_sim [OF r _ room, of n x A'] m by (simp add: heap_call_def spec_call_def)
next
  case (Free p)
  then obtain A1 where "spec_free p A = Some A1" "x = 0" "A' = A1" using m by (auto simp: spec_call_def)
  then obtain s' where "vm_free hid p s = Inr s'" "malloc_rel pin ps hid c fr s' A'" "table_room (kmm s') = table_room (kmm s)" "x = 0"
    using free_sim [OF r] by blast
  then show ?thesis using Free by (intro exI [of _ s'] exI [of _ ps] exI [of _ fr]) (simp add: heap_call_def)
next
  case (Load z)
  have le: "list_ex (\<lambda>b. payload b z) (a_used A)" using m Load by (simp add: spec_call_def split: if_splits)
  then obtain b where "b \<in> set (a_used A)" "payload b z" unfolding list_ex_iff by blast
  moreover have "a_data A z = Some x" "A' = A" using m Load le by (auto simp: spec_call_def)
  ultimately have b: "b \<in> set (a_used A)" "payload b z" "a_data A z = Some x" "A' = A" by blast+
  have "hget fr s z = x" using r b by (auto simp: malloc_rel_def data_ok_def)
  then show ?thesis using access_sim(1-3) [OF r b(1,2)] r b(4) Load
    by (intro exI [of _ s] exI [of _ ps] exI [of _ fr]) (simp add: heap_call_def)
next
  case (Store z v)
  have le: "list_ex (\<lambda>b. payload b z) (a_used A)" using m Store by (simp add: spec_call_def split: if_splits)
  then obtain b where "b \<in> set (a_used A)" "payload b z" unfolding list_ex_iff by blast
  moreover have "A' = A\<lparr>a_data := (a_data A)(z \<mapsto> v)\<rparr>" "x = 0" using m Store le by (simp_all add: spec_call_def)
  ultimately have b: "b \<in> set (a_used A)" "payload b z" "A' = A\<lparr>a_data := (a_data A)(z \<mapsto> v)\<rparr>" "x = 0" by blast+
  have "calm s (hput fr z v s)" by simp
  then show ?thesis using access_sim(1,2) [OF r b(1,2)] access_sim(4) [OF r b(1,2), of v] access_sim(5) [OF r b(1,2), of v] b(3,4) Store
    by (intro exI [of _ "hput fr z v s"] exI [of _ ps] exI [of _ fr]) (simp add: heap_call_def calm_def)
qed

section \<open>Properties\<close>

text \<open>
  C4. \<^verbatim>\<open>vm_malloc\<close> and \<^verbatim>\<open>vm_free\<close> implement a first-fit allocator. For every sequence of \<^verbatim>\<open>malloc\<close>, \<^verbatim>\<open>free\<close>, loads and stores of a
  process that the abstract heap can serve (every head of a block is inside a page, a free block is large enough or the list is
  empty, the process accesses only what it was given) the kernel returns the same addresses and the loads the same values, and afterwards the blocks in memory are again
  those of the abstract heap: no two blocks overlap, and no call changes the contents of a block in use.
\<close>

theorem malloc_refines:
  assumes "malloc_rel pin ps hid c fr s A" "spec_run cls A = Some (rs, A')" "3 * length cls \<le> length ps" "3 * length cls \<le> table_room (kmm s)"
  shows "\<exists>s' ps' fr'. heap_run hid cls s = Inr (rs, s') \<and> malloc_rel pin ps' hid c fr' s' A'"
  using assms
proof (induction cls arbitrary: ps fr s A rs)
  case Nil
  then show ?case by auto
next
  case (Cons cl cls)
  obtain x A1 rs1 where A1: "spec_call cl A = Some (x, A1)" "spec_run cls A1 = Some (rs1, A')" "rs = x # rs1"
    using Cons.prems(2) by (auto split: option.splits)
  have "3 \<le> length ps" "3 \<le> table_room (kmm s)" using Cons.prems(3,4) by auto
  from call_sim [OF Cons.prems(1) A1(1) this]
  obtain s1 ps1 fr1 where s1: "heap_call hid cl s = Inr (x, s1)" "malloc_rel pin ps1 hid c fr1 s1 A1"
    "length ps \<le> length ps1 + 3" "table_room (kmm s) \<le> table_room (kmm s1) + 3" by blast
  have "3 * length cls \<le> length ps1" "3 * length cls \<le> table_room (kmm s1)" using Cons.prems(3,4) s1(3,4) by auto
  from Cons.IH [OF s1(2) A1(2) this] show ?case using s1(1) A1(3) by fastforce
qed

definition ex_aheap :: aheap where
  "ex_aheap = \<lparr>a_bottom = 0x400000, a_top = 0x400000, a_limit = 0x500000, a_free = [], a_used = [], a_data = \<lambda>_. None\<rparr>"

lemma ex_malloc:
  "\<exists>(s :: kern) pin ps fr. malloc_rel pin ps 0 0 fr s ex_aheap \<and> 200 < length ps \<and> 200 < table_room (kmm s)"
proof -
  obtain m pin ps root mi where m: "booted pin m ps" "250 < length ps" "250 < table_room m" "pt_wf m root"
    "\<forall>va. pte_of (ram m) root va = 0" "owned m root mi"
    using ex_space by blast
  let ?s = "ex_kern\<lparr>kmm := m, procs := \<lambda>_. ex_process\<lparr>p_pagetable := root, p_mapped_info := mi\<rparr>\<rparr>"
  have "v < MAXVA" if "v < 0x500000" for v :: addr using that by (simp add: word_less_nat_alt)
  then have "heap_map pin m ps root mi {v. page_aligned v \<and> 0x400000 \<le> v \<and> v < 0x500000} {} fr" for fr
    using m by (auto simp: heap_map_def)
  moreover have "heap_pages (p_user_heap ex_process) = {}" by (auto simp: heap_pages_def ex_process_def)
  ultimately have "malloc_rel pin ps 0 0 (\<lambda>_. 0) ?s ex_aheap"
    by (simp add: malloc_rel_def uheap_def ex_aheap_def blocks_def data_ok_def Let_def) (simp add: ex_kern_def ex_process_def page_aligned_def)
  then show ?thesis using m(2,3) by (intro exI [of _ ?s] exI [of _ pin] exI [of _ ps]) (auto simp: ex_kern_def)
qed

lemma ex_calls:
  "\<exists>A'. spec_run [Malloc 100, Malloc 24, Store 0x400090 7, Free 0x400010, Malloc 40, Load 0x400090] ex_aheap =
     Some ([0x400010, 0x400088, 0, 0, 0x400010, 7], A') \<and> a_used A' = [(0x400000, 56), (0x400078, 40)] \<and>
     a_free A' = [(0x400038, 64), (0x4000A0, 3936)]"
  by (simp add: ex_aheap_def spec_call_def spec_malloc_def spec_grow_def spec_free_def align8_def fits_def sized_def payload_def Let_def)

theorem malloc_refines_witness:
  "\<exists>(s :: kern) s'. heap_run 0 [Malloc 100, Malloc 24, Store 0x400090 7, Free 0x400010, Malloc 40, Load 0x400090] s =
     Inr ([0x400010, 0x400088, 0, 0, 0x400010, 7], s')"
proof -
  obtain s :: kern and pin ps fr where s: "malloc_rel pin ps 0 0 fr s ex_aheap" "200 < length ps" "200 < table_room (kmm s)"
    using ex_malloc by blast
  then show ?thesis using ex_calls malloc_refines [OF s(1)] by fastforce
qed

end
