(* ===== verification/Malloc_Large.thy ===== *)
theory Malloc_Large
  imports Malloc_Spec
begin

text \<open>
  Requests for more than two pages: \<^verbatim>\<open>alloc_from_new_block\<close> adds too few pages to the heap.
\<close>

lemma unat_add_small: "unat a + unat b < 2 ^ 64 \<Longrightarrow> unat (a + b) = unat a + unat b" for a b :: uint64
  using unat_add_lem [of a b] by simp

lemma scan_one:
  assumes s: "heap_is pin ps lim c fr h s f H" and va: "head_in (heap_pages h) va" "H (va + 8) = 0"
  shows "scan_max c s va 0 0 0 = Some (Inr (va, 0))"
proof -
  have v0: "va \<noteq> 0" using va(1) by (simp add: head_in_def)
  then have "0 < va" by (simp add: word_less_nat_alt unat_gt_0)
  then show ?thesis using heap_is_ops [OF s va(1)] v0 va(2) by (simp add: scan_max.simps)
qed

lemma grow_once:
  assumes u: "uheap pin ps lim c fr s" and top: "heap_top (p_user_heap (procs s c)) < lim"
    and room: "3 \<le> length ps" "3 \<le> table_room (kmm s)" and n: "PGSIZE < need" "need \<le> 2 * PGSIZE"
  defines "hp \<equiv> p_user_heap (procs s c)"
  shows "\<exists>s' ps' fr'. grow_loop c need s = Some (Inr (heap_top hp, need - PGSIZE, s')) \<and> uheap pin ps' lim c fr' s' \<and>
    procs s' = (procs s)(c := (procs s c)\<lparr>p_user_heap := hp\<lparr>heap_top := heap_top hp + PGSIZE\<rparr>\<rparr>) \<and> current s' = current s"
proof -
  obtain s' ps' p where s': "grow_heap c s = Inr (heap_top hp, s')" "uheap pin ps' lim c (fr(heap_top hp := p)) s'"
    "procs s' = (procs s)(c := (procs s c)\<lparr>p_user_heap := hp\<lparr>heap_top := heap_top hp + PGSIZE\<rparr>\<rparr>)" "current s' = current s"
    using run_grow [OF u top room] unfolding hp_def by blast
  have "unat (need - PGSIZE) = unat need - 4096" using unat_sub [of PGSIZE need] n(1) by simp
  then have "\<not> PGSIZE < need - PGSIZE" using n(2) by (simp add: word_less_nat_alt word_le_nat_alt)
  then show ?thesis using s' n(1) by (subst grow_loop.simps) auto
qed

lemma large_new_block:
  assumes s: "heap_is pin ps lim c fr h s va H" and va: "head_in (heap_pages h) va" "H va = PGSIZE" "H (va + 8) = 0"
    and top: "heap_top h < lim" and room: "3 \<le> length ps" "3 \<le> table_room (kmm s)"
    and n: "2 * PGSIZE < n + BLOCK_HEAD" "n + BLOCK_HEAD \<le> 12272"
  shows "\<exists>s'. alloc_from_new_block c n s = Inr (va + BLOCK_HEAD, s') \<and> heap_top (p_user_heap (procs s' c)) = heap_top h + PGSIZE \<and>
    p_first_free_block (procs s' c) = heap_top h + align8 (n + BLOCK_HEAD - 2 * PGSIZE)"
proof -
  define need where "need = n + BLOCK_HEAD"
  have h: "p_user_heap (procs s c) = h" "p_first_free_block (procs s c) = va" using s by (simp_all add: heap_is_def)
  note o1 = heap_is_ops [OF s va(1)]
  note o2 = heap_is_ops [OF o1(7) va(1)]
  let ?s2 = "hput fr va need (hput fr (va + 8) 0 s)"
  have s2: "uheap pin ps lim c fr ?s2" "procs ?s2 = procs s" "table_room (kmm ?s2) = table_room (kmm s)"
    using o2(6) by (simp_all add: heap_is_def hput_def table_room_def)
  have t: "heap_top (p_user_heap (procs ?s2 c)) < lim" "3 \<le> table_room (kmm ?s2)" using top h(1) s2(2,3) room(2) by simp_all
  have un: "8192 < unat need" "unat need \<le> 12272" using n by (simp_all add: need_def word_less_nat_alt word_le_nat_alt)
  have m: "unat (need - PGSIZE) = unat need - 4096" using unat_sub [of PGSIZE need] un by (simp add: word_le_nat_alt)
  have m2: "need - PGSIZE - PGSIZE = need - 2 * PGSIZE" by simp
  have u2: "unat (need - 2 * PGSIZE) = unat need - 8192" using unat_sub [of "2 * PGSIZE" need] un by (simp add: word_le_nat_alt)
  have "PGSIZE < need - PGSIZE" "need - PGSIZE \<le> 2 * PGSIZE" using m un by (simp_all add: word_less_nat_alt word_le_nat_alt)
  from grow_once [OF s2(1) t(1) room(1) t(2) this] obtain s3 ps3 fr3 where
    s3: "grow_loop c (need - PGSIZE) ?s2 = Some (Inr (heap_top h, need - 2 * PGSIZE, s3))" "uheap pin ps3 lim c fr3 s3"
    "p_user_heap (procs s3 c) = h\<lparr>heap_top := heap_top h + PGSIZE\<rparr>"
    unfolding m2 s2(2) h(1) by fastforce
  define k a where "k = need - 2 * PGSIZE" and "a = align8 k"
  have "unat k + 8 \<le> 2 ^ 64" using u2 un by (simp add: k_def)
  note al = unat_align8 [OF this]
  have k0: "k \<noteq> 0" using u2 un(1) by (auto simp: k_def)
  have a8: "8 dvd unat a" "unat a < 4088" using al u2 un by (auto simp: a_def k_def)
  have hb: "page_aligned (heap_top h)" "page_aligned (heap_bottom h)" "0 < heap_bottom h" "heap_bottom h \<le> heap_top h" "page_aligned lim"
    using s by (auto simp: heap_is_def uheap_def Let_def)
  note pt = page_top [OF hb(1,5) top]
  let ?z = "heap_top h + a" and ?h = "h\<lparr>heap_top := heap_top h + PGSIZE\<rparr>"
  have "unat (heap_top h) + 4096 < 2 ^ 64" using pt(1) unsigned_less [of "heap_top h + PGSIZE", where ?'a = nat] by simp
  then have uz: "unat ?z = unat (heap_top h) + unat a" using a8(2) by (intro unat_add_small) linarith
  obtain i where i: "unat (heap_top h) = 4096 * i" using hb(1) unfolding page_aligned_iff dvd_def by auto
  have "unat ?z mod 4096 = unat a" unfolding uz i using a8(2) by simp
  moreover have "unat a \<le> 4080" using a8 by (auto elim!: dvdE)
  moreover have "8 dvd unat ?z" unfolding uz i using a8(1) by (intro dvd_add) (auto intro: dvd_mult2)
  moreover have "heap_bottom h \<le> ?z" using hb(4) uz by (simp add: word_le_nat_alt)
  moreover have "?z < heap_top h + PGSIZE" unfolding word_less_nat_alt uz pt(1) using a8(2) by simp
  ultimately have hz: "head_in (heap_pages ?h) ?z" using hb by (intro head_in_heap) simp_all
  have hi3: "heap_is pin ps3 lim c fr3 ?h s3 (p_first_free_block (procs s3 c)) (hget fr3 s3)" using s3(2,3) by (simp add: heap_is_def)
  note o3 = heap_is_ops [OF hi3 hz]
  note o4 = heap_is_ops [OF o3(6) hz]
  let ?s = "set_first c ?z (hput fr3 (?z + 8) 0 (hput fr3 ?z (PGSIZE - a) s3))"
  have "link_rest c (heap_top h) k 0 0 s3 = Inr ?s"
    using o3(1,4) o4(5) by (simp add: link_rest_def Let_def flip: a_def)
  moreover have "head_at c va (hput fr (va + 8) 0 s) = Inr (tr fr va)" by (rule heap_is_ops(1) [OF o1(7) va(1)])
  ultimately have "alloc_from_new_block c n s = Inr (va + BLOCK_HEAD, ?s)"
    using o1 o2 va(2,3) scan_one [OF s va(1,3)] s3(1) k0 unfolding alloc_from_new_block_def Let_def h(2) need_def [symmetric] k_def [symmetric]
    by simp
  then show ?thesis using s3(3) by (intro exI [of _ ?s]) (simp add: set_first_def upd_proc_def a_def k_def need_def)
qed

section \<open>Properties\<close>



end
