(* ===== verification/Snprintf.thy ===== *)
theory Snprintf
  imports Cstring
begin

text \<open>
  Formatted output, \<^verbatim>\<open>util/snprintf.c\<close>. The arguments behind the format are a list of 64-bit slots, as the calling
  convention passes them; taking one more than there are is undefined.
\<close>

section \<open>Operations\<close>

record printer =
  fm_mem :: mem
  fm_pos :: uint64
  fm_format :: bool
  fm_longarg :: bool
  fm_args :: "uint64 list"

text \<open>\<^verbatim>\<open>if (++pos < n) out[pos - 1] = c;\<close>\<close>

definition out_char :: "addr \<Rightarrow> uint64 \<Rightarrow> uint8 \<Rightarrow> printer \<Rightarrow> printer" where
  "out_char out n c st =
     (let pos = fm_pos st + 1
      in st\<lparr>fm_pos := pos, fm_mem := (if pos < n then (fm_mem st)(out + (pos - 1) := c) else fm_mem st)\<rparr>)"

definition next_arg :: "printer \<Rightarrow> (uint64 \<times> printer) res" where
  "next_arg st = (case fm_args st of [] \<Rightarrow> Inl (Undefined ''va_arg'') | a # as \<Rightarrow> Inr (a, st\<lparr>fm_args := as\<rparr>))"

definition next_num :: "printer \<Rightarrow> (uint64 \<times> printer) res" where
  "next_num st = bnd (next_arg st) (\<lambda>(a, st). Inr (if fm_longarg st then a else scast (ucast a :: uint32), st))"

definition end_directive :: "printer \<Rightarrow> printer" where
  "end_directive st = st\<lparr>fm_longarg := False, fm_format := False\<rparr>"

primrec hex_loop :: "addr \<Rightarrow> uint64 \<Rightarrow> uint64 \<Rightarrow> nat \<Rightarrow> printer \<Rightarrow> printer" where
  "hex_loop out n num 0 st = st"
| "hex_loop out n num (Suc i) st =
     (let d = signed_drop_bit (4 * i) num AND 0xF
      in hex_loop out n num i (out_char out n (if d < 10 then 48 + ucast d else 97 + ucast d - 10) st))"

function count_digits :: "nat \<Rightarrow> nat \<Rightarrow> nat" where
  "count_digits nn digits = (let nn = nn div 10 in if nn \<noteq> 0 then count_digits nn (digits + 1) else digits)"
  by pat_completeness auto
termination by (relation "measure fst") (auto simp: div_greater_zero_iff)

primrec dec_loop :: "addr \<Rightarrow> uint64 \<Rightarrow> uint64 \<Rightarrow> nat \<Rightarrow> nat \<Rightarrow> mem \<Rightarrow> mem" where
  "dec_loop out n pos 0 num m = m"
| "dec_loop out n pos (Suc i) num m =
     dec_loop out n pos i (num div 10)
       (if pos + of_nat i + 1 < n then m(out + (pos + of_nat i) := 48 + of_nat (num mod 10)) else m)"

partial_function (option) str_loop :: "addr \<Rightarrow> uint64 \<Rightarrow> addr \<Rightarrow> printer \<Rightarrow> printer option" where
  "str_loop out n s2 st =
     (if fm_mem st s2 \<noteq> 0 then str_loop out n (s2 + 1) (out_char out n (fm_mem st s2) st) else Some st)"

text \<open>
  The cases of the \<^verbatim>\<open>switch\<close>; \<^verbatim>\<open>'p'\<close> falls through to \<^verbatim>\<open>'x'\<close>, and \<^verbatim>\<open>'c'\<close> takes its argument only
  when there is room for it.
\<close>

definition print_hex :: "addr \<Rightarrow> uint64 \<Rightarrow> printer \<Rightarrow> printer res" where
  "print_hex out n st =
     bnd (next_num st) (\<lambda>(num, st).
     Inr (end_directive (hex_loop out n num (2 * (if fm_longarg st then 8 else 4)) st)))"

definition print_dec :: "addr \<Rightarrow> uint64 \<Rightarrow> printer \<Rightarrow> printer res" where
  "print_dec out n st =
     bnd (next_num st) (\<lambda>(num, st).
     if num = 0x8000000000000000 then Inl (Undefined ''signed overflow'')
     else (let (num, st) = (if sint num < 0 then (- num, out_char out n 45 st) else (num, st));
               digits = count_digits (unat num) 1
           in Inr (end_directive (st\<lparr>fm_mem := dec_loop out n (fm_pos st) digits (unat num) (fm_mem st),
                     fm_pos := fm_pos st + of_nat digits\<rparr>))))"

definition directive :: "addr \<Rightarrow> uint64 \<Rightarrow> uint8 \<Rightarrow> printer \<Rightarrow> printer res" where
  "directive out n c st =
     (if c = 108 then Inr (st\<lparr>fm_longarg := True\<rparr>)
      else if c = 112 then print_hex out n (out_char out n 120 (out_char out n 48 (st\<lparr>fm_longarg := True\<rparr>)))
      else if c = 120 then print_hex out n st
      else if c = 100 then print_dec out n st
      else if c = 115 then bnd (next_arg st) (\<lambda>(s2, st). bnd (of_loop (str_loop out n s2 st)) (\<lambda>st. Inr (end_directive st)))
      else if c = 99
      then (if fm_pos st + 1 < n then bnd (next_arg st) (\<lambda>(a, st). Inr (end_directive (out_char out n (ucast a) st)))
            else Inr (end_directive (st\<lparr>fm_pos := fm_pos st + 1\<rparr>)))
      else Inr st)"

partial_function (option) format_loop :: "addr \<Rightarrow> uint64 \<Rightarrow> addr \<Rightarrow> printer \<Rightarrow> printer res option" where
  "format_loop out n s st =
     (let c = fm_mem st s
      in if c = 0 then Some (Inr st)
         else (case (if fm_format st then directive out n c st
                     else if c = 37 then Inr (st\<lparr>fm_format := True\<rparr>) else Inr (out_char out n c st)) of
                 Inl e \<Rightarrow> Some (Inl e)
               | Inr st \<Rightarrow> format_loop out n (s + 1) st))"

definition vsnprintf :: "addr \<Rightarrow> uint64 \<Rightarrow> addr \<Rightarrow> uint64 list \<Rightarrow> mem \<Rightarrow> (uint32 \<times> mem) res" where
  "vsnprintf out n s vl m =
     bnd (of_loop (format_loop out n s \<lparr>fm_mem = m, fm_pos = 0, fm_format = False, fm_longarg = False, fm_args = vl\<rparr>)) (\<lambda>r.
     bnd r (\<lambda>st.
     let pos = fm_pos st; m = fm_mem st;
         m = (if pos < n then m(out + pos := 0) else if n \<noteq> 0 then m(out + (n - 1) := 0) else m)
     in Inr (ucast pos, m)))"

section \<open>Reference output\<close>

definition hex_char :: "nat \<Rightarrow> uint8" where
  "hex_char d = (if d < 10 then 48 + of_nat d else 87 + of_nat d)"

definition hex_digits :: "nat \<Rightarrow> nat \<Rightarrow> uint8 list" where
  "hex_digits k v = map (\<lambda>i. hex_char (v div 16 ^ i mod 16)) (rev [0..<k])"

fun dec_digits :: "nat \<Rightarrow> uint8 list" where
  "dec_digits v = (if v < 10 then [48 + of_nat v] else dec_digits (v div 10) @ [48 + of_nat (v mod 10)])"

declare dec_digits.simps [simp del] count_digits.simps [simp del]

definition dec_number :: "int \<Rightarrow> uint8 list" where
  "dec_number v = (if v < 0 then 45 # dec_digits (nat (- v)) else dec_digits (nat v))"

text \<open>
  The text of a format with its arguments; \<open>str\<close> gives the strings of the arguments that are addresses. A directive goes on until one of its
  letters is found, so that a width is skipped and \<^verbatim>\<open>%%\<close> prints nothing.
\<close>

definition arg_text :: "(addr \<rightharpoonup> uint8 list) \<Rightarrow> bool \<Rightarrow> uint8 \<Rightarrow> uint64 \<Rightarrow> uint8 list option" where
  "arg_text str long c a =
     (let v = (if long then a else scast (ucast a :: uint32))
      in if c = 112 then Some (48 # 120 # hex_digits 16 (unat a))
         else if c = 120 then Some (hex_digits (if long then 16 else 8) (unat v))
         else if c = 100 then (if v = 0x8000000000000000 then None else Some (dec_number (sint v)))
         else if c = 115 then str a
         else Some [ucast a])"

fun render :: "(addr \<rightharpoonup> uint8 list) \<Rightarrow> bool \<Rightarrow> bool \<Rightarrow> uint8 list \<Rightarrow> uint64 list \<Rightarrow> uint8 list option" where
  "render str fmt long [] vl = Some []"
| "render str False long (c # cs) vl =
     (if c = 37 then render str True long cs vl else map_option ((#) c) (render str False long cs vl))"
| "render str True long (c # cs) vl =
     (if c = 108 then render str True True cs vl
      else if c \<in> {112, 120, 100, 115, 99}
      then (case vl of
              [] \<Rightarrow> None
            | a # as \<Rightarrow>
                (case arg_text str long c a of
                   None \<Rightarrow> None
                 | Some t \<Rightarrow> map_option ((@) t) (render str False False cs as)))
      else render str True long cs vl)"

section \<open>Digits\<close>

lemma nibble:
  fixes v :: uint64 assumes "i < 16"
  shows "unat (signed_drop_bit (4 * i) v AND 0xF) = unat v div 16 ^ i mod 16"
proof -
  have m: "(0xF :: uint64) = mask 4" by (simp add: mask_eq_exp_minus_1)
  have "signed_drop_bit (4 * i) v AND 0xF = drop_bit (4 * i) v AND mask 4"
    unfolding m using assms by (intro bit_eqI) (auto simp: bit_signed_drop_bit_iff bit_drop_bit_eq bit_and_iff bit_mask_iff min_def)
  also have "\<dots> = take_bit 4 (drop_bit (4 * i) v)" by (simp add: take_bit_eq_mask)
  finally have "unat (signed_drop_bit (4 * i) v AND 0xF) = unat (take_bit 4 (drop_bit (4 * i) v))" by (rule arg_cong)
  also have "\<dots> = take_bit 4 (drop_bit (4 * i) (take_bit 64 (unat v)))" by (simp add: unsigned_take_bit_eq unsigned_drop_bit_eq)
  also have "take_bit 64 (unat v) = unat v" using unsigned_less [of v, where ?'a = nat] by (intro take_bit_nat_eq_self) simp
  finally have "unat (signed_drop_bit (4 * i) v AND 0xF) = take_bit 4 (drop_bit (4 * i) (unat v))" .
  then show ?thesis by (simp add: take_bit_eq_mod drop_bit_eq_div power_mult)
qed

lemma hex_char_eq:
  fixes d :: uint64 assumes "unat d < 16"
  shows "(if d < 10 then 48 + ucast d else 97 + ucast d - 10) = hex_char (unat d)"
proof -
  have "(ucast d :: uint8) = of_nat (unat d)" by simp
  then show ?thesis by (auto simp: hex_char_def word_less_nat_alt)
qed

lemma dec_digits_nonempty [simp]: "dec_digits v \<noteq> []"
  by (cases "v < 10") (simp_all add: dec_digits.simps)

lemma count_digits_eq: "count_digits v k + 1 = k + length (dec_digits v)"
proof (induction v k rule: count_digits.induct)
  case (1 v k)
  show ?case
  proof (cases "v < 10")
    case True
    then show ?thesis by (simp add: dec_digits.simps count_digits.simps)
  next
    case False
    then have "v div 10 \<noteq> 0" by (simp add: div_eq_0_iff)
    then show ?thesis using 1 False by (simp add: dec_digits.simps [of v] count_digits.simps [of v])
  qed
qed

lemma dec_value: "foldl (\<lambda>r c. r * 10 + (unat c - 48)) 0 (dec_digits v) = v"
proof (induction v rule: dec_digits.induct)
  case (1 v)
  have u: "unat (48 + of_nat d :: uint8) = 48 + d" if "d < 10" for d using that by (simp add: unat_word_ariths unat_of_nat)
  show ?case using 1 u [of v] u [of "v mod 10"] by (cases "v < 10") (simp_all add: dec_digits.simps [of v])
qed

lemma dec_chars: "c \<in> set (dec_digits v) \<Longrightarrow> 48 \<le> unat c \<and> unat c \<le> 57"
proof (induction v rule: dec_digits.induct)
  case (1 v)
  have u: "unat (48 + of_nat d :: uint8) = 48 + d" if "d < 10" for d using that by (simp add: unat_word_ariths unat_of_nat)
  show ?case using 1 u [of v] u [of "v mod 10"] by (cases "v < 10") (auto simp: dec_digits.simps [of v])
qed

lemma dec_length: "v < 10 ^ k \<Longrightarrow> 0 < k \<Longrightarrow> length (dec_digits v) \<le> k"
proof (induction k arbitrary: v)
  case (Suc k)
  show ?case
  proof (cases "v < 10")
    case False
    then have "v div 10 < 10 ^ k" "0 < k" using Suc.prems(1) by (auto simp: div_less_iff_less_mult mult.commute intro: gr0I)
    then show ?thesis using Suc.IH [of "v div 10"] False by (simp add: dec_digits.simps [of v])
  qed (simp add: dec_digits.simps)
qed simp

section \<open>The buffer\<close>

text \<open>The buffer after the text \<open>bs\<close> has been written to it: the last of its \<open>n\<close> bytes is never used.\<close>

definition placed :: "mem \<Rightarrow> addr \<Rightarrow> uint64 \<Rightarrow> uint8 list \<Rightarrow> mem" where
  "placed m out n bs = (\<lambda>a. if unat (a - out) < length bs \<and> unat (a - out) + 1 < unat n then bs ! unat (a - out) else m a)"

definition printed :: "mem \<Rightarrow> addr \<Rightarrow> uint64 \<Rightarrow> uint8 list \<Rightarrow> printer \<Rightarrow> bool" where
  "printed m out n bs st \<longleftrightarrow> fm_pos st = of_nat (length bs) \<and> fm_mem st = placed m out n bs"

lemma placed_Nil [simp]: "placed m out n [] = m"
  by (simp add: placed_def fun_eq_iff)

lemma unat_len: "k < 2 ^ 64 \<Longrightarrow> unat (of_nat k :: uint64) = k"
  by (simp add: unat_of_nat)

lemma placed_snoc:
  assumes "length bs + 1 < 2 ^ 64"
  shows "placed m out n (bs @ [c]) =
    (if of_nat (length bs) + 1 < n then (placed m out n bs)(out + of_nat (length bs) := c) else placed m out n bs)"
proof
  fix a
  let ?k = "unat (a - out)" and ?l = "length bs"
  have l: "unat (of_nat ?l :: uint64) = ?l" "unat (of_nat ?l + 1 :: uint64) = ?l + 1"
    using assms unat_len [of ?l] unat_len [of "?l + 1"] by (simp_all add: add.commute)
  have eq: "a = out + of_nat ?l \<longleftrightarrow> ?k = ?l"
  proof -
    have "a = out + of_nat ?l \<longleftrightarrow> a - out = of_nat ?l" by (auto simp: algebra_simps)
    then show ?thesis using l(1) by (metis word_unat_eq_iff)
  qed
  have lt: "of_nat ?l + 1 < n \<longleftrightarrow> ?l + 1 < unat n" by (simp only: word_less_nat_alt l)
  show "placed m out n (bs @ [c]) a =
    (if of_nat ?l + 1 < n then (placed m out n bs)(out + of_nat ?l := c) else placed m out n bs) a"
    unfolding lt using eq by (auto simp: placed_def nth_append)
qed

lemma out_char_printed:
  assumes "printed m out n bs st" "length bs + 1 < 2 ^ 64"
  shows "printed m out n (bs @ [c]) (out_char out n c st)"
  using assms placed_snoc [of bs m out n c] by (auto simp: printed_def out_char_def Let_def algebra_simps)

lemma out_char_sel [simp]:
  "fm_format (out_char out n c st) = fm_format st" "fm_longarg (out_char out n c st) = fm_longarg st" "fm_args (out_char out n c st) = fm_args st"
  by (simp_all add: out_char_def Let_def)

lemma hex_loop_printed:
  assumes "printed m out n bs st" "k \<le> 16" "length bs + k < 2 ^ 64"
  shows "printed m out n (bs @ hex_digits k (unat v)) (hex_loop out n v k st)"
  using assms
proof (induction k arbitrary: bs st)
  case (Suc k)
  let ?d = "signed_drop_bit (4 * k) v AND 0xF" and ?c = "hex_char (unat v div 16 ^ k mod 16)"
  have "unat ?d = unat v div 16 ^ k mod 16" using Suc.prems(2) by (intro nibble) simp
  then have c: "(if ?d < 10 then 48 + ucast ?d else 97 + ucast ?d - 10) = ?c" using hex_char_eq [of ?d] by simp
  have "printed m out n (bs @ [?c]) (out_char out n ?c st)" using Suc.prems by (intro out_char_printed) auto
  from Suc.IH [OF this] Suc.prems have "printed m out n ((bs @ [?c]) @ hex_digits k (unat v)) (hex_loop out n v k (out_char out n ?c st))" by simp
  then show ?case unfolding hex_loop.simps Let_def c by (simp add: hex_digits_def)
qed (simp add: hex_digits_def)

lemma hex_loop_sel [simp]:
  "fm_format (hex_loop out n v k st) = fm_format st" "fm_longarg (hex_loop out n v k st) = fm_longarg st" "fm_args (hex_loop out n v k st) = fm_args st"
  by (induction k arbitrary: st) (simp_all add: Let_def)

text \<open>Text that is put at an offset, in any order of its bytes.\<close>

definition put_at :: "mem \<Rightarrow> addr \<Rightarrow> uint64 \<Rightarrow> nat \<Rightarrow> uint8 list \<Rightarrow> mem" where
  "put_at m out n p cs =
     (\<lambda>a. let k = unat (a - out) in if p \<le> k \<and> k < p + length cs \<and> k + 1 < unat n then cs ! (k - p) else m a)"

lemma placed_append: "placed m out n (bs @ cs) = put_at (placed m out n bs) out n (length bs) cs"
  by (auto simp: placed_def put_at_def Let_def nth_append fun_eq_iff)

lemma put_at_snoc:
  assumes "p + length cs + 1 < 2 ^ 64"
  shows "put_at m out n p (cs @ [c]) =
    put_at (if of_nat p + of_nat (length cs) + 1 < n then m(out + (of_nat p + of_nat (length cs)) := c) else m) out n p cs"
proof
  fix a
  let ?k = "unat (a - out)" and ?l = "p + length cs"
  have l: "unat (of_nat p + of_nat (length cs) :: uint64) = ?l" "unat (of_nat p + of_nat (length cs) + 1 :: uint64) = ?l + 1"
    using assms unat_len [of ?l] unat_len [of "?l + 1"] by (simp_all add: add.commute add.left_commute)
  have eq: "a = out + (of_nat p + of_nat (length cs)) \<longleftrightarrow> ?k = ?l"
  proof -
    have "a = out + (of_nat p + of_nat (length cs)) \<longleftrightarrow> a - out = of_nat p + of_nat (length cs)" by (auto simp: algebra_simps)
    then show ?thesis using l(1) by (metis word_unat_eq_iff)
  qed
  have lt: "of_nat p + of_nat (length cs) + 1 < n \<longleftrightarrow> ?l + 1 < unat n" by (simp only: word_less_nat_alt l)
  show "put_at m out n p (cs @ [c]) a =
    put_at (if of_nat p + of_nat (length cs) + 1 < n then m(out + (of_nat p + of_nat (length cs)) := c) else m) out n p cs a"
    unfolding lt using eq by (auto simp: put_at_def Let_def nth_append)
qed

lemma put_at_Nil [simp]: "put_at m out n p [] = m"
  by (auto simp: put_at_def Let_def fun_eq_iff)

lemma dec_loop_put:
  "p + length (dec_digits v) < 2 ^ 64 \<Longrightarrow>
   dec_loop out n (of_nat p) (length (dec_digits v)) v m = put_at m out n p (dec_digits v)"
proof (induction v arbitrary: m rule: dec_digits.induct)
  case (1 v)
  show ?case
  proof (cases "v < 10")
    case True
    then show ?thesis using "1.prems" put_at_snoc [of p "[]" m out n "48 + of_nat v"] by (simp add: dec_digits.simps [of v] fun_upd_def)
  next
    case False
    let ?ds = "dec_digits (v div 10)" and ?c = "48 + of_nat (v mod 10) :: uint8"
    have d: "dec_digits v = ?ds @ [?c]" using False by (simp add: dec_digits.simps [of v])
    have l: "p + length ?ds + 1 < 2 ^ 64" using "1.prems" by (simp add: d)
    have "dec_loop out n (of_nat p) (length (dec_digits v)) v m =
      dec_loop out n (of_nat p) (length ?ds) (v div 10)
        (if of_nat p + of_nat (length ?ds) + 1 < n then m(out + (of_nat p + of_nat (length ?ds)) := ?c) else m)"
      by (simp add: d)
    also have "\<dots> = put_at m out n p (?ds @ [?c])" unfolding put_at_snoc [OF l] using "1.IH" False l by simp
    finally show ?thesis by (simp only: d)
  qed
qed

section \<open>The loop over the format\<close>

definition outside :: "addr \<Rightarrow> uint64 \<Rightarrow> addr \<Rightarrow> nat \<Rightarrow> bool" where
  "outside out n s l \<longleftrightarrow> (\<forall>j \<le> l. n \<le> s + of_nat j - out)"

lemma placed_outside: "n \<le> a - out \<Longrightarrow> placed m out n bs a = m a"
  by (auto simp: placed_def word_le_nat_alt)

lemma outside_Suc: "outside out n s (Suc l) \<Longrightarrow> n \<le> s - out \<and> outside out n (s + 1) l"
proof -
  assume a: "outside out n s (Suc l)"
  have "n \<le> s + 1 + of_nat j - out" if "j \<le> l" for j
    using a [unfolded outside_def, rule_format, of "Suc j"] that by (simp add: algebra_simps)
  then show ?thesis using a [unfolded outside_def, rule_format, of 0] by (simp add: outside_def)
qed

lemma outside_0: "outside out n s 0 \<longleftrightarrow> n \<le> s - out"
  by (simp add: outside_def)

lemma str_loop_printed:
  "printed m out n bs st \<Longrightarrow> cstr m a ys \<Longrightarrow> outside out n a (length ys) \<Longrightarrow> length bs + length ys < 2 ^ 64 \<Longrightarrow>
   \<exists>st'. str_loop out n a st = Some st' \<and> printed m out n (bs @ ys) st' \<and> fm_format st' = fm_format st \<and>
     fm_longarg st' = fm_longarg st \<and> fm_args st' = fm_args st"
proof (induction ys arbitrary: bs st a)
  case Nil
  then have "fm_mem st a = 0" using placed_outside [of n a out m bs] by (simp add: printed_def outside_0)
  then show ?case using Nil by (simp add: str_loop.simps)
next
  case (Cons y ys)
  have o: "n \<le> a - out" "outside out n (a + 1) (length ys)" using outside_Suc [of out n a "length ys"] Cons.prems(3) by simp_all
  have y: "fm_mem st a = y" "y \<noteq> 0" "cstr m (a + 1) ys" using Cons.prems(1,2) placed_outside [OF o(1), of m bs] by (auto simp: printed_def)
  have "printed m out n (bs @ [y]) (out_char out n y st)" using Cons.prems by (intro out_char_printed) auto
  from Cons.IH [OF this y(3) o(2)] Cons.prems(4) show ?case using y by (subst str_loop.simps) simp
qed


lemma end_directive_sel [simp]:
  "fm_format (end_directive st) = False" "fm_longarg (end_directive st) = False" "fm_args (end_directive st) = fm_args st"
  "printed m out n bs (end_directive st) = printed m out n bs st"
  by (simp_all add: end_directive_def printed_def)

lemma print_hex_printed:
  assumes p: "printed m out n bs st" and a: "fm_args st = a # as" and l: "length bs + 16 < 2 ^ 64"
  shows "\<exists>st'. print_hex out n st = Inr st' \<and>
    printed m out n (bs @ hex_digits (if fm_longarg st then 16 else 8) (unat (if fm_longarg st then a else scast (ucast a :: uint32)))) st' \<and>
    \<not> fm_format st' \<and> \<not> fm_longarg st' \<and> fm_args st' = as"
proof -
  let ?st = "st\<lparr>fm_args := as\<rparr>" and ?k = "if fm_longarg st then 16 else 8"
  let ?v = "if fm_longarg st then a else scast (ucast a :: uint32)"
  have "printed m out n bs ?st" using p by (simp add: printed_def)
  then have "printed m out n (bs @ hex_digits ?k (unat ?v)) (hex_loop out n ?v ?k ?st)"
    by (rule hex_loop_printed) (use l in auto)
  then show ?thesis using a by (simp add: print_hex_def next_num_def next_arg_def split: if_splits)
qed

lemma sint_cases: "sint v = (if sint v < 0 then - int (unat (- v)) else int (unat v))" for v :: uint64
proof -
  have "sint v = signed_take_bit 63 (uint v)" by (simp add: sint_uint)
  also have "\<dots> = take_bit 64 (uint v) - 2 ^ 64 * of_bool (bit (uint v) 63)" by (simp add: signed_take_bit_eq_take_bit_minus)
  also have "take_bit 64 (uint v) = uint v" using uint_bounded [of v] by (intro take_bit_int_eq_self) simp_all
  finally have s: "sint v = (if bit (uint v) 63 then uint v - 2 ^ 64 else uint v)" by simp
  have u: "0 \<le> uint v" "uint v < 2 ^ 64" using uint_bounded [of v] by simp_all
  have m: "uint (- v) = (- uint v) mod 2 ^ 64" by (simp add: uint_word_ariths)
  show ?thesis
  proof (cases "sint v < 0")
    case True
    then have "bit (uint v) 63" "uint v \<noteq> 0" using s u by (auto split: if_splits)
    then have "(- uint v) mod 2 ^ 64 = 2 ^ 64 - uint v" using u by (simp add: zmod_zminus1_eq_if)
    then have "int (unat (- v)) = 2 ^ 64 - uint v" using m by (simp only: uint_nat [symmetric])
    moreover have "sint v = uint v - 2 ^ 64" using s \<open>bit (uint v) 63\<close> by (simp only: if_True)
    ultimately have "sint v = - int (unat (- v))" by linarith
    then show ?thesis unfolding if_P [OF True] .
  next
    case False
    then have "\<not> bit (uint v) 63" using s u by auto
    then have "sint v = int (unat v)" using s by (simp only: if_False uint_nat [symmetric])
    then show ?thesis unfolding if_not_P [OF False] .
  qed
qed

lemma dec_text: "dec_number (sint v) = (if sint v < 0 then 45 # dec_digits (unat (- v)) else dec_digits (unat v))" for v :: uint64
proof (cases "sint v < 0")
  case True
  then have "nat (- sint v) = unat (- v)" using sint_cases [of v] unfolding if_P [OF True] by linarith
  then show ?thesis using True by (simp add: dec_number_def)
next
  case False
  then have "nat (sint v) = unat v" using sint_cases [of v] unfolding if_not_P [OF False] by linarith
  then show ?thesis using False by (simp add: dec_number_def)
qed

lemma dec_loop_printed:
  assumes p: "printed m out n bs st" and l: "length bs + length (dec_digits v) < 2 ^ 64"
  shows "printed m out n (bs @ dec_digits v)
    (st\<lparr>fm_mem := dec_loop out n (fm_pos st) (count_digits v 1) v (fm_mem st), fm_pos := fm_pos st + of_nat (count_digits v 1)\<rparr>)"
proof -
  have c: "count_digits v 1 = length (dec_digits v)" using count_digits_eq [of v 1] by simp
  show ?thesis
    using p dec_loop_put [OF l, of out n "fm_mem st"] unfolding c by (simp add: printed_def placed_append)
qed

lemma print_dec_printed:
  assumes p: "printed m out n bs st" and a: "fm_args st = a # as" and v: "v = (if fm_longarg st then a else scast (ucast a :: uint32))"
    and o: "v \<noteq> 0x8000000000000000" and l: "length bs + length (dec_number (sint v)) < 2 ^ 64"
  shows "\<exists>st'. print_dec out n st = Inr st' \<and> printed m out n (bs @ dec_number (sint v)) st' \<and> \<not> fm_format st' \<and> \<not> fm_longarg st' \<and> fm_args st' = as"
proof -
  let ?st = "st\<lparr>fm_args := as\<rparr>"
  have n: "next_num st = Inr (v, ?st)" using a v by (simp add: next_num_def next_arg_def)
  have p1: "printed m out n bs ?st" using p by (simp add: printed_def)
  show ?thesis
  proof (cases "sint v < 0")
    case True
    have d: "dec_number (sint v) = 45 # dec_digits (unat (- v))" using True by (simp add: dec_text)
    have "printed m out n (bs @ [45]) (out_char out n 45 ?st)" using p1 l d by (intro out_char_printed) auto
    from dec_loop_printed [OF this, of "unat (- v)"] l d
    have "printed m out n (bs @ dec_number (sint v)) ((out_char out n 45 ?st)\<lparr>
        fm_mem := dec_loop out n (fm_pos (out_char out n 45 ?st)) (count_digits (unat (- v)) 1) (unat (- v)) (fm_mem (out_char out n 45 ?st)),
        fm_pos := fm_pos (out_char out n 45 ?st) + of_nat (count_digits (unat (- v)) 1)\<rparr>)" by simp
    then show ?thesis using n o True by (simp add: print_dec_def Let_def)
  next
    case False
    have d: "dec_number (sint v) = dec_digits (unat v)" using False by (simp add: dec_text)
    have "printed m out n (bs @ dec_number (sint v)) (?st\<lparr>
        fm_mem := dec_loop out n (fm_pos ?st) (count_digits (unat v) 1) (unat v) (fm_mem ?st),
        fm_pos := fm_pos ?st + of_nat (count_digits (unat v) 1)\<rparr>)"
      unfolding d using l d by (intro dec_loop_printed p1) simp
    then show ?thesis using n o False by (simp add: print_dec_def Let_def)
  qed
qed

lemma length_hex_digits [simp]: "length (hex_digits k v) = k"
  by (simp add: hex_digits_def)

lemma directive_printed:
  assumes p: "printed m out n bs st" and a: "fm_args st = a # as" and c: "c \<in> {112, 120, 100, 115, 99}"
    and t: "arg_text str (fm_longarg st) c a = Some t" and l: "length bs + length t + 16 < 2 ^ 64"
    and str: "\<And>ys. str a = Some ys \<Longrightarrow> cstr m a ys \<and> outside out n a (length ys)"
    and room: "c = 99 \<Longrightarrow> length bs + length t < unat n"
  shows "\<exists>st'. directive out n c st = Inr st' \<and> printed m out n (bs @ t) st' \<and> \<not> fm_format st' \<and> \<not> fm_longarg st' \<and> fm_args st' = as"
proof -
  consider "c = 112" | "c = 120" | "c = 100" | "c = 115" | "c = 99" using c by auto
  then show ?thesis
  proof cases
    case 1
    let ?st = "out_char out n 120 (out_char out n 48 (st\<lparr>fm_longarg := True\<rparr>))"
    have "printed m out n bs (st\<lparr>fm_longarg := True\<rparr>)" using p by (simp add: printed_def)
    then have "printed m out n ((bs @ [48]) @ [120]) ?st" using l by (intro out_char_printed) auto
    from print_hex_printed [OF this, of a as] a l 1 t show ?thesis by (auto simp: directive_def arg_text_def)
  next
    case 2
    then show ?thesis using print_hex_printed [OF p a] l t by (auto simp: directive_def arg_text_def Let_def)
  next
    case 3
    then show ?thesis using print_dec_printed [OF p a refl] l t by (auto simp: directive_def arg_text_def Let_def split: if_splits)
  next
    case 4
    then have "str a = Some t" using t by (simp add: arg_text_def Let_def)
    then have y: "cstr m a t" "outside out n a (length t)" using str by auto
    have "printed m out n bs (st\<lparr>fm_args := as\<rparr>)" using p by (simp add: printed_def)
    from str_loop_printed [OF this y] l 4 a show ?thesis by (auto simp: directive_def next_arg_def)
  next
    case 5
    have "printed m out n bs (st\<lparr>fm_args := as\<rparr>)" using p by (simp add: printed_def)
    moreover have "fm_pos st + 1 < n"
    proof -
      have "length t = 1" using t 5 by (auto simp: arg_text_def Let_def)
      then have "length bs + 1 < unat n" using room 5 by simp
      moreover have "unat (of_nat (length bs + 1) :: uint64) = length bs + 1" using l by (intro unat_len) simp
      ultimately show ?thesis using p by (simp add: printed_def word_less_nat_alt add.commute)
    qed
    ultimately show ?thesis using out_char_printed [of m out n bs "st\<lparr>fm_args := as\<rparr>" "ucast a"] l 5 a t
      by (auto simp: directive_def next_arg_def arg_text_def Let_def)
  qed
qed

lemma format_loop_printed:
  assumes str: "\<And>a ys. str a = Some ys \<Longrightarrow> cstr m a ys \<and> outside out n a (length ys)"
  shows "printed m out n bs st \<Longrightarrow> cstr m s cs \<Longrightarrow> outside out n s (length cs) \<Longrightarrow>
    render str (fm_format st) (fm_longarg st) cs (fm_args st) = Some t \<Longrightarrow> length bs + length t + 16 < 2 ^ 64 \<Longrightarrow>
    length bs + length t < unat n \<or> 99 \<notin> set cs \<Longrightarrow>
    \<exists>st'. format_loop out n s st = Some (Inr st') \<and> printed m out n (bs @ t) st'"
proof (induction cs arbitrary: s st bs t)
  case Nil
  then have "fm_mem st s = 0" using placed_outside [of n s out m bs] by (simp add: printed_def outside_0)
  then show ?case using Nil by (simp add: format_loop.simps)
next
  case (Cons c cs)
  have o: "n \<le> s - out" "outside out n (s + 1) (length cs)" using outside_Suc [of out n s "length cs"] Cons.prems(3) by simp_all
  have c: "fm_mem st s = c" "c \<noteq> 0" "cstr m (s + 1) cs" using Cons.prems(1,2) placed_outside [OF o(1), of m bs] by (auto simp: printed_def)
  have step: "\<exists>st'. format_loop out n s st = Some (Inr st') \<and> printed m out n (bs @ t) st'"
    if r: "(if fm_format st then directive out n c st else if c = 37 then Inr (st\<lparr>fm_format := True\<rparr>) else Inr (out_char out n c st)) = Inr st1"
      and p: "printed m out n (bs @ t1) st1" and t: "t = t1 @ t2"
      and rn: "render str (fm_format st1) (fm_longarg st1) cs (fm_args st1) = Some t2" for st1 t1 t2
  proof -
    have "length (bs @ t1) + length t2 + 16 < 2 ^ 64" "length (bs @ t1) + length t2 < unat n \<or> 99 \<notin> set cs"
      using Cons.prems(5,6) t by auto
    from Cons.IH [OF p c(3) o(2) rn this] show ?thesis using t c r by (subst format_loop.simps) simp
  qed
  show ?case
  proof (cases "fm_format st")
    case False
    show ?thesis
    proof (cases "c = 37")
      case True
      then show ?thesis using False Cons.prems(1,4) by (intro step [of "st\<lparr>fm_format := True\<rparr>" "[]" t]) (auto simp: printed_def)
    next
      case c37: False
      then obtain t2 where t: "t = c # t2" "render str False (fm_longarg st) cs (fm_args st) = Some t2" using False Cons.prems(4) by auto
      have "printed m out n (bs @ [c]) (out_char out n c st)" using Cons.prems(1,5) t(1) by (intro out_char_printed) auto
      then show ?thesis using t False c37 by (intro step [of "out_char out n c st" "[c]" t2]) auto
    qed
  next
    case True
    show ?thesis
    proof (cases "c \<in> {112, 120, 100, 115, 99}")
      case False
      show ?thesis
      proof (cases "c = 108")
        case c108: True
        then show ?thesis using True Cons.prems(1,4)
          by (intro step [of "st\<lparr>fm_longarg := True\<rparr>" "[]" t]) (auto simp: printed_def directive_def)
      next
        case c108: False
        then show ?thesis using True False Cons.prems(1,4) by (intro step [of st "[]" t]) (auto simp: directive_def)
      qed
    next
      case letter: True
      then have "c \<noteq> 108" by auto
      then obtain a as t1 t2 where t: "fm_args st = a # as" "arg_text str (fm_longarg st) c a = Some t1"
        "render str False False cs as = Some t2" "t = t1 @ t2"
        using letter True Cons.prems(4) by (auto split: list.splits option.splits if_splits)
      have "length bs + length t1 + 16 < 2 ^ 64" using Cons.prems(5) t(4) by simp
      moreover have "length bs + length t1 < unat n" if "c = 99" using Cons.prems(6) that t(4) by auto
      ultimately
      obtain st1 where "directive out n c st = Inr st1" "printed m out n (bs @ t1) st1" "\<not> fm_format st1" "\<not> fm_longarg st1" "fm_args st1 = as"
        using directive_printed [OF Cons.prems(1) t(1) letter t(2) _ str] by blast
      then show ?thesis using t True by (intro step [of st1 t1 t2]) auto
    qed
  qed
qed

section \<open>The result\<close>

lemma ucast_of_nat32: "(ucast (of_nat k :: uint64) :: uint32) = of_nat k"
  by transfer simp

lemma vsnprintf_ok:
  assumes str: "\<And>a ys. str a = Some ys \<Longrightarrow> cstr m a ys \<and> outside out n a (length ys)"
    and s: "cstr m s cs" "outside out n s (length cs)" and r: "render str False False cs vl = Some t" and l: "length t + 16 < 2 ^ 64"
    and room: "length t < unat n \<or> 99 \<notin> set cs"
  defines "k \<equiv> min (length t) (unat n - 1)"
  shows "\<exists>m'. vsnprintf out n s vl m = Inr (of_nat (length t), m') \<and>
    (0 < n \<longrightarrow> (\<forall>i < k. m' (out + of_nat i) = t ! i) \<and> m' (out + of_nat k) = 0) \<and> (\<forall>a. n \<le> a - out \<longrightarrow> m' a = m a)"
proof -
  let ?st = "\<lparr>fm_mem = m, fm_pos = 0, fm_format = False, fm_longarg = False, fm_args = vl\<rparr>"
  have p0: "printed m out n [] ?st" by (simp add: printed_def)
  obtain st where st: "format_loop out n s ?st = Some (Inr st)" "fm_pos st = of_nat (length t)" "fm_mem st = placed m out n t"
    using format_loop_printed [OF str p0 s, where t = t] r l room by (auto simp: printed_def)
  have ul: "unat (of_nat (length t) :: uint64) = length t" using l by (intro unat_len) simp
  let ?m = "placed m out n t"
  let ?m' = "if of_nat (length t) < n then ?m(out + of_nat (length t) := 0) else if n \<noteq> 0 then ?m(out + (n - 1) := 0) else ?m"
  have v: "vsnprintf out n s vl m = Inr (of_nat (length t), ?m')"
    using st by (simp add: vsnprintf_def Let_def ucast_of_nat32)
  have lt: "of_nat (length t) < n \<longleftrightarrow> length t < unat n" by (simp only: word_less_nat_alt ul)
  have m': "?m' = (if n = 0 then m else ?m(out + of_nat k := 0))"
  proof (cases "n = 0")
    case False
    have "unat n \<noteq> 0" using False by (simp add: unat_eq_0)
    then have "(of_nat (unat n - 1) :: uint64) = n - 1" by (simp add: of_nat_diff)
    then have "of_nat k = (if length t < unat n then of_nat (length t) else n - 1 :: uint64)" using \<open>unat n \<noteq> 0\<close> by (auto simp: k_def min_def)
    then show ?thesis using False by (simp add: lt)
  qed (simp add: placed_def fun_eq_iff)
  have kl: "k < 2 ^ 64" using l by (simp add: k_def)
  have "?m' (out + of_nat i) = t ! i" if "i < k" "0 < n" for i
  proof -
    have "unat (of_nat i :: uint64) = i" using that kl by (intro unat_len) simp
    moreover have "(of_nat i :: uint64) \<noteq> of_nat k" using that(1) kl unat_len [of i] unat_len [of k] by (metis less_irrefl less_trans)
    ultimately show ?thesis unfolding m' using that by (auto simp: placed_def k_def)
  qed
  moreover have "?m' (out + of_nat k) = 0" if "0 < n" using that unfolding m' by auto
  moreover have "?m' a = m a" if "n \<le> a - out" for a
  proof (cases "n = 0")
    case False
    have "unat n \<noteq> 0" using False by (simp add: unat_eq_0)
    then have "k < unat n" by (auto simp: k_def min_def)
    then have "a \<noteq> out + of_nat k" using that unat_len [OF kl] by (auto simp: word_le_nat_alt)
    then show ?thesis unfolding m' using False placed_outside [OF that] by simp
  qed (simp add: placed_def)
  ultimately show ?thesis using v by (intro exI [of _ ?m']) blast
qed

lemma cstr_of_bytes:
  "(\<And>i. i < length xs \<Longrightarrow> m (a + of_nat i) = xs ! i) \<Longrightarrow> m (a + of_nat (length xs)) = 0 \<Longrightarrow> 0 \<notin> set xs \<Longrightarrow> cstr m a xs"
proof (induction xs arbitrary: a)
  case (Cons x xs)
  have "m (a + 1 + of_nat i) = xs ! i" if "i < length xs" for i using Cons.prems(1) [of "Suc i"] that by (simp add: algebra_simps)
  moreover have "m a = x" using Cons.prems(1) [of 0] by simp
  ultimately show ?case using Cons by (simp add: algebra_simps)
qed simp

section \<open>Properties\<close>


definition ex_format :: mem where
  "ex_format = (\<lambda>_. 0)(100 := 37, 101 := 108, 102 := 100, 200 := 120, 201 := 61, 202 := 37, 203 := 115)"

lemma all_le_3: "(\<forall>j \<le> 3. P j) \<longleftrightarrow> P 0 \<and> P 1 \<and> P 2 \<and> P (3 :: nat)"
  by (auto simp: numeral_eq_Suc le_Suc_eq)

lemma all_le_4: "(\<forall>j \<le> 4. P j) \<longleftrightarrow> P 0 \<and> P 1 \<and> P 2 \<and> P 3 \<and> P (4 :: nat)"
  by (auto simp: numeral_eq_Suc le_Suc_eq)

lemma ex_outside: "outside 1000 8 100 3" "outside 1000 8 200 4"
  by (simp_all add: outside_def all_le_3 all_le_4)

lemma ex_cstr: "cstr ex_format 100 [37, 108, 100]" "cstr ex_format 200 [120, 61, 37, 115]"
  by (simp_all add: ex_format_def)


text \<open>
  C14. A number that is printed with \<^verbatim>\<open>%ld\<close> into a buffer that is large enough is read back by \<^verbatim>\<open>atol\<close>. The smallest number, whose negation
  overflows, is excluded.
\<close>

theorem print_number_roundtrip:
  assumes s: "cstr m s [37, 108, 100]" "outside out n s 3" and v: "v \<noteq> 0x8000000000000000" and n: "length (dec_number (sint v)) < unat n"
  shows "\<exists>r m'. vsnprintf out n s [v] m = Inr (r, m') \<and> atol m' out = Some v"
proof -
  let ?t = "dec_number (sint v)"
  have rn: "render (\<lambda>_. None) False False [37, 108, 100] [v] = Some ?t" using v by (simp add: arg_text_def)
  have d: "length (dec_digits (unat w)) \<le> 20" for w :: uint64
    using unsigned_less [of w, where ?'a = nat] by (intro dec_length) simp_all
  have len: "length ?t + 16 < 2 ^ 64" using d [of v] d [of "- v"] by (auto simp: dec_text)
  have st: "cstr m a ys \<and> outside out n a (length ys)" if "(\<lambda>_. None) a = Some ys" for a ys using that by simp
  have "length [37, 108, 100 :: uint8] = 3" by simp
  then have o: "outside out n s (length [37, 108, 100 :: uint8])" using s(2) by (simp only:)
  obtain m' where m': "vsnprintf out n s [v] m = Inr (of_nat (length ?t), m')"
    "0 < n \<longrightarrow> (\<forall>i < min (length ?t) (unat n - 1). m' (out + of_nat i) = ?t ! i) \<and> m' (out + of_nat (min (length ?t) (unat n - 1))) = 0"
    using vsnprintf_ok [OF st s(1) o rn len] n by blast
  have "0 < n" using n by (simp add: word_less_nat_alt)
  moreover have "min (length ?t) (unat n - 1) = length ?t" using n by simp
  ultimately have bt: "\<forall>i < length ?t. m' (out + of_nat i) = ?t ! i" "m' (out + of_nat (length ?t)) = 0" using m'(2) by simp_all
  have ch: "48 \<le> c \<and> c \<le> 57" if "c \<in> set (dec_digits k)" for c k using dec_chars [OF that] by (simp add: word_le_nat_alt)
  have "0 \<notin> set (dec_digits k)" for k using ch [of 0 k] by (cases "0 \<in> set (dec_digits k)") simp_all
  then have nz: "0 \<notin> set ?t" by (simp add: dec_number_def)
  have cs: "cstr m' out ?t" using bt nz by (intro cstr_of_bytes) auto
  have dg: "atol_digits m' a 0 = Some (of_nat k)" if "cstr m' a (dec_digits k)" for a k
    using atol_digits_cstr [OF that, of 0] ch dec_value [of k] by (simp add: list_all_iff)
  have "atol m' out = Some v"
  proof (cases "sint v < 0")
    case True
    have t: "?t = 45 # dec_digits (unat (- v))" using True by (simp add: dec_text)
    then have c: "m' out = 45" "cstr m' (out + 1) (dec_digits (unat (- v)))" using cs by simp_all
    have "atol_spaces m' out = Some out" using c(1) by (simp add: atol_spaces.simps)
    then show ?thesis using c dg [OF c(2)] by (simp add: atol_def)
  next
    case False
    have t: "?t = dec_digits (unat v)" using False by (simp add: dec_text)
    obtain x xs where x: "dec_digits (unat v) = x # xs" by (cases "dec_digits (unat v)") auto
    have "m' out = x" using cs unfolding t x by simp
    moreover have "48 \<le> x" using ch [of x "unat v"] x by simp
    then have "x \<noteq> 32" "x \<noteq> 45" "x \<noteq> 43" by auto
    ultimately show ?thesis using dg [OF cs [unfolded t]] by (simp add: atol_def atol_spaces.simps)
  qed
  then show ?thesis using m'(1) by blast
qed

theorem print_number_roundtrip_witness: "\<exists>r m'. vsnprintf 1000 8 100 [- 42] ex_format = Inr (r, m') \<and> atol m' 1000 = Some (- 42)"
proof -
  have "sint (- 42 :: uint64) = - 42" by simp
  then have "dec_number (sint (- 42 :: uint64)) = [45, 52, 50]" by (simp add: dec_number_def dec_digits.simps)
  then show ?thesis using print_number_roundtrip [OF ex_cstr(1) ex_outside(1), of "- 42"] by simp
qed

end
