(* ===== verification/Spec2Isabelle.thy ===== *)
theory Spec2Isabelle
  imports Cstring Spinlock Pmm Vmm Symbol Vfs_Objects Ramdev Rfs Rfs_Unlink Vfs_Paths File_Calls Semaphores Debug_Line Malloc_Large Snprintf
begin

text \<open>
  \<^bold>\<open>A verification development for the RISC-V proxy kernel of this repository.\<close>

  The program is a small kernel that runs on a RISC-V emulator. It has a physical page allocator and Sv39 page tables, processes with a
  round-robin scheduler, semaphores, fork and wait, a heap for user programs, a virtual file system with a RAM disk
  file system and a file system on the host, descriptors and a working directory for each process, and tables for
  backtraces and source lines. Its parts are C files under \<^verbatim>\<open>kernel/\<close>, \<^verbatim>\<open>util/\<close> and
  \<^verbatim>\<open>spike_interface/\<close>; the trap vectors and the register save code are assembly.

  \<^bold>\<open>Conventions.\<close> Definitions carry the names of the C functions. Fallible code returns \<^verbatim>\<open>kerror + 'a\<close>
  (type \<^verbatim>\<open>res\<close> of Prelude): a panic, a failed assertion, a fault and undefined behaviour of C are values of the left summand, so that a theorem
  about a right result says that none of them happens. Integers are words of the width the source
  gives them, or \<open>int\<close> where the source's \<open>int\<close> cannot overflow. Memory is a function from 64-bit addresses to bytes (Cmem, Pmm, Vmm, Process,
  Malloc); file system objects live in typed stores indexed by their addresses (Fs_Types). A loop over a pointer chain is a
  \<^verbatim>\<open>partial_function (option)\<close>: not returning is \<open>None\<close>, \<open>of_loop\<close> makes it an error, and every theorem states that the
  result is there. No definition takes fuel; loops with a counter are recursive functions with a
  termination proof.

  \<^bold>\<open>Theories, bottom up.\<close>
  \<^item> Prelude: results, arrays, words, bytes in memory. Riscv: layout constants and page table macros (\<^verbatim>\<open>kernel/riscv.h\<close>,
    \<^verbatim>\<open>kernel/memlayout.h\<close>).
  \<^item> Cmem, Cstring: \<^verbatim>\<open>util/string.c\<close>. The word loops of \<^verbatim>\<open>memcpy\<close> and \<^verbatim>\<open>memset\<close> equal the byte loops,
    \<^verbatim>\<open>memmove\<close> is right on overlapping ranges, \<^verbatim>\<open>strcmp\<close> is the lexicographic order, \<^verbatim>\<open>strtok\<close> returns the tokens.
  \<^item> Spinlock: \<^verbatim>\<open>spike_interface/atomic.h\<close> and \<^verbatim>\<open>kernel/sync_utils.h\<close>, once as functions and once as an interleaving of the single loads and stores of several harts.
  \<^item> Pmm, Pool: \<^verbatim>\<open>kernel/pmm.c\<close>. The free list is in memory, the reference table an array; the invariant \<^verbatim>\<open>pmm_inv\<close> ties both. Pool
    is the specification that the other parts use: a stack of pages.
  \<^item> Vmm: \<^verbatim>\<open>kernel/vmm.c\<close>. Walks, mapping and unmapping over tables in memory; \<^verbatim>\<open>pt_wf\<close> says that the tables are a tree of allocated pages.
  \<^item> Symbol: \<^verbatim>\<open>kernel/symbol.c\<close>. Debug_Line: the line number program of \<^verbatim>\<open>kernel/elf.c\<close>.
  \<^item> Hash_Table: \<^verbatim>\<open>util/hash_table.c\<close> in a locale that is interpreted for both caches of Vfs_Objects.
  \<^item> Fs_Types, Vfs_Objects, Ramdev, Rfs, Rfs_Files, Rfs_Dirs, Rfs_Unlink: the objects of \<^verbatim>\<open>kernel/vfs.h\<close> and the RAM disk (\<^verbatim>\<open>kernel/ramdev.c\<close>,
    \<^verbatim>\<open>kernel/rfs.c\<close>). A file is a list of blocks with the bytes \<^verbatim>\<open>file_byte\<close>; a directory is the list of entries \<^verbatim>\<open>dir_list\<close>.
  \<^item> Spike_File, Hostfs: \<^verbatim>\<open>spike_interface/spike_file.c\<close> and \<^verbatim>\<open>kernel/hostfs.c\<close>. The host is the parameter record \<^verbatim>\<open>frontend\<close>.
  \<^item> Vfs, Vfs_Paths, Proc_File, File_Calls: \<^verbatim>\<open>kernel/vfs.c\<close> and \<^verbatim>\<open>kernel/proc_file.c\<close>.
  \<^item> Context: the trap vectors, \<^verbatim>\<open>util/load_store.S\<close> and \<^verbatim>\<open>switch_to\<close>, over the registers of a hart.
  \<^item> Sched, Semaphores: \<^verbatim>\<open>kernel/sched.c\<close>, the process table of \<^verbatim>\<open>kernel/process.c\<close>, and the timer path of \<^verbatim>\<open>kernel/strap.c\<close>. The record \<^verbatim>\<open>kern\<close> is
    the state: memory, harts, the process table, the queues and the semaphores.
  \<^item> Process, User_Pages, Heap_Pages, Fork: address spaces, page faults, heap pages and the heap of a child.
  \<^item> Malloc, Malloc_Blocks, Malloc_Spec, Malloc_Large: the block allocator of \<^verbatim>\<open>kernel/process.c\<close> and the abstract first-fit heap it implements.

  \<^bold>\<open>What the properties show.\<close> Memory: the allocator hands out every page once (\<^verbatim>\<open>pmm_init_correct\<close>, \<^verbatim>\<open>pmm_refines_pool\<close>); a mapping changes
  exactly the pages of its range (\<^verbatim>\<open>map_pages_correct\<close>, \<^verbatim>\<open>kern_vm_init_correct\<close>, \<^verbatim>\<open>user_map_translate\<close>); heap pages and heap blocks of a process never overlap
  (\<^verbatim>\<open>heap_pages_safe\<close>, \<^verbatim>\<open>malloc_refines\<close>). Processes: traps keep the registers but one, every ready process runs, semaphores count. Files: what is written is read
  back through the whole stack, directories are finite maps, path lookup is resolution in the map of entries. The properties of kind
  error state what goes wrong: each one is a proved fact about the code and is listed as a finding.

  \<^bold>\<open>Bounds.\<close> The reference table of the allocator is sorted, and so found by bisection, only while pages are taken in the order of
  \<^verbatim>\<open>booted\<close>; \<^verbatim>\<open>table_room\<close> counts its free entries. The page table lemmas bound the tables a
  range needs by \<^verbatim>\<open>range_need\<close>, three pages for one page of a process. Addresses of the heap are below \<open>MAXVA\<close>, so block sizes cannot wrap.

  \<^bold>\<open>Not modelled.\<close> The ELF loader, \<^verbatim>\<open>do_exec\<close> and \<^verbatim>\<open>do_test\<close> join the file system and the address space; the wrappers of
  \<^verbatim>\<open>kernel/syscall.c\<close> that only translate an address; output (\<^verbatim>\<open>util/snprintf.c\<close>); the host interface and the
  device tree (\<^verbatim>\<open>spike_htif.c\<close>, \<^verbatim>\<open>dts_parse.c\<close>); boot code; the user programs.
\<close>

section \<open>Files through the whole stack\<close>


lemma file_ok_vfiles [simp]: "file_ok (s\<lparr>vfiles := F\<rparr>) sb rd f = file_ok s sb rd f"
  by (simp add: file_ok_def file_blocks_def rdev_of_def fmap_def)

lemma file_byte_vfiles [simp]: "file_byte (s\<lparr>vfiles := F\<rparr>) rd f = file_byte s rd f"
  by (simp add: file_byte_def disk_def fun_eq_iff)

lemma hosted_file: "file_ok (hosted h s) sb rd f = file_ok s sb rd f"
  by (simp add: file_ok_def file_blocks_def)


definition ex_fd :: "unit proc_files" where
  "ex_fd = ex_proc\<lparr>pf_fs := (hosted ex_spike ex_fs)\<lparr>
     vfiles := (\<lambda>_. \<lparr>f_status = FD_OPENED, f_readable = 1, f_writable = 1, f_offset = 5, f_dentry = 0x1000\<rparr>)\<rparr>\<rparr>"


end
